(* ===== verification/Prelude.thy ===== *)
theory Prelude
  imports Main "HOL-Library.Word"
begin

text \<open>
  Shared material of the library: the names of the machine types that the C sources use,
  the error values, the theorem collections of the components, and the generic
  lemmas on words and lists that several components rest on.
\<close>

unbundle bit_operations_syntax

section \<open>Machine types\<close>

text \<open>
  The C code is compiled for an LP64 platform (\<open>luaconf.h\<close> computes
  \<open>LUAI_BITSINT = 32\<close> there): \<open>int\<close> and \<open>unsigned int\<close> have 32 bits,
  \<open>size_t\<close> and pointers have 64 bits. An \<open>int\<close> that the code never lets overflow is
  modelled by a HOL \<open>int\<close> or \<open>nat\<close>; unsigned values on which the code computes modulo
  a power of two are words.
\<close>

type_synonym u8 = "8 word"
type_synonym u32 = "32 word"
type_synonym u64 = "64 word"
type_synonym byte = "8 word"
type_synonym ptr = "64 word"

definition INT_MAX :: int where "INT_MAX = 2147483647"
definition INT_MIN :: int where "INT_MIN = -2147483648"

definition MAX_INT :: int where "MAX_INT = INT_MAX - 2"

section \<open>Theorem collections\<close>

named_theorems opcode_simps \<open>reading and writing instruction fields\<close>
named_theorems table_simps \<open>reading and writing table slots\<close>
named_theorems table_inv \<open>preservation of the table invariant\<close>
named_theorems codec_simps \<open>length and round trip of binary encodings\<close>

section \<open>Bit fields of words\<close>

definition bitfield :: "nat \<Rightarrow> nat \<Rightarrow> 'a::len word \<Rightarrow> 'a word" where
  "bitfield n p x = take_bit n (drop_bit p x)"

definition put_bitfield :: "nat \<Rightarrow> nat \<Rightarrow> 'a::len word \<Rightarrow> 'a word \<Rightarrow> 'a word" where
  "put_bitfield n p x v = (x AND NOT (push_bit p (mask n))) OR push_bit p (take_bit n v)"

lemma bit_bitfield: "bit (bitfield n p x) i \<longleftrightarrow> i < n \<and> bit x (p + i)"
  by (simp add: bitfield_def bit_simps)

lemma bit_put_bitfield:
  fixes x :: "'a::len word"
  shows "bit (put_bitfield n p x v) i \<longleftrightarrow>
    i < LENGTH('a) \<and> (if p \<le> i \<and> i < p + n then bit v (i - p) else bit x i)"
  by (auto simp: put_bitfield_def bit_simps dest: bit_imp_le_length)

lemma bitfield_put_same:
  fixes x :: "'a::len word"
  assumes "p + n \<le> LENGTH('a)"
  shows "bitfield n p (put_bitfield n p x v) = take_bit n v"
  by (rule bit_word_eqI) (use assms in \<open>auto simp: bit_bitfield bit_put_bitfield bit_simps\<close>)

lemma bitfield_put_other:
  fixes x :: "'a::len word"
  assumes "p + n \<le> q \<or> q + m \<le> p"
  shows "bitfield n p (put_bitfield m q x v) = bitfield n p x"
  by (rule bit_word_eqI)
    (use assms in \<open>auto simp: bit_bitfield bit_put_bitfield dest: bit_imp_le_length\<close>)

lemma uint_bitfield_less:
  fixes x :: "'a::len word"
  assumes "n < LENGTH('a)"
  shows "uint (bitfield n p x) < 2 ^ n"
  by (simp add: bitfield_def unsigned_take_bit_eq)

lemma uint_take_bit_of_int:
  "n \<le> LENGTH('a::len) \<Longrightarrow> uint (take_bit n (word_of_int v :: 'a word)) = take_bit n v"
  by (simp add: unsigned_take_bit_eq min_def uint_word_of_int_eq)

lemma unat_take_bit_of_nat:
  "n \<le> LENGTH('a::len) \<Longrightarrow> unat (take_bit n (word_of_nat v :: 'a word)) = take_bit n v"
  by (simp add: unsigned_take_bit_eq min_def unat_of_nat take_bit_eq_mod[symmetric])

lemma bitfield_or: "bitfield n p (x OR y) = bitfield n p x OR bitfield n p y"
  by (rule bit_word_eqI) (auto simp: bit_bitfield bit_simps)

lemma bitfield_push_above: "p + n \<le> q \<Longrightarrow> bitfield n p (push_bit q x) = 0"
  by (rule bit_word_eqI) (auto simp: bit_bitfield bit_simps)

lemma bitfield_push_same:
  fixes x :: "'a::len word"
  shows "p + n \<le> LENGTH('a) \<Longrightarrow> bitfield n p (push_bit p x) = take_bit n x"
  by (rule bit_word_eqI) (auto simp: bit_bitfield bit_simps)

lemma bitfield_push_below:
  fixes x :: "'a::len word"
  shows "q + m \<le> p \<Longrightarrow> take_bit m x = x \<Longrightarrow> bitfield n p (push_bit q x) = 0"
  by (rule bit_word_eqI)
    (metis (no_types, lifting) bit_bitfield bit_push_bit_iff bit_take_bit_iff bit_0_eq
      bot_apply bot_bool_def diff_add_inverse le_add_diff_inverse add_le_cancel_left
      le_trans not_le trans_le_add1)

lemma take_bit_word_of_int: "0 \<le> v \<Longrightarrow> v < 2 ^ n \<Longrightarrow> take_bit n (word_of_int v) = word_of_int v"
  by (metis of_int_take_bit take_bit_int_eq_self take_bit_word_eq_self)

lemma take_bit_word_of_nat: "v < 2 ^ n \<Longrightarrow> take_bit n (word_of_nat v) = word_of_nat v"
  by (metis of_nat_take_bit take_bit_nat_eq_self)

lemma bit_push_bitfield:
  "bit (push_bit p (bitfield m p i)) n \<longleftrightarrow> p \<le> n \<and> n < p + m \<and> bit i n"
  by (auto simp: bit_simps bit_bitfield dest: bit_imp_le_length)

lemma word_of_nat_unat: "word_of_nat (unat (x :: 'a::len word)) = x"
  by simp

lemma unat_of_nat_eq: "n < 2 ^ LENGTH('a::len) \<Longrightarrow> unat (word_of_nat n :: 'a word) = n"
  by (simp add: unat_of_nat)

end
