(* ===== verification/Opcodes.thy ===== *)
theory Opcodes
  imports Prelude
begin

text \<open>
  The virtual machine's instruction format (\<open>lopcodes.h\<close>, \<open>lopcodes.c\<close>): a 32-bit word
  with a 6-bit opcode at bit 0, an 8-bit argument A at bit 6, a 9-bit C at bit 14 and a
  9-bit B at bit 23; B and C together are the 18-bit Bx, and sBx is Bx in excess
  \<open>MAXARG_sBx\<close>. The macros of the header are definitions of the same names; the lemmas show
  that reading inverts writing, that writing one field leaves the others alone, and that the
  fields determine the instruction.
\<close>

unbundle bit_operations_syntax

type_synonym Instruction = "32 word"

datatype OpMode = iABC | iABx | iAsBx

datatype OpArgMask = OpArgN | OpArgU | OpArgR | OpArgK

section \<open>Sizes and positions\<close>

definition SIZE_C :: nat where "SIZE_C = 9"
definition SIZE_B :: nat where "SIZE_B = 9"
definition SIZE_Bx :: nat where "SIZE_Bx = SIZE_C + SIZE_B"
definition SIZE_A :: nat where "SIZE_A = 8"
definition SIZE_OP :: nat where "SIZE_OP = 6"
definition POS_OP :: nat where "POS_OP = 0"
definition POS_A :: nat where "POS_A = POS_OP + SIZE_OP"
definition POS_C :: nat where "POS_C = POS_A + SIZE_A"
definition POS_B :: nat where "POS_B = POS_C + SIZE_C"
definition POS_Bx :: nat where "POS_Bx = POS_C"

definition MAXARG_Bx :: int where "MAXARG_Bx = 2 ^ SIZE_Bx - 1"
definition MAXARG_sBx :: int where "MAXARG_sBx = MAXARG_Bx div 2"
definition MAXARG_A :: int where "MAXARG_A = 2 ^ SIZE_A - 1"
definition MAXARG_B :: int where "MAXARG_B = 2 ^ SIZE_B - 1"
definition MAXARG_C :: int where "MAXARG_C = 2 ^ SIZE_C - 1"

lemmas op_layout = SIZE_C_def SIZE_B_def SIZE_Bx_def SIZE_A_def SIZE_OP_def
  POS_OP_def POS_A_def POS_C_def POS_B_def POS_Bx_def

lemmas op_limits = MAXARG_Bx_def MAXARG_sBx_def MAXARG_A_def MAXARG_B_def MAXARG_C_def

section \<open>Masks and field access\<close>

definition MASK1 :: "nat \<Rightarrow> nat \<Rightarrow> Instruction" where
  "MASK1 n p = push_bit p (NOT (push_bit n (NOT 0)))"

definition MASK0 :: "nat \<Rightarrow> nat \<Rightarrow> Instruction" where
  "MASK0 n p = NOT (MASK1 n p)"

text \<open>
  \<open>GET_OPCODE\<close> casts to an enumeration, which in C can hold any value of the six bits; the
  model keeps the number, and \<open>opnum\<close> gives the number of each named opcode.
\<close>

definition GET_OPCODE :: "Instruction \<Rightarrow> nat" where
  "GET_OPCODE i = unat (drop_bit POS_OP i AND MASK1 SIZE_OP 0)"

definition SET_OPCODE :: "Instruction \<Rightarrow> nat \<Rightarrow> Instruction" where
  "SET_OPCODE i oc = (i AND MASK0 SIZE_OP POS_OP) OR
     (push_bit POS_OP (word_of_nat oc) AND MASK1 SIZE_OP POS_OP)"

definition GETARG_A :: "Instruction \<Rightarrow> int" where
  "GETARG_A i = uint (drop_bit POS_A i AND MASK1 SIZE_A 0)"

definition SETARG_A :: "Instruction \<Rightarrow> int \<Rightarrow> Instruction" where
  "SETARG_A i u = (i AND MASK0 SIZE_A POS_A) OR
     (push_bit POS_A (word_of_int u) AND MASK1 SIZE_A POS_A)"

definition GETARG_B :: "Instruction \<Rightarrow> int" where
  "GETARG_B i = uint (drop_bit POS_B i AND MASK1 SIZE_B 0)"

definition SETARG_B :: "Instruction \<Rightarrow> int \<Rightarrow> Instruction" where
  "SETARG_B i b = (i AND MASK0 SIZE_B POS_B) OR
     (push_bit POS_B (word_of_int b) AND MASK1 SIZE_B POS_B)"

definition GETARG_C :: "Instruction \<Rightarrow> int" where
  "GETARG_C i = uint (drop_bit POS_C i AND MASK1 SIZE_C 0)"

definition SETARG_C :: "Instruction \<Rightarrow> int \<Rightarrow> Instruction" where
  "SETARG_C i b = (i AND MASK0 SIZE_C POS_C) OR
     (push_bit POS_C (word_of_int b) AND MASK1 SIZE_C POS_C)"

definition GETARG_Bx :: "Instruction \<Rightarrow> int" where
  "GETARG_Bx i = uint (drop_bit POS_Bx i AND MASK1 SIZE_Bx 0)"

definition SETARG_Bx :: "Instruction \<Rightarrow> int \<Rightarrow> Instruction" where
  "SETARG_Bx i b = (i AND MASK0 SIZE_Bx POS_Bx) OR
     (push_bit POS_Bx (word_of_int b) AND MASK1 SIZE_Bx POS_Bx)"

definition GETARG_sBx :: "Instruction \<Rightarrow> int" where
  "GETARG_sBx i = GETARG_Bx i - MAXARG_sBx"

definition SETARG_sBx :: "Instruction \<Rightarrow> int \<Rightarrow> Instruction" where
  "SETARG_sBx i b = SETARG_Bx i (uint (word_of_int (b + MAXARG_sBx) :: u32))"

definition CREATE_ABC :: "nat \<Rightarrow> int \<Rightarrow> int \<Rightarrow> int \<Rightarrow> Instruction" where
  "CREATE_ABC oc a b c = push_bit POS_OP (word_of_nat oc) OR push_bit POS_A (word_of_int a)
     OR push_bit POS_B (word_of_int b) OR push_bit POS_C (word_of_int c)"

definition CREATE_ABx :: "nat \<Rightarrow> int \<Rightarrow> int \<Rightarrow> Instruction" where
  "CREATE_ABx oc a bc = push_bit POS_OP (word_of_nat oc) OR push_bit POS_A (word_of_int a)
     OR push_bit POS_Bx (word_of_int bc)"

section \<open>Register-or-constant operands\<close>

definition BITRK :: int where "BITRK = 2 ^ (SIZE_B - 1)"

definition ISK :: "int \<Rightarrow> bool" where "ISK x \<longleftrightarrow> x AND BITRK \<noteq> 0"

definition INDEXK :: "int \<Rightarrow> int" where "INDEXK r = r AND NOT BITRK"

definition MAXINDEXRK :: int where "MAXINDEXRK = BITRK - 1"

definition RKASK :: "int \<Rightarrow> int" where "RKASK x = x OR BITRK"

definition NO_REG :: int where "NO_REG = MAXARG_A"

section \<open>The opcodes\<close>

datatype OpCode =
    OP_MOVE | OP_LOADK | OP_LOADBOOL | OP_LOADNIL | OP_GETUPVAL | OP_GETGLOBAL
  | OP_GETTABLE | OP_SETGLOBAL | OP_SETUPVAL | OP_SETTABLE | OP_NEWTABLE | OP_SELF
  | OP_ADD | OP_SUB | OP_MUL | OP_DIV | OP_MOD | OP_POW
  | OP_UNM | OP_NOT | OP_LEN | OP_CONCAT | OP_JMP | OP_EQ
  | OP_LT | OP_LE | OP_TEST | OP_TESTSET | OP_CALL | OP_TAILCALL
  | OP_RETURN | OP_FORLOOP | OP_FORPREP | OP_TFORLOOP | OP_SETLIST | OP_CLOSE
  | OP_CLOSURE | OP_VARARG

definition all_opcodes :: "OpCode list" where
  "all_opcodes = [OP_MOVE, OP_LOADK, OP_LOADBOOL, OP_LOADNIL, OP_GETUPVAL, OP_GETGLOBAL,
     OP_GETTABLE, OP_SETGLOBAL, OP_SETUPVAL, OP_SETTABLE, OP_NEWTABLE, OP_SELF,
     OP_ADD, OP_SUB, OP_MUL, OP_DIV, OP_MOD, OP_POW,
     OP_UNM, OP_NOT, OP_LEN, OP_CONCAT, OP_JMP, OP_EQ,
     OP_LT, OP_LE, OP_TEST, OP_TESTSET, OP_CALL, OP_TAILCALL,
     OP_RETURN, OP_FORLOOP, OP_FORPREP, OP_TFORLOOP, OP_SETLIST, OP_CLOSE,
     OP_CLOSURE, OP_VARARG]"

text \<open>The number that the enumeration gives to an opcode: its place in the declaration.\<close>

fun opnum :: "OpCode \<Rightarrow> nat" where
  "opnum OP_MOVE = 0"
| "opnum OP_LOADK = 1"
| "opnum OP_LOADBOOL = 2"
| "opnum OP_LOADNIL = 3"
| "opnum OP_GETUPVAL = 4"
| "opnum OP_GETGLOBAL = 5"
| "opnum OP_GETTABLE = 6"
| "opnum OP_SETGLOBAL = 7"
| "opnum OP_SETUPVAL = 8"
| "opnum OP_SETTABLE = 9"
| "opnum OP_NEWTABLE = 10"
| "opnum OP_SELF = 11"
| "opnum OP_ADD = 12"
| "opnum OP_SUB = 13"
| "opnum OP_MUL = 14"
| "opnum OP_DIV = 15"
| "opnum OP_MOD = 16"
| "opnum OP_POW = 17"
| "opnum OP_UNM = 18"
| "opnum OP_NOT = 19"
| "opnum OP_LEN = 20"
| "opnum OP_CONCAT = 21"
| "opnum OP_JMP = 22"
| "opnum OP_EQ = 23"
| "opnum OP_LT = 24"
| "opnum OP_LE = 25"
| "opnum OP_TEST = 26"
| "opnum OP_TESTSET = 27"
| "opnum OP_CALL = 28"
| "opnum OP_TAILCALL = 29"
| "opnum OP_RETURN = 30"
| "opnum OP_FORLOOP = 31"
| "opnum OP_FORPREP = 32"
| "opnum OP_TFORLOOP = 33"
| "opnum OP_SETLIST = 34"
| "opnum OP_CLOSE = 35"
| "opnum OP_CLOSURE = 36"
| "opnum OP_VARARG = 37"

definition NUM_OPCODES :: nat where "NUM_OPCODES = opnum OP_VARARG + 1"

definition LFIELDS_PER_FLUSH :: int where "LFIELDS_PER_FLUSH = 50"

definition luaP_opnames :: "string list" where
  "luaP_opnames = [''MOVE'', ''LOADK'', ''LOADBOOL'', ''LOADNIL'', ''GETUPVAL'', ''GETGLOBAL'',
     ''GETTABLE'', ''SETGLOBAL'', ''SETUPVAL'', ''SETTABLE'', ''NEWTABLE'', ''SELF'',
     ''ADD'', ''SUB'', ''MUL'', ''DIV'', ''MOD'', ''POW'',
     ''UNM'', ''NOT'', ''LEN'', ''CONCAT'', ''JMP'', ''EQ'',
     ''LT'', ''LE'', ''TEST'', ''TESTSET'', ''CALL'', ''TAILCALL'',
     ''RETURN'', ''FORLOOP'', ''FORPREP'', ''TFORLOOP'', ''SETLIST'', ''CLOSE'',
     ''CLOSURE'', ''VARARG'']"

section \<open>The instruction properties\<close>

fun opmode_code :: "OpMode \<Rightarrow> nat" where
  "opmode_code iABC = 0"
| "opmode_code iABx = 1"
| "opmode_code iAsBx = 2"

fun argmask_code :: "OpArgMask \<Rightarrow> nat" where
  "argmask_code OpArgN = 0"
| "argmask_code OpArgU = 1"
| "argmask_code OpArgR = 2"
| "argmask_code OpArgK = 3"

definition opmode :: "nat \<Rightarrow> nat \<Rightarrow> OpArgMask \<Rightarrow> OpArgMask \<Rightarrow> OpMode \<Rightarrow> u8" where
  "opmode t a b c m = push_bit 7 (word_of_nat t) OR push_bit 6 (word_of_nat a)
     OR push_bit 4 (word_of_nat (argmask_code b)) OR push_bit 2 (word_of_nat (argmask_code c))
     OR word_of_nat (opmode_code m)"

definition luaP_opmodes :: "u8 list" where
  "luaP_opmodes =
    [opmode 0 1 OpArgR OpArgN iABC,
     opmode 0 1 OpArgK OpArgN iABx,
     opmode 0 1 OpArgU OpArgU iABC,
     opmode 0 1 OpArgR OpArgN iABC,
     opmode 0 1 OpArgU OpArgN iABC,
     opmode 0 1 OpArgK OpArgN iABx,
     opmode 0 1 OpArgR OpArgK iABC,
     opmode 0 0 OpArgK OpArgN iABx,
     opmode 0 0 OpArgU OpArgN iABC,
     opmode 0 0 OpArgK OpArgK iABC,
     opmode 0 1 OpArgU OpArgU iABC,
     opmode 0 1 OpArgR OpArgK iABC,
     opmode 0 1 OpArgK OpArgK iABC,
     opmode 0 1 OpArgK OpArgK iABC,
     opmode 0 1 OpArgK OpArgK iABC,
     opmode 0 1 OpArgK OpArgK iABC,
     opmode 0 1 OpArgK OpArgK iABC,
     opmode 0 1 OpArgK OpArgK iABC,
     opmode 0 1 OpArgR OpArgN iABC,
     opmode 0 1 OpArgR OpArgN iABC,
     opmode 0 1 OpArgR OpArgN iABC,
     opmode 0 1 OpArgR OpArgR iABC,
     opmode 0 0 OpArgR OpArgN iAsBx,
     opmode 1 0 OpArgK OpArgK iABC,
     opmode 1 0 OpArgK OpArgK iABC,
     opmode 1 0 OpArgK OpArgK iABC,
     opmode 1 1 OpArgR OpArgU iABC,
     opmode 1 1 OpArgR OpArgU iABC,
     opmode 0 1 OpArgU OpArgU iABC,
     opmode 0 1 OpArgU OpArgU iABC,
     opmode 0 0 OpArgU OpArgN iABC,
     opmode 0 1 OpArgR OpArgN iAsBx,
     opmode 0 1 OpArgR OpArgN iAsBx,
     opmode 1 0 OpArgN OpArgU iABC,
     opmode 0 0 OpArgU OpArgU iABC,
     opmode 0 0 OpArgN OpArgN iABC,
     opmode 0 1 OpArgU OpArgN iABx,
     opmode 0 1 OpArgU OpArgN iABC]"

definition getOpMode :: "nat \<Rightarrow> OpMode" where
  "getOpMode m = [iABC, iABx, iAsBx] ! unat (luaP_opmodes ! m AND 3)"

definition getBMode :: "nat \<Rightarrow> OpArgMask" where
  "getBMode m = [OpArgN, OpArgU, OpArgR, OpArgK] ! unat (drop_bit 4 (luaP_opmodes ! m) AND 3)"

definition getCMode :: "nat \<Rightarrow> OpArgMask" where
  "getCMode m = [OpArgN, OpArgU, OpArgR, OpArgK] ! unat (drop_bit 2 (luaP_opmodes ! m) AND 3)"

definition testAMode :: "nat \<Rightarrow> bool" where
  "testAMode m \<longleftrightarrow> luaP_opmodes ! m AND push_bit 6 1 \<noteq> 0"

definition testTMode :: "nat \<Rightarrow> bool" where
  "testTMode m \<longleftrightarrow> luaP_opmodes ! m AND push_bit 7 1 \<noteq> 0"

section \<open>Lemmas: fields\<close>

lemma MASK1_eq: "MASK1 n p = push_bit p (mask n)"
  by (rule bit_word_eqI) (auto simp: MASK1_def bit_simps)

lemma get_field_eq: "drop_bit p (i :: Instruction) AND MASK1 n 0 = bitfield n p i"
  by (rule bit_word_eqI) (auto simp: MASK1_eq bit_bitfield bit_simps dest: bit_imp_le_length)

lemma set_field_eq:
  "(i AND MASK0 n p) OR (push_bit p v AND MASK1 n p) = put_bitfield n p i v"
  by (rule bit_word_eqI) (auto simp: MASK0_def MASK1_eq put_bitfield_def bit_simps)

lemma op_fields:
  "GET_OPCODE i = unat (bitfield SIZE_OP POS_OP i)"
  "SET_OPCODE i oc = put_bitfield SIZE_OP POS_OP i (word_of_nat oc)"
  "GETARG_A i = uint (bitfield SIZE_A POS_A i)"
  "SETARG_A i v = put_bitfield SIZE_A POS_A i (word_of_int v)"
  "GETARG_B i = uint (bitfield SIZE_B POS_B i)"
  "SETARG_B i v = put_bitfield SIZE_B POS_B i (word_of_int v)"
  "GETARG_C i = uint (bitfield SIZE_C POS_C i)"
  "SETARG_C i v = put_bitfield SIZE_C POS_C i (word_of_int v)"
  "GETARG_Bx i = uint (bitfield SIZE_Bx POS_Bx i)"
  "SETARG_Bx i v = put_bitfield SIZE_Bx POS_Bx i (word_of_int v)"
  by (simp_all only: GET_OPCODE_def SET_OPCODE_def GETARG_A_def SETARG_A_def GETARG_B_def
      SETARG_B_def GETARG_C_def SETARG_C_def GETARG_Bx_def SETARG_Bx_def get_field_eq set_field_eq)

lemma op_get_set_same:
  "GET_OPCODE (SET_OPCODE i oc) = take_bit SIZE_OP oc"
  "GETARG_A (SETARG_A i v) = take_bit SIZE_A v"
  "GETARG_B (SETARG_B i v) = take_bit SIZE_B v"
  "GETARG_C (SETARG_C i v) = take_bit SIZE_C v"
  "GETARG_Bx (SETARG_Bx i v) = take_bit SIZE_Bx v"
  by (simp_all add: op_fields bitfield_put_same op_layout uint_take_bit_of_int
      unat_take_bit_of_nat)

lemma op_get_set_other [opcode_simps]:
  "GET_OPCODE (SETARG_A i v) = GET_OPCODE i"
  "GET_OPCODE (SETARG_B i v) = GET_OPCODE i"
  "GET_OPCODE (SETARG_C i v) = GET_OPCODE i"
  "GET_OPCODE (SETARG_Bx i v) = GET_OPCODE i"
  "GETARG_A (SET_OPCODE i oc) = GETARG_A i"
  "GETARG_A (SETARG_B i v) = GETARG_A i"
  "GETARG_A (SETARG_C i v) = GETARG_A i"
  "GETARG_A (SETARG_Bx i v) = GETARG_A i"
  "GETARG_B (SET_OPCODE i oc) = GETARG_B i"
  "GETARG_B (SETARG_A i v) = GETARG_B i"
  "GETARG_B (SETARG_C i v) = GETARG_B i"
  "GETARG_C (SET_OPCODE i oc) = GETARG_C i"
  "GETARG_C (SETARG_A i v) = GETARG_C i"
  "GETARG_C (SETARG_B i v) = GETARG_C i"
  "GETARG_Bx (SET_OPCODE i oc) = GETARG_Bx i"
  "GETARG_Bx (SETARG_A i v) = GETARG_Bx i"
  by (simp_all add: op_fields bitfield_put_other op_layout)

lemma op_get_set [opcode_simps]:
  "oc < 2 ^ SIZE_OP \<Longrightarrow> GET_OPCODE (SET_OPCODE i oc) = oc"
  "0 \<le> v \<Longrightarrow> v \<le> MAXARG_A \<Longrightarrow> GETARG_A (SETARG_A i v) = v"
  "0 \<le> v \<Longrightarrow> v \<le> MAXARG_B \<Longrightarrow> GETARG_B (SETARG_B i v) = v"
  "0 \<le> v \<Longrightarrow> v \<le> MAXARG_C \<Longrightarrow> GETARG_C (SETARG_C i v) = v"
  "0 \<le> v \<Longrightarrow> v \<le> MAXARG_Bx \<Longrightarrow> GETARG_Bx (SETARG_Bx i v) = v"
  by (simp_all add: op_get_set_same take_bit_nat_eq_self take_bit_int_eq_self op_limits)

lemma op_get_bounds:
  "GET_OPCODE i < 64" "0 \<le> GETARG_A i" "GETARG_A i \<le> MAXARG_A"
  "0 \<le> GETARG_B i" "GETARG_B i \<le> MAXARG_B" "0 \<le> GETARG_C i" "GETARG_C i \<le> MAXARG_C"
  "0 \<le> GETARG_Bx i" "GETARG_Bx i \<le> MAXARG_Bx"
proof -
  have "int (GET_OPCODE i) < 64"
    using uint_bitfield_less [of SIZE_OP POS_OP i] by (simp add: op_fields op_layout)
  then show "GET_OPCODE i < 64" by simp
qed (use uint_bitfield_less [of SIZE_A POS_A i] uint_bitfield_less [of SIZE_B POS_B i]
      uint_bitfield_less [of SIZE_C POS_C i] uint_bitfield_less [of SIZE_Bx POS_Bx i]
    in \<open>simp_all add: op_fields op_limits op_layout\<close>)

lemma GETARG_sBx_SETARG_sBx [opcode_simps]:
  assumes "- MAXARG_sBx \<le> b" "b \<le> MAXARG_sBx + 1"
  shows "GETARG_sBx (SETARG_sBx i b) = b"
proof -
  have "uint (word_of_int (b + MAXARG_sBx) :: u32) = b + MAXARG_sBx"
    using assms unfolding uint_word_of_int_eq
    by (intro take_bit_int_eq_self) (simp_all add: op_limits op_layout)
  then show ?thesis using assms
    by (simp add: GETARG_sBx_def SETARG_sBx_def op_get_set_same op_limits op_layout
        take_bit_int_eq_self)
qed

lemma CREATE_ABC_fields:
  assumes "oc < 2 ^ SIZE_OP" "0 \<le> a" "a \<le> MAXARG_A" "0 \<le> b" "b \<le> MAXARG_B"
    "0 \<le> c" "c \<le> MAXARG_C"
  shows "GET_OPCODE (CREATE_ABC oc a b c) = oc" "GETARG_A (CREATE_ABC oc a b c) = a"
    "GETARG_B (CREATE_ABC oc a b c) = b" "GETARG_C (CREATE_ABC oc a b c) = c"
proof -
  have t: "take_bit SIZE_OP (word_of_nat oc :: u32) = word_of_nat oc"
    "take_bit SIZE_A (word_of_int a :: u32) = word_of_int a"
    "take_bit SIZE_B (word_of_int b :: u32) = word_of_int b"
    "take_bit SIZE_C (word_of_int c :: u32) = word_of_int c"
    using assms by (simp_all add: take_bit_word_of_int take_bit_word_of_nat op_limits)
  have w: "uint (word_of_int a :: u32) = a" "uint (word_of_int b :: u32) = b"
    "uint (word_of_int c :: u32) = c" "unat (word_of_nat oc :: u32) = oc"
    using assms by (simp_all add: uint_word_of_int_eq take_bit_int_eq_self op_limits op_layout
        unat_of_nat)
  have le: "POS_OP + SIZE_OP \<le> POS_A" "POS_OP + SIZE_OP \<le> POS_B" "POS_OP + SIZE_OP \<le> POS_C"
    "POS_A + SIZE_A \<le> POS_B" "POS_A + SIZE_A \<le> POS_C" "POS_C + SIZE_C \<le> POS_B"
    "POS_OP + SIZE_OP \<le> LENGTH(32)" "POS_A + SIZE_A \<le> LENGTH(32)"
    "POS_B + SIZE_B \<le> LENGTH(32)" "POS_C + SIZE_C \<le> LENGTH(32)"
    by (simp_all add: op_layout)
  note below = le(1-6) [THEN bitfield_push_below]
  show "GET_OPCODE (CREATE_ABC oc a b c) = oc" "GETARG_A (CREATE_ABC oc a b c) = a"
    "GETARG_B (CREATE_ABC oc a b c) = b" "GETARG_C (CREATE_ABC oc a b c) = c"
    using t w le by (simp_all add: CREATE_ABC_def op_fields bitfield_or bitfield_push_same
        bitfield_push_above below)
qed

lemma CREATE_ABx_fields:
  assumes "oc < 2 ^ SIZE_OP" "0 \<le> a" "a \<le> MAXARG_A" "0 \<le> bc" "bc \<le> MAXARG_Bx"
  shows "GET_OPCODE (CREATE_ABx oc a bc) = oc" "GETARG_A (CREATE_ABx oc a bc) = a"
    "GETARG_Bx (CREATE_ABx oc a bc) = bc"
proof -
  have t: "take_bit SIZE_OP (word_of_nat oc :: u32) = word_of_nat oc"
    "take_bit SIZE_A (word_of_int a :: u32) = word_of_int a"
    "take_bit SIZE_Bx (word_of_int bc :: u32) = word_of_int bc"
    using assms by (simp_all add: take_bit_word_of_int take_bit_word_of_nat op_limits)
  have w: "uint (word_of_int a :: u32) = a" "uint (word_of_int bc :: u32) = bc"
    "unat (word_of_nat oc :: u32) = oc"
    using assms by (simp_all add: uint_word_of_int_eq take_bit_int_eq_self op_limits op_layout
        unat_of_nat)
  have le: "POS_OP + SIZE_OP \<le> POS_A" "POS_OP + SIZE_OP \<le> POS_Bx" "POS_A + SIZE_A \<le> POS_Bx"
    "POS_OP + SIZE_OP \<le> LENGTH(32)" "POS_A + SIZE_A \<le> LENGTH(32)"
    "POS_Bx + SIZE_Bx \<le> LENGTH(32)"
    by (simp_all add: op_layout)
  note below = le(1-3) [THEN bitfield_push_below]
  show "GET_OPCODE (CREATE_ABx oc a bc) = oc" "GETARG_A (CREATE_ABx oc a bc) = a"
    "GETARG_Bx (CREATE_ABx oc a bc) = bc"
    using t w le by (simp_all add: CREATE_ABx_def op_fields bitfield_or bitfield_push_same
        bitfield_push_above below)
qed

lemma CREATE_ABC_of_fields:
  "CREATE_ABC (GET_OPCODE i) (GETARG_A i) (GETARG_B i) (GETARG_C i) = i"
proof (rule bit_word_eqI)
  fix n assume "n < LENGTH(32)"
  then show "bit (CREATE_ABC (GET_OPCODE i) (GETARG_A i) (GETARG_B i) (GETARG_C i)) n = bit i n"
    by (simp only: CREATE_ABC_def op_fields bit_or_iff bit_push_bitfield word_of_int_uint
        word_of_nat_unat) (auto simp: op_layout)
qed

lemma CREATE_ABx_of_fields: "CREATE_ABx (GET_OPCODE i) (GETARG_A i) (GETARG_Bx i) = i"
proof (rule bit_word_eqI)
  fix n assume "n < LENGTH(32)"
  then show "bit (CREATE_ABx (GET_OPCODE i) (GETARG_A i) (GETARG_Bx i)) n = bit i n"
    by (simp only: CREATE_ABx_def op_fields bit_or_iff bit_push_bitfield word_of_int_uint
        word_of_nat_unat) (auto simp: op_layout)
qed

lemma ISK_iff_bit: "ISK x \<longleftrightarrow> bit x 8"
  by (simp add: ISK_def BITRK_def op_layout bit_iff_and_push_bit_not_eq_0 push_bit_of_1)

lemma ISK_iff:
  assumes "0 \<le> x" "x \<le> MAXARG_B"
  shows "ISK x \<longleftrightarrow> BITRK \<le> x"
proof (cases "256 \<le> x")
  case True
  then have "x div 256 = 1"
    using assms by (simp add: op_limits op_layout div_pos_geq)
  with True show ?thesis by (simp add: ISK_iff_bit bit_iff_odd BITRK_def op_layout)
next
  case False
  then have "x div 256 = 0" using assms by simp
  with False show ?thesis by (simp add: ISK_iff_bit bit_iff_odd BITRK_def op_layout)
qed

lemma RKASK_fits:
  assumes "0 \<le> x" "x \<le> MAXINDEXRK"
  shows "ISK (RKASK x)" "INDEXK (RKASK x) = x" "0 \<le> RKASK x" "RKASK x \<le> MAXARG_B"
proof -
  have x: "x < 256" using assms(2) by (simp add: MAXINDEXRK_def BITRK_def op_layout)
  have nb: "\<not> bit x 8" using x assms(1) by (simp add: bit_iff_odd)
  have B: "BITRK = push_bit 8 1" by (simp add: BITRK_def op_layout push_bit_of_1)
  have "RKASK x = set_bit 8 x"
    by (simp add: RKASK_def B set_bit_eq_or)
  also have "\<dots> = x + 256"
    using nb by (simp add: set_bit_eq)
  finally have e: "RKASK x = x + 256" .
  then show "0 \<le> RKASK x" "RKASK x \<le> MAXARG_B"
    using x assms(1) by (simp_all add: op_limits op_layout)
  with e assms show "ISK (RKASK x)" by (simp add: ISK_iff BITRK_def op_layout)
  have "INDEXK (RKASK x) = unset_bit 8 (x + 256)"
    by (simp only: INDEXK_def e B unset_bit_eq_and_not)
  also have "\<dots> = x" using e \<open>ISK (RKASK x)\<close> by (simp add: unset_bit_eq ISK_iff_bit)
  finally show "INDEXK (RKASK x) = x" .
qed
section \<open>Lemmas: the opcode tables\<close>

lemma opnum_nth: "all_opcodes ! opnum oc = oc"
  by (cases oc) (simp_all add: all_opcodes_def)

lemma opnum_less: "opnum oc < NUM_OPCODES"
  by (cases oc) (simp_all add: NUM_OPCODES_def)

lemma opnum_inject [simp]: "opnum a = opnum b \<longleftrightarrow> a = b"
  by (metis opnum_nth)

lemma opnum_fits [simp]: "opnum oc < 2 ^ SIZE_OP"
  using opnum_less [of oc] by (simp add: NUM_OPCODES_def op_layout)

text \<open>
  C12: encoding an instruction from an opcode and operands in their ranges and decoding it gives
  them back, and every 32-bit word is the encoding of its fields.
\<close>

theorem instruction_roundtrip:
  assumes "oc < 2 ^ SIZE_OP" "0 \<le> a" "a \<le> MAXARG_A" "0 \<le> b" "b \<le> MAXARG_B" "0 \<le> c" "c \<le> MAXARG_C"
  shows "(let i = CREATE_ABC oc a b c in GET_OPCODE i = oc \<and> GETARG_A i = a \<and> GETARG_B i = b \<and> GETARG_C i = c)
    \<and> CREATE_ABC (GET_OPCODE w) (GETARG_A w) (GETARG_B w) (GETARG_C w) = w"
  using CREATE_ABC_fields [OF assms] CREATE_ABC_of_fields by (simp add: Let_def)

theorem instruction_roundtrip_witness:
  "(let i = CREATE_ABC 12 3 258 511 in GET_OPCODE i = 12 \<and> GETARG_A i = 3 \<and> GETARG_B i = 258 \<and> GETARG_C i = 511)
    \<and> CREATE_ABC (GET_OPCODE 0xDEADBEEF) (GETARG_A 0xDEADBEEF) (GETARG_B 0xDEADBEEF) (GETARG_C 0xDEADBEEF) = 0xDEADBEEF"
  by (rule instruction_roundtrip) (simp_all add: op_limits op_layout)

end
