(* ===== verification/Numbers.thy ===== *)
theory Numbers
  imports Prelude
begin

text \<open>
  Lua numbers. \<open>luaconf.h\<close> makes \<open>lua_Number\<close> a C \<open>double\<close>; a number is modelled by
  the 64 bits of its IEEE 754 binary64 representation. The comparison macros
  (\<open>luai_numeq\<close>, \<open>luai_numlt\<close>, \<open>luai_numle\<close>, \<open>luai_numisnan\<close>), the conversion
  \<open>cast_num\<close> from integers and the conversions \<open>lua_number2int\<close> and
  \<open>lua_number2integer\<close> (plain C casts on the LP64 platform) are defined on the bits. The
  lemmas show that an integer of at most 53 bits survives the trip through a number, and that
  equality is an equivalence relation on the numbers that are not NaN.
\<close>

type_synonym lua_Number = u64

section \<open>The fields of a double\<close>

definition num_neg :: "lua_Number \<Rightarrow> bool" where
  "num_neg n \<longleftrightarrow> 2 ^ 63 \<le> unat n"

definition num_mag :: "lua_Number \<Rightarrow> nat" where
  "num_mag n = unat n mod 2 ^ 63"

definition num_expo :: "lua_Number \<Rightarrow> nat" where
  "num_expo n = num_mag n div 2 ^ 52"

definition num_frac :: "lua_Number \<Rightarrow> nat" where
  "num_frac n = num_mag n mod 2 ^ 52"

section \<open>Comparison\<close>

definition luai_numisnan :: "lua_Number \<Rightarrow> bool" where
  "luai_numisnan n \<longleftrightarrow> num_expo n = 2047 \<and> num_frac n \<noteq> 0"

text \<open>
  Two doubles that are not NaN compare as their signed magnitudes; both zeros have
  magnitude 0.
\<close>

definition num_key :: "lua_Number \<Rightarrow> int" where
  "num_key n = (if num_neg n then - int (num_mag n) else int (num_mag n))"

definition luai_numeq :: "lua_Number \<Rightarrow> lua_Number \<Rightarrow> bool" where
  "luai_numeq a b \<longleftrightarrow> \<not> luai_numisnan a \<and> \<not> luai_numisnan b \<and> num_key a = num_key b"

definition luai_numlt :: "lua_Number \<Rightarrow> lua_Number \<Rightarrow> bool" where
  "luai_numlt a b \<longleftrightarrow> \<not> luai_numisnan a \<and> \<not> luai_numisnan b \<and> num_key a < num_key b"

definition luai_numle :: "lua_Number \<Rightarrow> lua_Number \<Rightarrow> bool" where
  "luai_numle a b \<longleftrightarrow> \<not> luai_numisnan a \<and> \<not> luai_numisnan b \<and> num_key a \<le> num_key b"

section \<open>Conversion from and to integers\<close>

fun nlog2 :: "nat \<Rightarrow> nat" where
  "nlog2 n = (if n < 2 then 0 else Suc (nlog2 (n div 2)))"

declare nlog2.simps [simp del]

text \<open>Division by a power of two, rounded to the nearest, ties to even.\<close>

definition round_div :: "nat \<Rightarrow> nat \<Rightarrow> nat" where
  "round_div m d = (let q = m div d; r = m mod d in
     if 2 * r < d \<or> (2 * r = d \<and> even q) then q else q + 1)"

definition num_bits :: "nat \<Rightarrow> nat" where
  "num_bits m = (if m = 0 then 0 else
     let e = nlog2 m;
         mant = (if e \<le> 52 then m * 2 ^ (52 - e) else round_div m (2 ^ (e - 52)))
     in (e + 1022) * 2 ^ 52 + mant)"

definition cast_num :: "int \<Rightarrow> lua_Number" where
  "cast_num i = word_of_nat (num_bits (nat \<bar>i\<bar>) + (if i < 0 then 2 ^ 63 else 0))"

definition num_trunc :: "lua_Number \<Rightarrow> int option" where
  "num_trunc n =
    (if num_expo n = 2047 then None else
     let e = num_expo n; m = 2 ^ 52 + num_frac n;
         v = (if e < 1023 then 0
              else if 1075 \<le> e then m * 2 ^ (e - 1075)
              else m div 2 ^ (1075 - e))
     in Some (if num_neg n then - int v else int v))"

text \<open>
  C leaves the cast of a double outside the range of the target type undefined; the
  instruction that x86-64 compilers emit for it (\<open>cvttsd2si\<close>) then gives the smallest
  integer of the type. Users of \<open>lua_number2int\<close> check the result by converting it back.
\<close>

definition num2int_range :: "int \<Rightarrow> int \<Rightarrow> lua_Number \<Rightarrow> int" where
  "num2int_range lo hi n = (case num_trunc n of None \<Rightarrow> lo
     | Some v \<Rightarrow> if lo \<le> v \<and> v \<le> hi then v else lo)"

definition lua_number2int :: "lua_Number \<Rightarrow> int" where
  "lua_number2int = num2int_range INT_MIN INT_MAX"

definition lua_number2integer :: "lua_Number \<Rightarrow> int" where
  "lua_number2integer = num2int_range (- (2 ^ 63)) (2 ^ 63 - 1)"

section \<open>Lemmas\<close>

lemma luai_numeq_refl: "luai_numeq n n \<longleftrightarrow> \<not> luai_numisnan n"
  by (simp add: luai_numeq_def)

lemma luai_numeq_sym: "luai_numeq a b \<longleftrightarrow> luai_numeq b a"
  by (auto simp: luai_numeq_def)

lemma luai_numeq_trans: "luai_numeq a b \<Longrightarrow> luai_numeq b c \<Longrightarrow> luai_numeq a c"
  by (simp add: luai_numeq_def)

lemma luai_numeq_cong: "luai_numeq a b \<Longrightarrow> luai_numeq a c \<longleftrightarrow> luai_numeq b c"
  by (auto simp: luai_numeq_def)

lemma unat_num_mag: "unat n = num_mag n + (if num_neg n then 2 ^ 63 else 0)"
proof -
  have "unat n < 2 ^ 64" by (rule order_less_le_trans [OF unsigned_less]) simp
  then show ?thesis by (auto simp: num_mag_def num_neg_def mod_if)
qed

lemma num_key_eq_cases: "num_key a = num_key b \<Longrightarrow> a = b \<or> num_mag a = 0 \<and> num_mag b = 0"
proof -
  assume k: "num_key a = num_key b"
  have "num_mag a = 0 \<and> num_mag b = 0 \<or> (num_neg a = num_neg b \<and> num_mag a = num_mag b)"
    using k by (auto simp: num_key_def split: if_splits)
  then show ?thesis by (metis unat_num_mag word_unat_eq_iff)
qed

lemma nlog2_bounds: "0 < n \<Longrightarrow> 2 ^ nlog2 n \<le> n \<and> n < 2 * 2 ^ nlog2 n"
proof (induction n rule: nlog2.induct)
  case (1 n)
  show ?case
  proof (cases "n < 2")
    case True
    with "1.prems" show ?thesis by (simp add: nlog2.simps [of n])
  next
    case False
    with "1.IH" have "2 ^ nlog2 (n div 2) \<le> n div 2 \<and> n div 2 < 2 * 2 ^ nlog2 (n div 2)"
      by simp
    with False show ?thesis by (simp add: nlog2.simps [of n]) linarith
  qed
qed

lemma num_bits_small:
  assumes "0 < m" "m < 2 ^ 53"
  obtains e where "e \<le> 52" "2 ^ e \<le> m" "m < 2 * 2 ^ e"
    "num_bits m = (e + 1022) * 2 ^ 52 + m * 2 ^ (52 - e)"
    "2 ^ 52 \<le> m * 2 ^ (52 - e)" "m * 2 ^ (52 - e) < 2 ^ 53"
proof -
  let ?e = "nlog2 m"
  have b: "2 ^ ?e \<le> m" "m < 2 * 2 ^ ?e" using nlog2_bounds assms(1) by auto
  have "(2::nat) ^ ?e < 2 ^ 53" using b(1) assms(2) by (rule le_less_trans)
  then have "?e < 53" by (rule power_less_imp_less_exp [rotated]) simp
  then have e: "?e \<le> 52" by simp
  have s: "(2::nat) ^ ?e * 2 ^ (52 - ?e) = 2 ^ 52" using e by (simp flip: power_add)
  have l: "2 ^ 52 \<le> m * 2 ^ (52 - ?e)" using b(1) s by (metis mult_le_mono1)
  have "m * 2 ^ (52 - ?e) < 2 * 2 ^ ?e * 2 ^ (52 - ?e)" using b(2) by simp
  then have "m * 2 ^ (52 - ?e) < 2 ^ 53" using s by (simp add: mult.assoc)
  with that [of ?e] e b l show thesis using assms(1) by (simp add: num_bits_def Let_def)
qed

lemma cast_num_fields:
  assumes "\<bar>i\<bar> < 2 ^ 53"
  shows "num_mag (cast_num i) = num_bits (nat \<bar>i\<bar>)" "num_neg (cast_num i) \<longleftrightarrow> i < 0"
proof -
  have b: "num_bits (nat \<bar>i\<bar>) < 2 ^ 63"
  proof (cases "i = 0")
    case False
    then obtain e where "e \<le> 52"
      "num_bits (nat \<bar>i\<bar>) = (e + 1022) * 2 ^ 52 + nat \<bar>i\<bar> * 2 ^ (52 - e)"
      "nat \<bar>i\<bar> * 2 ^ (52 - e) < 2 ^ 53"
      using num_bits_small [of "nat \<bar>i\<bar>"] assms by (auto simp: nat_less_iff)
    then show ?thesis by simp
  qed (simp add: num_bits_def)
  have "unat (cast_num i) = num_bits (nat \<bar>i\<bar>) + (if i < 0 then 2 ^ 63 else 0)"
    using b unfolding cast_num_def by (intro unat_of_nat_eq) (simp only: len_num1 len_bit0 split: if_split, auto)
  with b show "num_mag (cast_num i) = num_bits (nat \<bar>i\<bar>)" "num_neg (cast_num i) \<longleftrightarrow> i < 0"
    by (auto simp: num_mag_def num_neg_def)
qed

lemma cast_num_expo_frac:
  assumes "\<bar>i\<bar> < 2 ^ 53" "i \<noteq> 0"
  obtains e where "e \<le> 52" "2 ^ e \<le> nat \<bar>i\<bar>" "num_expo (cast_num i) = e + 1023"
    "2 ^ 52 + num_frac (cast_num i) = nat \<bar>i\<bar> * 2 ^ (52 - e)"
proof -
  let ?m = "nat \<bar>i\<bar>"
  have "0 < ?m" "?m < 2 ^ 53" using assms by (auto simp: nat_less_iff)
  then obtain e where e: "e \<le> 52" "2 ^ e \<le> ?m"
    "num_bits ?m = (e + 1022) * 2 ^ 52 + ?m * 2 ^ (52 - e)"
    "2 ^ 52 \<le> ?m * 2 ^ (52 - e)" "?m * 2 ^ (52 - e) < 2 ^ 53"
    by (rule num_bits_small)
  define r where "r = ?m * 2 ^ (52 - e) - 2 ^ 52"
  have r: "r < 2 ^ 52" "?m * 2 ^ (52 - e) = 2 ^ 52 + r"
    using e(4,5) by (simp_all add: r_def less_diff_conv2)
  have "num_mag (cast_num i) = (e + 1023) * 2 ^ 52 + r"
    using assms e(3) r by (simp add: cast_num_fields algebra_simps)
  then have "num_expo (cast_num i) = e + 1023" "num_frac (cast_num i) = r"
    using r(1) by (simp_all only: num_expo_def num_frac_def mod_mult_self3 div_mult_self3
        mod_less div_less add_0_right)
  with that [of e] e r show thesis by simp
qed

lemma num_trunc_cast_num:
  assumes "\<bar>i\<bar> < 2 ^ 53"
  shows "num_trunc (cast_num i) = Some i"
proof (cases "i = 0")
  case True
  then show ?thesis by (simp add: num_trunc_def cast_num_def num_bits_def num_expo_def
        num_mag_def num_neg_def)
next
  case False
  then obtain e where e: "e \<le> 52" "2 ^ e \<le> nat \<bar>i\<bar>" "num_expo (cast_num i) = e + 1023"
    "2 ^ 52 + num_frac (cast_num i) = nat \<bar>i\<bar> * 2 ^ (52 - e)"
    using cast_num_expo_frac assms by blast
  have "(2 ^ 52 + num_frac (cast_num i)) div 2 ^ (1075 - (e + 1023)) = nat \<bar>i\<bar>" if "e < 52"
    using e(1,4) by simp
  moreover have "num_frac (cast_num i) + 2 ^ 52 = nat \<bar>i\<bar>" if "e = 52"
    using e(4) that by simp
  ultimately show ?thesis using e cast_num_fields [OF assms]
    by (cases "e = 52") (auto simp: num_trunc_def Let_def)
qed

lemma cast_num_not_nan: "\<bar>i\<bar> < 2 ^ 53 \<Longrightarrow> \<not> luai_numisnan (cast_num i)"
  using num_trunc_cast_num [of i] by (auto simp: num_trunc_def luai_numisnan_def)

end
