(* ===== verification/Objects.thy ===== *)
theory Objects
  imports Numbers
begin

text \<open>
  Lua objects and the generic functions over them (\<open>lobject.h\<close>, \<open>lobject.c\<close>): tagged
  values, raw equality, the "floating point byte" encoding of table sizes, the table-driven
  binary logarithm and the construction of a printable chunk name in a buffer of fixed size.
\<close>

unbundle bit_operations_syntax

section \<open>Tagged values\<close>

text \<open>
  A \<open>TValue\<close> is a tag and a union; each tag is a constructor here. A collectable value is
  the address of its object. Booleans hold the C values 0 and 1 (\<open>boolean true must be 1\<close>).
\<close>

datatype TValue =
    LNil
  | LBoolean bool
  | LLightUserdata ptr
  | LNumber lua_Number
  | LString ptr
  | LTable ptr
  | LFunction ptr
  | LUserdata ptr
  | LThread ptr
  | LDeadKey ptr

fun ttype :: "TValue \<Rightarrow> nat" where
  "ttype LNil = 0"
| "ttype (LBoolean b) = 1"
| "ttype (LLightUserdata p) = 2"
| "ttype (LNumber n) = 3"
| "ttype (LString p) = 4"
| "ttype (LTable p) = 5"
| "ttype (LFunction p) = 6"
| "ttype (LUserdata p) = 7"
| "ttype (LThread p) = 8"
| "ttype (LDeadKey p) = 11"

definition ttisnil :: "TValue \<Rightarrow> bool" where "ttisnil v \<longleftrightarrow> ttype v = 0"

definition iscollectable :: "TValue \<Rightarrow> bool" where "iscollectable v \<longleftrightarrow> 4 \<le> ttype v"

fun gcvalue :: "TValue \<Rightarrow> ptr" where
  "gcvalue (LString p) = p"
| "gcvalue (LTable p) = p"
| "gcvalue (LFunction p) = p"
| "gcvalue (LUserdata p) = p"
| "gcvalue (LThread p) = p"
| "gcvalue (LDeadKey p) = p"
| "gcvalue _ = 0"

fun l_isfalse :: "TValue \<Rightarrow> bool" where
  "l_isfalse LNil = True"
| "l_isfalse (LBoolean b) = (\<not> b)"
| "l_isfalse _ = False"

definition luaO_rawequalObj :: "TValue \<Rightarrow> TValue \<Rightarrow> bool" where
  "luaO_rawequalObj t1 t2 =
    (if ttype t1 \<noteq> ttype t2 then False else
     case t1 of
       LNil \<Rightarrow> True
     | LNumber n1 \<Rightarrow> (case t2 of LNumber n2 \<Rightarrow> luai_numeq n1 n2 | _ \<Rightarrow> False)
     | LBoolean b1 \<Rightarrow> (case t2 of LBoolean b2 \<Rightarrow> b1 = b2 | _ \<Rightarrow> False)
     | LLightUserdata p1 \<Rightarrow> (case t2 of LLightUserdata p2 \<Rightarrow> p1 = p2 | _ \<Rightarrow> False)
     | _ \<Rightarrow> gcvalue t1 = gcvalue t2)"

section \<open>Floating point bytes\<close>

text \<open>
  \<open>luaO_int2fb\<close> takes an \<open>unsigned int\<close>; the sum \<open>x + 1\<close> is taken modulo \<open>2 ^ 32\<close>.
\<close>

function int2fb_loop :: "nat \<Rightarrow> nat \<Rightarrow> nat \<times> nat" where
  "int2fb_loop x e = (if 16 \<le> x then int2fb_loop ((x + 1) mod 2 ^ 32 div 2) (e + 1) else (x, e))"
  by pat_completeness auto
termination
proof (relation "measure fst")
  fix x e :: nat
  assume x: "16 \<le> x"
  have "(x + 1) mod 2 ^ 32 \<le> x + 1" by simp
  then have "(x + 1) mod 2 ^ 32 div 2 \<le> (x + 1) div 2" by (rule div_le_mono)
  with x show "(((x + 1) mod 2 ^ 32 div 2, e + 1), x, e) \<in> measure fst" by simp
qed simp

declare int2fb_loop.simps [simp del]

definition luaO_int2fb :: "nat \<Rightarrow> nat" where
  "luaO_int2fb x0 = (let (x, e) = int2fb_loop x0 0 in
     if x < 8 then x else push_bit 3 (e + 1) OR (x - 8))"

definition luaO_fb2int :: "nat \<Rightarrow> nat" where
  "luaO_fb2int x = (let e = drop_bit 3 x AND 31 in
     if e = 0 then x else push_bit (e - 1) ((x AND 7) + 8))"

section \<open>Binary logarithm\<close>

definition log_2 :: "nat list" where
  "log_2 =
    [0,1,2,2,3,3,3,3,4,4,4,4,4,4,4,4,5,5,5,5,5,5,5,5,5,5,5,5,5,5,5,5,
     6,6,6,6,6,6,6,6,6,6,6,6,6,6,6,6,6,6,6,6,6,6,6,6,6,6,6,6,6,6,6,6,
     7,7,7,7,7,7,7,7,7,7,7,7,7,7,7,7,7,7,7,7,7,7,7,7,7,7,7,7,7,7,7,7,
     7,7,7,7,7,7,7,7,7,7,7,7,7,7,7,7,7,7,7,7,7,7,7,7,7,7,7,7,7,7,7,7,
     8,8,8,8,8,8,8,8,8,8,8,8,8,8,8,8,8,8,8,8,8,8,8,8,8,8,8,8,8,8,8,8,
     8,8,8,8,8,8,8,8,8,8,8,8,8,8,8,8,8,8,8,8,8,8,8,8,8,8,8,8,8,8,8,8,
     8,8,8,8,8,8,8,8,8,8,8,8,8,8,8,8,8,8,8,8,8,8,8,8,8,8,8,8,8,8,8,8,
     8,8,8,8,8,8,8,8,8,8,8,8,8,8,8,8,8,8,8,8,8,8,8,8,8,8,8,8,8,8,8,8]"

text \<open>The loop counts \<open>l\<close> from -1; the model counts \<open>l + 1\<close> and subtracts at the end.\<close>

function log2_loop :: "int \<Rightarrow> nat \<Rightarrow> int" where
  "log2_loop l x = (if 256 \<le> x then log2_loop (l + 8) (drop_bit 8 x) else l + int (log_2 ! x))"
  by pat_completeness auto
termination
  by (relation "measure snd") (auto simp: drop_bit_eq_div)

declare log2_loop.simps [simp del]

definition luaO_log2 :: "nat \<Rightarrow> int" where
  "luaO_log2 x = log2_loop (-1) x"

text \<open>\<open>ceillog2(x)\<close> is used for \<open>x \<ge> 1\<close> only; \<open>x - 1\<close> does not wrap then.\<close>

definition ceillog2 :: "nat \<Rightarrow> int" where
  "ceillog2 x = luaO_log2 (x - 1) + 1"

section \<open>Chunk names\<close>

text \<open>
  \<open>luaO_chunkid\<close> writes a NUL-terminated string into a buffer of \<open>bufflen\<close> bytes; the model
  returns the string without its terminator. \<open>bufflen\<close> is a \<open>size_t\<close>, and the code
  subtracts the size of a template from it.
\<close>

definition size_sub :: "nat \<Rightarrow> nat \<Rightarrow> nat" where
  "size_sub a b = (if b \<le> a then a - b else 2 ^ 64 + a - b)"

definition strcspn :: "string \<Rightarrow> string \<Rightarrow> nat" where
  "strcspn s reject = length (takeWhile (\<lambda>c. c \<notin> set reject) s)"

text \<open>The character that a pointer to a NUL-terminated string points to.\<close>

definition deref :: "string \<Rightarrow> char" where
  "deref s = (case s of [] \<Rightarrow> CHR 0x00 | c # _ \<Rightarrow> c)"

definition luaO_chunkid :: "string \<Rightarrow> nat \<Rightarrow> string" where
  "luaO_chunkid source bufflen =
    (if deref source = CHR ''='' then take (bufflen - 1) (tl source)
     else if deref source = CHR ''@'' then
       (let source = tl source; bufflen = size_sub bufflen 8; l = length source in
        if bufflen < l then ''...'' @ drop (l - bufflen) source else source)
     else
       (let len = strcspn source [CHR 0x0A, CHR 0x0D];
            bufflen = size_sub bufflen 17;
            len = (if bufflen < len then bufflen else len) in
        ''[string '' @ [CHR 0x22] @
        (if len < length source then take len source @ ''...'' else source) @
        [CHR 0x22] @ '']''))"

section \<open>Lemmas: raw equality\<close>

lemma ttisnil_iff [simp]: "ttisnil v \<longleftrightarrow> v = LNil"
  by (cases v) (simp_all add: ttisnil_def)

lemma rawequal_LNumber [simp]:
  "luaO_rawequalObj (LNumber a) (LNumber b) \<longleftrightarrow> luai_numeq a b"
  by (simp add: luaO_rawequalObj_def)

lemma rawequal_iff:
  "luaO_rawequalObj a b \<longleftrightarrow> (\<exists>x y. a = LNumber x \<and> b = LNumber y \<and> luai_numeq x y)
     \<or> ((\<forall>n. a \<noteq> LNumber n) \<and> a = b)"
  by (cases a; cases b) (simp_all add: luaO_rawequalObj_def)

lemma rawequal_non_number:
  "(\<And>n. a \<noteq> LNumber n) \<Longrightarrow> luaO_rawequalObj a b \<longleftrightarrow> a = b"
  by (simp add: rawequal_iff)

lemma rawequal_LNil [simp]: "luaO_rawequalObj a LNil \<longleftrightarrow> a = LNil"
  by (auto simp: rawequal_iff)

lemma rawequal_sym: "luaO_rawequalObj a b \<longleftrightarrow> luaO_rawequalObj b a"
  using luai_numeq_sym by (auto simp: rawequal_iff)

lemma rawequal_trans:
  "luaO_rawequalObj a b \<Longrightarrow> luaO_rawequalObj b c \<Longrightarrow> luaO_rawequalObj a c"
  using luai_numeq_trans by (auto simp: rawequal_iff)

definition is_nan_value :: "TValue \<Rightarrow> bool" where
  "is_nan_value v \<longleftrightarrow> (case v of LNumber n \<Rightarrow> luai_numisnan n | _ \<Rightarrow> False)"

lemma rawequal_refl: "luaO_rawequalObj a a \<longleftrightarrow> \<not> is_nan_value a"
  by (cases a) (auto simp: rawequal_iff is_nan_value_def luai_numeq_refl)

section \<open>Lemmas: floating point bytes\<close>

lemma int2fb_loop_bounds:
  assumes "int2fb_loop x e = (y, e')" "x < 2 ^ 32 - 1"
  shows "e \<le> e' \<and> y < 16 \<and> x \<le> y * 2 ^ (e' - e) \<and> y * 2 ^ (e' - e) < x + 2 ^ (e' - e)
    \<and> (e < e' \<longrightarrow> 8 \<le> y \<and> 15 * 2 ^ (e' - e - 1) < x)"
  using assms
proof (induction x e rule: int2fb_loop.induct)
  case (1 x e)
  show ?case
  proof (cases "16 \<le> x")
    case False
    with "1.prems" show ?thesis by (simp add: int2fb_loop.simps [of x e])
  next
    case True
    let ?x = "(x + 1) div 2"
    have m: "(x + 1) mod 2 ^ 32 = x + 1" using "1.prems"(2) by simp
    have "int2fb_loop ?x (e + 1) = (y, e')"
      using "1.prems"(1) True m by (simp add: int2fb_loop.simps [of x e])
    moreover have "?x < 2 ^ 32 - 1" using "1.prems"(2) by simp
    ultimately have IH: "e + 1 \<le> e'" "y < 16" "?x \<le> y * 2 ^ (e' - (e + 1))"
      "y * 2 ^ (e' - (e + 1)) < ?x + 2 ^ (e' - (e + 1))"
      "e + 1 < e' \<longrightarrow> 8 \<le> y \<and> 15 * 2 ^ (e' - (e + 1) - 1) < ?x"
      using "1.IH" [OF True] m by auto
    have p: "(2::nat) ^ (e' - e) = 2 * 2 ^ (e' - (e + 1))"
      using IH(1) by (simp flip: power_Suc add: Suc_diff_Suc)
    have "y = ?x" if "e' = e + 1" using IH(3,4) that by simp
    then have "8 \<le> y" using IH(1,5) True by (cases "e' = e + 1") auto
    moreover have "15 * 2 ^ (e' - e - 1) < x"
    proof (cases "e' = e + 1")
      case False
      then have "(2::nat) ^ (e' - e - 1) = 2 * 2 ^ (e' - (e + 1) - 1)"
        using IH(1) by (simp flip: power_Suc add: Suc_diff_Suc)
      moreover have "15 * 2 ^ (e' - (e + 1) - 1) < ?x" using IH(1,5) False by simp
      ultimately show ?thesis by presburger
    qed (use True in simp)
    moreover have "x \<le> 2 * ?x" "2 * ?x \<le> x + 1" by simp_all
    then have "x \<le> y * 2 ^ (e' - e)" "y * 2 ^ (e' - e) < x + 2 ^ (e' - e)"
      using IH(3,4) unfolding p by linarith+
    ultimately show ?thesis using IH(1,2) by simp
  qed
qed

lemma or_low_bits:
  fixes r k :: nat
  assumes "r < 2 ^ m"
  shows "push_bit m k OR r = 2 ^ m * k + r"
proof -
  have r: "take_bit m r = r" using assms by (rule take_bit_nat_eq_self)
  then have "bit r n \<Longrightarrow> n < m" for n by (metis bit_take_bit_iff)
  then have "push_bit m k AND r = 0" by (intro bit_eqI) (force simp: bit_simps)
  then have "push_bit m k + r = push_bit m k OR r" by (rule disjunctive_add_eq_or)
  then show ?thesis by (simp add: push_bit_eq_mult mult.commute)
qed

lemma luaO_fb2int_encode:
  assumes "8 \<le> y" "y < 16" "e \<le> 27"
  shows "luaO_fb2int (push_bit 3 (e + 1) OR (y - 8)) = y * 2 ^ e"
    "push_bit 3 (e + 1) OR (y - 8) < 256"
proof -
  have or: "push_bit 3 (e + 1) OR (y - 8) = 8 * (e + 1) + (y - 8)"
    using or_low_bits [of "y - 8" 3 "e + 1"] assms by simp
  have m: "x AND 31 = x mod 32" "x AND 7 = x mod 8" for x :: nat
    using take_bit_eq_mask [of 5 x] take_bit_eq_mask [of 3 x]
    by (simp_all add: take_bit_eq_mod mask_eq_exp_minus_1)
  have "(8 * (e + 1) + (y - 8)) div 8 = e + 1" "(8 * (e + 1) + (y - 8)) mod 8 = y - 8"
    using assms by (simp_all only: mod_mult_self4 div_mult_self4) simp_all
  with assms show "luaO_fb2int (push_bit 3 (e + 1) OR (y - 8)) = y * 2 ^ e"
    unfolding luaO_fb2int_def or m by (simp add: drop_bit_eq_div push_bit_eq_mult)
  from assms show "push_bit 3 (e + 1) OR (y - 8) < 256" unfolding or by simp
qed

lemma int2fb_small: "x < 16 \<Longrightarrow> int2fb_loop x e = (x, e)"
  by (simp add: int2fb_loop.simps [of x e])

lemma fb2int_small: "x < 8 \<Longrightarrow> luaO_fb2int x = x"
  by (simp add: luaO_fb2int_def drop_bit_eq_div)

text \<open>The decoded value is at least the encoded one, and at most a seventh larger.\<close>

text \<open>
  C13: a table size encoded in a "floating point byte" (\<open>eeeeexxx\<close>) fits a byte and decodes to a
  size that is not smaller and at most a seventh of the original larger.
\<close>

theorem fb2int_int2fb:
  assumes "x \<le> 15 * 2 ^ 27"
  shows "x \<le> luaO_fb2int (luaO_int2fb x) \<and> 7 * (luaO_fb2int (luaO_int2fb x) - x) \<le> x
    \<and> luaO_int2fb x < 256 \<and> luaO_fb2int (luaO_int2fb x) \<le> 15 * 2 ^ 27"
proof -
  obtain y e where ye: "int2fb_loop x 0 = (y, e)" by fastforce
  with int2fb_loop_bounds [OF ye] assms have b: "y < 16" "x \<le> y * 2 ^ e" "y * 2 ^ e < x + 2 ^ e"
    "0 < e \<longrightarrow> 8 \<le> y \<and> 15 * 2 ^ (e - 1) < x" by auto
  show ?thesis
  proof (cases "y < 8")
    case True
    with b have "e = 0" by simp
    with True b ye show ?thesis by (simp add: luaO_int2fb_def fb2int_small)
  next
    case False
    have "7 * 2 ^ e < x" if "0 < e"
    proof -
      have "8 * 2 ^ e \<le> y * 2 ^ e" using False by simp
      with b(3) show ?thesis by linarith
    qed
    then have s: "7 * (y * 2 ^ e - x) \<le> x" using b by (cases "e = 0") auto
    have "(2::nat) ^ (e - 1) < 2 ^ 27" if "0 < e" using b(4) that assms by simp
    then have "e - 1 < 27" if "0 < e" using that power_less_imp_less_exp [of 2 "e - 1" 27] by simp
    then have e: "e \<le> 27" by (cases "e = 0") auto
    have "y * 2 ^ e \<le> 15 * 2 ^ 27" using b(1) e by (intro mult_mono power_increasing) auto
    note le = this e
    show ?thesis using ye False b s le luaO_fb2int_encode [of y e]
      by (simp add: luaO_int2fb_def)
  qed
qed

theorem fb2int_int2fb_witness: "1000 \<le> luaO_fb2int (luaO_int2fb 1000)
    \<and> 7 * (luaO_fb2int (luaO_int2fb 1000) - 1000) \<le> 1000
    \<and> luaO_int2fb 1000 < 256 \<and> luaO_fb2int (luaO_int2fb 1000) \<le> 15 * 2 ^ 27"
  by (rule fb2int_int2fb) simp

section \<open>Lemmas: logarithm\<close>

lemma log_2_table:
  assumes "n < 256" "0 < n"
  shows "log_2 ! n = Suc (nlog2 n)"
proof -
  have e: "log_2 = 0 # map (\<lambda>n. Suc (nlog2 n)) [1..<256]" by code_simp
  have "log_2 ! n = map (\<lambda>n. Suc (nlog2 n)) [1..<256] ! (n - 1)"
    unfolding e by (rule nth_Cons_pos) (rule assms)
  also have "\<dots> = Suc (nlog2 ([1..<256] ! (n - 1)))"
    using assms by (intro nth_map) (simp only: length_upt)
  also have "[1..<256] ! (n - 1) = n"
    using assms by (subst nth_upt) simp_all
  finally show ?thesis .
qed

lemma nlog2_double: "0 < n \<Longrightarrow> m div 2 = n \<Longrightarrow> nlog2 m = Suc (nlog2 n)"
  by (subst nlog2.simps) auto

lemma nlog2_div_pow: "0 < n div 2 ^ k \<Longrightarrow> nlog2 n = k + nlog2 (n div 2 ^ k)"
proof (induction k)
  case (Suc k)
  have d: "n div 2 ^ Suc k = n div 2 ^ k div 2" by (simp only: power_Suc2 div_mult2_eq)
  with Suc.prems have "nlog2 (n div 2 ^ k) = Suc (nlog2 (n div 2 ^ Suc k))"
    by (intro nlog2_double) simp_all
  moreover from d Suc.prems have "0 < n div 2 ^ k" by (metis div_0 gr0I less_irrefl)
  ultimately show ?case using Suc.IH by simp
qed simp

lemma nlog2_div: "256 \<le> n \<Longrightarrow> nlog2 n = 8 + nlog2 (n div 256)"
  using nlog2_div_pow [of n 8] by (simp add: div_greater_zero_iff)

lemma log2_loop_eq: "0 < x \<Longrightarrow> log2_loop l x = l + 1 + int (nlog2 x)"
proof (induction l x rule: log2_loop.induct)
  case (1 l x)
  show ?case
  proof (cases "256 \<le> x")
    case True
    with 1 have "log2_loop (l + 8) (drop_bit 8 x) = l + 8 + 1 + int (nlog2 (drop_bit 8 x))"
      by (simp add: drop_bit_eq_div)
    with True show ?thesis
      by (simp add: log2_loop.simps [of l x] nlog2_div drop_bit_eq_div)
  next
    case False
    with "1.prems" show ?thesis by (simp add: log2_loop.simps [of l x] log_2_table)
  qed
qed

lemma luaO_log2_eq: "0 < x \<Longrightarrow> luaO_log2 x = int (nlog2 x)"
  by (simp add: luaO_log2_def log2_loop_eq)

lemma luaO_log2_0 [simp]: "luaO_log2 0 = -1"
  by (simp add: luaO_log2_def log2_loop.simps [of "-1" 0] log_2_def)

lemma ceillog2_bounds:
  assumes "1 \<le> x"
  shows "0 \<le> ceillog2 x \<and> x \<le> 2 ^ nat (ceillog2 x)
    \<and> (0 < ceillog2 x \<longrightarrow> 2 ^ (nat (ceillog2 x) - 1) < x)"
proof (cases "x = 1")
  case True
  then show ?thesis by (simp add: ceillog2_def)
next
  case False
  with assms have p: "0 < x - 1" by simp
  then have c: "ceillog2 x = int (Suc (nlog2 (x - 1)))" by (simp add: ceillog2_def luaO_log2_eq)
  have "2 ^ nlog2 (x - 1) \<le> x - 1" "x - 1 < 2 * 2 ^ nlog2 (x - 1)" using nlog2_bounds [OF p] by auto
  then have "2 ^ nlog2 (x - 1) < x" "x \<le> 2 * 2 ^ nlog2 (x - 1)" using p by linarith+
  with c show ?thesis by (simp add: nat_add_distrib)
qed

lemma ceillog2_unique:
  assumes "1 \<le> x" "x \<le> 2 ^ p" "p = 0 \<or> 2 ^ (p - 1) < x"
  shows "ceillog2 x = int p"
proof -
  let ?q = "nat (ceillog2 x)"
  have q: "0 \<le> ceillog2 x" "x \<le> 2 ^ ?q" "0 < ?q \<Longrightarrow> 2 ^ (?q - 1) < x"
    using ceillog2_bounds [OF assms(1)] by auto
  have "\<not> p < ?q"
  proof
    assume "p < ?q"
    then have "(2::nat) ^ p \<le> 2 ^ (?q - 1)" by (intro power_increasing) auto
    with q(3) \<open>p < ?q\<close> assms(2) show False by linarith
  qed
  moreover have "\<not> ?q < p"
  proof
    assume "?q < p"
    then have "(2::nat) ^ ?q \<le> 2 ^ (p - 1)" by (intro power_increasing) auto
    with q(2) \<open>?q < p\<close> assms(3) show False by linarith
  qed
  ultimately show ?thesis using q(1) by simp
qed

section \<open>Lemmas: chunk names\<close>

lemma strcspn_le: "strcspn s r \<le> length s"
  by (simp add: strcspn_def length_takeWhile_le)

text \<open>
  C14: \<open>luaO_chunkid\<close> never writes beyond its buffer: with a buffer of at least 17 bytes (the
  callers have \<open>LUA_IDSIZE\<close>, 60) the name and its terminator fit, whatever the source string is.
\<close>

theorem chunkid_length:
  assumes "17 \<le> n"
  shows "length (luaO_chunkid source n) < n"
  using assms strcspn_le [of source "[CHR 0x0A, CHR 0x0D]"]
  by (auto simp: luaO_chunkid_def Let_def size_sub_def)

theorem chunkid_length_witness: "length (luaO_chunkid (replicate 100 (CHR ''x'')) 60) < 60"
  by (rule chunkid_length) simp

lemma chunkid_no_newline:
  assumes "deref source \<noteq> CHR ''=''" "deref source \<noteq> CHR ''@''"
  shows "CHR 0x0A \<notin> set (luaO_chunkid source n) \<and> CHR 0x0D \<notin> set (luaO_chunkid source n)"
proof -
  have pre: "set (take n source) \<inter> set r = {}" if "n \<le> strcspn source r" for n r
  proof -
    have "take n source = take n (takeWhile (\<lambda>c. c \<notin> set r) source)"
      using that by (metis strcspn_def append_take_drop_id takeWhile_eq_take take_take min.absorb1)
    then show ?thesis by (metis (mono_tags, lifting) disjoint_iff in_set_takeD set_takeWhileD)
  qed
  have all: "set source \<inter> set r = {}" if "\<not> n < length source" "n \<le> strcspn source r" for n r
    using pre [OF that(2)] that by simp
  show ?thesis
    using assms pre [of _ "[CHR 0x0A, CHR 0x0D]"] all [of _ "[CHR 0x0A, CHR 0x0D]"]
    by (auto simp: luaO_chunkid_def Let_def)
qed

end
