(* ===== verification/Tables.thy ===== *)
theory Tables
  imports Objects
begin

text \<open>
  Lua tables (\<open>ltable.c\<close>): an array part and a hash part, a chained scatter table with
  Brent's variation in an array of nodes. This theory holds the data and every operation, in
  the order of the source; \<open>Table_Inv\<close>, \<open>Table_Rehash\<close> and \<open>Table_Iter\<close> prove them
  correct.

  A pointer into the node vector is an index, \<open>NULL\<close> is \<^term>\<open>None\<close>. The shared
  \<open>dummynode\<close> of an empty hash part is the one node of a table whose \<open>dummy\<close> flag is set.
  The hash of a string is a field of the string object; the operations read it through the
  argument \<open>H\<close>, the heap's map from string addresses to hashes. Memory allocation is assumed
  to succeed (a failure throws \<open>LUA_ERRMEM\<close> before the table changes).
\<close>

unbundle bit_operations_syntax

section \<open>Data\<close>

record Node =
  i_val :: TValue
  i_key :: TValue
  gnext :: "nat option"

record Table =
  flags :: u8
  metatable :: "ptr option"
  lsizenode :: nat
  arr :: "TValue list"
  node :: "Node list"
  dummy :: bool
  lastfree :: int

definition sizearray :: "Table \<Rightarrow> nat" where "sizearray t = length (arr t)"

definition sizenode :: "Table \<Rightarrow> nat" where "sizenode t = 2 ^ lsizenode t"

definition gkey :: "Table \<Rightarrow> nat \<Rightarrow> TValue" where "gkey t i = i_key (node t ! i)"

definition gval :: "Table \<Rightarrow> nat \<Rightarrow> TValue" where "gval t i = i_val (node t ! i)"

definition MAXBITS :: nat where "MAXBITS = 26"

definition MAXASIZE :: int where "MAXASIZE = 2 ^ MAXBITS"

definition dummynode :: Node where
  "dummynode = \<lparr>i_val = LNil, i_key = LNil, gnext = None\<rparr>"

text \<open>The errors of the operations; \<open>NoReturn\<close> is a loop that does not end.\<close>

datatype terror = TableOverflow | IndexIsNil | IndexIsNaN | InvalidNextKey | NoReturn

type_synonym 'a tres = "terror + 'a"

definition tbind :: "'a tres \<Rightarrow> ('a \<Rightarrow> 'b tres) \<Rightarrow> 'b tres" where
  "tbind m f = (case m of Inl e \<Rightarrow> Inl e | Inr x \<Rightarrow> f x)"

text \<open>
  The search functions return a pointer to a value: into the array part, into a node, or to
  the constant \<open>luaO_nilobject\<close>.
\<close>

datatype slot = NilObject | ArraySlot nat | NodeSlot nat

fun tv_read :: "Table \<Rightarrow> slot \<Rightarrow> TValue" where
  "tv_read t NilObject = LNil"
| "tv_read t (ArraySlot i) = arr t ! i"
| "tv_read t (NodeSlot i) = gval t i"

fun tv_write :: "Table \<Rightarrow> slot \<Rightarrow> TValue \<Rightarrow> Table" where
  "tv_write t NilObject v = t"
| "tv_write t (ArraySlot i) v = t\<lparr>arr := (arr t)[i := v]\<rparr>"
| "tv_write t (NodeSlot i) v = t\<lparr>node := (node t)[i := (node t ! i)\<lparr>i_val := v\<rparr>]\<rparr>"

section \<open>Hashing\<close>

definition hashpow2 :: "Table \<Rightarrow> u32 \<Rightarrow> nat" where
  "hashpow2 t n = unat (n AND (word_of_nat (sizenode t) - 1))"

definition hashmod :: "Table \<Rightarrow> u32 \<Rightarrow> nat" where
  "hashmod t n = unat n mod ((sizenode t - 1) OR 1)"

definition IntPoint :: "ptr \<Rightarrow> u32" where "IntPoint p = ucast p"

definition hashpointer :: "Table \<Rightarrow> ptr \<Rightarrow> nat" where
  "hashpointer t p = hashmod t (IntPoint p)"

text \<open>A double is two \<open>unsigned int\<close>s; their sum wraps around.\<close>

definition hashnum :: "Table \<Rightarrow> lua_Number \<Rightarrow> nat" where
  "hashnum t n = (if luai_numeq n (cast_num 0) then 0
     else hashmod t (ucast n + ucast (drop_bit 32 n)))"

definition mainposition :: "(ptr \<Rightarrow> u32) \<Rightarrow> Table \<Rightarrow> TValue \<Rightarrow> nat" where
  "mainposition H t key = (case key of
     LNumber n \<Rightarrow> hashnum t n
   | LString p \<Rightarrow> hashpow2 t (H p)
   | LBoolean b \<Rightarrow> hashpow2 t (if b then 1 else 0)
   | LLightUserdata p \<Rightarrow> hashpointer t p
   | _ \<Rightarrow> hashpointer t (gcvalue key))"

definition arrayindex :: "TValue \<Rightarrow> int" where
  "arrayindex key = (case key of
     LNumber n \<Rightarrow> (let k = lua_number2int n in if luai_numeq (cast_num k) n then k else -1)
   | _ \<Rightarrow> -1)"

section \<open>Search\<close>

text \<open>
  The loop \<open>do { if (P n) return; n = gnext(n); } while (n)\<close>; the fuel is the number of
  nodes, which bounds every chain that does not run into itself.
\<close>

fun chain_search :: "(Node \<Rightarrow> bool) \<Rightarrow> Node list \<Rightarrow> nat \<Rightarrow> nat \<Rightarrow> nat option tres" where
  "chain_search P ns 0 i = Inl NoReturn"
| "chain_search P ns (Suc fuel) i =
     (if P (ns ! i) then Inr (Some i)
      else case gnext (ns ! i) of None \<Rightarrow> Inr None | Some j \<Rightarrow> chain_search P ns fuel j)"

definition search_slot :: "(Node \<Rightarrow> bool) \<Rightarrow> Table \<Rightarrow> nat \<Rightarrow> slot tres" where
  "search_slot P t mp = tbind (chain_search P (node t) (length (node t)) mp)
     (\<lambda>r. Inr (case r of None \<Rightarrow> NilObject | Some i \<Rightarrow> NodeSlot i))"

definition luaH_getnum :: "Table \<Rightarrow> int \<Rightarrow> slot tres" where
  "luaH_getnum t key =
    (if (key - 1) mod 2 ^ 32 < int (sizearray t) then Inr (ArraySlot (nat (key - 1)))
     else let nk = cast_num key in
       search_slot (\<lambda>n. case i_key n of LNumber m \<Rightarrow> luai_numeq m nk | _ \<Rightarrow> False)
         t (hashnum t nk))"

definition luaH_getstr :: "(ptr \<Rightarrow> u32) \<Rightarrow> Table \<Rightarrow> ptr \<Rightarrow> slot tres" where
  "luaH_getstr H t key =
    search_slot (\<lambda>n. case i_key n of LString p \<Rightarrow> p = key | _ \<Rightarrow> False) t (hashpow2 t (H key))"

definition luaH_get :: "(ptr \<Rightarrow> u32) \<Rightarrow> Table \<Rightarrow> TValue \<Rightarrow> slot tres" where
  "luaH_get H t key =
    (let dflt = search_slot (\<lambda>n. luaO_rawequalObj (i_key n) key) t (mainposition H t key) in
     case key of
       LNil \<Rightarrow> Inr NilObject
     | LString p \<Rightarrow> luaH_getstr H t p
     | LNumber n \<Rightarrow>
         (let k = lua_number2int n in
          if luai_numeq (cast_num k) n then luaH_getnum t k else dflt)
     | _ \<Rightarrow> dflt)"

section \<open>Insertion of a new key\<close>

text \<open>
  \<open>while (t->lastfree-- > t->node)\<close> compares before it decrements, and decrements also
  when the test fails. The loop runs at most \<open>lastfree\<close> times.
\<close>

function getfreepos_loop :: "Node list \<Rightarrow> int \<Rightarrow> int \<times> nat option" where
  "getfreepos_loop ns lf =
    (if 0 < lf then
       (if i_key (ns ! nat (lf - 1)) = LNil then (lf - 1, Some (nat (lf - 1)))
        else getfreepos_loop ns (lf - 1))
     else (lf - 1, None))"
  by pat_completeness auto
termination by (relation "measure (\<lambda>(ns, lf). nat lf)") auto

declare getfreepos_loop.simps [simp del]

definition getfreepos :: "Table \<Rightarrow> Table \<times> nat option" where
  "getfreepos t = (let (lf, r) = getfreepos_loop (node t) (lastfree t) in
     (t\<lparr>lastfree := lf\<rparr>, r))"

text \<open>\<open>while (gnext(othern) != mp) othern = gnext(othern)\<close>\<close>

fun find_previous :: "Node list \<Rightarrow> nat \<Rightarrow> nat \<Rightarrow> nat \<Rightarrow> nat tres" where
  "find_previous ns mp 0 othern = Inl NoReturn"
| "find_previous ns mp (Suc fuel) othern =
     (if gnext (ns ! othern) = Some mp then Inr othern
      else case gnext (ns ! othern) of None \<Rightarrow> Inl NoReturn
        | Some j \<Rightarrow> find_previous ns mp fuel j)"

text \<open>
  The body of \<open>newkey\<close> up to the point where no free place is left, which is the result
  \<^term>\<open>None\<close>; otherwise the table and the node that now holds the key.
\<close>

definition newkey_place ::
    "(ptr \<Rightarrow> u32) \<Rightarrow> Table \<Rightarrow> TValue \<Rightarrow> (Table \<times> nat option) tres" where
  "newkey_place H t key =
    (let mp = mainposition H t key;
         setkey = (\<lambda>ns i. ns[i := (ns ! i)\<lparr>i_key := key\<rparr>]) in
     if gval t mp \<noteq> LNil \<or> dummy t then
       (case getfreepos t of
          (t, None) \<Rightarrow> Inr (t, None)
        | (t, Some n) \<Rightarrow>
            (let othern = mainposition H t (gkey t mp) in
             if othern \<noteq> mp then
               tbind (find_previous (node t) mp (length (node t)) othern) (\<lambda>prev.
                 let ns = node t;
                     ns = ns[prev := (ns ! prev)\<lparr>gnext := Some n\<rparr>];
                     ns = ns[n := ns ! mp];
                     ns = ns[mp := (ns ! mp)\<lparr>gnext := None, i_val := LNil\<rparr>]
                 in Inr (t\<lparr>node := setkey ns mp\<rparr>, Some mp))
             else
               (let ns = node t;
                    ns = ns[n := (ns ! n)\<lparr>gnext := gnext (ns ! mp)\<rparr>];
                    ns = ns[mp := (ns ! mp)\<lparr>gnext := Some n\<rparr>]
                in Inr (t\<lparr>node := setkey ns n\<rparr>, Some n))))
     else Inr (t\<lparr>node := setkey (node t) mp\<rparr>, Some mp))"

section \<open>Rehash\<close>

definition countint :: "TValue \<Rightarrow> nat list \<Rightarrow> nat list \<times> nat" where
  "countint key nums = (let k = arrayindex key in
     if 0 < k \<and> k \<le> MAXASIZE
     then (let l = nat (ceillog2 (nat k)) in (nums[l := nums ! l + 1], 1))
     else (nums, 0))"

text \<open>\<open>for (; i <= lim; i++) if (!ttisnil(&t->array[i-1])) lc++\<close>\<close>

function count_slice :: "TValue list \<Rightarrow> nat \<Rightarrow> nat \<Rightarrow> nat \<Rightarrow> nat" where
  "count_slice a i lim lc = (if i \<le> lim
     then count_slice a (i + 1) lim (if a ! (i - 1) \<noteq> LNil then lc + 1 else lc) else lc)"
  by pat_completeness auto
termination by (relation "measure (\<lambda>(a, i, lim, lc). lim + 1 - i)") auto

declare count_slice.simps [simp del]

function numusearray_loop ::
    "TValue list \<Rightarrow> nat \<Rightarrow> nat \<Rightarrow> nat \<Rightarrow> nat list \<Rightarrow> nat \<Rightarrow> nat list \<times> nat" where
  "numusearray_loop a lg ttlg i nums ause =
    (if lg \<le> MAXBITS then
       (let lim = (if ttlg > length a then length a else ttlg) in
        if ttlg > length a \<and> i > lim then (nums, ause)
        else (let lc = count_slice a i lim 0; i' = max i (lim + 1) in
          numusearray_loop a (lg + 1) (ttlg * 2) i' (nums[lg := nums ! lg + lc]) (ause + lc)))
     else (nums, ause))"
  by pat_completeness auto
termination by (relation "measure (\<lambda>(a, lg, ttlg, i, nums, ause). MAXBITS + 1 - lg)") auto

declare numusearray_loop.simps [simp del]

definition numusearray :: "Table \<Rightarrow> nat list \<Rightarrow> nat list \<times> nat" where
  "numusearray t nums = numusearray_loop (arr t) 0 1 1 nums 0"

fun numusehash_loop ::
    "Node list \<Rightarrow> nat \<Rightarrow> nat list \<Rightarrow> nat \<Rightarrow> nat \<Rightarrow> nat list \<times> nat \<times> nat" where
  "numusehash_loop ns 0 nums totaluse ause = (nums, totaluse, ause)"
| "numusehash_loop ns (Suc i) nums totaluse ause =
     (if i_val (ns ! i) \<noteq> LNil then
        (let (nums, c) = countint (i_key (ns ! i)) nums
         in numusehash_loop ns i nums (totaluse + 1) (ause + c))
      else numusehash_loop ns i nums totaluse ause)"

text \<open>The result: the counts, the number of elements, and \<open>*pnasize\<close> increased.\<close>

definition numusehash :: "Table \<Rightarrow> nat list \<Rightarrow> nat \<Rightarrow> nat list \<times> nat \<times> nat" where
  "numusehash t nums pnasize =
    (let (nums, totaluse, ause) = numusehash_loop (node t) (sizenode t) nums 0 0
     in (nums, totaluse, pnasize + ause))"

function computesizes_loop ::
    "nat list \<Rightarrow> nat \<Rightarrow> nat \<Rightarrow> nat \<Rightarrow> nat \<Rightarrow> nat \<Rightarrow> nat \<Rightarrow> nat \<times> nat" where
  "computesizes_loop nums narray i twotoi a na n =
    (if twotoi div 2 < narray then
       (let c = nums ! i;
            a' = (if c > 0 then a + c else a);
            upd = (c > 0 \<and> a' > twotoi div 2);
            n' = (if upd then twotoi else n);
            na' = (if upd then a' else na) in
        if a' = narray \<or> twotoi = 0 then (n', na')
        else computesizes_loop nums narray (i + 1) (twotoi * 2) a' na' n')
     else (n, na))"
  by pat_completeness auto
termination
  by (relation "measure (\<lambda>(nums, narray, i, twotoi, a, na, n). 2 * narray - twotoi)") auto

declare computesizes_loop.simps [simp del]

text \<open>The result is the new \<open>*narray\<close> and \<open>na\<close>.\<close>

definition computesizes :: "nat list \<Rightarrow> nat \<Rightarrow> nat \<times> nat" where
  "computesizes nums narray = computesizes_loop nums narray 0 1 0 0 0"

definition setarrayvector :: "Table \<Rightarrow> nat \<Rightarrow> Table" where
  "setarrayvector t sz =
    t\<lparr>arr := take sz (arr t) @ replicate (sz - sizearray t) LNil\<rparr>"

definition setnodevector :: "Table \<Rightarrow> nat \<Rightarrow> Table tres" where
  "setnodevector t sz =
    (if sz = 0 then
       Inr (t\<lparr>node := [dummynode], dummy := True, lsizenode := 0, lastfree := 0\<rparr>)
     else let lsize = nat (ceillog2 sz) in
       if lsize > MAXBITS then Inl TableOverflow
       else Inr (t\<lparr>node := replicate (2 ^ lsize) \<lparr>i_val = LNil, i_key = LNil, gnext = None\<rparr>,
                  dummy := False, lsizenode := lsize, lastfree := 2 ^ lsize\<rparr>))"

text \<open>
  \<open>luaH_set\<close>, \<open>luaH_setnum\<close> and \<open>luaH_setstr\<close> call \<open>newkey\<close>, and \<open>newkey\<close> calls
  \<open>luaH_set\<close> again after a rehash. The functions below take the \<open>newkey\<close> they call as an
  argument; \<open>newkey\<close> is tied by recursion on the depth of nested rehashes.
\<close>

type_synonym newkey_fun = "Table \<Rightarrow> TValue \<Rightarrow> (Table \<times> slot) tres"

definition luaH_set_with ::
    "newkey_fun \<Rightarrow> (ptr \<Rightarrow> u32) \<Rightarrow> Table \<Rightarrow> TValue \<Rightarrow> (Table \<times> slot) tres" where
  "luaH_set_with nk H t key = tbind (luaH_get H t key) (\<lambda>p.
     let t = t\<lparr>flags := 0\<rparr> in
     if p \<noteq> NilObject then Inr (t, p)
     else if key = LNil then Inl IndexIsNil
     else if (case key of LNumber n \<Rightarrow> luai_numisnan n | _ \<Rightarrow> False) then Inl IndexIsNaN
     else nk t key)"

definition luaH_setnum_with :: "newkey_fun \<Rightarrow> Table \<Rightarrow> int \<Rightarrow> (Table \<times> slot) tres" where
  "luaH_setnum_with nk t key = tbind (luaH_getnum t key) (\<lambda>p.
     if p \<noteq> NilObject then Inr (t, p) else nk t (LNumber (cast_num key)))"

definition luaH_setstr_with ::
    "newkey_fun \<Rightarrow> (ptr \<Rightarrow> u32) \<Rightarrow> Table \<Rightarrow> ptr \<Rightarrow> (Table \<times> slot) tres" where
  "luaH_setstr_with nk H t key = tbind (luaH_getstr H t key) (\<lambda>p.
     if p \<noteq> NilObject then Inr (t, p) else nk t (LString key))"

text \<open>Re-insertion of the vanishing slice of the array part: \<open>vs\<close> starts at C index \<open>i\<close>.\<close>

fun reinsert_array :: "newkey_fun \<Rightarrow> Table \<Rightarrow> nat \<Rightarrow> TValue list \<Rightarrow> Table tres" where
  "reinsert_array nk t i [] = Inr t"
| "reinsert_array nk t i (v # vs) =
     (if v \<noteq> LNil then
        tbind (luaH_setnum_with nk t (int i + 1)) (\<lambda>(t, p).
          reinsert_array nk (tv_write t p v) (i + 1) vs)
      else reinsert_array nk t (i + 1) vs)"

text \<open>Re-insertion of the old nodes, given in the order of the loop: from the last to the first.\<close>

fun reinsert_nodes :: "newkey_fun \<Rightarrow> (ptr \<Rightarrow> u32) \<Rightarrow> Table \<Rightarrow> Node list \<Rightarrow> Table tres" where
  "reinsert_nodes nk H t [] = Inr t"
| "reinsert_nodes nk H t (old # ns) =
     (if i_val old \<noteq> LNil then
        tbind (luaH_set_with nk H t (i_key old)) (\<lambda>(t, p).
          reinsert_nodes nk H (tv_write t p (i_val old)) ns)
      else reinsert_nodes nk H t ns)"

definition resize_with ::
    "newkey_fun \<Rightarrow> (ptr \<Rightarrow> u32) \<Rightarrow> Table \<Rightarrow> nat \<Rightarrow> nat \<Rightarrow> Table tres" where
  "resize_with nk H t nasize nhsize =
    (let oldasize = sizearray t;
         nold = node t;
         oldarr = arr t;
         t = (if nasize > oldasize then setarrayvector t nasize else t) in
     tbind (setnodevector t nhsize) (\<lambda>t.
     tbind (if nasize < oldasize
            then reinsert_array nk (t\<lparr>arr := take nasize oldarr\<rparr>) nasize (drop nasize oldarr)
            else Inr t) (\<lambda>t.
     reinsert_nodes nk H t (rev nold))))"

definition rehash_with :: "newkey_fun \<Rightarrow> (ptr \<Rightarrow> u32) \<Rightarrow> Table \<Rightarrow> TValue \<Rightarrow> Table tres" where
  "rehash_with nk H t ek =
    (let nums = replicate (MAXBITS + 1) 0;
         (nums, nasize) = numusearray t nums;
         totaluse = nasize;
         (nums, hashuse, nasize) = numusehash t nums nasize;
         totaluse = totaluse + hashuse;
         (nums, c) = countint ek nums;
         nasize = nasize + c;
         totaluse = totaluse + 1;
         (nasize, na) = computesizes nums nasize
     in resize_with nk H t nasize (totaluse - na))"

fun newkey_depth :: "nat \<Rightarrow> (ptr \<Rightarrow> u32) \<Rightarrow> newkey_fun" where
  "newkey_depth 0 H t key = Inl NoReturn"
| "newkey_depth (Suc d) H t key =
     tbind (newkey_place H t key) (\<lambda>(t, r). case r of
       Some i \<Rightarrow> Inr (t, NodeSlot i)
     | None \<Rightarrow> tbind (rehash_with (newkey_depth d H) H t key) (\<lambda>t.
         luaH_set_with (newkey_depth d H) H t key))"

text \<open>
  One rehash makes room for every key, so the depth 2 (the call itself, and the calls from
  within its rehash) is never exceeded: \<open>luaH_set_total\<close> in \<open>Table_Rehash\<close>.
\<close>

definition newkey :: "(ptr \<Rightarrow> u32) \<Rightarrow> newkey_fun" where
  "newkey H = newkey_depth 2 H"

definition luaH_set :: "(ptr \<Rightarrow> u32) \<Rightarrow> Table \<Rightarrow> TValue \<Rightarrow> (Table \<times> slot) tres" where
  "luaH_set H = luaH_set_with (newkey H) H"

definition luaH_setnum :: "(ptr \<Rightarrow> u32) \<Rightarrow> Table \<Rightarrow> int \<Rightarrow> (Table \<times> slot) tres" where
  "luaH_setnum H = luaH_setnum_with (newkey H)"

definition luaH_setstr :: "(ptr \<Rightarrow> u32) \<Rightarrow> Table \<Rightarrow> ptr \<Rightarrow> (Table \<times> slot) tres" where
  "luaH_setstr H = luaH_setstr_with (newkey H) H"

definition luaH_resizearray :: "(ptr \<Rightarrow> u32) \<Rightarrow> Table \<Rightarrow> nat \<Rightarrow> Table tres" where
  "luaH_resizearray H t nasize =
    resize_with (newkey H) H t nasize (if dummy t then 0 else sizenode t)"

section \<open>Creation\<close>

definition luaH_new :: "nat \<Rightarrow> nat \<Rightarrow> Table tres" where
  "luaH_new narray nhash =
    (let t = \<lparr>flags = NOT 0, metatable = None, lsizenode = 0, arr = [],
              node = [dummynode], dummy = True, lastfree = 0\<rparr>
     in setnodevector (setarrayvector t narray) nhash)"

text \<open>
  The callers in \<open>lapi.c\<close> and \<open>lvm.c\<close> write through the returned pointer at once:
  \<open>setobj2t(L, luaH_set(L, t, key), val)\<close>, as \<open>lua_rawset\<close> does.
\<close>

definition lua_rawset :: "(ptr \<Rightarrow> u32) \<Rightarrow> Table \<Rightarrow> TValue \<Rightarrow> TValue \<Rightarrow> Table tres" where
  "lua_rawset H t key v = tbind (luaH_set H t key) (\<lambda>(t, p). Inr (tv_write t p v))"

definition lua_rawget :: "(ptr \<Rightarrow> u32) \<Rightarrow> Table \<Rightarrow> TValue \<Rightarrow> TValue tres" where
  "lua_rawget H t key = tbind (luaH_get H t key) (\<lambda>p. Inr (tv_read t p))"

definition lua_rawseti :: "(ptr \<Rightarrow> u32) \<Rightarrow> Table \<Rightarrow> int \<Rightarrow> TValue \<Rightarrow> Table tres" where
  "lua_rawseti H t n v = tbind (luaH_setnum H t n) (\<lambda>(t, p). Inr (tv_write t p v))"

definition lua_rawgeti :: "Table \<Rightarrow> int \<Rightarrow> TValue tres" where
  "lua_rawgeti t n = tbind (luaH_getnum t n) (\<lambda>p. Inr (tv_read t p))"

section \<open>Traversal\<close>

definition findindex :: "(ptr \<Rightarrow> u32) \<Rightarrow> Table \<Rightarrow> TValue \<Rightarrow> int tres" where
  "findindex H t key =
    (if key = LNil then Inr (-1)
     else let i = arrayindex key in
       if 0 < i \<and> i \<le> int (sizearray t) then Inr (i - 1)
       else tbind (chain_search (\<lambda>n. luaO_rawequalObj (i_key n) key \<or>
                (ttype (i_key n) = 11 \<and> iscollectable key \<and> gcvalue (i_key n) = gcvalue key))
              (node t) (length (node t)) (mainposition H t key))
            (\<lambda>r. case r of Some n \<Rightarrow> Inr (int n + int (sizearray t)) | None \<Rightarrow> Inl InvalidNextKey))"

function next_array :: "TValue list \<Rightarrow> nat \<Rightarrow> nat option" where
  "next_array a i = (if i < length a then
     (if a ! i \<noteq> LNil then Some i else next_array a (i + 1)) else None)"
  by pat_completeness auto
termination by (relation "measure (\<lambda>(a, i). length a - i)") auto

function next_node :: "Table \<Rightarrow> nat \<Rightarrow> nat option" where
  "next_node t i = (if i < sizenode t then
     (if gval t i \<noteq> LNil then Some i else next_node t (i + 1)) else None)"
  by pat_completeness auto
termination by (relation "measure (\<lambda>(t, i). sizenode t - i)") auto

declare next_array.simps [simp del] next_node.simps [simp del]

text \<open>The key and value that \<open>luaH_next\<close> leaves on the stack; \<^term>\<open>None\<close> for the result 0.\<close>

definition luaH_next :: "(ptr \<Rightarrow> u32) \<Rightarrow> Table \<Rightarrow> TValue \<Rightarrow> (TValue \<times> TValue) option tres" where
  "luaH_next H t key = tbind (findindex H t key) (\<lambda>i0.
     let i = nat (i0 + 1) in
     case next_array (arr t) i of
       Some i \<Rightarrow> Inr (Some (LNumber (cast_num (int i + 1)), arr t ! i))
     | None \<Rightarrow>
        (case next_node t (max i (sizearray t) - sizearray t) of
           Some i \<Rightarrow> Inr (Some (gkey t i, gval t i))
         | None \<Rightarrow> Inr None))"

section \<open>The border of a table\<close>

text \<open>\<open>while (j - i > 1) { m = (i+j)/2; if (nil(m)) j = m; else i = m; } return i;\<close>\<close>

function binsearch :: "(nat \<Rightarrow> bool) \<Rightarrow> nat \<Rightarrow> nat \<Rightarrow> nat" where
  "binsearch absent i j = (if 1 < j - i then
     (let m = (i + j) div 2 in
      if absent m then binsearch absent i m else binsearch absent m j)
     else i)"
  by pat_completeness auto
termination by (relation "measure (\<lambda>(absent, i, j). j - i)") auto

declare binsearch.simps [simp del]

text \<open>\<open>ttisnil(luaH_getnum(t, j))\<close>; the search ends in every well-formed table.\<close>

definition num_absent :: "Table \<Rightarrow> nat \<Rightarrow> bool" where
  "num_absent t j \<longleftrightarrow> lua_rawgeti t (int j) = Inr LNil"

fun linear_search :: "Table \<Rightarrow> nat \<Rightarrow> nat \<Rightarrow> nat tres" where
  "linear_search t 0 i = Inl NoReturn"
| "linear_search t (Suc fuel) i = (if num_absent t i then Inr (i - 1) else linear_search t fuel (i + 1))"

text \<open>
  The doubling loop of \<open>unbound_search\<close>. Its \<open>j\<close> starts above 0 (\<open>j++\<close>), so it doubles
  at most 31 times before it passes \<open>MAX_INT\<close>. The linear search is bounded by the number
  of integer keys that the table can hold.
\<close>

function unbound_loop :: "Table \<Rightarrow> nat \<Rightarrow> nat \<Rightarrow> nat tres" where
  "unbound_loop t i j =
    (if \<not> num_absent t j then
       (if int (j * 2) > MAX_INT \<or> j = 0
        then linear_search t (sizearray t + sizenode t + 1) 1
        else unbound_loop t j (j * 2))
     else Inr (binsearch (num_absent t) i j))"
  by pat_completeness auto
termination
  by (relation "measure (\<lambda>(t, i, j). nat (MAX_INT - int j))") (auto simp: MAX_INT_def)

declare unbound_loop.simps [simp del]

definition unbound_search :: "Table \<Rightarrow> nat \<Rightarrow> nat tres" where
  "unbound_search t j = unbound_loop t j (j + 1)"

definition luaH_getn :: "Table \<Rightarrow> nat tres" where
  "luaH_getn t =
    (let j = sizearray t in
     if 0 < j \<and> arr t ! (j - 1) = LNil
     then Inr (binsearch (\<lambda>m. arr t ! (m - 1) = LNil) 0 j)
     else if dummy t then Inr j
     else unbound_search t j)"

end
