(* ===== verification/Table_Inv.thy ===== *)
theory Table_Inv
  imports Tables
begin

text \<open>
  The invariant of a table and the correctness of search and insertion. \<open>tab_ok\<close> states what
  the header comment of \<open>ltable.c\<close> calls the main invariant (a node whose key is not in its
  main position collides with a node that is), with what it needs to be inductive: chains are
  disjoint and end, every key is reachable from its main position, free nodes are isolated and
  lie below \<open>lastfree\<close>, no integer of the array range is in the hash part.
\<close>

unbundle bit_operations_syntax

section \<open>Main positions\<close>

lemma mainposition_cong: "lsizenode t = lsizenode t' \<Longrightarrow> mainposition H t k = mainposition H t' k"
  by (cases k) (simp_all add: mainposition_def hashnum_def hashmod_def hashpow2_def
      hashpointer_def sizenode_def)

lemma hashpow2_less:
  assumes "lsizenode t \<le> MAXBITS"
  shows "hashpow2 t n < sizenode t"
proof -
  have "word_of_nat (sizenode t) - 1 = (mask (lsizenode t) :: u32)"
    by (simp add: sizenode_def mask_eq_exp_minus_1)
  then have "hashpow2 t n = take_bit (lsizenode t) (unat n)"
    by (simp add: hashpow2_def unsigned_take_bit_eq flip: take_bit_eq_mask)
  then show ?thesis by (simp add: sizenode_def)
qed

lemma hashmod_modulus:
  "0 < (sizenode t - 1) OR 1" "(sizenode t - 1) OR 1 \<le> sizenode t"
  "sizenode t = 1 \<or> (sizenode t - 1) OR 1 < sizenode t"
proof -
  have or_1: "n OR 1 = n + of_bool (even n)" for n :: nat by (rule or_one_eq)
  have "sizenode t = 1 \<or> even (sizenode t) \<and> 0 < sizenode t"
    by (cases "lsizenode t") (simp_all add: sizenode_def)
  then show "0 < (sizenode t - 1) OR 1" "(sizenode t - 1) OR 1 \<le> sizenode t"
    "sizenode t = 1 \<or> (sizenode t - 1) OR 1 < sizenode t"
    unfolding or_1 by auto
qed

lemma hashmod_less: "hashmod t n < sizenode t"
  using mod_less_divisor [OF hashmod_modulus(1) [of t], of "unat n"] hashmod_modulus(2) [of t]
  unfolding hashmod_def by linarith

lemma mainposition_less: "lsizenode t \<le> MAXBITS \<Longrightarrow> mainposition H t k < sizenode t"
  using hashmod_less [of t] hashpow2_less [of t]
  by (cases k) (simp_all add: mainposition_def hashnum_def hashpointer_def,
      auto simp: sizenode_def)

lemma hashnum_cong:
  assumes "luai_numeq a b"
  shows "hashnum t a = hashnum t b"
proof -
  have e: "luai_numeq a (cast_num 0) \<longleftrightarrow> luai_numeq b (cast_num 0)"
    using assms by (rule luai_numeq_cong)
  have "a = b" if "\<not> luai_numeq a (cast_num 0)"
  proof (rule ccontr)
    assume "a \<noteq> b"
    with assms have "num_mag a = 0" "\<not> luai_numisnan a"
      using num_key_eq_cases by (auto simp: luai_numeq_def)
    then have "luai_numeq a (cast_num 0)"
      by (simp add: luai_numeq_def cast_num_not_nan num_key_def cast_num_fields num_bits_def)
    with that show False ..
  qed
  with e show ?thesis by (auto simp: hashnum_def)
qed

lemma mainposition_rawequal:
  "luaO_rawequalObj a b \<Longrightarrow> mainposition H t a = mainposition H t b"
  by (auto simp: rawequal_iff mainposition_def dest: hashnum_cong)

section \<open>The invariant\<close>

definition proper_key :: "TValue \<Rightarrow> bool" where
  "proper_key k \<longleftrightarrow> k \<noteq> LNil \<and> ttype k \<noteq> 11 \<and> \<not> is_nan_value k"

definition nx :: "Table \<Rightarrow> (nat \<times> nat) set" where
  "nx t = {(i, j). i < sizenode t \<and> gnext (node t ! i) = Some j}"

definition in_array :: "Table \<Rightarrow> TValue \<Rightarrow> bool" where
  "in_array t k \<longleftrightarrow> 0 < arrayindex k \<and> arrayindex k \<le> int (sizearray t)"

definition shape_ok :: "Table \<Rightarrow> bool" where
  "shape_ok t \<longleftrightarrow> length (node t) = sizenode t \<and> lsizenode t \<le> MAXBITS
     \<and> int (sizearray t) \<le> MAXASIZE
     \<and> (dummy t \<longrightarrow> lsizenode t = 0 \<and> node t = [dummynode] \<and> lastfree t \<le> 0)
     \<and> (\<not> dummy t \<longrightarrow> lastfree t \<le> int (sizenode t)
          \<and> (\<forall>i < sizenode t. lastfree t \<le> int i \<longrightarrow> gkey t i \<noteq> LNil))"

definition chains_ok :: "Table \<Rightarrow> bool" where
  "chains_ok t \<longleftrightarrow> (\<forall>i j. (i, j) \<in> nx t \<longrightarrow> j < sizenode t)
     \<and> (\<forall>i i' j. (i, j) \<in> nx t \<longrightarrow> (i', j) \<in> nx t \<longrightarrow> i = i')
     \<and> (\<exists>f :: nat \<Rightarrow> nat. \<forall>i j. (i, j) \<in> nx t \<longrightarrow> f i < f j)
     \<and> (\<forall>i < sizenode t. gkey t i = LNil \<longrightarrow>
          gval t i = LNil \<and> gnext (node t ! i) = None \<and> (\<forall>j. (j, i) \<notin> nx t))"

definition keys_ok :: "(ptr \<Rightarrow> u32) \<Rightarrow> Table \<Rightarrow> bool" where
  "keys_ok H t \<longleftrightarrow>
     (\<forall>i < sizenode t. gval t i \<noteq> LNil \<longrightarrow> proper_key (gkey t i))
     \<and> (\<forall>i < sizenode t. \<not> is_nan_value (gkey t i))
     \<and> (\<forall>i < sizenode t. proper_key (gkey t i) \<longrightarrow> \<not> in_array t (gkey t i)
          \<and> (mainposition H t (gkey t i), i) \<in> (nx t)\<^sup>*
          \<and> gkey t (mainposition H t (gkey t i)) \<noteq> LNil
          \<and> (proper_key (gkey t (mainposition H t (gkey t i))) \<longrightarrow>
               mainposition H t (gkey t (mainposition H t (gkey t i)))
               = mainposition H t (gkey t i)))
     \<and> (\<forall>i < sizenode t. \<forall>j < sizenode t. proper_key (gkey t i) \<longrightarrow>
          luaO_rawequalObj (gkey t i) (gkey t j) \<longrightarrow> i = j)"

definition tab_ok :: "(ptr \<Rightarrow> u32) \<Rightarrow> Table \<Rightarrow> bool" where
  "tab_ok H t \<longleftrightarrow> shape_ok t \<and> chains_ok t \<and> keys_ok H t"

lemma tab_okD:
  assumes "tab_ok H t"
  shows "length (node t) = sizenode t" "lsizenode t \<le> MAXBITS" "int (sizearray t) \<le> MAXASIZE"
  using assms unfolding tab_ok_def shape_ok_def by blast+

lemma tab_ok_main: "tab_ok H t \<Longrightarrow> mainposition H t k < sizenode t"
  by (intro mainposition_less tab_okD(2))

lemma sizenode_pos [simp]: "0 < sizenode t"
  by (simp add: sizenode_def)

section \<open>Searching a chain\<close>

lemma chain_search_spec:
  assumes rng: "\<And>i j. (i, j) \<in> nx t \<Longrightarrow> j < sizenode t"
    and f: "\<And>i j. (i, j) \<in> nx t \<Longrightarrow> f i < (f j :: nat)"
    and "i < sizenode t" "card {j. j < sizenode t \<and> f i \<le> f j} \<le> fuel"
  shows "(\<exists>k. chain_search P (node t) fuel i = Inr (Some k) \<and> (i, k) \<in> (nx t)\<^sup>*
           \<and> k < sizenode t \<and> P (node t ! k))
    \<or> (chain_search P (node t) fuel i = Inr None \<and> (\<forall>k. (i, k) \<in> (nx t)\<^sup>* \<longrightarrow> \<not> P (node t ! k)))"
  using assms(3,4)
proof (induction fuel arbitrary: i)
  case 0
  then have "i \<in> {j. j < sizenode t \<and> f i \<le> f j}" by simp
  moreover have "finite {j. j < sizenode t \<and> f i \<le> f j}" by simp
  ultimately show ?case using "0.prems"(2) by (metis card_0_eq empty_iff le_zero_eq)
next
  case (Suc fuel)
  consider "P (node t ! i)" | "\<not> P (node t ! i)" "gnext (node t ! i) = None"
    | j where "\<not> P (node t ! i)" "gnext (node t ! i) = Some j" by fastforce
  then show ?case
  proof cases
    case 1
    with Suc.prems have "chain_search P (node t) (Suc fuel) i = Inr (Some i)" by simp
    with 1 Suc.prems(1) show ?thesis by blast
  next
    case 2
    have "k = i" if "(i, k) \<in> (nx t)\<^sup>*" for k
      using that by (rule converse_rtranclE) (use 2 in \<open>auto simp: nx_def\<close>)
    moreover have "chain_search P (node t) (Suc fuel) i = Inr None" using 2 by simp
    ultimately show ?thesis using 2(1) by metis
  next
    case 3
    then have e: "(i, j) \<in> nx t" using Suc.prems(1) by (simp add: nx_def)
    then have j: "j < sizenode t" "f i < f j" using rng f by auto
    have "{k. k < sizenode t \<and> f j \<le> f k} \<subset> {k. k < sizenode t \<and> f i \<le> f k}"
    proof (rule psubsetI)
      show "{k. k < sizenode t \<and> f j \<le> f k} \<subseteq> {k. k < sizenode t \<and> f i \<le> f k}"
        using j(2) by auto
      have "i \<in> {k. k < sizenode t \<and> f i \<le> f k}" "i \<notin> {k. k < sizenode t \<and> f j \<le> f k}"
        using Suc.prems(1) j(2) by simp_all
      then show "{k. k < sizenode t \<and> f j \<le> f k} \<noteq> {k. k < sizenode t \<and> f i \<le> f k}"
        by blast
    qed
    then have "card {k. k < sizenode t \<and> f j \<le> f k} < card {k. k < sizenode t \<and> f i \<le> f k}"
      by (intro psubset_card_mono) auto
    then have "card {k. k < sizenode t \<and> f j \<le> f k} \<le> fuel" using Suc.prems(2) by simp
    note IH = Suc.IH [OF j(1) this]
    have un: "k = i \<or> (j, k) \<in> (nx t)\<^sup>*" if "(i, k) \<in> (nx t)\<^sup>*" for k
      using that by (rule converse_rtranclE) (use 3 in \<open>auto simp: nx_def\<close>)
    have "chain_search P (node t) (Suc fuel) i = chain_search P (node t) fuel j" using 3 by simp
    with IH show ?thesis
    proof (elim disjE exE conjE)
      fix k assume "chain_search P (node t) fuel j = Inr (Some k)" "(j, k) \<in> (nx t)\<^sup>*"
        "k < sizenode t" "P (node t ! k)"
      moreover from e this(2) have "(i, k) \<in> (nx t)\<^sup>*" by (rule converse_rtrancl_into_rtrancl)
      ultimately show ?thesis
        using \<open>chain_search P (node t) (Suc fuel) i = _\<close> by (intro disjI1 exI [of _ k]) simp
    next
      assume "chain_search P (node t) fuel j = Inr None"
        "\<forall>k. (j, k) \<in> (nx t)\<^sup>* \<longrightarrow> \<not> P (node t ! k)"
      then show ?thesis
        using \<open>chain_search P (node t) (Suc fuel) i = _\<close> 3(1) un by (intro disjI2) auto
    qed
  qed
qed

lemma chain_search_ok:
  assumes "tab_ok H t" "i < sizenode t"
  shows "(\<exists>k. chain_search P (node t) (length (node t)) i = Inr (Some k)
           \<and> (i, k) \<in> (nx t)\<^sup>* \<and> k < sizenode t \<and> P (node t ! k))
    \<or> (chain_search P (node t) (length (node t)) i = Inr None
       \<and> (\<forall>k. (i, k) \<in> (nx t)\<^sup>* \<longrightarrow> \<not> P (node t ! k)))"
proof -
  obtain f :: "nat \<Rightarrow> nat" where f: "\<And>i j. (i, j) \<in> nx t \<Longrightarrow> f i < f j"
    using assms(1) by (auto simp: tab_ok_def chains_ok_def)
  have "card {j. j < sizenode t \<and> f i \<le> f j} \<le> card {j. j < sizenode t}"
    by (intro card_mono) auto
  then have "card {j. j < sizenode t \<and> f i \<le> f j} \<le> length (node t)"
    using tab_okD(1) [OF assms(1)] by simp
  with f assms show ?thesis
    by (intro chain_search_spec [where f = f]) (auto simp: tab_ok_def chains_ok_def)
qed

lemma nx_reach_less: "(i, k) \<in> (nx t)\<^sup>* \<Longrightarrow> chains_ok t \<Longrightarrow> i < sizenode t \<Longrightarrow> k < sizenode t"
  by (induction rule: rtrancl_induct) (auto simp: chains_ok_def)

text \<open>
  The search that \<open>luaH_get\<close> makes for a key, in whichever form it tests the keys, finds the
  node with the key if there is one, and \<open>luaO_nilobject\<close> otherwise.
\<close>

lemma search_slot_ok:
  assumes ok: "tab_ok H t" and k: "proper_key k"
    and P: "\<And>n. P n \<longleftrightarrow> luaO_rawequalObj (i_key n) k"
    and mp: "mp = mainposition H t k"
  shows "(\<exists>i < sizenode t. search_slot P t mp = Inr (NodeSlot i) \<and> luaO_rawequalObj (gkey t i) k)
    \<or> (search_slot P t mp = Inr NilObject
       \<and> (\<forall>i < sizenode t. \<not> luaO_rawequalObj (gkey t i) k))"
proof -
  have mp_less: "mp < sizenode t" using tab_ok_main [OF ok] mp by simp
  have proper: "proper_key (gkey t i)" if "luaO_rawequalObj (gkey t i) k" for i
    using that k by (auto simp: rawequal_iff proper_key_def is_nan_value_def luai_numeq_def)
  have reach: "(mp, i) \<in> (nx t)\<^sup>*" if "i < sizenode t" "luaO_rawequalObj (gkey t i) k" for i
    using ok that proper mp mainposition_rawequal [OF that(2)]
    by (auto simp: tab_ok_def keys_ok_def)
  from chain_search_ok [OF ok mp_less, of P] show ?thesis
  proof (elim disjE exE conjE)
    fix i assume "chain_search P (node t) (length (node t)) mp = Inr (Some i)"
      "i < sizenode t" "P (node t ! i)"
    then show ?thesis by (auto simp: search_slot_def tbind_def P gkey_def)
  next
    assume n: "chain_search P (node t) (length (node t)) mp = Inr None"
      "\<forall>i. (mp, i) \<in> (nx t)\<^sup>* \<longrightarrow> \<not> P (node t ! i)"
    then have "\<forall>i < sizenode t. \<not> luaO_rawequalObj (gkey t i) k"
      using reach P by (auto simp: gkey_def)
    with n(1) show ?thesis by (simp add: search_slot_def tbind_def)
  qed
qed

section \<open>What a table maps a key to\<close>

text \<open>
  The location of a key: the specification of \<open>luaH_get\<close>. A key of the array range is
  located by its index, any other key by the node that holds it.
\<close>

definition located :: "Table \<Rightarrow> TValue \<Rightarrow> slot \<Rightarrow> bool" where
  "located t k s \<longleftrightarrow>
     (if in_array t k then s = ArraySlot (nat (arrayindex k - 1))
      else (\<exists>i < sizenode t. s = NodeSlot i \<and> luaO_rawequalObj (gkey t i) k)
         \<or> (s = NilObject \<and> (\<forall>i < sizenode t. \<not> luaO_rawequalObj (gkey t i) k)))"

lemma lua_number2int_range: "INT_MIN \<le> lua_number2int n" "lua_number2int n \<le> INT_MAX"
  by (auto simp: lua_number2int_def num2int_range_def INT_MIN_def INT_MAX_def split: option.splits)

lemma int_lt_2_53: "INT_MIN \<le> k \<Longrightarrow> k \<le> INT_MAX \<Longrightarrow> \<bar>k\<bar> < 2 ^ 53"
  by (auto simp: INT_MIN_def INT_MAX_def)

lemma lua_number2int_cast_num: "INT_MIN \<le> k \<Longrightarrow> k \<le> INT_MAX \<Longrightarrow> lua_number2int (cast_num k) = k"
  using num_trunc_cast_num [OF int_lt_2_53] by (simp add: lua_number2int_def num2int_range_def)

lemma arrayindex_cast_num:
  "INT_MIN \<le> k \<Longrightarrow> k \<le> INT_MAX \<Longrightarrow> arrayindex (LNumber (cast_num k)) = k"
  using cast_num_not_nan [OF int_lt_2_53]
  by (simp add: arrayindex_def lua_number2int_cast_num luai_numeq_refl)

lemma num_trunc_cong:
  assumes "luai_numeq a b"
  shows "num_trunc a = num_trunc b"
proof (cases "a = b")
  case False
  with assms have "num_mag a = 0" "num_mag b = 0"
    using num_key_eq_cases by (auto simp: luai_numeq_def)
  then show ?thesis by (simp add: num_trunc_def num_expo_def)
qed simp

lemma arrayindex_rawequal:
  assumes "luaO_rawequalObj a b"
  shows "arrayindex a = arrayindex b"
proof (cases "\<exists>x y. a = LNumber x \<and> b = LNumber y")
  case True
  then obtain x y where xy: "a = LNumber x" "b = LNumber y" by blast
  with assms have e: "luai_numeq x y" by simp
  then have "lua_number2int x = lua_number2int y"
    by (simp add: lua_number2int_def num2int_range_def num_trunc_cong)
  then show ?thesis using e luai_numeq_cong luai_numeq_sym xy by (auto simp: arrayindex_def)
next
  case False
  with assms show ?thesis by (auto simp: rawequal_iff)
qed

lemma search_slot_located:
  assumes "tab_ok H t" "proper_key k" "\<not> in_array t k"
    and "\<And>n. P n \<longleftrightarrow> luaO_rawequalObj (i_key n) k" "mp = mainposition H t k"
  shows "\<exists>s. search_slot P t mp = Inr s \<and> located t k s"
  using search_slot_ok [OF assms(1,2,4,5)] assms(3) unfolding located_def by fastforce

lemma key_test_number:
  "(case k of LNumber m \<Rightarrow> luai_numeq m x | _ \<Rightarrow> False) \<longleftrightarrow> luaO_rawequalObj k (LNumber x)"
  by (cases k) (simp_all add: rawequal_iff)

lemma key_test_string:
  "(case k of LString p \<Rightarrow> p = x | _ \<Rightarrow> False) \<longleftrightarrow> luaO_rawequalObj k (LString x)"
  by (cases k) (simp_all add: rawequal_iff)

lemma array_index_test:
  assumes "tab_ok H t" "INT_MIN \<le> k" "k \<le> INT_MAX"
  shows "(k - 1) mod 2 ^ 32 < int (sizearray t) \<longleftrightarrow> 0 < k \<and> k \<le> int (sizearray t)"
proof (cases "0 < k")
  case True
  then have "(k - 1) mod 2 ^ 32 = k - 1"
    using assms(3) by (intro mod_pos_pos_trivial) (auto simp: INT_MAX_def)
  with True show ?thesis by arith
next
  case False
  have sz: "int (sizearray t) \<le> 2 ^ 26"
    using tab_okD(3) [OF assms(1)] by (simp add: MAXASIZE_def MAXBITS_def)
  have "(k - 1 + 2 ^ 32) mod 2 ^ 32 = k - 1 + 2 ^ 32"
    using False assms(2) by (intro mod_pos_pos_trivial) (auto simp: INT_MIN_def)
  then have "(k - 1) mod 2 ^ 32 = k - 1 + 2 ^ 32" by (metis mod_add_self2)
  then show ?thesis using False sz assms(2) by (simp add: INT_MIN_def)
qed

lemma luaH_getnum_ok:
  assumes ok: "tab_ok H t" and k: "INT_MIN \<le> k" "k \<le> INT_MAX"
  shows "\<exists>s. luaH_getnum t k = Inr s \<and> located t (LNumber (cast_num k)) s"
proof (cases "in_array t (LNumber (cast_num k))")
  case True
  then show ?thesis
    using array_index_test [OF ok k] k
    by (simp add: luaH_getnum_def located_def in_array_def arrayindex_cast_num)
next
  case False
  have "\<not> luai_numisnan (cast_num k)" using k by (intro cast_num_not_nan int_lt_2_53) auto
  then have p: "proper_key (LNumber (cast_num k))" by (simp add: proper_key_def is_nan_value_def)
  have na: "\<not> (k - 1) mod 2 ^ 32 < int (sizearray t)"
    unfolding array_index_test [OF ok k]
    using False k by (simp add: in_array_def arrayindex_cast_num)
  have mp: "hashnum t (cast_num k) = mainposition H t (LNumber (cast_num k))"
    by (simp add: mainposition_def)
  show ?thesis
    using search_slot_located [OF ok p False key_test_number mp] na
    by (simp add: luaH_getnum_def Let_def)
qed

lemma luaH_getstr_ok:
  assumes "tab_ok H t"
  shows "\<exists>s. luaH_getstr H t p = Inr s \<and> located t (LString p) s"
proof -
  have "proper_key (LString p)" "\<not> in_array t (LString p)"
    by (simp_all add: proper_key_def is_nan_value_def in_array_def arrayindex_def)
  moreover have "hashpow2 t (H p) = mainposition H t (LString p)" by (simp add: mainposition_def)
  ultimately show ?thesis
    using search_slot_located [OF assms _ _ key_test_string] by (simp add: luaH_getstr_def)
qed

lemma located_rawequal:
  assumes "luaO_rawequalObj a b"
  shows "located t a = located t b"
proof -
  have "luaO_rawequalObj c a \<longleftrightarrow> luaO_rawequalObj c b" for c
    using assms rawequal_sym rawequal_trans by blast
  then show ?thesis
    using arrayindex_rawequal [OF assms] by (auto simp: located_def in_array_def fun_eq_iff)
qed

theorem luaH_get_ok:
  assumes ok: "tab_ok H t" and k: "proper_key k"
  shows "\<exists>s. luaH_get H t k = Inr s \<and> located t k s"
proof -
  have d: "\<exists>s. search_slot (\<lambda>n. luaO_rawequalObj (i_key n) k) t (mainposition H t k) = Inr s
      \<and> located t k s" if "\<not> in_array t k"
    using search_slot_located [OF ok k that] by simp
  show ?thesis
  proof (cases "\<exists>n. k = LNumber n")
    case True
    then obtain n where n: "k = LNumber n" by blast
    let ?i = "lua_number2int n"
    show ?thesis
    proof (cases "luai_numeq (cast_num ?i) n")
      case False
      then have "\<not> in_array t k" by (simp add: n in_array_def arrayindex_def)
      with d False n show ?thesis by (simp add: luaH_get_def Let_def)
    next
      case True
      then have "luaO_rawequalObj (LNumber (cast_num ?i)) k" by (simp add: n)
      from located_rawequal [OF this] luaH_getnum_ok [OF ok lua_number2int_range [of n]] True n
      show ?thesis by (simp add: luaH_get_def Let_def)
    qed
  next
    case False
    then have "\<not> in_array t k" by (cases k) (simp_all add: in_array_def arrayindex_def)
    with d luaH_getstr_ok [OF ok] False k show ?thesis
      by (cases k) (simp_all add: luaH_get_def proper_key_def)
  qed
qed

end
