(* ===== verification/Table_Insert.thy ===== *)
theory Table_Insert
  imports Table_Inv
begin

text \<open>
  Insertion of a new key (\<open>newkey\<close> of \<open>ltable.c\<close>): each of its three cases (a free main
  position, a collision with a key in its own main position, a collision with a key out of
  it) keeps the invariant, stores the key in an empty node and loses no entry.
\<close>

unbundle bit_operations_syntax

section \<open>Placing a new key\<close>

text \<open>The live entries of the hash part.\<close>

definition entries :: "Table \<Rightarrow> (TValue \<times> TValue) set" where
  "entries t = {(gkey t i, gval t i) |i. i < sizenode t \<and> gval t i \<noteq> LNil}"

definition used_nodes :: "Table \<Rightarrow> nat set" where
  "used_nodes t = {i. i < sizenode t \<and> gkey t i \<noteq> LNil}"

text \<open>What placing a key in node \<open>n\<close> promises.\<close>

definition placed :: "(ptr \<Rightarrow> u32) \<Rightarrow> Table \<Rightarrow> TValue \<Rightarrow> Table \<Rightarrow> nat \<Rightarrow> bool" where
  "placed H t key t' n \<longleftrightarrow> tab_ok H t' \<and> n < sizenode t' \<and> gkey t' n = key \<and> gval t' n = LNil
     \<and> arr t' = arr t \<and> lsizenode t' = lsizenode t \<and> dummy t' = dummy t
     \<and> flags t' = flags t \<and> metatable t' = metatable t
     \<and> entries t' = entries t \<and> card (used_nodes t') \<le> Suc (card (used_nodes t))"

lemma rtrancl_image:
  assumes "(x, y) \<in> R\<^sup>*" "\<And>a b. (a, b) \<in> R \<Longrightarrow> (\<sigma> a, \<sigma> b) \<in> R'\<^sup>*"
  shows "(\<sigma> x, \<sigma> y) \<in> R'\<^sup>*"
  using assms(1) by (induction rule: rtrancl_induct) (auto dest: assms(2) intro: rtrancl_trans)

lemma finite_used [simp]: "finite (used_nodes t)"
  by (simp add: used_nodes_def)

lemma card_used_insert:
  "used_nodes t' \<subseteq> insert n (used_nodes t) \<Longrightarrow> card (used_nodes t') \<le> Suc (card (used_nodes t))"
  by (metis card_insert_if card_mono finite_insert finite_used le_SucI le_trans order_refl)

lemma nx_irrefl: "tab_ok H t \<Longrightarrow> (i, i) \<notin> nx t"
  by (auto simp: tab_ok_def chains_ok_def)

text \<open>Two tables that differ in nodes only have the same sizes and main positions.\<close>

definition same_frame :: "Table \<Rightarrow> Table \<Rightarrow> bool" where
  "same_frame u t \<longleftrightarrow> arr u = arr t \<and> lsizenode u = lsizenode t \<and> dummy u = dummy t
     \<and> flags u = flags t \<and> metatable u = metatable t \<and> length (node u) = length (node t)"

lemma same_frameD:
  assumes "same_frame u t"
  shows "sizenode u = sizenode t" "arr u = arr t" "in_array u = in_array t"
    "mainposition H u = mainposition H t" "sizearray u = sizearray t"
  using assms by (auto simp: same_frame_def sizenode_def in_array_def sizearray_def fun_eq_iff
      intro: mainposition_cong)

lemma keys_okI:
  assumes "\<And>i. i < sizenode t \<Longrightarrow> gval t i \<noteq> LNil \<Longrightarrow> proper_key (gkey t i)"
    and "\<And>i. i < sizenode t \<Longrightarrow> \<not> is_nan_value (gkey t i)"
    and "\<And>i. i < sizenode t \<Longrightarrow> proper_key (gkey t i) \<Longrightarrow> \<not> in_array t (gkey t i)"
    and "\<And>i m. i < sizenode t \<Longrightarrow> proper_key (gkey t i) \<Longrightarrow> m = mainposition H t (gkey t i) \<Longrightarrow>
      (m, i) \<in> (nx t)\<^sup>* \<and> gkey t m \<noteq> LNil \<and> (proper_key (gkey t m) \<longrightarrow> mainposition H t (gkey t m) = m)"
    and "\<And>i j. i < sizenode t \<Longrightarrow> j < sizenode t \<Longrightarrow> proper_key (gkey t i) \<Longrightarrow>
      luaO_rawequalObj (gkey t i) (gkey t j) \<Longrightarrow> i = j"
  shows "keys_ok H t"
  unfolding keys_ok_def using assms by blast

lemma keys_okD:
  assumes "tab_ok H t" "i < sizenode t"
  shows "gval t i \<noteq> LNil \<Longrightarrow> proper_key (gkey t i)" "\<not> is_nan_value (gkey t i)"
    "proper_key (gkey t i) \<Longrightarrow> \<not> in_array t (gkey t i)"
    "proper_key (gkey t i) \<Longrightarrow> (mainposition H t (gkey t i), i) \<in> (nx t)\<^sup>*"
    "proper_key (gkey t i) \<Longrightarrow> gkey t (mainposition H t (gkey t i)) \<noteq> LNil"
    "proper_key (gkey t i) \<Longrightarrow> proper_key (gkey t (mainposition H t (gkey t i))) \<Longrightarrow>
      mainposition H t (gkey t (mainposition H t (gkey t i))) = mainposition H t (gkey t i)"
    "proper_key (gkey t i) \<Longrightarrow> luaO_rawequalObj (gkey t i) (gkey t j) \<Longrightarrow> j < sizenode t \<Longrightarrow> i = j"
  using assms unfolding tab_ok_def keys_ok_def by blast+

text \<open>The case of a main position whose node holds no value.\<close>

lemma place_main:
  assumes ok: "tab_ok H t" and key: "proper_key key" "\<not> in_array t key"
    and absent: "\<And>i. i < sizenode t \<Longrightarrow> \<not> luaO_rawequalObj (gkey t i) key"
    and mp: "mp = mainposition H t key" and free: "gval t mp = LNil" "\<not> dummy t"
    and u: "u = t\<lparr>node := (node t)[mp := (node t ! mp)\<lparr>i_key := key\<rparr>]\<rparr>"
  shows "placed H t key u mp"
proof -
  have mpS: "mp < sizenode t" and len: "length (node t) = sizenode t"
    using tab_ok_main [OF ok] tab_okD(1) [OF ok] mp by auto
  have fr: "same_frame u t" by (simp add: u same_frame_def)
  note S [simp] = same_frameD [OF fr]
  have K: "gkey u i = (if i = mp then key else gkey t i)" if "i < sizenode t" for i
    using that len mpS by (auto simp: u gkey_def nth_list_update)
  have V: "gval u i = gval t i" if "i < sizenode t" for i
    using that len mpS by (auto simp: u gval_def nth_list_update)
  have N: "gnext (node u ! i) = gnext (node t ! i)" if "i < sizenode t" for i
    using that len mpS by (auto simp: u nth_list_update)
  have nx: "nx u = nx t" by (auto simp: nx_def N)
  have keyn: "key \<noteq> LNil" using key by (simp add: proper_key_def)
  have "lastfree u = lastfree t" by (simp add: u)
  then have "shape_ok u"
    using ok free K keyn len fr by (auto simp: tab_ok_def shape_ok_def same_frame_def)
  moreover have "chains_ok u"
    using ok K V N keyn unfolding tab_ok_def chains_ok_def nx by (auto split: if_splits)
  moreover have "keys_ok H u"
  proof (rule keys_okI, goal_cases)
    case (1 i) then show ?case using keys_okD(1) [OF ok] V K free by auto
  next
    case (2 i) then show ?case using keys_okD(2) [OF ok] K key by (auto simp: proper_key_def)
  next
    case (3 i) then show ?case using keys_okD(3) [OF ok] K key by (auto split: if_splits)
  next
    case (4 i m)
    then have "m < sizenode t" using tab_ok_main [OF ok] by simp
    with 4 show ?case using keys_okD(4,5,6) [OF ok, of i] K [of i] K [of m] nx mp keyn
      by (auto split: if_splits)
  next
    case (5 i j)
    then show ?case using keys_okD(7) [OF ok, of i j] K absent rawequal_sym
      by (auto split: if_splits)
  qed
  moreover have "entries u = entries t" unfolding entries_def
    using K V free by auto (metis V)+
  moreover have "card (used_nodes u) \<le> Suc (card (used_nodes t))"
    by (rule card_used_insert [of _ mp]) (auto simp: used_nodes_def K split: if_splits)
  ultimately show ?thesis using mpS K V free fr
    by (simp add: placed_def tab_ok_def same_frame_def)
qed

text \<open>The collision with a key in its own main position: the new node enters its chain.\<close>

lemma place_chain:
  assumes ok: "tab_ok H t" and key: "proper_key key" "\<not> in_array t key"
    and absent: "\<And>i. i < sizenode t \<Longrightarrow> \<not> luaO_rawequalObj (gkey t i) key"
    and mp: "mp = mainposition H t key"
    and own: "proper_key (gkey t mp)" "mainposition H t (gkey t mp) = mp"
    and n: "n < sizenode t" "gkey t n = LNil" and nd: "\<not> dummy t"
    and above: "\<And>i. n < i \<Longrightarrow> i < sizenode t \<Longrightarrow> gkey t i \<noteq> LNil"
    and u: "same_frame u t" "lastfree u = int n"
      "node u = (node t)[n := (node t ! n)\<lparr>gnext := gnext (node t ! mp), i_key := key\<rparr>,
        mp := (node t ! mp)\<lparr>gnext := Some n\<rparr>]"
  shows "placed H t key u n"
proof -
  have mpS: "mp < sizenode t" and len: "length (node t) = sizenode t"
    using tab_ok_main [OF ok] tab_okD(1) [OF ok] mp by auto
  have ne: "n \<noteq> mp" using own(1) n(2) by (auto simp: proper_key_def)
  note S [simp] = same_frameD [OF u(1)]
  have K: "gkey u i = (if i = n then key else gkey t i)" if "i < sizenode t" for i
    using that len ne mpS n(1) by (auto simp: u(3) gkey_def nth_list_update)
  have V: "gval u i = gval t i" if "i < sizenode t" for i
    using that len ne mpS n(1) by (auto simp: u(3) gval_def nth_list_update)
  have N: "gnext (node u ! i) = (if i = mp then Some n else if i = n then gnext (node t ! mp)
      else gnext (node t ! i))" if "i < sizenode t" for i
    using that len ne mpS n(1) by (auto simp: u(3) nth_list_update)
  have keyn: "key \<noteq> LNil" using key by (simp add: proper_key_def)
  have free: "gval t n = LNil" "gnext (node t ! n) = None" "\<And>j. (j, n) \<notin> nx t"
    using ok n by (auto simp: tab_ok_def chains_ok_def)
  have nx: "(i, j) \<in> nx u \<longleftrightarrow> (i = mp \<and> j = n) \<or> (i = n \<and> (mp, j) \<in> nx t)
      \<or> (i \<noteq> mp \<and> i \<noteq> n \<and> (i, j) \<in> nx t)" for i j
    using N [of i] mpS n(1) ne by (auto simp: nx_def)
  have sub: "(a, b) \<in> (nx u)\<^sup>*" if "(a, b) \<in> nx t" for a b
  proof (cases "a = mp")
    case True
    with that have "(mp, n) \<in> nx u" "(n, b) \<in> nx u" using nx ne by auto
    with True show ?thesis by (meson converse_rtrancl_into_rtrancl r_into_rtrancl)
  next
    case False
    with that free(2) have "a \<noteq> n" by (auto simp: nx_def)
    with False that have "(a, b) \<in> nx u" using nx by auto
    then show ?thesis by blast
  qed
  have reach: "(a, b) \<in> (nx t)\<^sup>* \<Longrightarrow> (a, b) \<in> (nx u)\<^sup>*" for a b
    using rtrancl_image [of a b "nx t" id "nx u"] sub by simp
  have "shape_ok u"
    using ok nd K keyn len above n u(1,2) by (auto simp: tab_ok_def shape_ok_def same_frame_def)
  moreover have "chains_ok u"
  proof -
    obtain f :: "nat \<Rightarrow> nat" where f: "\<And>i j. (i, j) \<in> nx t \<Longrightarrow> f i < f j"
      using ok by (auto simp: tab_ok_def chains_ok_def)
    define g where "g i = (if i = n then 2 * f mp + 1 else 2 * f i)" for i
    have "g i < g j" if "(i, j) \<in> nx u" for i j
      using that f [of mp j] f [of i j] free(3) ne unfolding nx g_def by (auto split: if_splits)
    moreover have "j < sizenode u" if "(i, j) \<in> nx u" for i j
      using that ok n(1) unfolding nx by (auto simp: tab_ok_def chains_ok_def)
    moreover have "i = i'" if "(i, j) \<in> nx u" "(i', j) \<in> nx u" for i i' j
      using that ok free(3) unfolding nx by (auto simp: tab_ok_def chains_ok_def)
    moreover have "gval u i = LNil \<and> gnext (node u ! i) = None \<and> (\<forall>j. (j, i) \<notin> nx u)"
      if "i < sizenode u" "gkey u i = LNil" for i
    proof -
      have i: "i \<noteq> n" "i \<noteq> mp" "gkey t i = LNil" "i < sizenode t"
        using that K [of i] keyn own by (auto simp: proper_key_def split: if_splits)
      with ok have "gval t i = LNil" "gnext (node t ! i) = None" "\<And>j. (j, i) \<notin> nx t"
        by (auto simp: tab_ok_def chains_ok_def)
      with i show ?thesis by (simp add: V N nx)
    qed
    ultimately show ?thesis unfolding chains_ok_def by blast
  qed
  moreover have "keys_ok H u"
  proof -
    have facts1: "(mp, n) \<in> (nx u)\<^sup>*" using nx by blast
    have facts2: "mainposition H t (gkey t i) \<noteq> n" if "i < sizenode t" "proper_key (gkey t i)" for i
      using keys_okD(5) [OF ok that] n by auto
    show ?thesis
    proof (rule keys_okI, goal_cases)
      case (1 i) then show ?case using keys_okD(1) [OF ok] V K free by auto
    next
      case (2 i) then show ?case using keys_okD(2) [OF ok] K key by (auto simp: proper_key_def)
    next
      case (3 i) then show ?case using keys_okD(3) [OF ok] K key by (auto split: if_splits)
    next
      case (4 i m)
      then have m: "m < sizenode t" using tab_ok_main [OF ok] by simp
      show ?case
      proof (cases "i = n")
        case True
        with 4 K [of n] n have "m = mp" using mp by simp
        with True K [OF mpS] ne own facts1 show ?thesis by (simp add: proper_key_def)
      next
        case False
        with 4 K [of i] have i: "i < sizenode t" "proper_key (gkey t i)"
          "m = mainposition H t (gkey t i)" by simp_all
        then have "m \<noteq> n" using facts2 by blast
        with K [OF m] i show ?thesis using keys_okD(4,5,6) [OF ok i(1,2)] reach by simp
      qed
    next
      case (5 i j)
      then show ?case using keys_okD(7) [OF ok, of i j] K absent rawequal_sym
        by (auto split: if_splits)
    qed
  qed
  moreover have "entries u = entries t" unfolding entries_def
    using K V free by auto (metis V)+
  moreover have "card (used_nodes u) \<le> Suc (card (used_nodes t))"
    by (rule card_used_insert [of _ n]) (auto simp: used_nodes_def K split: if_splits)
  ultimately show ?thesis using n K V free u(1)
    by (simp add: placed_def tab_ok_def same_frame_def)
qed

text \<open>
  The collision with a key out of its main position: that key moves to the free node, and
  every chain that went through its old node goes through the new one.
\<close>

lemma place_move:
  assumes ok: "tab_ok H t" and key: "proper_key key" "\<not> in_array t key"
    and absent: "\<And>i. i < sizenode t \<Longrightarrow> \<not> luaO_rawequalObj (gkey t i) key"
    and mp: "mp = mainposition H t key"
    and other: "gval t mp \<noteq> LNil" "mainposition H t (gkey t mp) \<noteq> mp"
    and n: "n < sizenode t" "gkey t n = LNil" and nd: "\<not> dummy t"
    and above: "\<And>i. n < i \<Longrightarrow> i < sizenode t \<Longrightarrow> gkey t i \<noteq> LNil"
    and prev: "(prev, mp) \<in> nx t"
    and u: "same_frame u t" "lastfree u = int n"
      "node u = (node t)[prev := (node t ! prev)\<lparr>gnext := Some n\<rparr>, n := node t ! mp,
        mp := (node t ! mp)\<lparr>gnext := None, i_val := LNil, i_key := key\<rparr>]"
  shows "placed H t key u mp"
proof -
  have mpS: "mp < sizenode t" and len: "length (node t) = sizenode t"
    using tab_ok_main [OF ok] tab_okD(1) [OF ok] mp by auto
  have pm: "proper_key (gkey t mp)" using keys_okD(1) [OF ok mpS] other(1) .
  have free: "gval t n = LNil" "gnext (node t ! n) = None" "\<And>j. (j, n) \<notin> nx t"
    using ok n by (auto simp: tab_ok_def chains_ok_def)
  have prevS: "prev < sizenode t" using prev by (simp add: nx_def)
  obtain f :: "nat \<Rightarrow> nat" where f: "\<And>i j. (i, j) \<in> nx t \<Longrightarrow> f i < f j"
    using ok by (auto simp: tab_ok_def chains_ok_def)
  have ne: "n \<noteq> mp" "prev \<noteq> mp" "prev \<noteq> n"
    using pm n(2) f [OF prev] prev free(2) by (auto simp: proper_key_def nx_def)
  note S [simp] = same_frameD [OF u(1)]
  define \<sigma> where "\<sigma> i = (if i = mp then n else i)" for i
  have K: "gkey u i = (if i = mp then key else if i = n then gkey t mp else gkey t i)"
    if "i < sizenode t" for i
    using that len ne mpS prevS n(1) by (auto simp: u(3) gkey_def nth_list_update)
  have V: "gval u i = (if i = mp then LNil else if i = n then gval t mp else gval t i)"
    if "i < sizenode t" for i
    using that len ne mpS prevS n(1) by (auto simp: u(3) gval_def nth_list_update)
  have N: "gnext (node u ! i) = (if i = mp then None else if i = n then gnext (node t ! mp)
      else if i = prev then Some n else gnext (node t ! i))" if "i < sizenode t" for i
    using that len ne mpS prevS n(1) by (auto simp: u(3) nth_list_update)
  have keyn: "key \<noteq> LNil" using key by (simp add: proper_key_def)
  have inj: "i = i'" if "(i, j) \<in> nx t" "(i', j) \<in> nx t" for i i' j
    using ok that by (auto simp: tab_ok_def chains_ok_def)
  have nx: "(i, j) \<in> nx u \<longleftrightarrow> (i = prev \<and> j = n) \<or> (i = n \<and> (mp, j) \<in> nx t)
      \<or> (i \<noteq> mp \<and> i \<noteq> n \<and> i \<noteq> prev \<and> (i, j) \<in> nx t)" for i j
    using N [of i] mpS n(1) ne prevS by (auto simp: nx_def)
  have sub: "(\<sigma> a, \<sigma> b) \<in> (nx u)\<^sup>*" if "(a, b) \<in> nx t" for a b
  proof -
    have "b = mp \<longleftrightarrow> a = prev"
      using that prev inj by (auto simp: nx_def)
    moreover have "a \<noteq> n" using that free(2) by (auto simp: nx_def)
    ultimately have "(\<sigma> a, \<sigma> b) \<in> nx u"
      using that ne unfolding nx \<sigma>_def by auto
    then show ?thesis by blast
  qed
  have reach: "(a, b) \<in> (nx t)\<^sup>* \<Longrightarrow> (\<sigma> a, \<sigma> b) \<in> (nx u)\<^sup>*" for a b
    using rtrancl_image [of a b "nx t" \<sigma> "nx u"] sub by simp
  have nomain: "mainposition H t (gkey t i) \<noteq> mp \<and> mainposition H t (gkey t i) \<noteq> n"
    if "i < sizenode t" "proper_key (gkey t i)" for i
    using keys_okD(5,6) [OF ok that] pm other(2) n(2) by auto
  have "shape_ok u"
    using ok nd K keyn len above n u(1,2) pm
    by (auto simp: tab_ok_def shape_ok_def same_frame_def proper_key_def)
  moreover have "chains_ok u"
  proof -
    define g where "g i = (if i = n then f mp else f i)" for i
    have "g i < g j" if "(i, j) \<in> nx u" for i j
      using that f [of prev mp] f [of mp j] f [of i j] prev free(3) ne
      unfolding nx g_def by (auto split: if_splits)
    moreover have "j < sizenode u" if "(i, j) \<in> nx u" for i j
      using that ok n(1) unfolding nx by (auto simp: tab_ok_def chains_ok_def)
    moreover have "i = i'" if "(i, j) \<in> nx u" "(i', j) \<in> nx u" for i i' j
      using that inj free(3) unfolding nx by blast
    moreover have "gval u i = LNil \<and> gnext (node u ! i) = None \<and> (\<forall>j. (j, i) \<notin> nx u)"
      if "i < sizenode u" "gkey u i = LNil" for i
    proof -
      have i: "i \<noteq> n" "i \<noteq> mp" "gkey t i = LNil" "i < sizenode t"
        using that K [of i] keyn pm by (auto simp: proper_key_def split: if_splits)
      with ok have t: "gval t i = LNil" "gnext (node t ! i) = None" "\<And>j. (j, i) \<notin> nx t"
        by (auto simp: tab_ok_def chains_ok_def)
      then have "i \<noteq> prev" using prev by (auto simp: nx_def)
      with i t show ?thesis by (simp add: V N nx)
    qed
    ultimately show ?thesis unfolding chains_ok_def by blast
  qed
  moreover have "keys_ok H u"
  proof (rule keys_okI, goal_cases)
    case (1 i) then show ?case using keys_okD(1) [OF ok] V K pm by (auto split: if_splits)
  next
    case (2 i) then show ?case using keys_okD(2) [OF ok] K key mpS by (auto simp: proper_key_def)
  next
    case (3 i) then show ?case using keys_okD(3) [OF ok] K key mpS by (auto split: if_splits)
  next
    case (4 i m)
    then have m: "m < sizenode t" using tab_ok_main [OF ok] by simp
    show ?case
    proof (cases "i = mp")
      case True
      with 4 K [of mp] mpS mp have "m = mp" by simp
      with True K [OF mpS] keyn mp show ?thesis by simp
    next
      case False
      define i' where "i' = (if i = n then mp else i)"
      from False 4 K [of i] n(1) have i: "i' < sizenode t" "proper_key (gkey t i')"
        "m = mainposition H t (gkey t i')" and si: "\<sigma> i' = i"
        using mpS ne by (auto simp: i'_def \<sigma>_def split: if_splits)
      with nomain have "m \<noteq> mp" "m \<noteq> n" by auto
      with K [OF m] i si show ?thesis
        using keys_okD(4,5,6) [OF ok i(1,2)] reach [of m i'] by (simp add: \<sigma>_def)
    qed
  next
    case (5 i j)
    define i' j' where "i' = (if i = n then mp else i)" and "j' = (if j = n then mp else j)"
    show ?case
    proof (cases "i = mp \<or> j = mp")
      case True
      then show ?thesis using 5 K absent [of i'] absent [of j'] rawequal_sym mpS
        by (auto simp: i'_def j'_def split: if_splits)
    next
      case False
      then have "gkey u i = gkey t i'" "gkey u j = gkey t j'"
        using 5 K by (auto simp: i'_def j'_def)
      with 5 have "i' = j'" using keys_okD(7) [OF ok, of i' j'] mpS
        by (auto simp: i'_def j'_def split: if_splits)
      with False show ?thesis by (auto simp: i'_def j'_def split: if_splits)
    qed
  qed
  moreover have "entries u = entries t"
  proof (rule set_eqI, rule iffI)
    fix e assume "e \<in> entries u"
    then obtain i where i: "i < sizenode t" "e = (gkey u i, gval u i)" "gval u i \<noteq> LNil"
      by (auto simp: entries_def)
    then show "e \<in> entries t" using K [of i] V [of i] mpS
      by (auto simp: entries_def split: if_splits)
  next
    fix e assume "e \<in> entries t"
    then obtain i where i: "i < sizenode t" "e = (gkey t i, gval t i)" "gval t i \<noteq> LNil"
      by (auto simp: entries_def)
    with free(1) have "\<sigma> i < sizenode t" "e = (gkey u (\<sigma> i), gval u (\<sigma> i))" "gval u (\<sigma> i) \<noteq> LNil"
      using K [of "\<sigma> i"] V [of "\<sigma> i"] n(1) ne by (auto simp: \<sigma>_def)
    then show "e \<in> entries u" by (auto simp: entries_def)
  qed
  moreover have "card (used_nodes u) \<le> Suc (card (used_nodes t))"
    by (rule card_used_insert [of _ n]) (use mpS pm in
      \<open>auto simp: used_nodes_def K proper_key_def split: if_splits\<close>)
  ultimately show ?thesis using mpS K V u(1)
    by (simp add: placed_def tab_ok_def same_frame_def)
qed

section \<open>The free node and the predecessor\<close>

lemma getfreepos_loop_spec:
  "(case getfreepos_loop ns lf of
      (lf', Some n) \<Rightarrow> lf' = int n \<and> int n < lf \<and> i_key (ns ! n) = LNil
        \<and> (\<forall>i. n < i \<longrightarrow> int i < lf \<longrightarrow> i_key (ns ! i) \<noteq> LNil)
    | (lf', None) \<Rightarrow> lf' < 0 \<or> lf' < lf \<and> lf \<le> 0) \<and>
   (snd (getfreepos_loop ns lf) = None \<longrightarrow> (\<forall>i. int i < lf \<longrightarrow> i_key (ns ! i) \<noteq> LNil))"
proof (induction ns lf rule: getfreepos_loop.induct)
  case (1 ns lf)
  show ?case
  proof (cases "0 < lf \<and> i_key (ns ! nat (lf - 1)) \<noteq> LNil")
    case True
    then have e: "getfreepos_loop ns lf = getfreepos_loop ns (lf - 1)"
      by (subst getfreepos_loop.simps) simp
    have last: "i_key (ns ! i) \<noteq> LNil" if "int i < lf" "\<not> int i < lf - 1" for i
    proof -
      from that have "i = nat (lf - 1)" by linarith
      with True show ?thesis by simp
    qed
    show ?thesis
      using "1.IH" True last unfolding e
      by (fastforce split: prod.splits option.splits)
  next
    case False
    then show ?thesis by (subst (1 2) getfreepos_loop.simps) auto
  qed
qed

lemma find_previous_spec:
  assumes rng: "\<And>i j. (i, j) \<in> nx t \<Longrightarrow> j < sizenode t"
    and f: "\<And>i j. (i, j) \<in> nx t \<Longrightarrow> f i < (f j :: nat)"
    and "i < sizenode t" "(i, mp) \<in> (nx t)\<^sup>+" "card {j. j < sizenode t \<and> f i \<le> f j} \<le> fuel"
  shows "\<exists>p. find_previous (node t) mp fuel i = Inr p \<and> (p, mp) \<in> nx t"
  using assms(3-)
proof (induction fuel arbitrary: i)
  case 0
  then have "i \<in> {j. j < sizenode t \<and> f i \<le> f j}" by simp
  moreover have "finite {j. j < sizenode t \<and> f i \<le> f j}" by simp
  ultimately show ?case using "0.prems"(3) by (metis card_0_eq empty_iff le_zero_eq)
next
  case (Suc fuel)
  obtain j where e: "(i, j) \<in> nx t" and "(j, mp) \<in> (nx t)\<^sup>*"
    using tranclD [OF Suc.prems(2)] by blast
  then have r: "j = mp \<or> (j, mp) \<in> (nx t)\<^sup>+" by (auto simp: rtrancl_eq_or_trancl)
  from e have g: "gnext (node t ! i) = Some j" by (simp add: nx_def)
  show ?case
  proof (cases "j = mp")
    case True
    with e g show ?thesis by simp
  next
    case False
    have j: "j < sizenode t" "f i < f j" using rng f e by auto
    have "{k. k < sizenode t \<and> f j \<le> f k} \<subseteq> {k. k < sizenode t \<and> f i \<le> f k} - {i}"
      using j(2) by auto
    then have "card {k. k < sizenode t \<and> f j \<le> f k}
        \<le> card ({k. k < sizenode t \<and> f i \<le> f k} - {i})"
      by (intro card_mono) auto
    then have "card {k. k < sizenode t \<and> f j \<le> f k} \<le> fuel"
      using Suc.prems(1,3) by (simp add: card_Diff_singleton)
    with Suc.IH j(1) r False g show ?thesis by simp
  qed
qed

lemma find_previous_ok:
  assumes "tab_ok H t" "i < sizenode t" "(i, mp) \<in> (nx t)\<^sup>+"
  shows "\<exists>p. find_previous (node t) mp (length (node t)) i = Inr p \<and> (p, mp) \<in> nx t"
proof -
  obtain f :: "nat \<Rightarrow> nat" where f: "\<And>i j. (i, j) \<in> nx t \<Longrightarrow> f i < f j"
    using assms(1) by (auto simp: tab_ok_def chains_ok_def)
  have "card {j. j < sizenode t \<and> f i \<le> f j} \<le> card {j. j < sizenode t}"
    by (intro card_mono) auto
  then have "card {j. j < sizenode t \<and> f i \<le> f j} \<le> length (node t)"
    using tab_okD(1) [OF assms(1)] by simp
  with f assms show ?thesis
    by (intro find_previous_spec [where f = f]) (auto simp: tab_ok_def chains_ok_def)
qed

lemma lastfree_frame [simp]:
  "gkey (t\<lparr>lastfree := x\<rparr>) = gkey t" "gval (t\<lparr>lastfree := x\<rparr>) = gval t"
  "sizenode (t\<lparr>lastfree := x\<rparr>) = sizenode t" "sizearray (t\<lparr>lastfree := x\<rparr>) = sizearray t"
  "in_array (t\<lparr>lastfree := x\<rparr>) = in_array t" "nx (t\<lparr>lastfree := x\<rparr>) = nx t"
  "mainposition H (t\<lparr>lastfree := x\<rparr>) = mainposition H t"
  by (auto simp: gkey_def gval_def sizenode_def sizearray_def in_array_def nx_def fun_eq_iff
      intro: mainposition_cong)

text \<open>\<open>getfreepos\<close> in a table that keeps the invariant.\<close>

lemma getfreepos_ok:
  assumes ok: "tab_ok H t"
  obtains (full) lf where "getfreepos t = (t\<lparr>lastfree := lf\<rparr>, None)" "tab_ok H (t\<lparr>lastfree := lf\<rparr>)"
      "dummy t \<or> (\<forall>i < sizenode t. gkey t i \<noteq> LNil)"
  | (found) n where "getfreepos t = (t\<lparr>lastfree := int n\<rparr>, Some n)" "n < sizenode t"
      "gkey t n = LNil" "\<And>i. n < i \<Longrightarrow> i < sizenode t \<Longrightarrow> gkey t i \<noteq> LNil" "\<not> dummy t"
proof -
  obtain lf r where e: "getfreepos_loop (node t) (lastfree t) = (lf, r)" by fastforce
  note s = getfreepos_loop_spec [where ns = "node t" and lf = "lastfree t", unfolded e, simplified]
  have sh: "dummy t \<Longrightarrow> lastfree t \<le> 0" "\<not> dummy t \<Longrightarrow> lastfree t \<le> int (sizenode t)"
    "\<And>i. \<not> dummy t \<Longrightarrow> i < sizenode t \<Longrightarrow> lastfree t \<le> int i \<Longrightarrow> gkey t i \<noteq> LNil"
    using ok by (auto simp: tab_ok_def shape_ok_def)
  show thesis
  proof (cases r)
    case None
    have all: "dummy t \<or> (\<forall>i < sizenode t. gkey t i \<noteq> LNil)"
      using s None sh(3) by (auto simp: gkey_def not_less [symmetric])
    have "lf \<le> 0" using s None by auto
    then have "shape_ok (t\<lparr>lastfree := lf\<rparr>)"
      using ok all by (auto simp: tab_ok_def shape_ok_def)
    then have "tab_ok H (t\<lparr>lastfree := lf\<rparr>)"
      using ok by (simp add: tab_ok_def chains_ok_def keys_ok_def)
    with all show thesis using None e by (intro full) (simp_all add: getfreepos_def)
  next
    case (Some n)
    with s have n: "lf = int n" "int n < lastfree t" "gkey t n = LNil"
      "\<And>i. n < i \<Longrightarrow> int i < lastfree t \<Longrightarrow> gkey t i \<noteq> LNil" by (auto simp: gkey_def)
    then have "\<not> dummy t" using sh(1) by auto
    with n sh(2,3) show thesis using Some e
      by (intro found [of n]) (auto simp: getfreepos_def not_less [symmetric])
  qed
qed

text \<open>
  The key is placed, unless every node holds a key; then the table is unchanged but for
  \<open>lastfree\<close>.
\<close>

lemma newkey_place_ok:
  assumes ok: "tab_ok H t" and k: "proper_key key" "located t key NilObject"
  obtains (full) lf where "newkey_place H t key = Inr (t\<lparr>lastfree := lf\<rparr>, None)"
      "tab_ok H (t\<lparr>lastfree := lf\<rparr>)" "dummy t \<or> (\<forall>i < sizenode t. gkey t i \<noteq> LNil)"
  | (placed) u n where "newkey_place H t key = Inr (u, Some n)" "placed H t key u n"
proof -
  have key: "proper_key key" "\<not> in_array t key"
    and absent: "\<And>i. i < sizenode t \<Longrightarrow> \<not> luaO_rawequalObj (gkey t i) key"
    using k by (auto simp: located_def split: if_splits)
  define mp where mp: "mp = mainposition H t key"
  have mpS: "mp < sizenode t" and len: "length (node t) = sizenode t"
    using tab_ok_main [OF ok] tab_okD(1) [OF ok] mp by auto
  show thesis
  proof (cases "gval t mp \<noteq> LNil \<or> dummy t")
    case False
    then have "newkey_place H t key
        = Inr (t\<lparr>node := (node t)[mp := (node t ! mp)\<lparr>i_key := key\<rparr>]\<rparr>, Some mp)"
      by (simp add: newkey_place_def Let_def flip: mp)
    with place_main [OF ok key absent mp _ _ refl] False show thesis by (intro placed) auto
  next
    case occ: True
    show thesis
    proof (cases rule: getfreepos_ok [OF ok, case_names full found])
      case (full lf)
      with occ have "newkey_place H t key = Inr (t\<lparr>lastfree := lf\<rparr>, None)"
        by (simp add: newkey_place_def Let_def flip: mp)
      with full that(1) show thesis by blast
    next
      case (found n)
      have val: "gval t mp \<noteq> LNil" using occ found(5) by simp
      have own: "proper_key (gkey t mp)" using keys_okD(1) [OF ok mpS val] .
      have nmp: "n \<noteq> mp" using own found(3) by (auto simp: proper_key_def)
      let ?t = "t\<lparr>lastfree := int n\<rparr>"
      show thesis
      proof (cases "mainposition H t (gkey t mp) = mp")
        case True
        define u where "u = ?t\<lparr>node := (node t)[n := (node t ! n)\<lparr>gnext := gnext (node t ! mp), i_key := key\<rparr>,
            mp := (node t ! mp)\<lparr>gnext := Some n\<rparr>]\<rparr>"
        have "newkey_place H t key = Inr (u, Some n)"
          using found val True nmp mpS len
          by (simp add: newkey_place_def Let_def u_def list_update_swap flip: mp)
        moreover have "placed H t key u n"
          by (rule place_chain [OF ok key absent mp own True found(2,3,5,4)])
            (simp_all add: u_def same_frame_def)
        ultimately show thesis by (rule placed)
      next
        case False
        have "(mainposition H t (gkey t mp), mp) \<in> (nx t)\<^sup>*" using keys_okD(4) [OF ok mpS own] .
        with False have "(mainposition H t (gkey t mp), mp) \<in> (nx t)\<^sup>+"
          by (simp add: rtrancl_eq_or_trancl)
        from find_previous_ok [OF ok tab_ok_main [OF ok] this] obtain prev where
          prev: "find_previous (node t) mp (length (node t)) (mainposition H t (gkey t mp)) = Inr prev"
          "(prev, mp) \<in> nx t" by blast
        define u where "u = ?t\<lparr>node := (node t)[prev := (node t ! prev)\<lparr>gnext := Some n\<rparr>, n := node t ! mp,
            mp := (node t ! mp)\<lparr>gnext := None, i_val := LNil, i_key := key\<rparr>]\<rparr>"
        have pmp: "prev \<noteq> mp" using nx_irrefl [OF ok] prev(2) by blast
        have "newkey_place H t key = Inr (u, Some mp)"
          using found val False nmp pmp mpS len prev(1)
          by (simp add: newkey_place_def Let_def u_def tbind_def flip: mp)
        moreover have "placed H t key u mp"
          by (rule place_move [OF ok key absent mp val False found(2,3,5,4) prev(2)])
            (simp_all add: u_def same_frame_def)
        ultimately show thesis by (rule placed)
      qed
    qed
  qed
qed

end
