(* ===== verification/Table_Set.thy ===== *)
theory Table_Set
  imports Table_Insert
begin

text \<open>
  The contents of a table as a function from keys to values, and the operations seen through
  it: a read returns the contents at the key, a write changes them at that key only. This
  theory treats the writes that find room; \<open>Table_Rehash\<close> adds those that rehash.
\<close>

section \<open>The contents of a table\<close>

definition lookup :: "Table \<Rightarrow> TValue \<Rightarrow> TValue" where
  "lookup t k =
    (if in_array t k then arr t ! nat (arrayindex k - 1)
     else case List.find (\<lambda>n. luaO_rawequalObj (i_key n) k) (node t) of
       None \<Rightarrow> LNil | Some n \<Rightarrow> i_val n)"

lemma find_node_None:
  assumes "length (node t) = sizenode t"
  shows "List.find (\<lambda>n. luaO_rawequalObj (i_key n) k) (node t) = None \<longleftrightarrow>
    (\<forall>i < sizenode t. \<not> luaO_rawequalObj (gkey t i) k)"
  using assms by (auto simp: find_None_iff gkey_def in_set_conv_nth)

lemma proper_rawequal: "luaO_rawequalObj a b \<Longrightarrow> proper_key a \<longleftrightarrow> proper_key b"
  by (auto simp: rawequal_iff proper_key_def is_nan_value_def luai_numeq_def)

lemma keys_unique:
  assumes "tab_ok H t" "proper_key k" "i < sizenode t" "j < sizenode t"
    "luaO_rawequalObj (gkey t i) k" "luaO_rawequalObj (gkey t j) k"
  shows "i = j"
proof -
  have "proper_key (gkey t i)" using assms(2,5) proper_rawequal by blast
  moreover have "luaO_rawequalObj (gkey t i) (gkey t j)"
    using assms(5,6) rawequal_sym rawequal_trans by blast
  ultimately show ?thesis using keys_okD(7) [OF assms(1,3)] assms(4) by blast
qed

lemma lookup_node:
  assumes ok: "tab_ok H t" and k: "proper_key k" "i < sizenode t" "luaO_rawequalObj (gkey t i) k"
  shows "\<not> in_array t k" "lookup t k = gval t i"
proof -
  have "proper_key (gkey t i)" using k(1,3) proper_rawequal by blast
  then show na: "\<not> in_array t k"
    using keys_okD(3) [OF ok k(2)] arrayindex_rawequal [OF k(3)] by (simp add: in_array_def)
  have len: "length (node t) = sizenode t" using tab_okD(1) [OF ok] .
  show "lookup t k = gval t i"
  proof (cases "List.find (\<lambda>n. luaO_rawequalObj (i_key n) k) (node t)")
    case None
    with find_node_None [OF len] k show ?thesis by blast
  next
    case (Some n)
    then obtain j where "j < sizenode t" "n = node t ! j" "luaO_rawequalObj (gkey t j) k"
      using len by (auto simp: find_Some_iff gkey_def)
    with keys_unique [OF ok k(1,2) _ k(3)] Some na show ?thesis by (simp add: lookup_def gval_def)
  qed
qed

lemma lookup_absent:
  assumes "tab_ok H t" "\<not> in_array t k" "\<And>i. i < sizenode t \<Longrightarrow> \<not> luaO_rawequalObj (gkey t i) k"
  shows "lookup t k = LNil"
  using assms find_node_None [OF tab_okD(1) [OF assms(1)], of k] by (simp add: lookup_def)

lemma located_read:
  assumes "tab_ok H t" "proper_key k" "located t k s"
  shows "tv_read t s = lookup t k"
  using assms lookup_node(2) [OF assms(1,2)] lookup_absent [OF assms(1)]
  unfolding located_def by (auto simp: lookup_def split: if_splits)

text \<open>The hash part contributes its live entries, and only those.\<close>

lemma lookup_entry:
  assumes "tab_ok H t" "proper_key k" "\<not> in_array t k" "v \<noteq> LNil"
  shows "lookup t k = v \<longleftrightarrow> (\<exists>k'. luaO_rawequalObj k' k \<and> (k', v) \<in> entries t)"
proof
  assume l: "lookup t k = v"
  with lookup_absent [OF assms(1,3)] assms(4) obtain i
    where i: "i < sizenode t" "luaO_rawequalObj (gkey t i) k" by blast
  with lookup_node(2) [OF assms(1,2)] l assms(4)
  show "\<exists>k'. luaO_rawequalObj k' k \<and> (k', v) \<in> entries t" by (auto simp: entries_def)
next
  assume "\<exists>k'. luaO_rawequalObj k' k \<and> (k', v) \<in> entries t"
  with lookup_node(2) [OF assms(1,2)] show "lookup t k = v" by (auto simp: entries_def)
qed

lemma lookup_cong:
  assumes "tab_ok H t" "tab_ok H u" "arr u = arr t" "entries u = entries t" "proper_key k"
  shows "lookup u k = lookup t k"
proof (cases "in_array t k")
  case True
  then show ?thesis using assms(3) by (simp add: lookup_def in_array_def sizearray_def)
next
  case False
  then have F: "\<not> in_array u k" using assms(3) by (simp add: in_array_def sizearray_def)
  show ?thesis
    using lookup_entry [OF assms(1,5) False] lookup_entry [OF assms(2,5) F] assms(4) by metis
qed

lemma lookup_rawequal:
  assumes "luaO_rawequalObj a b"
  shows "lookup t a = lookup t b"
proof -
  have "luaO_rawequalObj c a \<longleftrightarrow> luaO_rawequalObj c b" for c
    using assms rawequal_sym rawequal_trans by blast
  then show ?thesis using arrayindex_rawequal [OF assms] by (simp add: lookup_def in_array_def)
qed

section \<open>Reading\<close>

lemma rawget_ok:
  assumes "tab_ok H t" "proper_key k"
  shows "lua_rawget H t k = Inr (lookup t k)"
  using luaH_get_ok [OF assms] located_read [OF assms] by (auto simp: lua_rawget_def tbind_def)

lemma number_key_proper:
  assumes "INT_MIN \<le> i" "i \<le> INT_MAX"
  shows "proper_key (LNumber (cast_num i))"
  using cast_num_not_nan [OF int_lt_2_53 [OF assms]] by (simp add: proper_key_def is_nan_value_def)

lemma rawgeti_ok:
  assumes "tab_ok H t" "INT_MIN \<le> i" "i \<le> INT_MAX"
  shows "lua_rawgeti t i = Inr (lookup t (LNumber (cast_num i)))"
  using luaH_getnum_ok [OF assms] located_read [OF assms(1) number_key_proper [OF assms(2,3)]]
  by (auto simp: lua_rawgeti_def tbind_def)

section \<open>Writing through a slot\<close>

lemma in_array_index:
  assumes "in_array t k" "in_array t k'"
  shows "arrayindex k = arrayindex k' \<longleftrightarrow> luaO_rawequalObj k k'"
proof
  have num: "\<exists>x. a = LNumber x \<and> luai_numeq (cast_num (arrayindex a)) x" if "in_array t a" for a
    using that by (cases a) (auto simp: in_array_def arrayindex_def Let_def split: if_splits)
  assume e: "arrayindex k = arrayindex k'"
  obtain x y where xy: "k = LNumber x" "luai_numeq (cast_num (arrayindex k)) x"
    "k' = LNumber y" "luai_numeq (cast_num (arrayindex k)) y"
    using num [OF assms(1)] num [OF assms(2)] unfolding e by blast
  then have "luai_numeq x y" using luai_numeq_sym luai_numeq_trans by blast
  with xy(1,3) show "luaO_rawequalObj k k'" by simp
qed (rule arrayindex_rawequal)

lemma write_array:
  assumes ok: "tab_ok H t" and i: "i < sizearray t"
  shows "tab_ok H (t\<lparr>arr := (arr t)[i := v]\<rparr>)"
    "used_nodes (t\<lparr>arr := (arr t)[i := v]\<rparr>) = used_nodes t"
proof -
  let ?u = "t\<lparr>arr := (arr t)[i := v]\<rparr>"
  have e: "sizenode ?u = sizenode t" "gkey ?u = gkey t" "gval ?u = gval t" "nx ?u = nx t"
    "in_array ?u = in_array t" "mainposition H ?u = mainposition H t" "sizearray ?u = sizearray t"
    by (auto simp: gkey_def gval_def sizenode_def sizearray_def in_array_def nx_def fun_eq_iff
        intro: mainposition_cong)
  then show "tab_ok H ?u"
    using ok by (simp add: tab_ok_def shape_ok_def chains_ok_def keys_ok_def)
  show "used_nodes ?u = used_nodes t" by (simp add: used_nodes_def e)
qed

lemma write_node:
  assumes ok: "tab_ok H t" and i: "i < sizenode t" "proper_key (gkey t i)"
    and u: "u = t\<lparr>node := (node t)[i := (node t ! i)\<lparr>i_val := v\<rparr>]\<rparr>"
  shows "tab_ok H u" "used_nodes u = used_nodes t" "\<And>j. j < sizenode t \<Longrightarrow> gkey u j = gkey t j"
    "\<And>j. j < sizenode t \<Longrightarrow> gval u j = (if j = i then v else gval t j)" "same_frame u t"
proof -
  have len: "length (node t) = sizenode t" using tab_okD(1) [OF ok] .
  show fr: "same_frame u t" by (simp add: u same_frame_def)
  note S [simp] = same_frameD [OF fr]
  show K: "\<And>j. j < sizenode t \<Longrightarrow> gkey u j = gkey t j"
    and V: "\<And>j. j < sizenode t \<Longrightarrow> gval u j = (if j = i then v else gval t j)"
    using len i by (auto simp: u gkey_def gval_def nth_list_update)
  have N: "gnext (node u ! j) = gnext (node t ! j)" if "j < sizenode t" for j
    using that len i by (auto simp: u nth_list_update)
  have nx: "nx u = nx t" by (auto simp: nx_def N)
  have "lastfree u = lastfree t" "\<not> dummy t"
    using ok i by (auto simp: u tab_ok_def shape_ok_def proper_key_def gkey_def dummynode_def sizenode_def)
  then have "shape_ok u" using ok K fr len by (auto simp: tab_ok_def shape_ok_def same_frame_def)
  moreover have "chains_ok u"
    using ok K V N i unfolding tab_ok_def chains_ok_def nx by (auto simp: proper_key_def)
  moreover have "keys_ok H u"
  proof (rule keys_okI, goal_cases)
    case (1 j) then show ?case using keys_okD(1) [OF ok] V K i by (auto split: if_splits)
  next
    case (2 j) then show ?case using keys_okD(2) [OF ok] K by auto
  next
    case (3 j) then show ?case using keys_okD(3) [OF ok] K by auto
  next
    case (4 j m)
    then have "m < sizenode t" using tab_ok_main [OF ok] by simp
    with 4 show ?case using keys_okD(4,5,6) [OF ok, of j] K [of j] K [of m] nx by auto
  next
    case (5 j l) then show ?case using keys_okD(7) [OF ok, of j l] K by auto
  qed
  ultimately show "tab_ok H u" by (simp add: tab_ok_def)
  show "used_nodes u = used_nodes t" by (auto simp: used_nodes_def K)
qed

text \<open>
  A write through the pointer that a search or an insertion returned changes the contents at
  the key, and keeps the invariant.
\<close>

lemma write_located:
  assumes ok: "tab_ok H t" and k: "proper_key k" and p: "located t k p" "p \<noteq> NilObject"
  shows "tab_ok H (tv_write t p v)" "used_nodes (tv_write t p v) = used_nodes t"
    "\<And>k'. proper_key k' \<Longrightarrow>
      lookup (tv_write t p v) k' = (if luaO_rawequalObj k k' then v else lookup t k')"
    "sizearray (tv_write t p v) = sizearray t" "sizenode (tv_write t p v) = sizenode t"
    "dummy (tv_write t p v) = dummy t" "in_array (tv_write t p v) = in_array t"
proof -
  have "tab_ok H (tv_write t p v) \<and> used_nodes (tv_write t p v) = used_nodes t
    \<and> (\<forall>k'. proper_key k' \<longrightarrow>
      lookup (tv_write t p v) k' = (if luaO_rawequalObj k k' then v else lookup t k'))"
  proof (cases "in_array t k")
    case True
    define i where "i = nat (arrayindex k - 1)"
    have i: "i < sizearray t" "arrayindex k = int i + 1" using True by (auto simp: i_def in_array_def)
    have pe: "p = ArraySlot i" using p(1) True by (simp add: located_def i_def)
    let ?u = "t\<lparr>arr := (arr t)[i := v]\<rparr>"
    have "lookup ?u k' = (if luaO_rawequalObj k k' then v else lookup t k')" for k'
    proof (cases "in_array t k'")
      case True': True
      then have u': "in_array ?u k'" by (simp add: in_array_def sizearray_def)
      have "nat (arrayindex k' - 1) = i \<longleftrightarrow> luaO_rawequalObj k k'"
        using in_array_index [OF True True'] True' i by (auto simp: in_array_def)
      with True' u' i show ?thesis by (auto simp: lookup_def sizearray_def)
    next
      case False
      then have "\<not> in_array ?u k'" by (simp add: in_array_def sizearray_def)
      moreover have "\<not> luaO_rawequalObj k k'"
        using True False arrayindex_rawequal [of k k'] by (auto simp: in_array_def)
      ultimately show ?thesis using False by (simp add: lookup_def)
    qed
    then show ?thesis using write_array [OF ok i(1)] pe by simp
  next
    case False
    then obtain i where i: "i < sizenode t" "luaO_rawequalObj (gkey t i) k" "p = NodeSlot i"
      using p by (auto simp: located_def)
    have pi: "proper_key (gkey t i)" using k i(2) proper_rawequal by blast
    define u where u: "u = t\<lparr>node := (node t)[i := (node t ! i)\<lparr>i_val := v\<rparr>]\<rparr>"
    note w = write_node [OF ok i(1) pi u]
    note S [simp] = same_frameD [OF w(5)]
    have "lookup u k' = (if luaO_rawequalObj k k' then v else lookup t k')" if k': "proper_key k'" for k'
    proof (cases "in_array t k'")
      case True
      then have "\<not> luaO_rawequalObj k k'"
        using False arrayindex_rawequal [of k k'] by (auto simp: in_array_def)
      with True show ?thesis by (simp add: lookup_def)
    next
      case na: False
      show ?thesis
      proof (cases "\<exists>j < sizenode t. luaO_rawequalObj (gkey t j) k'")
        case True
        then obtain j where j: "j < sizenode t" "luaO_rawequalObj (gkey t j) k'" by blast
        have "i = j \<longleftrightarrow> luaO_rawequalObj k k'"
          using keys_unique [OF ok k' _ _ _ j(2)] i j rawequal_sym rawequal_trans by metis
        with lookup_node(2) [OF ok k' j] lookup_node(2) [OF w(1) k', of j] j w(3,4) show ?thesis
          by auto
      next
        case F: False
        then have "\<not> luaO_rawequalObj k k'" using i(1,2) rawequal_trans by blast
        with F lookup_absent [OF ok na] lookup_absent [OF w(1), of k'] w(3) na show ?thesis by simp
      qed
    qed
    then show ?thesis using w i(3) by (simp add: u)
  qed
  then show "tab_ok H (tv_write t p v)" "used_nodes (tv_write t p v) = used_nodes t"
    "\<And>k'. proper_key k' \<Longrightarrow>
      lookup (tv_write t p v) k' = (if luaO_rawequalObj k k' then v else lookup t k')" by blast+
  show "sizearray (tv_write t p v) = sizearray t" "sizenode (tv_write t p v) = sizenode t"
    "dummy (tv_write t p v) = dummy t" "in_array (tv_write t p v) = in_array t"
    by (cases p; simp add: sizearray_def sizenode_def in_array_def fun_eq_iff)+
qed

section \<open>Insertion when there is room\<close>

text \<open>What a call of \<open>luaH_set\<close> promises: the pointer locates the key, nothing else changes.\<close>

definition set_post :: "(ptr \<Rightarrow> u32) \<Rightarrow> Table \<Rightarrow> TValue \<Rightarrow> Table \<Rightarrow> slot \<Rightarrow> bool" where
  "set_post H t k t' p \<longleftrightarrow> tab_ok H t' \<and> located t' k p \<and> p \<noteq> NilObject
     \<and> (\<forall>k'. proper_key k' \<longrightarrow> lookup t' k' = lookup t k') \<and> metatable t' = metatable t"

definition room :: "Table \<Rightarrow> bool" where
  "room t \<longleftrightarrow> \<not> dummy t \<and> card (used_nodes t) < sizenode t"

lemma flags_frame [simp]:
  "gkey (t\<lparr>flags := x\<rparr>) = gkey t" "gval (t\<lparr>flags := x\<rparr>) = gval t"
  "sizenode (t\<lparr>flags := x\<rparr>) = sizenode t" "sizearray (t\<lparr>flags := x\<rparr>) = sizearray t"
  "in_array (t\<lparr>flags := x\<rparr>) = in_array t" "nx (t\<lparr>flags := x\<rparr>) = nx t"
  "mainposition H (t\<lparr>flags := x\<rparr>) = mainposition H t" "lookup (t\<lparr>flags := x\<rparr>) = lookup t"
  "located (t\<lparr>flags := x\<rparr>) = located t" "used_nodes (t\<lparr>flags := x\<rparr>) = used_nodes t"
  "entries (t\<lparr>flags := x\<rparr>) = entries t" "room (t\<lparr>flags := x\<rparr>) = room t"
proof -
  show 1: "gkey (t\<lparr>flags := x\<rparr>) = gkey t" "gval (t\<lparr>flags := x\<rparr>) = gval t"
    "sizenode (t\<lparr>flags := x\<rparr>) = sizenode t" "sizearray (t\<lparr>flags := x\<rparr>) = sizearray t"
    "in_array (t\<lparr>flags := x\<rparr>) = in_array t" "nx (t\<lparr>flags := x\<rparr>) = nx t"
    "mainposition H (t\<lparr>flags := x\<rparr>) = mainposition H t"
    by (auto simp: gkey_def gval_def sizenode_def sizearray_def in_array_def nx_def fun_eq_iff
        intro: mainposition_cong)
  then show "lookup (t\<lparr>flags := x\<rparr>) = lookup t" "located (t\<lparr>flags := x\<rparr>) = located t"
    "used_nodes (t\<lparr>flags := x\<rparr>) = used_nodes t" "entries (t\<lparr>flags := x\<rparr>) = entries t"
    by (simp_all add: lookup_def located_def used_nodes_def entries_def fun_eq_iff)
  with 1 show "room (t\<lparr>flags := x\<rparr>) = room t" by (simp add: room_def)
qed

lemma tab_ok_flags [simp]: "tab_ok H (t\<lparr>flags := x\<rparr>) = tab_ok H t"
  by (simp add: tab_ok_def shape_ok_def chains_ok_def keys_ok_def)

lemma room_not_full: "room t \<Longrightarrow> \<not> (dummy t \<or> (\<forall>i < sizenode t. gkey t i \<noteq> LNil))"
proof
  assume r: "room t" "dummy t \<or> (\<forall>i < sizenode t. gkey t i \<noteq> LNil)"
  then have "used_nodes t = {i. i < sizenode t}" by (auto simp: used_nodes_def room_def)
  with r(1) show False by (simp add: room_def)
qed

text \<open>The result of placing a key, seen through the contents.\<close>

lemma placed_post:
  assumes ok: "tab_ok H t" and k: "proper_key k" "\<not> in_array t k" and p: "placed H t k u n"
  shows "set_post H t k u (NodeSlot n)" "sizearray u = sizearray t" "sizenode u = sizenode t"
    "dummy u = dummy t" "card (used_nodes u) \<le> Suc (card (used_nodes t))"
proof -
  have u: "tab_ok H u" "arr u = arr t" "entries u = entries t" "n < sizenode u" "gkey u n = k"
    using p by (simp_all add: placed_def)
  then have "\<not> in_array u k" using k(2) by (simp add: in_array_def sizearray_def)
  moreover have "luaO_rawequalObj k k"
    using k(1) rawequal_refl by (simp add: proper_key_def)
  ultimately have "located u k (NodeSlot n)" using u by (auto simp: located_def)
  then show "set_post H t k u (NodeSlot n)"
    using u lookup_cong [OF ok] p by (simp add: set_post_def placed_def)
  show "sizearray u = sizearray t" "sizenode u = sizenode t"
    "dummy u = dummy t" "card (used_nodes u) \<le> Suc (card (used_nodes t))"
    using p by (simp_all add: placed_def sizearray_def sizenode_def)
qed

text \<open>The frame of an operation that adds at most one node: sizes stay, one node is used up.\<close>

definition grows :: "Table \<Rightarrow> TValue \<Rightarrow> Table \<Rightarrow> bool" where
  "grows t k t' \<longleftrightarrow> sizearray t' = sizearray t \<and> sizenode t' = sizenode t \<and> dummy t' = dummy t
     \<and> card (used_nodes t') \<le> card (used_nodes t) + (if in_array t k then 0 else 1)"

lemma newkey_room:
  assumes ok: "tab_ok H t" and k: "proper_key k" "located t k NilObject" and r: "room t"
  shows "\<exists>t' p. newkey_depth (Suc d) H t k = Inr (t', p) \<and> set_post H t k t' p \<and> grows t k t'"
proof -
  have a: "\<not> in_array t k" using k(2) by (simp add: located_def split: if_splits)
  show ?thesis
  proof (cases rule: newkey_place_ok [OF ok k, case_names full placed])
    case (full lf)
    with room_not_full [OF r] show ?thesis by blast
  next
    case (placed u n)
    with placed_post [OF ok k(1) a placed(2)] a show ?thesis by (simp add: tbind_def grows_def)
  qed
qed

lemma newkey_full:
  assumes ok: "tab_ok H t" and k: "proper_key k" "located t k NilObject"
  obtains (stored) t' p where "newkey_depth (Suc d) H t k = Inr (t', p)" "set_post H t k t' p"
  | (rehash) lf where "newkey_depth (Suc d) H t k = tbind (rehash_with (newkey_depth d H) H (t\<lparr>lastfree := lf\<rparr>) k)
        (\<lambda>t. luaH_set_with (newkey_depth d H) H t k)" "tab_ok H (t\<lparr>lastfree := lf\<rparr>)"
proof -
  have a: "\<not> in_array t k" using k(2) by (simp add: located_def split: if_splits)
  show ?thesis
  proof (cases rule: newkey_place_ok [OF ok k, case_names full placed])
    case (full lf)
    then show ?thesis by (intro rehash [of lf]) (simp_all add: tbind_def)
  next
    case (placed u n)
    with placed_post [OF ok k(1) a placed(2)] show ?thesis
      by (intro stored [of u "NodeSlot n"]) (simp_all add: tbind_def)
  qed
qed

lemma set_post_found: "tab_ok H t \<Longrightarrow> located t k p \<Longrightarrow> p \<noteq> NilObject \<Longrightarrow> set_post H t k t p"
  by (simp add: set_post_def)

lemma set_post_flags:
  "set_post H (t\<lparr>flags := f\<rparr>) k t' p = set_post H t k t' p" "grows (t\<lparr>flags := f\<rparr>) k t' = grows t k t'"
  by (simp_all add: set_post_def grows_def)

lemma luaH_set_with_cases:
  assumes ok: "tab_ok H t" and k: "proper_key k"
  obtains (found) p where "luaH_set_with nk H t k = Inr (t\<lparr>flags := 0\<rparr>, p)"
      "set_post H t k (t\<lparr>flags := 0\<rparr>) p" "in_array t k \<or> (\<exists>i < sizenode t. luaO_rawequalObj (gkey t i) k)"
  | (new) "luaH_set_with nk H t k = nk (t\<lparr>flags := 0\<rparr>) k" "located t k NilObject"
proof -
  obtain p where p: "luaH_get H t k = Inr p" "located t k p" using luaH_get_ok [OF ok k] by blast
  have nn: "k \<noteq> LNil" "\<not> (case k of LNumber n \<Rightarrow> luai_numisnan n | _ \<Rightarrow> False)"
    using k by (cases k; simp add: proper_key_def is_nan_value_def)+
  show ?thesis
  proof (cases "p = NilObject")
    case True
    with p nn show ?thesis by (intro new) (simp_all add: luaH_set_with_def tbind_def)
  next
    case False
    with p(2) have "in_array t k \<or> (\<exists>i < sizenode t. luaO_rawequalObj (gkey t i) k)"
      using False by (auto simp: located_def split: if_splits)
    with False p ok show ?thesis
      by (intro found [of p]) (simp_all add: luaH_set_with_def tbind_def set_post_def)
  qed
qed

lemma set_with_room:
  assumes ok: "tab_ok H t" and k: "proper_key k"
    and r: "room t \<or> in_array t k"
  shows "\<exists>t' p. luaH_set_with (newkey_depth (Suc d) H) H t k = Inr (t', p)
    \<and> set_post H t k t' p \<and> grows t k t'"
proof (cases rule: luaH_set_with_cases [OF ok k, of "newkey_depth (Suc d) H", case_names found new])
  case (found p)
  then show ?thesis by (simp add: grows_def)
next
  case new
  then have "room t" using r by (simp add: located_def split: if_splits)
  with newkey_room [of H "t\<lparr>flags := 0\<rparr>" k d] ok k new show ?thesis by (simp add: set_post_flags)
qed

lemma luaH_setnum_with_cases:
  assumes ok: "tab_ok H t" and i: "INT_MIN \<le> i" "i \<le> INT_MAX" and k: "k = LNumber (cast_num i)"
  obtains (found) p where "luaH_setnum_with nk t i = Inr (t, p)" "set_post H t k t p"
  | (new) "luaH_setnum_with nk t i = nk t k" "located t k NilObject"
proof -
  obtain p where p: "luaH_getnum t i = Inr p" "located t k p" using luaH_getnum_ok [OF ok i] k by blast
  show ?thesis
  proof (cases "p = NilObject")
    case True
    with p k show ?thesis by (intro new) (simp_all add: luaH_setnum_with_def tbind_def)
  next
    case False
    with p ok show ?thesis
      by (intro found [of p]) (simp_all add: luaH_setnum_with_def tbind_def set_post_def)
  qed
qed

lemma setnum_with_room:
  assumes ok: "tab_ok H t" and i: "INT_MIN \<le> i" "i \<le> INT_MAX" and k: "k = LNumber (cast_num i)"
    and r: "room t \<or> in_array t k"
  shows "\<exists>t' p. luaH_setnum_with (newkey_depth (Suc d) H) t i = Inr (t', p)
    \<and> set_post H t k t' p \<and> grows t k t'"
proof (cases rule: luaH_setnum_with_cases [OF ok i k, of "newkey_depth (Suc d) H", case_names found new])
  case (found p)
  then show ?thesis by (simp add: grows_def)
next
  case new
  then have "room t" using r by (simp add: located_def split: if_splits)
  with newkey_room [OF ok _ new(2)] new(1) k number_key_proper [OF i] show ?thesis by simp
qed

text \<open>A call of \<open>luaH_set\<close> and the write through its result.\<close>

lemma write_set_post:
  assumes "set_post H t k t' p" "proper_key k"
  shows "tab_ok H (tv_write t' p v)"
    "\<And>k'. proper_key k' \<Longrightarrow>
      lookup (tv_write t' p v) k' = (if luaO_rawequalObj k k' then v else lookup t k')"
    "metatable (tv_write t' p v) = metatable t"
    "grows t k t' \<Longrightarrow> grows t k (tv_write t' p v)"
proof -
  from assms(1) have t': "tab_ok H t'" "located t' k p" "p \<noteq> NilObject" "metatable t' = metatable t"
    and e: "\<And>k'. proper_key k' \<Longrightarrow> lookup t' k' = lookup t k'" by (simp_all add: set_post_def)
  note w = write_located [OF t'(1) assms(2) t'(2,3), where v = v]
  show "tab_ok H (tv_write t' p v)" using w(1) .
  show "\<And>k'. proper_key k' \<Longrightarrow>
      lookup (tv_write t' p v) k' = (if luaO_rawequalObj k k' then v else lookup t k')"
    by (simp only: w(3) e)
  show "metatable (tv_write t' p v) = metatable t" using t'(4) by (cases p) simp_all
  show "grows t k t' \<Longrightarrow> grows t k (tv_write t' p v)"
    using w(2,4,5,6,7) by (simp add: grows_def)
qed
end
