(* ===== verification/Table_Count.thy ===== *)
theory Table_Count
  imports Table_Set
begin

text \<open>
  How \<open>rehash\<close> counts: the loops over the array part and the hash part count the integer keys
  by the power of two above them, and \<open>computesizes\<close> picks from these counts the largest array
  size that is more than half full. A set of positive integers stands for the keys counted.
\<close>

section \<open>Counts by slices\<close>

definition index_keys :: "nat set \<Rightarrow> bool" where
  "index_keys S \<longleftrightarrow> S \<subseteq> {1..2 ^ MAXBITS}"

definition nums_of :: "nat set \<Rightarrow> nat list \<Rightarrow> bool" where
  "nums_of S nums \<longleftrightarrow> index_keys S \<and> length nums = MAXBITS + 1
     \<and> (\<forall>b \<le> MAXBITS. nums ! b = card {k \<in> S. nat (ceillog2 k) = b})"

lemma index_keys_finite: "index_keys S \<Longrightarrow> finite S"
  unfolding index_keys_def by (rule finite_subset [OF _ finite_atLeastAtMost])

lemma ceillog2_le_iff:
  assumes "1 \<le> k"
  shows "nat (ceillog2 k) \<le> p \<longleftrightarrow> k \<le> 2 ^ p"
proof
  assume "nat (ceillog2 k) \<le> p"
  then have "(2::nat) ^ nat (ceillog2 k) \<le> 2 ^ p" by (intro power_increasing) auto
  with ceillog2_bounds [OF assms] show "k \<le> 2 ^ p" by linarith
next
  assume k: "k \<le> 2 ^ p"
  show "nat (ceillog2 k) \<le> p"
  proof (rule ccontr)
    assume "\<not> nat (ceillog2 k) \<le> p"
    then have "p \<le> nat (ceillog2 k) - 1" "0 < ceillog2 k" by auto
    then have "(2::nat) ^ p \<le> 2 ^ (nat (ceillog2 k) - 1)" by (intro power_increasing) auto
    with ceillog2_bounds [OF assms] k \<open>0 < ceillog2 k\<close> show False by linarith
  qed
qed

lemma nums_sum:
  assumes "nums_of S nums" "i \<le> MAXBITS"
  shows "(\<Sum>j\<le>i. nums ! j) = card {k \<in> S. k \<le> 2 ^ i}"
proof -
  have fin: "finite S" using assms(1) index_keys_finite by (auto simp: nums_of_def)
  have pos: "1 \<le> k" if "k \<in> S" for k using assms(1) that by (auto simp: nums_of_def index_keys_def)
  have "(\<Sum>j\<le>i. nums ! j) = (\<Sum>j\<le>i. card {k \<in> S. nat (ceillog2 k) = j})"
    using assms by (intro sum.cong) (auto simp: nums_of_def)
  also have "\<dots> = card (\<Union>j\<in>{..i}. {k \<in> S. nat (ceillog2 k) = j})"
    using fin by (subst card_UN_disjoint) auto
  also have "(\<Union>j\<in>{..i}. {k \<in> S. nat (ceillog2 k) = j}) = {k \<in> S. k \<le> 2 ^ i}"
    using ceillog2_le_iff pos by auto
  finally show ?thesis .
qed

lemma nums_of_insert:
  assumes "nums_of S nums" "k \<notin> S" "1 \<le> k" "k \<le> 2 ^ MAXBITS"
  shows "nums_of (insert k S) (nums[nat (ceillog2 k) := nums ! nat (ceillog2 k) + 1])"
proof -
  have fin: "finite S" using assms(1) index_keys_finite by (auto simp: nums_of_def)
  have "nat (ceillog2 k) \<le> MAXBITS" using ceillog2_le_iff [OF assms(3)] assms(4) by blast
  moreover have "{x \<in> insert k S. nat (ceillog2 x) = b} =
      (if b = nat (ceillog2 k) then insert k {x \<in> S. nat (ceillog2 x) = b}
       else {x \<in> S. nat (ceillog2 x) = b})" for b by auto
  ultimately show ?thesis
    using assms fin by (auto simp: nums_of_def index_keys_def nth_list_update)
qed

text \<open>The key that \<open>countint\<close> counts.\<close>

definition index_of :: "TValue \<Rightarrow> nat set" where
  "index_of k = (if 0 < arrayindex k \<and> arrayindex k \<le> MAXASIZE then {nat (arrayindex k)} else {})"

lemma countint_ok:
  assumes "nums_of S nums" "S \<inter> index_of k = {}"
  shows "\<exists>nums'. countint k nums = (nums', card (index_of k)) \<and> nums_of (S \<union> index_of k) nums'"
  using assms nums_of_insert [OF assms(1), of "nat (arrayindex k)"]
  by (auto simp: countint_def index_of_def Let_def MAXASIZE_def nat_le_iff)

section \<open>The array part\<close>

definition live_upto :: "TValue list \<Rightarrow> nat \<Rightarrow> nat set" where
  "live_upto a m = {k. 1 \<le> k \<and> k \<le> m \<and> a ! (k - 1) \<noteq> LNil}"

lemma finite_live_upto [simp]: "finite (live_upto a m)"
  by (rule finite_subset [of _ "{1..m}"]) (auto simp: live_upto_def)

lemma count_slice_eq: "count_slice a i lim lc = lc + card {k. i \<le> k \<and> k \<le> lim \<and> a ! (k - 1) \<noteq> LNil}"
proof (induction a i lim lc rule: count_slice.induct)
  case (1 a i lim lc)
  show ?case
  proof (cases "i \<le> lim")
    case True
    let ?A = "{k. i + 1 \<le> k \<and> k \<le> lim \<and> a ! (k - 1) \<noteq> LNil}"
    have "{k. i \<le> k \<and> k \<le> lim \<and> a ! (k - 1) \<noteq> LNil} = (if a ! (i - 1) \<noteq> LNil then insert i ?A else ?A)"
      using True by (auto simp: le_eq_less_or_eq Suc_le_eq)
    moreover have "finite ?A" by (rule finite_subset [of _ "{..lim}"]) auto
    ultimately show ?thesis using "1.IH" True by (subst count_slice.simps) simp
  next
    case False
    then show ?thesis by (subst count_slice.simps) simp
  qed
qed

lemma live_upto_slice:
  assumes "m \<le> m'"
  shows "card {k \<in> live_upto a m'. P k} = card {k \<in> live_upto a m. P k}
    + card {k. m + 1 \<le> k \<and> k \<le> m' \<and> a ! (k - 1) \<noteq> LNil \<and> P k}"
proof -
  have "{k \<in> live_upto a m'. P k} = {k \<in> live_upto a m. P k}
      \<union> {k. m + 1 \<le> k \<and> k \<le> m' \<and> a ! (k - 1) \<noteq> LNil \<and> P k}"
    using assms by (auto simp: live_upto_def)
  moreover have "finite {k. m + 1 \<le> k \<and> k \<le> m' \<and> a ! (k - 1) \<noteq> LNil \<and> P k}"
    by (rule finite_subset [of _ "{..m'}"]) auto
  ultimately show ?thesis by (simp add: card_Un_disjoint live_upto_def disjoint_iff)
qed

lemma numusearray_loop_ok:
  assumes "length a \<le> 2 ^ MAXBITS" "lg \<le> MAXBITS + 1" "ttlg = 2 ^ lg"
    and "m = (if lg = 0 then 0 else min (2 ^ (lg - 1)) (length a))" "i = m + 1"
    and "nums_of (live_upto a m) nums" "ause = card (live_upto a m)"
  shows "\<exists>nums'. numusearray_loop a lg ttlg i nums ause = (nums', card (live_upto a (length a)))
    \<and> nums_of (live_upto a (length a)) nums'"
  using assms
proof (induction a lg ttlg i nums ause arbitrary: m rule: numusearray_loop.induct)
  case (1 a lg ttlg i nums ause)
  define lim where "lim = (if ttlg > length a then length a else ttlg)"
  have mlen: "m \<le> length a" using "1.prems" by simp
  consider "lg = MAXBITS + 1" | "lg \<le> MAXBITS" "ttlg > length a \<and> i > lim"
    | "lg \<le> MAXBITS" "\<not> (ttlg > length a \<and> i > lim)" using "1.prems"(2) by linarith
  then show ?case
  proof cases
    case 1
    then have "m = length a" using "1.prems" by simp
    with "1.prems" 1 show ?thesis by (subst numusearray_loop.simps) simp
  next
    case 2
    then have "lim = length a" by (simp add: lim_def)
    with 2 have "m = length a" using "1.prems"(5) mlen by linarith
    with "1.prems" 2 show ?thesis by (subst numusearray_loop.simps) (simp add: lim_def)
  next
    case 3
    have lim: "lim = min (2 ^ lg) (length a)" using "1.prems"(3) by (simp add: lim_def)
    have "m \<le> lim"
      using "1.prems"(4) by (cases lg) (auto simp: lim min_le_iff_disj)
    have ck: "nat (ceillog2 k) = lg" if "m + 1 \<le> k" "k \<le> lim" for k
    proof -
      have "1 \<le> k" "k \<le> 2 ^ lg" "lg = 0 \<or> 2 ^ (lg - 1) < k"
        using that "1.prems"(4) lim by (auto split: if_splits)
      from ceillog2_unique [OF this] show ?thesis by simp
    qed
    define lc where "lc = count_slice a i lim 0"
    have slice: "card {k. m + 1 \<le> k \<and> k \<le> lim \<and> a ! (k - 1) \<noteq> LNil \<and> nat (ceillog2 k) = b}
        = (if b = lg then lc else 0)" for b
    proof (cases "b = lg")
      case True
      then have "{k. m + 1 \<le> k \<and> k \<le> lim \<and> a ! (k - 1) \<noteq> LNil \<and> nat (ceillog2 k) = b}
          = {k. m + 1 \<le> k \<and> k \<le> lim \<and> a ! (k - 1) \<noteq> LNil}" using ck by blast
      with True show ?thesis by (simp add: lc_def count_slice_eq "1.prems"(5))
    next
      case False
      then have "{k. m + 1 \<le> k \<and> k \<le> lim \<and> a ! (k - 1) \<noteq> LNil \<and> nat (ceillog2 k) = b} = {}"
        using ck by blast
      with False show ?thesis by simp
    qed
    have "index_keys (live_upto a lim)"
      using "1.prems"(1) lim by (auto simp: index_keys_def live_upto_def)
    moreover have "card {k \<in> live_upto a lim. nat (ceillog2 k) = b} =
        nums[lg := nums ! lg + lc] ! b" if "b \<le> MAXBITS" for b
      using that "1.prems"(6) 3(1)
        live_upto_slice [OF \<open>m \<le> lim\<close>, of a "\<lambda>k. nat (ceillog2 k) = b", unfolded slice]
      by (simp add: nums_of_def nth_list_update)
    ultimately have no: "nums_of (live_upto a lim) (nums[lg := nums ! lg + lc])"
      using "1.prems"(6) by (auto simp: nums_of_def)
    have ca: "ause + lc = card (live_upto a lim)"
      using "1.prems"(5,7) live_upto_slice [OF \<open>m \<le> lim\<close>, of a "\<lambda>_. True"]
      by (simp add: lc_def count_slice_eq)
    have e: "numusearray_loop a lg ttlg i nums ause =
        numusearray_loop a (lg + 1) (ttlg * 2) (max i (lim + 1)) (nums[lg := nums ! lg + lc]) (ause + lc)"
      using 3 by (subst numusearray_loop.simps) (simp add: lim_def lc_def Let_def)
    show ?thesis unfolding e lc_def
      by (rule "1.IH" [OF 3(1) lim_def 3(2) refl refl, where m = lim])
        (use 3 "1.prems" lim \<open>m \<le> lim\<close> no ca in \<open>auto simp: lc_def\<close>)
  qed
qed

lemma numusearray_ok:
  assumes "tab_ok H t"
  shows "\<exists>nums. numusearray t (replicate (MAXBITS + 1) 0) = (nums, card (live_upto (arr t) (sizearray t)))
    \<and> nums_of (live_upto (arr t) (sizearray t)) nums"
proof -
  have "int (sizearray t) \<le> int (2 ^ MAXBITS)" using tab_okD(3) [OF assms] by (simp add: MAXASIZE_def)
  then have len: "length (arr t) \<le> 2 ^ MAXBITS" by (simp only: of_nat_le_iff sizearray_def)
  have e: "live_upto (arr t) 0 = {}" by (auto simp: live_upto_def)
  have "nums_of {} (replicate (MAXBITS + 1) 0)"
    by (simp add: nums_of_def index_keys_def nth_replicate del: replicate_Suc)
  with len show ?thesis
    unfolding numusearray_def sizearray_def
    by (intro numusearray_loop_ok [where m = 0]) (simp_all add: e)
qed

section \<open>The hash part\<close>

text \<open>The live nodes from node \<open>i\<close> up, and the integer keys among them.\<close>

definition live_nodes :: "Node list \<Rightarrow> nat \<Rightarrow> nat set" where
  "live_nodes ns i = {j. j < i \<and> i_val (ns ! j) \<noteq> LNil}"

definition node_keys :: "Node list \<Rightarrow> nat \<Rightarrow> nat set" where
  "node_keys ns i = (\<Union>j\<in>live_nodes ns i. index_of (i_key (ns ! j)))"

lemma finite_live_nodes [simp]: "finite (live_nodes ns i)"
  by (simp add: live_nodes_def)

lemma live_nodes_Suc:
  "live_nodes ns (Suc i) = (if i_val (ns ! i) \<noteq> LNil then insert i (live_nodes ns i) else live_nodes ns i)"
  by (auto simp: live_nodes_def less_Suc_eq)

lemma node_keys_Suc:
  "node_keys ns (Suc i) = (if i_val (ns ! i) \<noteq> LNil
    then index_of (i_key (ns ! i)) \<union> node_keys ns i else node_keys ns i)"
  by (simp add: node_keys_def live_nodes_Suc)

lemma finite_index_of [simp]: "finite (index_of k)"
  by (simp add: index_of_def)

lemma finite_node_keys [simp]: "finite (node_keys ns i)"
  by (simp add: node_keys_def)

text \<open>The integer keys of the nodes are pairwise distinct.\<close>

definition keys_apart :: "Node list \<Rightarrow> nat \<Rightarrow> bool" where
  "keys_apart ns i \<longleftrightarrow> (\<forall>j \<in> live_nodes ns i. \<forall>l \<in> live_nodes ns i. j \<noteq> l \<longrightarrow>
     index_of (i_key (ns ! j)) \<inter> index_of (i_key (ns ! l)) = {})"

lemma numusehash_loop_ok:
  assumes "nums_of S nums" "S \<inter> node_keys ns i = {}" "keys_apart ns i"
  shows "\<exists>nums'. numusehash_loop ns i nums tu au
      = (nums', tu + card (live_nodes ns i), au + card (node_keys ns i))
    \<and> nums_of (S \<union> node_keys ns i) nums'"
  using assms
proof (induction i arbitrary: S nums tu au)
  case 0
  then show ?case by (simp add: live_nodes_def node_keys_def)
next
  case (Suc i)
  have apart: "keys_apart ns i" using Suc.prems(3) by (auto simp: keys_apart_def live_nodes_Suc)
  show ?case
  proof (cases "i_val (ns ! i) = LNil")
    case True
    with Suc apart show ?thesis by (simp add: live_nodes_Suc node_keys_Suc)
  next
    case False
    let ?I = "index_of (i_key (ns ! i))"
    have "S \<inter> ?I = {}" using Suc.prems(2) False by (auto simp: node_keys_Suc)
    from countint_ok [OF Suc.prems(1) this] obtain nums1
      where n1: "countint (i_key (ns ! i)) nums = (nums1, card ?I)" "nums_of (S \<union> ?I) nums1" by blast
    have I: "?I \<inter> node_keys ns i = {}"
    proof -
      have "?I \<inter> index_of (i_key (ns ! j)) = {}" if "j \<in> live_nodes ns i" for j
      proof -
        have "j \<noteq> i" using that by (simp add: live_nodes_def)
        then show ?thesis using Suc.prems(3) that False unfolding keys_apart_def live_nodes_Suc by auto
      qed
      then show ?thesis by (auto simp: node_keys_def)
    qed
    then have "(S \<union> ?I) \<inter> node_keys ns i = {}" using Suc.prems(2) False by (auto simp: node_keys_Suc)
    from Suc.IH [OF n1(2) this apart, of "tu + 1" "au + card ?I"] obtain nums2 where n2:
      "numusehash_loop ns i nums1 (tu + 1) (au + card ?I)
        = (nums2, tu + 1 + card (live_nodes ns i), au + card ?I + card (node_keys ns i))"
      "nums_of (S \<union> ?I \<union> node_keys ns i) nums2" by blast
    have "card (node_keys ns (Suc i)) = card ?I + card (node_keys ns i)"
      using False I by (simp add: node_keys_Suc card_Un_disjoint)
    moreover have "card (live_nodes ns (Suc i)) = Suc (card (live_nodes ns i))"
      using False by (simp add: live_nodes_Suc) (simp add: live_nodes_def)
    ultimately show ?thesis using n1(1) n2 False by (simp add: node_keys_Suc Un_assoc)
  qed
qed

section \<open>The new size of the array part\<close>

text \<open>
  The result of \<open>computesizes\<close>: \<open>n\<close> is 0 or the largest power of two such that more than
  half of the slots 1 to \<open>n\<close> would be in use, and \<open>na\<close> is the number of keys that go there.
\<close>

definition best_size :: "nat set \<Rightarrow> nat \<Rightarrow> nat \<Rightarrow> nat \<Rightarrow> bool" where
  "best_size S i n na \<longleftrightarrow> na = card {k \<in> S. k \<le> n} \<and> (n = 0 \<or> (\<exists>p < i. n = 2 ^ p) \<and> n div 2 < na)
     \<and> (\<forall>p < i. 2 ^ p div 2 < card {k \<in> S. k \<le> 2 ^ p} \<longrightarrow> 2 ^ p \<le> n)"

lemma card_upto_le: "index_keys S \<Longrightarrow> card {k \<in> S. k \<le> m} \<le> m"
proof -
  assume "index_keys S"
  then have "{k \<in> S. k \<le> m} \<subseteq> {1..m}" by (auto simp: index_keys_def)
  from card_mono [OF _ this] show ?thesis by simp
qed

lemma best_size_mono:
  assumes "best_size S i n na" "i \<le> i'" "\<And>p. i \<le> p \<Longrightarrow> p < i' \<Longrightarrow> card {k \<in> S. k \<le> 2 ^ p} \<le> 2 ^ p div 2"
  shows "best_size S i' n na"
proof -
  have "2 ^ p \<le> n" if "p < i'" "2 ^ p div 2 < card {k \<in> S. k \<le> 2 ^ p}" for p
    using that assms(1) assms(3) [of p] by (cases "p < i") (auto simp: best_size_def)
  then show ?thesis using assms(1,2) unfolding best_size_def by auto
qed

lemma computesizes_loop_ok:
  assumes "nums_of S nums" "narray = card S" "twotoi = 2 ^ i"
    and "a = (\<Sum>j<i. nums ! j)" "best_size S i n na" "i \<le> MAXBITS + 1"
  shows "\<exists>n' na'. computesizes_loop nums narray i twotoi a na n = (n', na')
    \<and> best_size S (MAXBITS + 1) n' na'"
  using assms
proof (induction nums narray i twotoi a na n rule: computesizes_loop.induct)
  case (1 nums narray i twotoi a na n)
  have S: "index_keys S" "finite S" using "1.prems"(1) index_keys_finite by (auto simp: nums_of_def)
  have le: "card {k \<in> S. P k} \<le> card S" for P using S(2) by (intro card_mono) auto
  show ?case
  proof (cases "twotoi div 2 < narray")
    case False
    have "card {k \<in> S. k \<le> 2 ^ p} \<le> 2 ^ p div 2" if "i \<le> p" for p
    proof -
      have "(2::nat) ^ i \<le> 2 ^ p" using that by (intro power_increasing) auto
      then have "(2::nat) ^ i div 2 \<le> 2 ^ p div 2" by (rule div_le_mono)
      with False "1.prems"(2,3) le [of "\<lambda>k. k \<le> 2 ^ p"] show ?thesis by linarith
    qed
    then have "best_size S (MAXBITS + 1) n na"
      by (intro best_size_mono [OF "1.prems"(5,6)]) blast
    moreover have "computesizes_loop nums narray i twotoi a na n = (n, na)"
      using False by (subst computesizes_loop.simps) simp
    ultimately show ?thesis by blast
  next
    case True
    have "{k \<in> S. k \<le> 2 ^ MAXBITS} = S" using S(1) by (auto simp: index_keys_def)
    then have "narray \<le> 2 ^ MAXBITS" using card_upto_le [OF S(1), of "2 ^ MAXBITS"] "1.prems"(2) by simp
    have iM: "i \<le> MAXBITS"
    proof (rule ccontr)
      assume "\<not> i \<le> MAXBITS"
      with "1.prems"(6) have "i = MAXBITS + 1" by simp
      with True "1.prems"(3) \<open>narray \<le> 2 ^ MAXBITS\<close> show False by simp
    qed
    define a' where "a' = card {k \<in> S. k \<le> 2 ^ i}"
    have sum: "(\<Sum>j<Suc i. nums ! j) = a'"
      using nums_sum [OF "1.prems"(1) iM] by (simp add: a'_def lessThan_Suc_atMost)
    then have a': "a + nums ! i = a'" using "1.prems"(4) by simp
    have le_half: "a \<le> twotoi div 2"
    proof (cases i)
      case (Suc j)
      then have "a = card {k \<in> S. k \<le> 2 ^ j}"
        using nums_sum [OF "1.prems"(1), of j] "1.prems"(4) iM by (simp add: lessThan_Suc_atMost)
      then show ?thesis using card_upto_le [OF S(1), of "2 ^ j"] "1.prems"(3) Suc by simp
    qed (use "1.prems" in simp)
    define upd where "upd \<longleftrightarrow> twotoi div 2 < a'"
    have c0: "nums ! i > 0" if upd using that le_half a' by (simp add: upd_def)
    define n' na' where "n' = (if upd then twotoi else n)" and "na' = (if upd then a' else na)"
    have b: "best_size S (Suc i) n' na'"
    proof (cases upd)
      case True
      have "2 ^ p \<le> n'" if "p < Suc i" for p
        using that True "1.prems"(3) by (simp add: n'_def)
      with True "1.prems"(3) show ?thesis
        unfolding best_size_def by (auto simp: n'_def na'_def a'_def upd_def)
    next
      case False
      then have "best_size S (Suc i) n na"
        using "1.prems"(3) by (intro best_size_mono [OF "1.prems"(5)])
          (auto simp: upd_def a'_def not_less le_antisym less_Suc_eq_le dest: antisym)
      with False show ?thesis by (simp add: n'_def na'_def)
    qed
    have e: "computesizes_loop nums narray i twotoi a na n =
      (if a' = narray \<or> twotoi = 0 then (n', na')
       else computesizes_loop nums narray (i + 1) (twotoi * 2) a' na' n')"
      using True a' c0 by (subst computesizes_loop.simps)
        (auto simp: Let_def n'_def na'_def upd_def)
    show ?thesis
    proof (cases "a' = narray \<or> twotoi = 0")
      case True
      then have all: "a' = card S" using "1.prems"(2,3) by simp
      have "card {k \<in> S. k \<le> 2 ^ p} \<le> 2 ^ p div 2" if "Suc i \<le> p" for p
      proof -
        have "(2::nat) * 2 ^ i \<le> 2 ^ p" using power_increasing [OF that, of "2::nat"] by simp
        then have "(2::nat) ^ i \<le> 2 ^ p div 2" by simp
        moreover have "card S \<le> 2 ^ i" using all card_upto_le [OF S(1), of "2 ^ i"] by (simp add: a'_def)
        ultimately show ?thesis using le [of "\<lambda>k. k \<le> 2 ^ p"] by linarith
      qed
      then have "best_size S (MAXBITS + 1) n' na'" using iM by (intro best_size_mono [OF b]) simp_all
      with True show ?thesis unfolding e by simp
    next
      case False
      have "\<exists>n'' na''. computesizes_loop nums narray (i + 1) (twotoi * 2) a' na' n' = (n'', na'')
          \<and> best_size S (MAXBITS + 1) n'' na''"
      proof (rule "1.IH" [OF True, of "nums ! i" a' upd n' na'])
      qed (use True False a' c0 "1.prems" sum b iM in \<open>auto simp: n'_def na'_def upd_def\<close>)
      with False show ?thesis unfolding e by simp
    qed
  qed
qed

lemma computesizes_ok:
  assumes "nums_of S nums" "narray = card S"
  shows "\<exists>n na. computesizes nums narray = (n, na) \<and> best_size S (MAXBITS + 1) n na"
proof -
  have "{k \<in> S. k = 0} = {}" using assms(1) by (auto simp: nums_of_def index_keys_def)
  then have "best_size S 0 0 0" by (simp add: best_size_def)
  then show ?thesis unfolding computesizes_def
    by (intro computesizes_loop_ok [OF assms]) simp_all
qed
end
