(* ===== verification/Table_Rehash.thy ===== *)
theory Table_Rehash
  imports Table_Count
begin

text \<open>
  Rehash: the table is rebuilt with sizes computed from its contents, and every entry is
  inserted again. The theory shows that the new sizes leave room for every entry and for the
  new key, so no insertion of a rehash rehashes again, that the contents do not change, and
  hence what \<open>luaH_set\<close> and \<open>luaH_setnum\<close> do in every case.
\<close>

declare newkey_depth.simps [simp del]

section \<open>An empty node vector\<close>

lemma fresh_ok:
  assumes "length a \<le> 2 ^ MAXBITS" "setnodevector t sz = Inr u"
  shows "tab_ok H (u\<lparr>arr := a\<rparr>)" "used_nodes (u\<lparr>arr := a\<rparr>) = {}"
    "\<And>i. i < sizenode u \<Longrightarrow> gkey u i = LNil" "metatable u = metatable t" "arr u = arr t"
    "0 < sz \<Longrightarrow> \<not> dummy u \<and> sz \<le> sizenode u"
proof -
  have K: "gkey u i = LNil \<and> gval u i = LNil \<and> gnext (node u ! i) = None" if "i < sizenode u" for i
    using that assms(2)
    by (auto simp: setnodevector_def Let_def sizenode_def gkey_def gval_def dummynode_def nth_replicate
        split: if_splits)
  then show "\<And>i. i < sizenode u \<Longrightarrow> gkey u i = LNil" by simp
  have F: "sizenode (u\<lparr>arr := a\<rparr>) = sizenode u" "gkey (u\<lparr>arr := a\<rparr>) = gkey u"
    "gval (u\<lparr>arr := a\<rparr>) = gval u" "sizearray (u\<lparr>arr := a\<rparr>) = length a"
    by (auto simp: sizenode_def gkey_def gval_def sizearray_def fun_eq_iff)
  have nx: "nx (u\<lparr>arr := a\<rparr>) = {}" using K by (auto simp: nx_def sizenode_def)
  show "used_nodes (u\<lparr>arr := a\<rparr>) = {}" using K by (auto simp: used_nodes_def F)
  have "int (length a) \<le> MAXASIZE" using assms(1) by (simp add: MAXASIZE_def)
  then have "shape_ok (u\<lparr>arr := a\<rparr>)"
    using assms(2) unfolding shape_ok_def F
    by (auto simp: setnodevector_def Let_def sizenode_def split: if_splits)
  moreover have "chains_ok (u\<lparr>arr := a\<rparr>)" using K unfolding chains_ok_def nx F by auto
  moreover have "keys_ok H (u\<lparr>arr := a\<rparr>)"
    by (rule keys_okI) (simp_all add: F K proper_key_def is_nan_value_def)
  ultimately show "tab_ok H (u\<lparr>arr := a\<rparr>)" by (simp add: tab_ok_def)
  show "metatable u = metatable t" "arr u = arr t"
    using assms(2) by (auto simp: setnodevector_def Let_def split: if_splits)
  show "0 < sz \<Longrightarrow> \<not> dummy u \<and> sz \<le> sizenode u"
    using assms(2) ceillog2_bounds [of sz]
    by (auto simp: setnodevector_def Let_def sizenode_def split: if_splits)
qed

lemma setnodevector_result:
  "setnodevector t sz = (if 2 ^ MAXBITS < sz then Inl TableOverflow else setnodevector t sz)
   \<and> (sz \<le> 2 ^ MAXBITS \<longrightarrow> (\<exists>u. setnodevector t sz = Inr u))"
proof (cases "sz = 0")
  case False
  then have "nat (ceillog2 sz) \<le> MAXBITS \<longleftrightarrow> sz \<le> 2 ^ MAXBITS" by (intro ceillog2_le_iff) simp
  with False show ?thesis by (auto simp: setnodevector_def Let_def)
qed (simp add: setnodevector_def)

section \<open>Inserting entries again\<close>

definition outside :: "nat \<Rightarrow> TValue \<Rightarrow> bool" where
  "outside n k \<longleftrightarrow> \<not> (0 < arrayindex k \<and> arrayindex k \<le> int n)"

lemma in_array_outside: "in_array t k \<longleftrightarrow> \<not> outside (sizearray t) k"
  by (simp add: in_array_def outside_def)

abbreviation hash_bound :: "nat \<Rightarrow> (TValue \<times> TValue) list \<Rightarrow> nat" where
  "hash_bound n ps \<equiv> length (filter (\<lambda>(k, v). outside n k) ps)"

text \<open>The table \<open>t'\<close> is \<open>t\<close> with the pairs \<open>ps\<close> written into it.\<close>

definition reinserted :: "(ptr \<Rightarrow> u32) \<Rightarrow> (TValue \<times> TValue) list \<Rightarrow> Table \<Rightarrow> Table \<Rightarrow> bool" where
  "reinserted H ps t t' \<longleftrightarrow> tab_ok H t' \<and> sizearray t' = sizearray t \<and> sizenode t' = sizenode t
     \<and> dummy t' = dummy t \<and> metatable t' = metatable t
     \<and> card (used_nodes t') \<le> card (used_nodes t) + hash_bound (sizearray t) ps
     \<and> (\<forall>k. proper_key k \<longrightarrow>
          (\<exists>x \<in> set ps. luaO_rawequalObj (fst x) k \<and> lookup t' k = snd x)
          \<or> ((\<forall>x \<in> set ps. \<not> luaO_rawequalObj (fst x) k) \<and> lookup t' k = lookup t k))"

definition fits :: "Table \<Rightarrow> (TValue \<times> TValue) list \<Rightarrow> bool" where
  "fits t ps \<longleftrightarrow> hash_bound (sizearray t) ps = 0
     \<or> (\<not> dummy t \<and> card (used_nodes t) + hash_bound (sizearray t) ps \<le> sizenode t)"

lemma reinserted_Nil: "tab_ok H t \<Longrightarrow> reinserted H [] t t"
  by (simp add: reinserted_def)

lemma fits_room:
  assumes "fits t ((k, v) # ps)"
  shows "room t \<or> in_array t k"
  using assms by (auto simp: fits_def room_def in_array_outside)

lemma fits_step:
  assumes "fits t ((k, v) # ps)" "grows t k t'"
  shows "fits t' ps"
  using assms by (auto simp: fits_def grows_def in_array_outside split: if_splits)

lemma reinserted_step:
  assumes s: "set_post H t k t1 p" "grows t k t1" and k: "proper_key k"
    and r: "reinserted H ps (tv_write t1 p v) t'"
  shows "reinserted H ((k, v) # ps) t t'"
proof -
  note w = write_set_post [OF s(1) k, where v = v]
  have g: "grows t k (tv_write t1 p v)" using w(4) s(2) .
  have "(\<exists>x \<in> set ((k, v) # ps). luaO_rawequalObj (fst x) k' \<and> lookup t' k' = snd x)
      \<or> ((\<forall>x \<in> set ((k, v) # ps). \<not> luaO_rawequalObj (fst x) k') \<and> lookup t' k' = lookup t k')"
    if "proper_key k'" for k'
    using r that w(2) [OF that] by (auto simp: reinserted_def split: if_splits)
  then show ?thesis
    using r g w(3) by (auto simp: reinserted_def grows_def in_array_outside split: if_splits)
qed

lemma reinserted_append:
  assumes "reinserted H ps t t1" "reinserted H qs t1 t2"
  shows "reinserted H (ps @ qs) t t2"
proof -
  have "(\<exists>x \<in> set (ps @ qs). luaO_rawequalObj (fst x) k \<and> lookup t2 k = snd x)
      \<or> ((\<forall>x \<in> set (ps @ qs). \<not> luaO_rawequalObj (fst x) k) \<and> lookup t2 k = lookup t k)"
    if "proper_key k" for k
    using assms that unfolding reinserted_def set_append by (metis UnE UnI1 UnI2)
  then show ?thesis using assms by (simp add: reinserted_def)
qed

lemma fits_append:
  assumes "fits t (ps @ qs)" "reinserted H ps t t1"
  shows "fits t1 qs"
  using assms by (auto simp: fits_def reinserted_def)

text \<open>The pairs of a node list and of a slice of the array part, in the order of the loops.\<close>

definition node_pairs :: "Node list \<Rightarrow> (TValue \<times> TValue) list" where
  "node_pairs ns = map (\<lambda>n. (i_key n, i_val n)) (filter (\<lambda>n. i_val n \<noteq> LNil) ns)"

fun array_pairs :: "nat \<Rightarrow> TValue list \<Rightarrow> (TValue \<times> TValue) list" where
  "array_pairs i [] = []"
| "array_pairs i (v # vs) = (if v \<noteq> LNil then [(LNumber (cast_num (int i + 1)), v)] else [])
     @ array_pairs (i + 1) vs"

lemma reinsert_nodes_ok:
  assumes "tab_ok H t" "\<forall>n \<in> set ns. i_val n \<noteq> LNil \<longrightarrow> proper_key (i_key n)" "fits t (node_pairs ns)"
  shows "\<exists>t'. reinsert_nodes (newkey_depth (Suc d) H) H t ns = Inr t' \<and> reinserted H (node_pairs ns) t t'"
  using assms
proof (induction ns arbitrary: t)
  case Nil
  then show ?case by (simp add: node_pairs_def reinserted_Nil)
next
  case (Cons n ns)
  show ?case
  proof (cases "i_val n = LNil")
    case True
    with Cons show ?thesis by (simp add: node_pairs_def)
  next
    case False
    have e: "node_pairs (n # ns) = (i_key n, i_val n) # node_pairs ns"
      using False by (simp add: node_pairs_def)
    have k: "proper_key (i_key n)" using Cons.prems(2) False by simp
    from set_with_room [OF Cons.prems(1) k fits_room, of "i_val n" "node_pairs ns" d] Cons.prems(3) e
    obtain t1 p where s: "luaH_set_with (newkey_depth (Suc d) H) H t (i_key n) = Inr (t1, p)"
      "set_post H t (i_key n) t1 p" "grows t (i_key n) t1" by auto
    note w = write_set_post [OF s(2) k, where v = "i_val n"]
    have "fits (tv_write t1 p (i_val n)) (node_pairs ns)"
      using fits_step w(4) s(3) Cons.prems(3) unfolding e by blast
    with Cons.IH [OF w(1)] Cons.prems(2) obtain t' where
      "reinsert_nodes (newkey_depth (Suc d) H) H (tv_write t1 p (i_val n)) ns = Inr t'"
      "reinserted H (node_pairs ns) (tv_write t1 p (i_val n)) t'" by auto
    with reinserted_step [OF s(2,3) k] s(1) False show ?thesis by (simp add: tbind_def e)
  qed
qed

lemma reinsert_array_ok:
  assumes "tab_ok H t" "i + length vs \<le> 2 ^ MAXBITS" "fits t (array_pairs i vs)"
  shows "\<exists>t'. reinsert_array (newkey_depth (Suc d) H) t i vs = Inr t'
    \<and> reinserted H (array_pairs i vs) t t'"
  using assms
proof (induction vs arbitrary: t i)
  case Nil
  then show ?case by (simp add: reinserted_Nil)
next
  case (Cons v vs)
  show ?case
  proof (cases "v = LNil")
    case True
    with Cons show ?thesis by simp
  next
    case False
    let ?k = "LNumber (cast_num (int i + 1))"
    have e: "array_pairs i (v # vs) = (?k, v) # array_pairs (i + 1) vs" using False by simp
    have r: "INT_MIN \<le> int i + 1" "int i + 1 \<le> INT_MAX"
      using Cons.prems(2) by (auto simp: INT_MIN_def INT_MAX_def MAXBITS_def)
    have k: "proper_key ?k" by (rule number_key_proper [OF r])
    from setnum_with_room [OF Cons.prems(1) r refl fits_room, of v "array_pairs (i + 1) vs" d]
      Cons.prems(3) e
    obtain t1 p where s: "luaH_setnum_with (newkey_depth (Suc d) H) t (int i + 1) = Inr (t1, p)"
      "set_post H t ?k t1 p" "grows t ?k t1" by auto
    note w = write_set_post [OF s(2) k, where v = v]
    have "fits (tv_write t1 p v) (array_pairs (i + 1) vs)"
      using fits_step w(4) s(3) Cons.prems(3) unfolding e by blast
    with Cons.IH [OF w(1), of "i + 1"] Cons.prems(2) obtain t' where
      "reinsert_array (newkey_depth (Suc d) H) (tv_write t1 p v) (i + 1) vs = Inr t'"
      "reinserted H (array_pairs (i + 1) vs) (tv_write t1 p v) t'" by auto
    with reinserted_step [OF s(2,3) k] s(1) False show ?thesis unfolding e by (simp add: tbind_def)
  qed
qed

section \<open>Resize\<close>

lemma array_pairs_set:
  "x \<in> set (array_pairs i vs) \<longleftrightarrow>
    (\<exists>j < length vs. vs ! j \<noteq> LNil \<and> x = (LNumber (cast_num (int (i + j) + 1)), vs ! j))"
proof (induction vs arbitrary: i)
  case (Cons v vs)
  have split: "(\<exists>j < length (v # vs). P j) \<longleftrightarrow> P 0 \<or> (\<exists>j < length vs. P (Suc j))" for P
    by (auto simp: less_Suc_eq_0_disj)
  show ?case unfolding split by (auto simp: Cons.IH)
qed simp

definition old_pairs :: "Table \<Rightarrow> nat \<Rightarrow> (TValue \<times> TValue) list" where
  "old_pairs t n = array_pairs n (drop n (arr t)) @ node_pairs (rev (node t))"

lemma old_pairs_set:
  assumes "tab_ok H t"
  shows "x \<in> set (old_pairs t n) \<longleftrightarrow>
    (\<exists>j. n \<le> j \<and> j < sizearray t \<and> arr t ! j \<noteq> LNil \<and> x = (LNumber (cast_num (int j + 1)), arr t ! j))
    \<or> (\<exists>i < sizenode t. gval t i \<noteq> LNil \<and> x = (gkey t i, gval t i))"
proof -
  have "x \<in> set (array_pairs n (drop n (arr t))) \<longleftrightarrow>
    (\<exists>j. n \<le> j \<and> j < sizearray t \<and> arr t ! j \<noteq> LNil \<and> x = (LNumber (cast_num (int j + 1)), arr t ! j))"
    (is "_ \<longleftrightarrow> ?R")
  proof
    assume "x \<in> set (array_pairs n (drop n (arr t)))"
    then obtain j where "j < length (drop n (arr t))" "drop n (arr t) ! j \<noteq> LNil"
      "x = (LNumber (cast_num (int (n + j) + 1)), drop n (arr t) ! j)"
      unfolding array_pairs_set by blast
    then show ?R by (intro exI [of _ "n + j"]) (simp add: sizearray_def)
  next
    assume ?R
    then obtain j where "n \<le> j" "j < sizearray t" "arr t ! j \<noteq> LNil"
      "x = (LNumber (cast_num (int j + 1)), arr t ! j)" by blast
    then show "x \<in> set (array_pairs n (drop n (arr t)))"
      unfolding array_pairs_set by (intro exI [of _ "j - n"]) (simp add: sizearray_def)
  qed
  moreover have "x \<in> set (node_pairs (rev (node t))) \<longleftrightarrow>
    (\<exists>i < sizenode t. gval t i \<noteq> LNil \<and> x = (gkey t i, gval t i))"
    using tab_okD(1) [OF assms]
    by (auto simp: node_pairs_def gkey_def gval_def in_set_conv_nth image_iff)
  ultimately show ?thesis by (simp add: old_pairs_def)
qed

lemma array_key:
  assumes ok: "tab_ok H t" and j: "j < sizearray t" and r: "luaO_rawequalObj (LNumber (cast_num (int j + 1))) k"
  shows "arrayindex k = int j + 1" "in_array t k" "lookup t k = arr t ! j"
proof -
  have "int j + 1 \<le> MAXASIZE" using tab_okD(3) [OF ok] j by linarith
  then have "INT_MIN \<le> int j + 1" "int j + 1 \<le> INT_MAX"
    by (auto simp: INT_MIN_def INT_MAX_def MAXASIZE_def MAXBITS_def)
  from arrayindex_cast_num [OF this] arrayindex_rawequal [OF r] show i: "arrayindex k = int j + 1" by simp
  with j show "in_array t k" by (simp add: in_array_def)
  with i show "lookup t k = arr t ! j" by (simp add: lookup_def)
qed

lemma in_array_number:
  assumes "0 < arrayindex k"
  shows "luaO_rawequalObj (LNumber (cast_num (arrayindex k))) k"
  using assms by (cases k) (auto simp: arrayindex_def Let_def split: if_splits)

text \<open>Writing the displaced entries into the fresh table restores the contents.\<close>

lemma resize_contents:
  assumes ok: "tab_ok H t" and ok0: "tab_ok H t0"
    and a0: "arr t0 = take n (arr t) @ replicate (n - sizearray t) LNil"
    and empty: "\<And>i. i < sizenode t0 \<Longrightarrow> gkey t0 i = LNil"
    and r: "reinserted H (old_pairs t n) t0 t'" and k: "proper_key k"
  shows "lookup t' k = lookup t k"
proof -
  note S = old_pairs_set [OF ok, of _ n]
  have sz0: "sizearray t0 = n" using a0 by (simp add: sizearray_def)
  from r k consider x where "x \<in> set (old_pairs t n)" "luaO_rawequalObj (fst x) k" "lookup t' k = snd x"
    | "\<And>x. x \<in> set (old_pairs t n) \<Longrightarrow> \<not> luaO_rawequalObj (fst x) k" "lookup t' k = lookup t0 k"
    unfolding reinserted_def by blast
  then show ?thesis
  proof cases
    case 1
    from 1(1)[unfolded S] show ?thesis
    proof (elim disjE exE conjE)
      fix j assume "j < sizearray t" "x = (LNumber (cast_num (int j + 1)), arr t ! j)"
      then show ?thesis using array_key(3) [OF ok, of j k] 1(2,3) by simp
    next
      fix i assume "i < sizenode t" "x = (gkey t i, gval t i)"
      then show ?thesis using lookup_node(2) [OF ok k, of i] 1(2,3) by simp
    qed
  next
    case 2
    have hash: "lookup t k = LNil" if "\<not> in_array t k"
    proof (cases "\<exists>i < sizenode t. luaO_rawequalObj (gkey t i) k")
      case True
      then obtain i where i: "i < sizenode t" "luaO_rawequalObj (gkey t i) k" by blast
      with 2(1) [of "(gkey t i, gval t i)"] S have "gval t i = LNil" by auto
      with lookup_node(2) [OF ok k i] show ?thesis by simp
    next
      case False
      with lookup_absent [OF ok that] show ?thesis by blast
    qed
    have "lookup t0 k = lookup t k"
    proof (cases "in_array t0 k")
      case True
      define j where "j = nat (arrayindex k - 1)"
      have j: "j < n" "arrayindex k = int j + 1" using True sz0 by (auto simp: in_array_def j_def)
      have l0: "lookup t0 k = (if j < sizearray t then arr t ! j else LNil)"
        using True j a0 by (simp add: lookup_def nth_append sizearray_def)
      show ?thesis
      proof (cases "j < sizearray t")
        case True
        then have "in_array t k" using j by (simp add: in_array_def)
        with l0 True j show ?thesis by (simp add: lookup_def)
      next
        case False
        then have "\<not> in_array t k" using j by (simp add: in_array_def)
        with l0 False hash show ?thesis by simp
      qed
    next
      case False
      have "\<not> luaO_rawequalObj LNil k" using k by (auto simp: rawequal_iff proper_key_def)
      with lookup_absent [OF ok0 False] empty have l0: "lookup t0 k = LNil" by simp
      show ?thesis
      proof (cases "in_array t k")
        case True
        define j where "j = nat (arrayindex k - 1)"
        have j: "n \<le> j" "j < sizearray t" "arrayindex k = int j + 1"
          using True False sz0 by (auto simp: in_array_def j_def)
        then have "luaO_rawequalObj (LNumber (cast_num (int j + 1))) k"
          using in_array_number [of k] by simp
        with 2(1) [of "(LNumber (cast_num (int j + 1)), arr t ! j)"] S j have "arr t ! j = LNil" by auto
        with l0 True j(3) show ?thesis by (simp add: lookup_def)
      qed (use hash l0 in simp)
    qed
    with 2(2) show ?thesis by simp
  qed
qed

text \<open>
  Resizing with room for every entry that goes to the hash part: no nested rehash, so any
  depth will do, and the contents stay.
\<close>

lemma resize_ok:
  assumes ok: "tab_ok H t" and n: "n \<le> 2 ^ MAXBITS"
    and h: "hash_bound n (old_pairs t n) \<le> nh" "nh \<le> 2 ^ MAXBITS"
  shows "\<exists>t'. resize_with (newkey_depth (Suc d) H) H t n nh = Inr t' \<and> tab_ok H t'
    \<and> (\<forall>k. proper_key k \<longrightarrow> lookup t' k = lookup t k) \<and> sizearray t' = n \<and> metatable t' = metatable t
    \<and> card (used_nodes t') \<le> hash_bound n (old_pairs t n)
    \<and> (0 < nh \<longrightarrow> \<not> dummy t' \<and> nh \<le> sizenode t')"
proof -
  define a where "a = take n (arr t) @ replicate (n - sizearray t) LNil"
  define t1 where "t1 = (if n > sizearray t then setarrayvector t n else t)"
  obtain u where u: "setnodevector t1 nh = Inr u" using setnodevector_result h(2) by blast
  define t0 where "t0 = u\<lparr>arr := a\<rparr>"
  have la: "length a = n" by (simp add: a_def sizearray_def)
  have m1: "metatable t1 = metatable t" by (simp add: t1_def setarrayvector_def)
  note fr = fresh_ok [OF _ u, where a = a, folded t0_def, unfolded la, OF n]
  have sz0: "sizearray t0 = n" "sizenode t0 = sizenode u" "dummy t0 = dummy u" "metatable t0 = metatable u"
    by (simp_all add: t0_def la sizearray_def sizenode_def)
  have empty: "gkey t0 i = LNil" if "i < sizenode t0" for i
    using fr(3) [of i] that by (simp add: t0_def gkey_def sizenode_def)
  have shrink: "(if n < sizearray t then u\<lparr>arr := take n (arr t)\<rparr> else u) = t0"
    using fr(5) by (auto simp: t0_def t1_def a_def setarrayvector_def sizearray_def)
  have fit: "fits t0 (old_pairs t n)"
  proof (cases "hash_bound n (old_pairs t n) = 0")
    case False
    with h(1) have "0 < nh" by linarith
    with fr(6) h(1) have "\<not> dummy u" "hash_bound n (old_pairs t n) \<le> sizenode u" by auto
    with fr(2) sz0 show ?thesis unfolding fits_def by simp
  qed (simp only: fits_def sz0 simp_thms)
  then have fita: "fits t0 (array_pairs n (drop n (arr t)))" by (auto simp: fits_def old_pairs_def)
  have len: "n + length (drop n (arr t)) \<le> 2 ^ MAXBITS"
  proof -
    have "int (sizearray t) \<le> int (2 ^ MAXBITS)" using tab_okD(3) [OF ok] by (simp add: MAXASIZE_def)
    then have "sizearray t \<le> 2 ^ MAXBITS" by (simp only: of_nat_le_iff)
    then show ?thesis using n by (cases "n \<le> sizearray t") (simp_all add: sizearray_def)
  qed
  obtain t2 where t2: "reinserted H (array_pairs n (drop n (arr t))) t0 t2"
    "(if n < sizearray t then reinsert_array (newkey_depth (Suc d) H)
        (u\<lparr>arr := take n (arr t)\<rparr>) n (drop n (arr t)) else Inr u) = Inr t2"
  proof (cases "n < sizearray t")
    case True
    with reinsert_array_ok [OF fr(1) len fita, of d] shrink that show thesis by auto
  next
    case False
    then have "array_pairs n (drop n (arr t)) = []" by (simp add: sizearray_def)
    with False reinserted_Nil [OF fr(1)] shrink show thesis by (intro that [of t0]) simp_all
  qed
  have ok2: "tab_ok H t2" using t2(1) by (simp add: reinserted_def)
  have keys: "\<forall>n \<in> set (rev (node t)). i_val n \<noteq> LNil \<longrightarrow> proper_key (i_key n)"
    using keys_okD(1) [OF ok] tab_okD(1) [OF ok] by (auto simp: in_set_conv_nth gkey_def gval_def)
  from reinsert_nodes_ok [OF ok2 keys, of d] fits_append [OF _ t2(1)] fit
  obtain t' where t': "reinsert_nodes (newkey_depth (Suc d) H) H t2 (rev (node t)) = Inr t'"
    "reinserted H (node_pairs (rev (node t))) t2 t'" by (auto simp: old_pairs_def)
  have r: "reinserted H (old_pairs t n) t0 t'"
    using reinserted_append [OF t2(1) t'(2)] by (simp add: old_pairs_def)
  have "resize_with (newkey_depth (Suc d) H) H t n nh = Inr t'"
    using t2(2) t'(1) u by (simp add: resize_with_def tbind_def Let_def flip: t1_def)
  moreover have "\<forall>k. proper_key k \<longrightarrow> lookup t' k = lookup t k"
    using resize_contents [OF ok fr(1) _ empty r] by (simp add: t0_def a_def)
  moreover have "card (used_nodes t') \<le> hash_bound n (old_pairs t n)"
    using r sz0 fr(2) by (simp add: reinserted_def)
  ultimately show ?thesis using r sz0 fr(4,6) m1 by (simp add: reinserted_def)
qed

lemma resize_overflow:
  assumes "2 ^ MAXBITS < nh"
  shows "resize_with nk H t n nh = Inl TableOverflow"
proof -
  have "setnodevector t' nh = Inl TableOverflow" for t'
    using setnodevector_result [of t' nh] assms by simp
  then show ?thesis by (simp add: resize_with_def tbind_def Let_def)
qed

section \<open>Rehash makes room\<close>

text \<open>
  What the loops count: the keys of the array part, the integer keys of the hash part and the
  new key are distinct, and every live entry is counted once.
\<close>

definition counted :: "Table \<Rightarrow> TValue \<Rightarrow> nat set" where
  "counted t k = live_upto (arr t) (sizearray t) \<union> node_keys (node t) (sizenode t) \<union> index_of k"

definition live_total :: "Table \<Rightarrow> nat" where
  "live_total t = card (live_upto (arr t) (sizearray t)) + card (live_nodes (node t) (sizenode t))"

lemma index_of_inject:
  assumes "x \<in> index_of a" "x \<in> index_of b"
  shows "luaO_rawequalObj a b"
proof -
  have e: "arrayindex a = int x" "arrayindex b = int x" "0 < x"
    using assms by (auto simp: index_of_def split: if_splits)
  then have "luaO_rawequalObj (LNumber (cast_num (int x))) a" "luaO_rawequalObj (LNumber (cast_num (int x))) b"
    using in_array_number [of a] in_array_number [of b] by simp_all
  then show ?thesis using rawequal_sym rawequal_trans by blast
qed

lemma live_nodes_iff: "i \<in> live_nodes (node t) (sizenode t) \<longleftrightarrow> i < sizenode t \<and> gval t i \<noteq> LNil"
  by (simp add: live_nodes_def gval_def)

lemma node_keys_apart:
  assumes "tab_ok H t"
  shows "keys_apart (node t) (sizenode t)"
proof -
  have F: False if "x \<in> index_of (gkey t i)" "x \<in> index_of (gkey t j)" "i \<noteq> j"
    "i < sizenode t" "gval t i \<noteq> LNil" "j < sizenode t" for i j x
    using that keys_okD(1) [OF assms that(4,5)] keys_okD(7) [OF assms that(4), of j]
      index_of_inject [OF that(1,2)] by blast
  show ?thesis unfolding keys_apart_def
  proof (intro ballI impI equals0I)
    fix i j x
    assume "i \<in> live_nodes (node t) (sizenode t)" "j \<in> live_nodes (node t) (sizenode t)" "i \<noteq> j"
      "x \<in> index_of (i_key (node t ! i)) \<inter> index_of (i_key (node t ! j))"
    then show False using F [of x i j] by (simp add: live_nodes_iff gkey_def)
  qed
qed

lemma counted_apart:
  assumes ok: "tab_ok H t" and k: "proper_key k" "located t k NilObject"
  shows "live_upto (arr t) (sizearray t) \<inter> node_keys (node t) (sizenode t) = {}"
    "(live_upto (arr t) (sizearray t) \<union> node_keys (node t) (sizenode t)) \<inter> index_of k = {}"
proof -
  have a: "\<not> in_array t k" "\<And>i. i < sizenode t \<Longrightarrow> \<not> luaO_rawequalObj (gkey t i) k"
    using k(2) by (auto simp: located_def split: if_splits)
  have arr: "x \<notin> live_upto (arr t) (sizearray t)" if "x \<in> index_of b" "\<not> in_array t b" for x b
    using that by (auto simp: index_of_def in_array_def live_upto_def split: if_splits)
  show "live_upto (arr t) (sizearray t) \<inter> node_keys (node t) (sizenode t) = {}"
  proof -
    have "\<not> in_array t (i_key (node t ! i))" if "i \<in> live_nodes (node t) (sizenode t)" for i
      using keys_okD(3) [OF ok, of i] keys_okD(1) [OF ok, of i] that
      unfolding live_nodes_iff by (simp add: gkey_def)
    then show ?thesis using arr by (auto simp: node_keys_def)
  qed
  have "x \<notin> index_of k" if "x \<in> node_keys (node t) (sizenode t)" for x
  proof -
    from that obtain i where "i < sizenode t" "x \<in> index_of (gkey t i)"
      by (auto simp: node_keys_def live_nodes_iff gkey_def)
    with a(2) index_of_inject [of x _ k] show ?thesis by blast
  qed
  then show "(live_upto (arr t) (sizearray t) \<union> node_keys (node t) (sizenode t)) \<inter> index_of k = {}"
    using arr a(1) by blast
qed

lemma rehash_counts:
  assumes ok: "tab_ok H t" and k: "proper_key k" "located t k NilObject"
  shows "\<exists>n na. rehash_with nk H t k = resize_with nk H t n (Suc (live_total t) - na)
    \<and> best_size (counted t k) (MAXBITS + 1) n na \<and> index_keys (counted t k)"
proof -
  note ap = counted_apart [OF ok k]
  let ?A = "live_upto (arr t) (sizearray t)" and ?N = "node_keys (node t) (sizenode t)"
  obtain n1 where 1: "numusearray t (replicate (MAXBITS + 1) 0) = (n1, card ?A)" "nums_of ?A n1"
    using numusearray_ok [OF ok] by blast
  obtain n2 where 2: "numusehash_loop (node t) (sizenode t) n1 0 0
      = (n2, 0 + card (live_nodes (node t) (sizenode t)), 0 + card ?N)" "nums_of (?A \<union> ?N) n2"
    using numusehash_loop_ok [OF 1(2) ap(1) node_keys_apart [OF ok]] by blast
  obtain n3 where 3: "countint k n2 = (n3, card (index_of k))" "nums_of (counted t k) n3"
    using countint_ok [OF 2(2) ap(2)] by (auto simp: counted_def)
  have c: "card ?A + card ?N + card (index_of k) = card (counted t k)"
    using ap by (simp add: counted_def card_Un_disjoint)
  obtain n na where 4: "computesizes n3 (card (counted t k)) = (n, na)"
    "best_size (counted t k) (MAXBITS + 1) n na" using computesizes_ok [OF 3(2) refl] by blast
  have "rehash_with nk H t k = resize_with nk H t n (Suc (live_total t) - na)"
    using 1(1) 2(1) 3(1) 4(1) c
    by (simp add: rehash_with_def numusehash_def Let_def live_total_def add.assoc del: replicate_Suc)
  with 4(2) 3(2) show ?thesis by (auto simp: nums_of_def)
qed

lemma hash_bound_array:
  assumes "n \<le> i" "i + length vs \<le> 2 ^ MAXBITS"
  shows "hash_bound n (array_pairs i vs) = length (filter (\<lambda>v. v \<noteq> LNil) vs)"
  using assms
proof (induction vs arbitrary: i)
  case (Cons v vs)
  have "INT_MIN \<le> int i + 1" "int i + 1 \<le> INT_MAX"
    using Cons.prems(2) by (auto simp: INT_MIN_def INT_MAX_def MAXBITS_def)
  from arrayindex_cast_num [OF this] Cons.prems(1)
  have "outside n (LNumber (cast_num (int i + 1)))" by (simp add: outside_def)
  with Cons.IH [of "i + 1"] Cons.prems show ?case by simp
qed simp

lemma tab_ok_arr_length: "tab_ok H t \<Longrightarrow> sizearray t \<le> 2 ^ MAXBITS"
proof -
  assume "tab_ok H t"
  then have "int (sizearray t) \<le> int (2 ^ MAXBITS)" using tab_okD(3) by (simp add: MAXASIZE_def)
  then show ?thesis by (simp only: of_nat_le_iff)
qed

lemma count_array_pairs:
  assumes "tab_ok H t" "n \<le> 2 ^ MAXBITS"
  shows "hash_bound n (array_pairs n (drop n (arr t))) = card {k \<in> live_upto (arr t) (sizearray t). n < k}"
proof -
  have "hash_bound n (array_pairs n (drop n (arr t))) = length (filter (\<lambda>v. v \<noteq> LNil) (drop n (arr t)))"
    using tab_ok_arr_length [OF assms(1)] assms(2)
    by (intro hash_bound_array) (cases "n \<le> sizearray t"; simp add: sizearray_def)+
  also have "\<dots> = card {j. j < length (drop n (arr t)) \<and> drop n (arr t) ! j \<noteq> LNil}"
    by (rule length_filter_conv_card)
  also have "\<dots> = card {k \<in> live_upto (arr t) (sizearray t). n < k}"
  proof (rule bij_betw_same_card)
    show "bij_betw (\<lambda>j. n + j + 1) {j. j < length (drop n (arr t)) \<and> drop n (arr t) ! j \<noteq> LNil}
        {k \<in> live_upto (arr t) (sizearray t). n < k}"
      by (rule bij_betw_byWitness [where f' = "\<lambda>k. k - n - 1"])
        (auto simp: live_upto_def sizearray_def less_diff_conv)
  qed
  finally show ?thesis .
qed

lemma count_node_pairs:
  assumes "tab_ok H t"
  shows "hash_bound n (node_pairs (rev (node t)))
    = card {j \<in> live_nodes (node t) (sizenode t). outside n (gkey t j)}"
proof -
  have "hash_bound n (node_pairs (rev ns)) = length (filter (\<lambda>x. i_val x \<noteq> LNil \<and> outside n (i_key x)) ns)"
    for ns
  proof -
    have "hash_bound n (node_pairs (rev ns))
        = length (filter (\<lambda>x. i_val x \<noteq> LNil \<and> outside n (i_key x)) (rev ns))"
      by (simp add: node_pairs_def filter_map o_def filter_filter conj_commute)
    also have "\<dots> = length (filter (\<lambda>x. i_val x \<noteq> LNil \<and> outside n (i_key x)) ns)"
      by (simp flip: rev_filter)
    finally show ?thesis .
  qed
  then have "hash_bound n (node_pairs (rev (node t)))
      = card {j. j < length (node t) \<and> i_val (node t ! j) \<noteq> LNil \<and> outside n (i_key (node t ! j))}"
    by (simp add: length_filter_conv_card)
  also have "{j. j < length (node t) \<and> i_val (node t ! j) \<noteq> LNil \<and> outside n (i_key (node t ! j))}
      = {j \<in> live_nodes (node t) (sizenode t). outside n (gkey t j)}"
    using tab_okD(1) [OF assms] by (auto simp: live_nodes_iff gkey_def gval_def)
  finally show ?thesis .
qed

lemma count_node_keys:
  assumes "tab_ok H t" "n \<le> 2 ^ MAXBITS"
  shows "card {x \<in> node_keys (node t) (sizenode t). x \<le> n}
    = card {j \<in> live_nodes (node t) (sizenode t). \<not> outside n (gkey t j)}"
proof -
  let ?L = "{j \<in> live_nodes (node t) (sizenode t). \<not> outside n (gkey t j)}"
  let ?f = "\<lambda>j. nat (arrayindex (gkey t j))"
  have le: "int n \<le> MAXASIZE" using assms(2) by (simp add: MAXASIZE_def)
  have ix: "index_of (gkey t j) = {?f j}" if "j \<in> ?L" for j
    using that le by (auto simp: outside_def index_of_def)
  have "inj_on ?f ?L"
  proof (rule inj_onI)
    fix i j assume ij: "i \<in> ?L" "j \<in> ?L" "?f i = ?f j"
    then have "index_of (i_key (node t ! i)) \<inter> index_of (i_key (node t ! j)) \<noteq> {}"
      using ix [OF ij(1)] ix [OF ij(2)] by (simp add: gkey_def)
    then show "i = j" using node_keys_apart [OF assms(1)] ij unfolding keys_apart_def by blast
  qed
  moreover have "?f ` ?L = {x \<in> node_keys (node t) (sizenode t). x \<le> n}"
  proof (rule set_eqI, rule iffI)
    fix x assume "x \<in> ?f ` ?L"
    then obtain j where j: "j \<in> ?L" "x = ?f j" by blast
    then have "x \<in> index_of (gkey t j)" using ix by blast
    then have "x \<in> node_keys (node t) (sizenode t)" using j(1) by (auto simp: node_keys_def gkey_def)
    moreover have "x \<le> n" using j by (auto simp: outside_def)
    ultimately show "x \<in> {x \<in> node_keys (node t) (sizenode t). x \<le> n}" by simp
  next
    fix x assume "x \<in> {x \<in> node_keys (node t) (sizenode t). x \<le> n}"
    then obtain j where j: "j \<in> live_nodes (node t) (sizenode t)" "x \<in> index_of (gkey t j)" "x \<le> n"
      by (auto simp: node_keys_def gkey_def)
    then have x: "x = ?f j" "0 < arrayindex (gkey t j)"
      by (simp_all add: index_of_def split: if_splits)
    with j(3) have "\<not> outside n (gkey t j)" by (simp add: outside_def)
    with x j(1) show "x \<in> ?f ` ?L" by blast
  qed
  ultimately show ?thesis using card_image [of ?f ?L] by simp
qed

lemma card_split: "finite A \<Longrightarrow> card A = card {x \<in> A. P x} + card {x \<in> A. \<not> P x}"
  by (subst card_Un_disjoint [symmetric]) (auto intro: arg_cong [of _ _ card])

text \<open>The size of the new hash part: the entries that go there, and the new key if it does.\<close>

lemma rehash_size:
  assumes ok: "tab_ok H t" and k: "proper_key k" "located t k NilObject"
    and n: "n \<le> 2 ^ MAXBITS" and na: "na = card {x \<in> counted t k. x \<le> n}"
  shows "Suc (live_total t) - na = hash_bound n (old_pairs t n) + (if outside n k then 1 else 0)"
proof -
  let ?A = "live_upto (arr t) (sizearray t)" and ?N = "node_keys (node t) (sizenode t)"
  let ?L = "live_nodes (node t) (sizenode t)"
  note ap = counted_apart [OF ok k]
  have "{x \<in> counted t k. x \<le> n} = {x \<in> ?A. x \<le> n} \<union> {x \<in> ?N. x \<le> n} \<union> {x \<in> index_of k. x \<le> n}"
    by (auto simp: counted_def)
  then have "na = card {x \<in> ?A. x \<le> n} + card {x \<in> ?N. x \<le> n} + card {x \<in> index_of k. x \<le> n}"
    unfolding na using ap by (simp add: card_Un_disjoint disjoint_iff)
  moreover have "card ?A = card {x \<in> ?A. x \<le> n} + card {x \<in> ?A. n < x}"
    using card_split [of ?A "\<lambda>x. x \<le> n"] by (simp add: not_le)
  moreover have "card ?L = card {j \<in> ?L. outside n (gkey t j)} + card {j \<in> ?L. \<not> outside n (gkey t j)}"
    by (rule card_split) simp
  moreover have "card {x \<in> index_of k. x \<le> n} = (if outside n k then 0 else 1)"
  proof -
    have "int n \<le> MAXASIZE" using n by (simp add: MAXASIZE_def)
    then have "{x \<in> index_of k. x \<le> n} = (if outside n k then {} else {nat (arrayindex k)})"
      by (auto simp: index_of_def outside_def)
    then show ?thesis by simp
  qed
  ultimately show ?thesis
    using count_array_pairs [OF ok n] count_node_pairs [OF ok, of n] count_node_keys [OF ok n]
    by (simp add: live_total_def old_pairs_def)
qed

section \<open>Insertion in every case\<close>

lemma rehash_ok:
  assumes ok: "tab_ok H t" and k: "proper_key k" "located t k NilObject"
  obtains (overflow) "rehash_with (newkey_depth (Suc d) H) H t k = Inl TableOverflow" "2 ^ MAXBITS \<le> live_total t"
  | (stored) t' where "rehash_with (newkey_depth (Suc d) H) H t k = Inr t'" "tab_ok H t'"
      "\<And>k'. proper_key k' \<Longrightarrow> lookup t' k' = lookup t k'" "metatable t' = metatable t"
      "room t' \<or> in_array t' k"
proof -
  obtain n na where r: "rehash_with (newkey_depth (Suc d) H) H t k
      = resize_with (newkey_depth (Suc d) H) H t n (Suc (live_total t) - na)"
    and b: "best_size (counted t k) (MAXBITS + 1) n na" "index_keys (counted t k)"
    using rehash_counts [OF ok k] by blast
  have n: "n \<le> 2 ^ MAXBITS"
  proof (cases "n = 0")
    case False
    then obtain p where "p \<le> MAXBITS" "n = 2 ^ p" using b(1) by (auto simp: best_size_def less_Suc_eq_le)
    then show ?thesis by (simp add: power_increasing)
  qed simp
  have na: "na = card {x \<in> counted t k. x \<le> n}" using b(1) by (simp add: best_size_def)
  note s = rehash_size [OF ok k n na]
  show thesis
  proof (cases "Suc (live_total t) - na \<le> 2 ^ MAXBITS")
    case False
    with r resize_overflow show thesis by (intro overflow) simp_all
  next
    case True
    then have "hash_bound n (old_pairs t n) \<le> Suc (live_total t) - na" unfolding s by simp
    from resize_ok [OF ok n this True, of d] obtain t' where t':
      "resize_with (newkey_depth (Suc d) H) H t n (Suc (live_total t) - na) = Inr t'" "tab_ok H t'"
      "\<forall>k'. proper_key k' \<longrightarrow> lookup t' k' = lookup t k'" "metatable t' = metatable t" "sizearray t' = n"
      "card (used_nodes t') \<le> hash_bound n (old_pairs t n)"
      "0 < Suc (live_total t) - na \<longrightarrow> \<not> dummy t' \<and> Suc (live_total t) - na \<le> sizenode t'"
      by (elim exE conjE) (rule that)
    have "room t' \<or> in_array t' k"
    proof (cases "outside n k")
      case True
      with t'(6,7) show ?thesis unfolding s room_def by auto
    qed (simp add: in_array_outside t'(5))
    with t' show thesis by (intro stored [of t']) (auto simp: r)
  qed
qed

lemma newkey_ok:
  assumes ok: "tab_ok H t" and k: "proper_key k" "located t k NilObject"
  shows "(newkey H t k = Inl TableOverflow \<and> 2 ^ MAXBITS \<le> live_total t) \<or> (\<exists>t' p. newkey H t k = Inr (t', p) \<and> set_post H t k t' p)"
proof -
  have two: "newkey H = newkey_depth (Suc (Suc 0)) H" by (simp add: newkey_def numeral_2_eq_2)
  show ?thesis
  proof (cases rule: newkey_full [OF ok k, of "Suc 0", case_names stored rehash])
    case (stored t' p)
    then show ?thesis using two by auto
  next
    case (rehash lf)
    let ?t = "t\<lparr>lastfree := lf\<rparr>"
    have L: "lookup ?t = lookup t" "located ?t = located t"
      by (simp_all add: lookup_def located_def fun_eq_iff)
    have k': "located ?t k NilObject" using k(2) by (simp add: L)
    show ?thesis
    proof (cases rule: rehash_ok [OF rehash(2) k(1) k', of 0, case_names overflow stored])
      case overflow
      moreover have "live_total ?t = live_total t" by (simp add: live_total_def sizenode_def)
      ultimately show ?thesis using rehash(1) two by (simp add: tbind_def)
    next
      case (stored t')
      from set_with_room [OF stored(2) k(1) stored(5), of 0] obtain u p where
        u: "luaH_set_with (newkey_depth (Suc 0) H) H t' k = Inr (u, p)" "set_post H t' k u p" by blast
      then have "set_post H t k u p" using stored(3,4) L by (simp add: set_post_def)
      with rehash(1) two u(1) stored(1) show ?thesis by (simp add: tbind_def)
    qed
  qed
qed

text \<open>\<open>luaH_set\<close> on a key that may index a table.\<close>

lemma luaH_set_total:
  assumes ok: "tab_ok H t" and k: "proper_key k"
  shows "(luaH_set H t k = Inl TableOverflow \<and> 2 ^ MAXBITS \<le> live_total t)
    \<or> (\<exists>t' p. luaH_set H t k = Inr (t', p) \<and> set_post H t k t' p)"
proof (cases rule: luaH_set_with_cases [OF ok k, of "newkey H", case_names found new])
  case (found p)
  then show ?thesis by (simp add: luaH_set_def)
next
  case new
  have "live_total (t\<lparr>flags := 0\<rparr>) = live_total t" by (simp add: live_total_def sizenode_def)
  with newkey_ok [of H "t\<lparr>flags := 0\<rparr>" k] ok k new show ?thesis
    by (simp add: luaH_set_def set_post_flags)
qed

lemma luaH_setnum_total:
  assumes ok: "tab_ok H t" and i: "INT_MIN \<le> i" "i \<le> INT_MAX" and k: "k = LNumber (cast_num i)"
  shows "(luaH_setnum H t i = Inl TableOverflow \<and> 2 ^ MAXBITS \<le> live_total t)
    \<or> (\<exists>t' p. luaH_setnum H t i = Inr (t', p) \<and> set_post H t k t' p)"
proof (cases rule: luaH_setnum_with_cases [OF ok i k, of "newkey H", case_names found new])
  case (found p)
  then show ?thesis by (simp add: luaH_setnum_def)
next
  case new
  with newkey_ok [OF ok _ new(2)] k number_key_proper [OF i] show ?thesis by (simp add: luaH_setnum_def)
qed

text \<open>What a raw write does to the contents.\<close>

definition written :: "(ptr \<Rightarrow> u32) \<Rightarrow> Table \<Rightarrow> TValue \<Rightarrow> TValue \<Rightarrow> Table tres \<Rightarrow> bool" where
  "written H t k v r \<longleftrightarrow> (case r of
     Inl e \<Rightarrow> e = TableOverflow \<and> 2 ^ MAXBITS \<le> live_total t
   | Inr t' \<Rightarrow> tab_ok H t' \<and> metatable t' = metatable t
       \<and> (\<forall>k'. proper_key k' \<longrightarrow> lookup t' k' = (if luaO_rawequalObj k k' then v else lookup t k')))"

lemma rawset_written:
  assumes "tab_ok H t" "proper_key k"
  shows "written H t k v (lua_rawset H t k v)"
  using luaH_set_total [OF assms]
proof (elim disjE exE conjE)
  fix t' p assume r: "luaH_set H t k = Inr (t', p)" "set_post H t k t' p"
  note w = write_set_post [OF r(2) assms(2), where v = v]
  show ?thesis using r(1) w(1,2,3) by (simp add: lua_rawset_def tbind_def written_def)
qed (simp add: lua_rawset_def tbind_def written_def)

lemma rawseti_written:
  assumes "tab_ok H t" "INT_MIN \<le> i" "i \<le> INT_MAX"
  shows "written H t (LNumber (cast_num i)) v (lua_rawseti H t i v)"
  using luaH_setnum_total [OF assms refl]
proof (elim disjE exE conjE)
  fix t' p assume r: "luaH_setnum H t i = Inr (t', p)" "set_post H t (LNumber (cast_num i)) t' p"
  note w = write_set_post [OF r(2) number_key_proper [OF assms(2,3)], where v = v]
  show ?thesis using r(1) w(1,2,3) by (simp add: lua_rawseti_def tbind_def written_def)
qed (simp add: lua_rawseti_def tbind_def written_def)

lemma luaH_new_ok:
  assumes "na \<le> 2 ^ MAXBITS" "nh \<le> 2 ^ MAXBITS"
  shows "\<exists>t. luaH_new na nh = Inr t \<and> tab_ok H t \<and> (\<forall>k. proper_key k \<longrightarrow> lookup t k = LNil)
    \<and> sizearray t = na \<and> nh \<le> sizenode t"
proof -
  define t0 where "t0 = setarrayvector \<lparr>flags = NOT 0, metatable = None, lsizenode = 0, arr = [],
    node = [dummynode], dummy = True, lastfree = 0\<rparr> na"
  have a: "arr t0 = replicate na LNil" by (simp add: t0_def setarrayvector_def sizearray_def)
  obtain u where u: "setnodevector t0 nh = Inr u" using setnodevector_result assms(2) by blast
  have "length (replicate na LNil) \<le> 2 ^ MAXBITS" using assms(1) by simp
  note fr = fresh_ok [OF this u]
  have eq: "u\<lparr>arr := replicate na LNil\<rparr> = u" using fr(5) a by simp
  have ok: "tab_ok H u" using fr(1) [of H] by (simp add: eq)
  have "lookup u k = LNil" if k: "proper_key k" for k
  proof (cases "in_array u k")
    case True
    then have "nat (arrayindex k - 1) < na" using fr(5) a by (auto simp: in_array_def sizearray_def)
    with True show ?thesis using fr(5) a by (simp add: lookup_def)
  next
    case False
    have "\<not> luaO_rawequalObj LNil k" using k by (auto simp: rawequal_iff proper_key_def)
    with lookup_absent [OF ok False] fr(3) show ?thesis by simp
  qed
  moreover have "nh \<le> sizenode u" using fr(6) by (cases "nh = 0") auto
  moreover have "luaH_new na nh = Inr u" using u by (simp add: luaH_new_def Let_def t0_def)
  ultimately show ?thesis using ok fr(5) a by (simp add: sizearray_def)
qed

section \<open>Keys that cannot index a table\<close>

lemma luaH_set_nil: "luaH_set H t LNil = Inl IndexIsNil"
  by (simp add: luaH_set_def luaH_set_with_def luaH_get_def tbind_def Let_def)

lemma luaH_set_nan:
  assumes ok: "tab_ok H t" and n: "luai_numisnan n"
  shows "luaH_set H t (LNumber n) = Inl IndexIsNaN"
proof -
  let ?P = "\<lambda>x. luaO_rawequalObj (i_key x) (LNumber n)"
  have np: "\<not> ?P x" for x using n by (auto simp: rawequal_iff luai_numeq_def)
  have "search_slot ?P t (mainposition H t (LNumber n)) = Inr NilObject"
    using chain_search_ok [OF ok tab_ok_main [OF ok, of "LNumber n"], of ?P] np by (auto simp: search_slot_def tbind_def)
  moreover have "\<not> luai_numeq (cast_num (lua_number2int n)) n" using n by (simp add: luai_numeq_def)
  ultimately have "luaH_get H t (LNumber n) = Inr NilObject" by (simp add: luaH_get_def Let_def)
  then show ?thesis using n by (simp add: luaH_set_def luaH_set_with_def tbind_def)
qed
end
