(* ===== verification/Table_Iter.thy ===== *)
theory Table_Iter
  imports Table_Rehash
begin

text \<open>
  Traversal and length: repeated calls of \<open>luaH_next\<close> visit every entry of a table once, and
  \<open>luaH_getn\<close> returns a border, an index that is 0 or in use and whose successor is not.
\<close>

section \<open>Positions\<close>

text \<open>
  \<open>luaH_next\<close> orders the slots of a table: the array part first, then the nodes. A position
  is the number of a slot in this order.
\<close>

definition positions :: "Table \<Rightarrow> nat" where "positions t = sizearray t + sizenode t"

definition pos_key :: "Table \<Rightarrow> nat \<Rightarrow> TValue" where
  "pos_key t p = (if p < sizearray t then LNumber (cast_num (int p + 1)) else gkey t (p - sizearray t))"

definition pos_val :: "Table \<Rightarrow> nat \<Rightarrow> TValue" where
  "pos_val t p = (if p < sizearray t then arr t ! p else gval t (p - sizearray t))"

definition live_pos :: "Table \<Rightarrow> nat \<Rightarrow> nat list" where
  "live_pos t p = filter (\<lambda>q. pos_val t q \<noteq> LNil) [p..<positions t]"

text \<open>
  The search for a key also accepts a dead key of the same address, because a key may die
  during a traversal. The address of an object that died must then not be that of another key.
\<close>

definition no_dead_alias :: "Table \<Rightarrow> bool" where
  "no_dead_alias t \<longleftrightarrow> (\<forall>i < sizenode t. \<forall>j < sizenode t.
     ttype (gkey t i) = 11 \<longrightarrow> iscollectable (gkey t j) \<longrightarrow> gcvalue (gkey t i) = gcvalue (gkey t j) \<longrightarrow> i = j)"

lemma live_pos_step:
  "live_pos t p = (if p < positions t then
     (if pos_val t p \<noteq> LNil then p # live_pos t (Suc p) else live_pos t (Suc p)) else [])"
  unfolding live_pos_def by (subst upt_rec) simp

lemma live_pos_Cons:
  assumes "live_pos t p = q # qs"
  shows "qs = live_pos t (Suc q)"
  using assms
proof (induction "positions t - p" arbitrary: p)
  case 0
  then show ?case by (subst (asm) live_pos_step) simp
next
  case (Suc m)
  from Suc.hyps(2) have p: "p < positions t" "m = positions t - Suc p" by linarith+
  from Suc.prems p(1) have "(if pos_val t p \<noteq> LNil then p # live_pos t (Suc p) else live_pos t (Suc p)) = q # qs"
    by (subst (asm) live_pos_step) simp
  with Suc.hyps(1) [OF p(2)] show ?case by (auto split: if_splits)
qed

lemma next_array_live:
  "case next_array a i of
     Some q \<Rightarrow> i \<le> q \<and> q < length a \<and> (a = arr t \<longrightarrow> live_pos t i = q # live_pos t (Suc q))
   | None \<Rightarrow> a = arr t \<longrightarrow> live_pos t i = live_pos t (max i (sizearray t))"
proof (induction a i rule: next_array.induct)
  case (1 a i)
  have val: "pos_val t i = a ! i" if "i < length a" "a = arr t"
    using that by (simp add: pos_val_def sizearray_def)
  have pos: "i < positions t" if "i < length a" "a = arr t"
    using that by (simp add: positions_def sizearray_def)
  show ?case
  proof (cases "i < length a \<and> a ! i = LNil")
    case True
    then have e: "next_array a i = next_array a (i + 1)" by (subst next_array.simps) simp
    have l: "live_pos t i = live_pos t (i + 1)" if "a = arr t"
      using True val pos that by (subst live_pos_step) simp
    have m: "max i (sizearray t) = max (i + 1) (sizearray t)" if "a = arr t"
      using True that by (simp add: sizearray_def)
    from "1.IH" True l m show ?thesis unfolding e by (auto split: option.splits)
  next
    case False
    then show ?thesis using val pos
      by (subst next_array.simps) (auto simp: sizearray_def live_pos_step [of t i])
  qed
qed

lemma next_node_live:
  "case next_node t i of
     Some q \<Rightarrow> i \<le> q \<and> q < sizenode t
       \<and> live_pos t (sizearray t + i) = (sizearray t + q) # live_pos t (Suc (sizearray t + q))
   | None \<Rightarrow> live_pos t (sizearray t + i) = []"
proof (induction t i rule: next_node.induct)
  case (1 t i)
  have val: "pos_val t (sizearray t + i) = gval t i" by (simp add: pos_val_def)
  have pos: "sizearray t + i < positions t \<longleftrightarrow> i < sizenode t" by (simp add: positions_def)
  show ?case
  proof (cases "i < sizenode t \<and> gval t i = LNil")
    case True
    then have e: "next_node t i = next_node t (i + 1)" by (subst next_node.simps) simp
    have l: "live_pos t (sizearray t + i) = live_pos t (sizearray t + (i + 1))"
      using True val pos by (subst live_pos_step) simp
    from "1.IH" True show ?thesis unfolding e l by (auto split: option.splits)
  next
    case False
    then show ?thesis using val pos
      by (subst next_node.simps) (auto simp: live_pos_step [of t "sizearray t + i"])
  qed
qed

text \<open>The step of a traversal from the slot before position \<open>p\<close>.\<close>

definition next_entry :: "Table \<Rightarrow> nat \<Rightarrow> (TValue \<times> TValue) option" where
  "next_entry t p = (case live_pos t p of [] \<Rightarrow> None | q # _ \<Rightarrow> Some (pos_key t q, pos_val t q))"

lemma luaH_next_step:
  assumes "findindex H t key = Inr (int p - 1)"
  shows "luaH_next H t key = Inr (next_entry t p)"
proof -
  note a = next_array_live [where a = "arr t" and i = p and t = t]
  show ?thesis
  proof (cases "next_array (arr t) p")
    case (Some q)
    with a assms show ?thesis
      by (auto simp: luaH_next_def tbind_def next_entry_def pos_key_def pos_val_def sizearray_def)
  next
    case None
    define i where "i = max p (sizearray t) - sizearray t"
    have i: "max p (sizearray t) = sizearray t + i" by (simp add: i_def)
    with a None have l: "live_pos t p = live_pos t (sizearray t + i)" by simp
    note n = next_node_live [where t = t and i = i]
    show ?thesis
      using n assms None l
      by (cases "next_node t i")
        (auto simp: luaH_next_def tbind_def next_entry_def pos_key_def pos_val_def simp flip: i_def)
  qed
qed

text \<open>\<open>findindex\<close> finds the position of a key that is in the table, whatever its value.\<close>

definition in_table :: "Table \<Rightarrow> nat \<Rightarrow> bool" where
  "in_table t p \<longleftrightarrow> p < positions t \<and> (sizearray t \<le> p \<longrightarrow> proper_key (gkey t (p - sizearray t)))"

lemma live_in_table:
  assumes "tab_ok H t" "q \<in> set (live_pos t p)"
  shows "in_table t q"
  using assms(2) keys_okD(1) [OF assms(1), of "q - sizearray t"]
  by (auto simp: live_pos_def in_table_def pos_val_def positions_def)

lemma findindex_at:
  assumes ok: "tab_ok H t" and nd: "no_dead_alias t" and p: "in_table t p"
  shows "findindex H t (pos_key t p) = Inr (int p)"
proof (cases "p < sizearray t")
  case True
  have "int p + 1 \<le> MAXASIZE" using tab_okD(3) [OF ok] True by linarith
  then have "INT_MIN \<le> int p + 1" "int p + 1 \<le> INT_MAX"
    by (auto simp: INT_MIN_def INT_MAX_def MAXASIZE_def MAXBITS_def)
  from arrayindex_cast_num [OF this] True show ?thesis
    by (simp add: findindex_def pos_key_def)
next
  case False
  define i where "i = p - sizearray t"
  have i: "i < sizenode t" "proper_key (gkey t i)" "pos_key t p = gkey t i" "int p = int i + int (sizearray t)"
    using p False by (auto simp: in_table_def i_def positions_def pos_key_def)
  define P where "P n \<longleftrightarrow> luaO_rawequalObj (i_key n) (gkey t i) \<or>
    (ttype (i_key n) = 11 \<and> iscollectable (gkey t i) \<and> gcvalue (i_key n) = gcvalue (gkey t i))" for n :: Node
  have na: "\<not> in_array t (gkey t i)" using keys_okD(3) [OF ok i(1,2)] .
  have uniq: "j = i" if "j < sizenode t" "P (node t ! j)" for j
  proof (cases "luaO_rawequalObj (gkey t j) (gkey t i)")
    case True
    then show ?thesis using keys_okD(7) [OF ok i(1,2), of j] that(1) rawequal_sym by blast
  next
    case False
    with that i(1) nd show ?thesis unfolding no_dead_alias_def P_def by (simp add: gkey_def)
  qed
  have self: "P (node t ! i)" using i(2) rawequal_refl by (simp add: P_def gkey_def proper_key_def)
  have "chain_search P (node t) (length (node t)) (mainposition H t (gkey t i)) = Inr (Some i)"
    using chain_search_ok [OF ok tab_ok_main [OF ok, of "gkey t i"], of P]
  proof (elim disjE exE conjE)
    fix k assume "chain_search P (node t) (length (node t)) (mainposition H t (gkey t i)) = Inr (Some k)"
      "k < sizenode t" "P (node t ! k)"
    then show ?thesis using uniq by blast
  next
    assume "\<forall>k. (mainposition H t (gkey t i), k) \<in> (nx t)\<^sup>* \<longrightarrow> \<not> P (node t ! k)"
    then show ?thesis using keys_okD(4) [OF ok i(1,2)] self by blast
  qed
  then show ?thesis using i na unfolding P_def
    by (simp add: findindex_def tbind_def in_array_def proper_key_def Let_def)
qed

section \<open>A whole traversal\<close>

text \<open>The loop of \<open>for k, v in next, t\<close>: the pairs that \<open>luaH_next\<close> returns, from \<open>key\<close> on.\<close>

fun traverse :: "(ptr \<Rightarrow> u32) \<Rightarrow> Table \<Rightarrow> nat \<Rightarrow> TValue \<Rightarrow> (TValue \<times> TValue) list tres" where
  "traverse H t 0 key = Inl NoReturn"
| "traverse H t (Suc fuel) key = tbind (luaH_next H t key) (\<lambda>r. case r of
     None \<Rightarrow> Inr []
   | Some (k, v) \<Rightarrow> tbind (traverse H t fuel k) (\<lambda>rest. Inr ((k, v) # rest)))"

lemma traverse_from:
  assumes ok: "tab_ok H t" and nd: "no_dead_alias t"
    and "findindex H t key = Inr (int p - 1)" "length (live_pos t p) < fuel"
  shows "traverse H t fuel key = Inr (map (\<lambda>q. (pos_key t q, pos_val t q)) (live_pos t p))"
  using assms(3,4)
proof (induction fuel arbitrary: key p)
  case (Suc fuel)
  note n = luaH_next_step [OF Suc.prems(1)]
  show ?case
  proof (cases "live_pos t p")
    case Nil
    then show ?thesis using n by (simp add: next_entry_def tbind_def)
  next
    case (Cons q qs)
    then have "q \<in> set (live_pos t p)" by simp
    then have f: "findindex H t (pos_key t q) = Inr (int (Suc q) - 1)"
      using findindex_at [OF ok nd live_in_table [OF ok]] by simp
    have "qs = live_pos t (Suc q)" using live_pos_Cons [OF Cons] .
    with Suc.IH [OF f] Suc.prems(2) Cons n show ?thesis by (simp add: next_entry_def tbind_def)
  qed
qed simp

definition all_entries :: "Table \<Rightarrow> (TValue \<times> TValue) list" where
  "all_entries t = map (\<lambda>q. (pos_key t q, pos_val t q)) (live_pos t 0)"

lemma traverse_all:
  assumes "tab_ok H t" "no_dead_alias t"
  shows "traverse H t (positions t + 1) LNil = Inr (all_entries t)"
proof -
  have "length (live_pos t 0) \<le> positions t"
    unfolding live_pos_def by (rule order_trans [OF length_filter_le]) simp
  then show ?thesis unfolding all_entries_def
    by (intro traverse_from [OF assms]) (simp_all add: findindex_def)
qed

text \<open>The entries are the contents of the table, each once.\<close>

lemma pos_lookup:
  assumes ok: "tab_ok H t" and p: "in_table t p"
  shows "proper_key (pos_key t p)" "lookup t (pos_key t p) = pos_val t p"
proof -
  show k: "proper_key (pos_key t p)"
  proof (cases "p < sizearray t")
    case True
    have "int p + 1 \<le> MAXASIZE" using tab_okD(3) [OF ok] True by linarith
    then have "INT_MIN \<le> int p + 1" "int p + 1 \<le> INT_MAX"
      by (auto simp: INT_MIN_def INT_MAX_def MAXASIZE_def MAXBITS_def)
    from number_key_proper [OF this] True show ?thesis by (simp add: pos_key_def)
  qed (use p in \<open>simp add: in_table_def pos_key_def\<close>)
  have refl: "luaO_rawequalObj (pos_key t p) (pos_key t p)"
    using k rawequal_refl by (simp add: proper_key_def)
  show "lookup t (pos_key t p) = pos_val t p"
  proof (cases "p < sizearray t")
    case True
    with array_key(3) [OF ok True] refl show ?thesis by (simp add: pos_key_def pos_val_def)
  next
    case False
    then have "p - sizearray t < sizenode t" using p by (auto simp: in_table_def positions_def)
    with lookup_node(2) [OF ok k this] refl False show ?thesis by (simp add: pos_key_def pos_val_def)
  qed
qed

lemma pos_distinct:
  assumes ok: "tab_ok H t" and p: "in_table t p" "in_table t q"
    and e: "luaO_rawequalObj (pos_key t p) (pos_key t q)"
  shows "p = q"
proof (cases "p < sizearray t \<and> q < sizearray t")
  case True
  with array_key(1) [OF ok, of p "pos_key t q"] array_key(1) [OF ok, of q "pos_key t q"] e
    pos_lookup(1) [OF ok p(2)] rawequal_refl show ?thesis by (simp add: pos_key_def proper_key_def)
next
  case F: False
  have node: "r - sizearray t < sizenode t \<and> \<not> in_array t (gkey t (r - sizearray t))
      \<and> proper_key (gkey t (r - sizearray t))"
    if "in_table t r" "\<not> r < sizearray t" for r
  proof -
    have "r - sizearray t < sizenode t" "proper_key (gkey t (r - sizearray t))"
      using that by (auto simp: in_table_def positions_def)
    with keys_okD(3) [OF ok] show ?thesis by blast
  qed
  have arr: "in_array t k" if "r < sizearray t" "luaO_rawequalObj (LNumber (cast_num (int r + 1))) k" for r k
    using array_key(2) [OF ok that] .
  show ?thesis
  proof (cases "p < sizearray t \<or> q < sizearray t")
    case True
    then show ?thesis using F node [OF p(1)] node [OF p(2)] arr [of p "pos_key t q"]
      arr [of q "pos_key t p"] e rawequal_sym by (auto simp: pos_key_def)
  next
    case False
    then have "p - sizearray t = q - sizearray t"
      using keys_okD(7) [OF ok, of "p - sizearray t" "q - sizearray t"] node [OF p(1)] node [OF p(2)] e
      by (simp add: pos_key_def)
    with False show ?thesis by linarith
  qed
qed

lemma all_entries_lookup:
  assumes ok: "tab_ok H t" and k: "proper_key k" and v: "v \<noteq> LNil"
  shows "lookup t k = v \<longleftrightarrow> (\<exists>k'. luaO_rawequalObj k' k \<and> (k', v) \<in> set (all_entries t))"
proof
  assume l: "lookup t k = v"
  have "\<exists>p. in_table t p \<and> luaO_rawequalObj (pos_key t p) k"
  proof (cases "in_array t k")
    case True
    define j where "j = nat (arrayindex k - 1)"
    have j: "j < sizearray t" "arrayindex k = int j + 1" using True by (auto simp: j_def in_array_def)
    with in_array_number [of k] show ?thesis
      by (intro exI [of _ j]) (simp add: in_table_def pos_key_def positions_def)
  next
    case False
    with lookup_absent [OF ok False] l v obtain i where
      i: "i < sizenode t" "luaO_rawequalObj (gkey t i) k" by blast
    with k proper_rawequal show ?thesis
      by (intro exI [of _ "sizearray t + i"]) (auto simp: in_table_def pos_key_def positions_def)
  qed
  then obtain p where p: "in_table t p" "luaO_rawequalObj (pos_key t p) k" by blast
  with pos_lookup(2) [OF ok p(1)] lookup_rawequal l have "pos_val t p = v" by metis
  moreover have "p < positions t" using p(1) by (simp add: in_table_def)
  ultimately show "\<exists>k'. luaO_rawequalObj k' k \<and> (k', v) \<in> set (all_entries t)"
    using p(2) v by (auto simp: all_entries_def live_pos_def)
next
  assume "\<exists>k'. luaO_rawequalObj k' k \<and> (k', v) \<in> set (all_entries t)"
  then obtain q where q: "q \<in> set (live_pos t 0)" "luaO_rawequalObj (pos_key t q) k" "v = pos_val t q"
    by (auto simp: all_entries_def)
  with pos_lookup(2) [OF ok live_in_table [OF ok q(1)]] lookup_rawequal show "lookup t k = v" by metis
qed

lemma all_entries_live:
  assumes "tab_ok H t" "x \<in> set (all_entries t)"
  shows "proper_key (fst x)" "snd x \<noteq> LNil" "lookup t (fst x) = snd x"
proof -
  obtain q where q: "q \<in> set (live_pos t 0)" "x = (pos_key t q, pos_val t q)" using assms(2) by (auto simp: all_entries_def)
  with pos_lookup [OF assms(1) live_in_table [OF assms(1) q(1)]]
  show "proper_key (fst x)" "snd x \<noteq> LNil" "lookup t (fst x) = snd x" by (simp_all add: live_pos_def)
qed

lemma all_entries_distinct:
  assumes ok: "tab_ok H t" and ij: "i < length (all_entries t)" "j < length (all_entries t)"
    and e: "luaO_rawequalObj (fst (all_entries t ! i)) (fst (all_entries t ! j))"
  shows "i = j"
proof -
  have len: "i < length (live_pos t 0)" "j < length (live_pos t 0)" using ij by (simp_all add: all_entries_def)
  then have "live_pos t 0 ! i = live_pos t 0 ! j"
    using e live_in_table [OF ok] nth_mem by (intro pos_distinct [OF ok]) (auto simp: all_entries_def)
  moreover have "distinct (live_pos t 0)" by (simp add: live_pos_def)
  ultimately show ?thesis using len by (simp add: nth_eq_iff_index_eq)
qed

section \<open>The border\<close>

abbreviation int_key :: "nat \<Rightarrow> TValue" where
  "int_key n \<equiv> LNumber (cast_num (int n))"

definition border :: "Table \<Rightarrow> nat \<Rightarrow> bool" where
  "border t n \<longleftrightarrow> (n = 0 \<or> lookup t (int_key n) \<noteq> LNil) \<and> lookup t (int_key (n + 1)) = LNil"

lemma binsearch_ok:
  assumes "i < j" "i = 0 \<or> \<not> absent i" "absent j"
  shows "i \<le> binsearch absent i j \<and> binsearch absent i j < j
    \<and> (binsearch absent i j = 0 \<or> \<not> absent (binsearch absent i j)) \<and> absent (binsearch absent i j + 1)"
  using assms
proof (induction absent i j rule: binsearch.induct)
  case (1 absent i j)
  show ?case
  proof (cases "1 < j - i")
    case False
    with "1.prems" have "j = i + 1" by linarith
    with "1.prems" show ?thesis by (subst (1 2 3 4 5) binsearch.simps) simp
  next
    case True
    define m where "m = (i + j) div 2"
    have m: "i < m" "m < j" using True by (auto simp: m_def)
    have e: "binsearch absent i j = (if absent m then binsearch absent i m else binsearch absent m j)"
      using True by (subst binsearch.simps) (simp add: m_def Let_def)
    show ?thesis
    proof (cases "absent m")
      case True
      with "1.IH"(1) [OF \<open>1 < j - i\<close> m_def True] "1.prems" m e show ?thesis by simp
    next
      case False
      with "1.IH"(2) [OF \<open>1 < j - i\<close> m_def False] "1.prems" m e show ?thesis by auto
    qed
  qed
qed

lemma num_absent_iff:
  "tab_ok H t \<Longrightarrow> int j \<le> INT_MAX \<Longrightarrow> num_absent t j \<longleftrightarrow> lookup t (int_key j) = LNil"
  using rawgeti_ok [of H t "int j"] by (simp add: num_absent_def INT_MIN_def)

lemma int_key_lookup_array:
  assumes "tab_ok H t" "1 \<le> n" "n \<le> sizearray t"
  shows "lookup t (int_key n) = arr t ! (n - 1)"
proof -
  have "int (n - 1) + 1 = int n" using assms(2) by simp
  moreover have r: "INT_MIN \<le> int n" "int n \<le> INT_MAX"
    using tab_okD(3) [OF assms(1)] assms(2,3)
    by (auto simp: INT_MIN_def INT_MAX_def MAXASIZE_def MAXBITS_def)
  ultimately show ?thesis
    using array_key(3) [OF assms(1), of "n - 1" "int_key n"] assms(2,3) number_key_proper [OF r]
      rawequal_refl by (simp add: proper_key_def)
qed

text \<open>Some integer up to one more than the number of slots is absent.\<close>

lemma some_absent:
  assumes ok: "tab_ok H t"
  shows "\<exists>i. 1 \<le> i \<and> i \<le> positions t + 1 \<and> lookup t (int_key i) = LNil"
proof (rule ccontr)
  assume c: "\<not> ?thesis"
  let ?I = "{1..positions t + 1}"
  have rng: "INT_MIN \<le> int i" "int i \<le> INT_MAX" if "i \<in> ?I" for i
  proof -
    have "sizenode t \<le> 2 ^ MAXBITS"
      unfolding sizenode_def using tab_okD(2) [OF ok] by (intro power_increasing) auto
    then have "i \<le> 2 * 2 ^ MAXBITS + 1"
      using that tab_ok_arr_length [OF ok] by (simp add: positions_def)
    then show "INT_MIN \<le> int i" "int i \<le> INT_MAX" by (auto simp: INT_MIN_def INT_MAX_def MAXBITS_def)
  qed
  have "\<exists>p. p \<in> set (live_pos t 0) \<and> luaO_rawequalObj (pos_key t p) (int_key i)" if "i \<in> ?I" for i
  proof -
    have "lookup t (int_key i) \<noteq> LNil" using c that by auto
    from all_entries_lookup [OF ok number_key_proper [OF rng [OF that]] this] show ?thesis
      by (auto simp: all_entries_def)
  qed
  then obtain f where f: "\<And>i. i \<in> ?I \<Longrightarrow> f i \<in> set (live_pos t 0) \<and> luaO_rawequalObj (pos_key t (f i)) (int_key i)"
    by metis
  have "inj_on f ?I"
  proof (rule inj_onI)
    fix i j assume ij: "i \<in> ?I" "j \<in> ?I" "f i = f j"
    then have "luaO_rawequalObj (int_key i) (int_key j)"
      using f rawequal_sym rawequal_trans by metis
    from arrayindex_rawequal [OF this] show "i = j"
      using arrayindex_cast_num rng [OF ij(1)] rng [OF ij(2)] by simp
  qed
  moreover have "f ` ?I \<subseteq> {..<positions t}" using f by (fastforce simp: live_pos_def)
  ultimately have "card ?I \<le> card {..<positions t}" by (intro card_inj_on_le) auto
  then show False by simp
qed

lemma linear_search_ok:
  assumes ok: "tab_ok H t" and a: "1 \<le> i" "i \<le> k" "k \<le> positions t + 1" "lookup t (int_key k) = LNil"
    and b: "i = 1 \<or> lookup t (int_key (i - 1)) \<noteq> LNil" and fuel: "k - i < fuel"
  shows "\<exists>n. linear_search t fuel i = Inr n \<and> border t n"
  using a b fuel
proof (induction fuel arbitrary: i)
  case (Suc fuel)
  have "sizenode t \<le> 2 ^ MAXBITS"
    unfolding sizenode_def using tab_okD(2) [OF ok] by (intro power_increasing) auto
  then have "i \<le> 2 * 2 ^ MAXBITS + 1"
    using Suc.prems tab_ok_arr_length [OF ok] by (simp add: positions_def)
  then have ab: "num_absent t i \<longleftrightarrow> lookup t (int_key i) = LNil"
    by (intro num_absent_iff [OF ok]) (simp add: INT_MAX_def MAXBITS_def)
  show ?case
  proof (cases "lookup t (int_key i) = LNil")
    case True
    with Suc.prems ab show ?thesis by (auto simp: border_def)
  next
    case False
    then have "i \<noteq> k" using Suc.prems(4) by auto
    with Suc.prems False ab Suc.IH [of "i + 1"] show ?thesis by simp
  qed
qed simp

lemma unbound_loop_ok:
  assumes ok: "tab_ok H t" and "i < j" "i = 0 \<or> lookup t (int_key i) \<noteq> LNil" "int j \<le> INT_MAX"
  shows "\<exists>n. unbound_loop t i j = Inr n \<and> border t n"
  using assms
proof (induction t i j rule: unbound_loop.induct)
  case (1 t i j)
  note ab = num_absent_iff [OF "1.prems"(1)]
  consider "num_absent t j" | "\<not> num_absent t j" "int (j * 2) > MAX_INT \<or> j = 0"
    | "\<not> num_absent t j" "\<not> (int (j * 2) > MAX_INT \<or> j = 0)" by blast
  then show ?case
  proof cases
    case 1
    have "i = 0 \<or> \<not> num_absent t i" using "1.prems" ab [of i] by auto
    from binsearch_ok [of i j "num_absent t", OF "1.prems"(2) this 1]
    have "border t (binsearch (num_absent t) i j)"
      using ab "1.prems"(4) by (auto simp: border_def)
    with 1 show ?thesis by (subst unbound_loop.simps) simp
  next
    case 2
    obtain k where k: "1 \<le> k" "k \<le> positions t + 1" "lookup t (int_key k) = LNil"
      using some_absent [OF "1.prems"(1)] by blast
    with linear_search_ok [OF "1.prems"(1), of 1 k "sizearray t + sizenode t + 1"] 2
    show ?thesis by (subst unbound_loop.simps) (simp add: positions_def)
  next
    case 3
    have "int (j * 2) \<le> INT_MAX" using 3(2) by (simp add: MAX_INT_def)
    with "1.IH" [OF 3] "1.prems" 3 ab [of j] show ?thesis by (subst unbound_loop.simps) simp
  qed
qed

lemma luaH_getn_border:
  assumes ok: "tab_ok H t"
  shows "\<exists>n. luaH_getn t = Inr n \<and> border t n"
proof -
  define j where "j = sizearray t"
  have len: "j \<le> 2 ^ MAXBITS" using tab_ok_arr_length [OF ok] by (simp add: j_def)
  show ?thesis
  proof (cases "0 < j \<and> arr t ! (j - 1) = LNil")
    case True
    define n where "n = binsearch (\<lambda>m. arr t ! (m - 1) = LNil) 0 j"
    have n: "n < j" "n = 0 \<or> arr t ! (n - 1) \<noteq> LNil" "arr t ! n = LNil"
      using binsearch_ok [of 0 j "\<lambda>m. arr t ! (m - 1) = LNil"] True by (auto simp: n_def)
    then have "border t n"
      using int_key_lookup_array [OF ok, of n] int_key_lookup_array [OF ok, of "n + 1"]
      by (auto simp: border_def j_def)
    moreover have "luaH_getn t = Inr n" using True by (simp add: luaH_getn_def n_def j_def Let_def)
    ultimately show ?thesis by blast
  next
    case False
    then have present: "j = 0 \<or> lookup t (int_key j) \<noteq> LNil"
      using int_key_lookup_array [OF ok, of j] by (auto simp: j_def)
    show ?thesis
    proof (cases "dummy t")
      case True
      then have "sizenode t = 1" "gkey t 0 = LNil"
        using ok by (auto simp: tab_ok_def shape_ok_def sizenode_def gkey_def dummynode_def)
      moreover have "\<not> in_array t (int_key (j + 1))"
      proof -
        have "INT_MIN \<le> int (j + 1)" "int (j + 1) \<le> INT_MAX"
          using len by (auto simp: INT_MIN_def INT_MAX_def MAXBITS_def)
        from arrayindex_cast_num [OF this] show ?thesis by (simp add: in_array_def j_def)
      qed
      ultimately have "lookup t (int_key (j + 1)) = LNil"
        by (intro lookup_absent [OF ok]) (auto simp: rawequal_iff)
      with present have "border t j" by (simp add: border_def)
      moreover have "luaH_getn t = Inr j" using False True by (auto simp: luaH_getn_def j_def Let_def)
      ultimately show ?thesis by blast
    next
      case nd: False
      have "int (j + 1) \<le> INT_MAX" using len by (auto simp: INT_MAX_def MAXBITS_def)
      from unbound_loop_ok [OF ok _ present this] False nd show ?thesis
        by (auto simp: luaH_getn_def unbound_search_def j_def Let_def)
    qed
  qed
qed
end
