(* ===== verification/Table_Props.thy ===== *)
theory Table_Props
  imports Table_Iter
begin

text \<open>
  The properties of Lua tables: what a program that reads, writes, traverses and measures a
  table through \<open>lapi.c\<close> and \<open>ltable.c\<close> can rely on.
\<close>

text \<open>A concrete table: two array slots and two nodes. It carries the witnesses.\<close>

definition sample_table :: Table where
  "sample_table = projr (luaH_new 2 2)"

definition no_hash :: "ptr \<Rightarrow> u32" where "no_hash p = 0"

lemma sample_ok: "luaH_new 2 2 = Inr sample_table" "tab_ok H sample_table"
  "proper_key k \<Longrightarrow> lookup sample_table k = LNil"
  using luaH_new_ok [of 2 2 H] by (auto simp: sample_table_def MAXBITS_def)

lemma boolean_key_proper [simp]: "proper_key (LBoolean b)"
  by (simp add: proper_key_def is_nan_value_def)

lemma rawequal_boolean [simp]: "luaO_rawequalObj (LBoolean a) (LBoolean b) \<longleftrightarrow> a = b"
  by (simp add: rawequal_iff)

text \<open>
  C1: after \<open>t[k] = v\<close>, reading \<open>t[k']\<close> gives \<open>v\<close> if \<open>k'\<close> is raw-equal to \<open>k\<close> and what it
  gave before otherwise, whether the write found the key, took a free node, moved a colliding
  node or rehashed the table; the table stays well-formed.
\<close>

theorem table_get_after_set:
  assumes "tab_ok H t" "proper_key k" "proper_key k'" "lua_rawset H t k v = Inr t'"
  shows "tab_ok H t' \<and> lua_rawget H t' k' = (if luaO_rawequalObj k k' then Inr v else lua_rawget H t k')"
proof -
  have "tab_ok H t'" "lookup t' k' = (if luaO_rawequalObj k k' then v else lookup t k')"
    using rawset_written [OF assms(1,2), of v] assms(3,4) by (simp_all add: written_def)
  then show ?thesis using rawget_ok assms(1,3) by simp
qed

theorem table_get_after_set_witness:
  "lua_rawget no_hash (projr (lua_rawset no_hash sample_table (LBoolean True) (LBoolean False)))
     (LBoolean True) = Inr (LBoolean False)"
proof -
  have "lua_rawset no_hash sample_table (LBoolean True) (LBoolean False)
      = Inr (projr (lua_rawset no_hash sample_table (LBoolean True) (LBoolean False)))"
    by code_simp
  from table_get_after_set [OF sample_ok(2) boolean_key_proper boolean_key_proper [of True] this]
  show ?thesis by simp
qed

text \<open>
  C3: a write to a table returns: one rehash, whose re-insertions never rehash again, makes
  room for the new key. The only error is a table of more than \<open>2^26\<close> entries.
\<close>

theorem table_set_returns:
  assumes "tab_ok H t" "proper_key k" "live_total t < 2 ^ MAXBITS"
  shows "\<exists>t'. lua_rawset H t k v = Inr t' \<and> tab_ok H t' \<and> metatable t' = metatable t"
  using rawset_written [OF assms(1,2), of v] assms(3)
  by (cases "lua_rawset H t k v") (simp_all add: written_def)

theorem table_set_returns_witness:
  "\<exists>t'. lua_rawset no_hash sample_table (LBoolean True) (LBoolean False) = Inr t'
    \<and> tab_ok no_hash t' \<and> metatable t' = metatable sample_table"
proof (rule table_set_returns [OF sample_ok(2) boolean_key_proper])
  have "live_upto (arr sample_table) (sizearray sample_table) \<subseteq> {1..2}"
    using luaH_new_ok [of 2 2 no_hash] sample_ok(1) by (auto simp: live_upto_def MAXBITS_def)
  from card_mono [OF _ this] have "card (live_upto (arr sample_table) (sizearray sample_table)) \<le> 2" by simp
  moreover have "live_nodes (node sample_table) (sizenode sample_table) \<subseteq> {..<sizenode sample_table}"
    by (auto simp: live_nodes_def)
  from card_mono [OF _ this] have "card (live_nodes (node sample_table) (sizenode sample_table)) \<le> sizenode sample_table"
    by simp
  moreover have "sizenode sample_table = 2" by code_simp
  ultimately show "live_total sample_table < 2 ^ MAXBITS" by (simp add: live_total_def MAXBITS_def)
qed

text \<open>
  C8: a write with an integer index (\<open>lua_rawseti\<close>) is the write with the number as key: a
  later read by index or by key sees it, and every other integer index is unchanged.
\<close>

theorem table_geti_after_seti:
  assumes "tab_ok H t" "INT_MIN \<le> i" "i \<le> INT_MAX" "INT_MIN \<le> j" "j \<le> INT_MAX"
    and "lua_rawseti H t i v = Inr t'"
  shows "tab_ok H t' \<and> lua_rawgeti t' j = (if i = j then Inr v else lua_rawgeti t j)
    \<and> lua_rawget H t' (LNumber (cast_num j)) = lua_rawgeti t' j"
proof -
  have p: "proper_key (LNumber (cast_num j))" by (rule number_key_proper [OF assms(4,5)])
  have w: "tab_ok H t'" "lookup t' (LNumber (cast_num j)) =
      (if luaO_rawequalObj (LNumber (cast_num i)) (LNumber (cast_num j)) then v
       else lookup t (LNumber (cast_num j)))"
    using rawseti_written [OF assms(1-3), of v] assms(6) p by (simp_all add: written_def)
  have "luaO_rawequalObj (LNumber (cast_num i)) (LNumber (cast_num j)) \<longleftrightarrow> i = j"
  proof
    assume "luaO_rawequalObj (LNumber (cast_num i)) (LNumber (cast_num j))"
    from arrayindex_rawequal [OF this] show "i = j"
      using arrayindex_cast_num [OF assms(2,3)] arrayindex_cast_num [OF assms(4,5)] by simp
  next
    assume "i = j"
    with p show "luaO_rawequalObj (LNumber (cast_num i)) (LNumber (cast_num j))"
      using rawequal_refl by (simp add: proper_key_def)
  qed
  with w rawgeti_ok [OF w(1) assms(4,5)] rawgeti_ok [OF assms(1,4,5)] rawget_ok [OF w(1) p]
  show ?thesis by simp
qed

theorem table_geti_after_seti_witness:
  "lua_rawgeti (projr (lua_rawseti no_hash sample_table 1 (LBoolean True))) 1 = Inr (LBoolean True)"
proof -
  have "lua_rawseti no_hash sample_table 1 (LBoolean True)
      = Inr (projr (lua_rawseti no_hash sample_table 1 (LBoolean True)))" by code_simp
  moreover have "INT_MIN \<le> 1" "1 \<le> INT_MAX" by (simp_all add: INT_MIN_def INT_MAX_def)
  ultimately show ?thesis
    using table_geti_after_seti [OF sample_ok(2), of 1 1] by (simp only: simp_thms if_True)
qed

text \<open>
  indexing a table with nil or NaN in a write is an error and never changes the table.
\<close>

theorem table_set_bad_key:
  assumes "tab_ok H t" "\<not> proper_key k" "ttype k \<noteq> 11"
  shows "lua_rawset H t k v = Inl (if k = LNil then IndexIsNil else IndexIsNaN)"
proof (cases "k = LNil")
  case True
  then show ?thesis by (simp add: lua_rawset_def luaH_set_nil tbind_def)
next
  case False
  then have "is_nan_value k" using assms(2,3) by (simp add: proper_key_def)
  then obtain n where "k = LNumber n" "luai_numisnan n" by (auto simp: is_nan_value_def split: TValue.splits)
  with luaH_set_nan [OF assms(1)] show ?thesis by (simp add: lua_rawset_def tbind_def)
qed

theorem table_set_bad_key_witness:
  "lua_rawset no_hash sample_table (LNumber 0x7FF8000000000000) LNil = Inl IndexIsNaN"
proof -
  have "is_nan_value (LNumber 0x7FF8000000000000)"
    by (simp add: is_nan_value_def luai_numisnan_def num_expo_def num_frac_def num_mag_def)
  then have "\<not> proper_key (LNumber 0x7FF8000000000000)" by (simp add: proper_key_def)
  from table_set_bad_key [OF sample_ok(2) this] show ?thesis by simp
qed

text \<open>
  C4: iterating \<open>luaH_next\<close> from nil ends, and the pairs that it lists are exactly the live entries of the
  table: each pair has a proper key and the value that is not nil of that key, every key with such a value is
  listed, and no two of the keys are raw-equal.
\<close>

theorem table_traversal:
  assumes "tab_ok H t" "no_dead_alias t"
  shows "\<exists>es. traverse H t (positions t + 1) LNil = Inr es
    \<and> (\<forall>i < length es. proper_key (fst (es ! i)) \<and> snd (es ! i) \<noteq> LNil \<and> lua_rawget H t (fst (es ! i)) = Inr (snd (es ! i)))
    \<and> (\<forall>k v. proper_key k \<longrightarrow> v \<noteq> LNil \<longrightarrow>
         (lua_rawget H t k = Inr v \<longleftrightarrow> (\<exists>k'. luaO_rawequalObj k' k \<and> (k', v) \<in> set es)))
    \<and> (\<forall>i < length es. \<forall>j < length es. luaO_rawequalObj (fst (es ! i)) (fst (es ! j)) \<longrightarrow> i = j)"
proof (intro exI [of _ "all_entries t"] conjI allI impI)
  show "traverse H t (positions t + 1) LNil = Inr (all_entries t)" by (rule traverse_all [OF assms])
next
  fix i assume "i < length (all_entries t)"
  then have e: "all_entries t ! i \<in> set (all_entries t)" by simp
  note l = all_entries_live [OF assms(1) e]
  from l(1,2) show "proper_key (fst (all_entries t ! i))" "snd (all_entries t ! i) \<noteq> LNil" by simp_all
  show "lua_rawget H t (fst (all_entries t ! i)) = Inr (snd (all_entries t ! i))"
    unfolding rawget_ok [OF assms(1) l(1)] by (simp add: l(3))
next
  fix k v assume k: "proper_key k" "v \<noteq> LNil"
  show "lua_rawget H t k = Inr v \<longleftrightarrow> (\<exists>k'. luaO_rawequalObj k' k \<and> (k', v) \<in> set (all_entries t))"
    unfolding rawget_ok [OF assms(1) k(1)] sum.inject by (rule all_entries_lookup [OF assms(1) k])
qed (rule all_entries_distinct [OF assms(1)])

theorem table_traversal_witness:
  "\<exists>es. traverse no_hash sample_table (positions sample_table + 1) LNil = Inr es
    \<and> (\<forall>i < length es. proper_key (fst (es ! i)) \<and> snd (es ! i) \<noteq> LNil
         \<and> lua_rawget no_hash sample_table (fst (es ! i)) = Inr (snd (es ! i)))
    \<and> (\<forall>k v. proper_key k \<longrightarrow> v \<noteq> LNil \<longrightarrow>
         (lua_rawget no_hash sample_table k = Inr v \<longleftrightarrow> (\<exists>k'. luaO_rawequalObj k' k \<and> (k', v) \<in> set es)))
    \<and> (\<forall>i < length es. \<forall>j < length es. luaO_rawequalObj (fst (es ! i)) (fst (es ! j)) \<longrightarrow> i = j)"
proof (rule table_traversal [OF sample_ok(2)])
  have "ttype (gkey sample_table i) = 0" if "i < sizenode sample_table" for i
  proof -
    have "list_all (\<lambda>n. ttype (i_key n) = 0) (node sample_table)" by code_simp
    with that tab_okD(1) [OF sample_ok(2)] show ?thesis by (simp add: list_all_length gkey_def)
  qed
  then show "no_dead_alias sample_table" by (simp add: no_dead_alias_def)
qed

text \<open>
  C5: \<open>luaH_getn\<close> returns on every well-formed table, and what it returns is a border: 0 or
  an index in use, whose successor is not in use.
\<close>

theorem table_length_border:
  assumes "tab_ok H t"
  shows "\<exists>n. luaH_getn t = Inr n \<and> (n = 0 \<or> lookup t (int_key n) \<noteq> LNil)
    \<and> lookup t (int_key (n + 1)) = LNil"
  using luaH_getn_border [OF assms] by (auto simp: border_def)

theorem table_length_border_witness:
  "\<exists>n. luaH_getn sample_table = Inr n \<and> (n = 0 \<or> lookup sample_table (int_key n) \<noteq> LNil)
    \<and> lookup sample_table (int_key (n + 1)) = LNil"
  by (rule table_length_border [OF sample_ok(2)])

text \<open>
  C9: \<open>computesizes\<close> returns the largest power of two such that more than half of the slots
  from 1 to it are in use (0 if there is none) and the number of keys that go there; with the
  counts that \<open>rehash\<close> makes it never reads beyond its array of counts.
\<close>

theorem computesizes_optimal:
  assumes "nums_of S nums"
  shows "case computesizes nums (card S) of (n, na) \<Rightarrow>
    na = card {k \<in> S. k \<le> n} \<and> (n = 0 \<or> (\<exists>p \<le> MAXBITS. n = 2 ^ p) \<and> n div 2 < na)
    \<and> (\<forall>p \<le> MAXBITS. 2 ^ p div 2 < card {k \<in> S. k \<le> 2 ^ p} \<longrightarrow> 2 ^ p \<le> n)"
  using computesizes_ok [OF assms refl] by (auto simp: best_size_def less_Suc_eq_le)

theorem computesizes_optimal_witness:
  "case computesizes (1 # 1 # 1 # replicate 24 0) (card {1, 2, 3 :: nat}) of (n, na) \<Rightarrow>
    na = card {k \<in> {1, 2, 3 :: nat}. k \<le> n} \<and> (n = 0 \<or> (\<exists>p \<le> MAXBITS. n = 2 ^ p) \<and> n div 2 < na)
    \<and> (\<forall>p \<le> MAXBITS. 2 ^ p div 2 < card {k \<in> {1, 2, 3 :: nat}. k \<le> 2 ^ p} \<longrightarrow> 2 ^ p \<le> n)"
proof (rule computesizes_optimal)
  have c: "ceillog2 1 = 0" "ceillog2 2 = 1" "ceillog2 3 = 2" by code_simp+
  have "{k \<in> {1, 2, 3 :: nat}. nat (ceillog2 k) = b}
      = (if b = 0 then {1} else if b = 1 then {2} else if b = 2 then {3} else {})" for b
    using c by auto
  moreover have "(1 # 1 # 1 # replicate 24 0) ! b = (if b \<le> 2 then 1 else 0 :: nat)" if "b \<le> MAXBITS" for b
    using that by (auto simp: nth_Cons' MAXBITS_def)
  ultimately show "nums_of {1, 2, 3} (1 # 1 # 1 # replicate 24 0)"
    by (auto simp: nums_of_def index_keys_def MAXBITS_def)
qed

end
