(* ===== verification/Strings.thy ===== *)
theory Strings
  imports Objects
begin

text \<open>
  Interned strings (\<open>lstring.c\<close>): every string of a state is in one hash table, so that two
  strings are equal if and only if their addresses are. A bucket of the table is the list of
  the addresses that the \<open>next\<close> pointers chain. \<open>malloc\<close> is the parameter \<open>alloc\<close>: the address
  of a new block, which is not that of a live object.
\<close>

unbundle bit_operations_syntax

section \<open>Data\<close>

record TString =
  marked :: u8
  reserved :: u8
  shash :: u32
  len :: nat
  chars :: "byte list"

type_synonym str_heap = "ptr \<Rightarrow> TString option"

record stringtable =
  objs :: str_heap
  buckets :: "ptr list list"
  nuse :: nat
  currentwhite :: u8
  sweeping :: bool

definition strt_size :: "stringtable \<Rightarrow> nat" where "strt_size g = length (buckets g)"

definition WHITEBITS :: u8 where "WHITEBITS = push_bit 0 1 OR push_bit 1 1"

definition luaC_white :: "stringtable \<Rightarrow> u8" where
  "luaC_white g = currentwhite g AND WHITEBITS"

definition isdead :: "stringtable \<Rightarrow> TString \<Rightarrow> bool" where
  "isdead g v \<longleftrightarrow> marked v AND (currentwhite g XOR WHITEBITS) AND WHITEBITS \<noteq> 0"

definition changewhite :: "TString \<Rightarrow> TString" where
  "changewhite x = x\<lparr>marked := marked x XOR WHITEBITS\<rparr>"

definition lmod :: "u32 \<Rightarrow> nat \<Rightarrow> nat" where
  "lmod s n = unat (s AND (word_of_nat n - 1))"

section \<open>Hashing\<close>

function hash_loop :: "byte list \<Rightarrow> nat \<Rightarrow> nat \<Rightarrow> u32 \<Rightarrow> u32" where
  "hash_loop str step l1 h =
    (if l1 \<ge> step \<and> 0 < step
     then hash_loop str step (l1 - step)
       (h XOR (push_bit 5 h + drop_bit 2 h + ucast (str ! (l1 - 1))))
     else h)"
  by pat_completeness auto
termination by (relation "measure (\<lambda>(str, step, l1, h). l1)") auto

declare hash_loop.simps [simp del]

definition luaS_hash :: "byte list \<Rightarrow> u32" where
  "luaS_hash str = (let l = length str in hash_loop str (l div 32 + 1) l (word_of_nat l))"

section \<open>The table\<close>

text \<open>The inner loop of \<open>luaS_resize\<close> over one chain, then the loop over the buckets.\<close>

fun rehash_chain :: "str_heap \<Rightarrow> nat \<Rightarrow> ptr list \<Rightarrow> ptr list list \<Rightarrow> ptr list list" where
  "rehash_chain hp newsize [] newhash = newhash"
| "rehash_chain hp newsize (p # ps) newhash =
     (let h1 = lmod (case hp p of Some ts \<Rightarrow> shash ts | None \<Rightarrow> 0) newsize
      in rehash_chain hp newsize ps (newhash[h1 := p # newhash ! h1]))"

definition luaS_resize :: "stringtable \<Rightarrow> nat \<Rightarrow> stringtable" where
  "luaS_resize g newsize =
    (if sweeping g then g
     else g\<lparr>buckets := fold (rehash_chain (objs g) newsize) (buckets g) (replicate newsize [])\<rparr>)"

definition MAX_SIZET :: nat where "MAX_SIZET = 2 ^ 64 - 3"

definition sizeof_TString :: nat where "sizeof_TString = 24"

text \<open>\<^term>\<open>None\<close> is the error of \<open>luaM_toobig\<close>.\<close>

definition newlstr ::
    "(str_heap \<Rightarrow> ptr) \<Rightarrow> stringtable \<Rightarrow> byte list \<Rightarrow> u32 \<Rightarrow> (ptr \<times> stringtable) option" where
  "newlstr alloc g str h =
    (let l = length str in
     if l + 1 > MAX_SIZET - sizeof_TString then None
     else
       let p = alloc (objs g);
           ts = \<lparr>marked = luaC_white g, reserved = 0, shash = h, len = l, chars = str\<rparr>;
           b = lmod h (strt_size g);
           g = g\<lparr>objs := (objs g)(p \<mapsto> ts), buckets := (buckets g)[b := p # buckets g ! b],
                 nuse := nuse g + 1\<rparr>;
           g = (if nuse g > strt_size g \<and> int (strt_size g) \<le> MAX_INT div 2
                then luaS_resize g (strt_size g * 2) else g)
       in Some (p, g))"

text \<open>The search of the chain: the first string with the same bytes.\<close>

fun find_string :: "str_heap \<Rightarrow> ptr list \<Rightarrow> byte list \<Rightarrow> ptr option" where
  "find_string hp [] str = None"
| "find_string hp (p # ps) str =
     (case hp p of
        Some ts \<Rightarrow> if len ts = length str \<and> chars ts = str then Some p else find_string hp ps str
      | None \<Rightarrow> find_string hp ps str)"

definition luaS_newlstr ::
    "(str_heap \<Rightarrow> ptr) \<Rightarrow> stringtable \<Rightarrow> byte list \<Rightarrow> (ptr \<times> stringtable) option" where
  "luaS_newlstr alloc g str =
    (let h = luaS_hash str in
     case find_string (objs g) (buckets g ! lmod h (strt_size g)) str of
       Some p \<Rightarrow>
         (let ts = the (objs g p);
              ts = (if isdead g ts then changewhite ts else ts)
          in Some (p, g\<lparr>objs := (objs g)(p \<mapsto> ts)\<rparr>))
     | None \<Rightarrow> newlstr alloc g str h)"

section \<open>The invariant\<close>

text \<open>
  Each string is in the bucket of its hash, once; the hash is that of its bytes; no two
  strings have the same bytes; the number of buckets is a power of two.
\<close>

definition strt_ok :: "stringtable \<Rightarrow> bool" where
  "strt_ok g \<longleftrightarrow> (\<exists>k \<le> 31. strt_size g = 2 ^ k)
     \<and> (\<forall>p ts. objs g p = Some ts \<longrightarrow> shash ts = luaS_hash (chars ts) \<and> len ts = length (chars ts))
     \<and> (\<forall>i < strt_size g. \<forall>p. p \<in> set (buckets g ! i) \<longleftrightarrow>
          (\<exists>ts. objs g p = Some ts \<and> lmod (shash ts) (strt_size g) = i))
     \<and> (\<forall>p q ts us. objs g p = Some ts \<longrightarrow> objs g q = Some us \<longrightarrow> chars ts = chars us \<longrightarrow> p = q)"

definition str_bytes :: "stringtable \<Rightarrow> ptr \<Rightarrow> byte list option" where
  "str_bytes g p = map_option chars (objs g p)"

lemma lmod_less:
  assumes "n = 2 ^ k" "k \<le> 31"
  shows "lmod h n < n"
proof -
  have "word_of_nat n - 1 = (mask k :: u32)" by (simp add: assms(1) mask_eq_exp_minus_1)
  then have "lmod h n = take_bit k (unat h)"
    by (simp add: lmod_def unsigned_take_bit_eq flip: take_bit_eq_mask)
  then show ?thesis by (simp add: assms(1))
qed

lemma lmod_bound: "strt_ok g \<Longrightarrow> lmod h (strt_size g) < strt_size g"
  using lmod_less by (auto simp: strt_ok_def)

lemma find_string_Some:
  "find_string hp ps str = Some p \<Longrightarrow> p \<in> set ps \<and> (\<exists>ts. hp p = Some ts \<and> chars ts = str)"
  by (induction ps) (auto split: option.splits if_splits)

lemma find_string_None:
  "find_string hp ps str = None \<Longrightarrow> p \<in> set ps \<Longrightarrow> hp p = Some ts \<Longrightarrow> len ts = length (chars ts) \<Longrightarrow> chars ts \<noteq> str"
  by (induction ps) (auto split: option.splits if_splits)

section \<open>Resizing\<close>

text \<open>The chains of the new table hold the strings of the old one, in the buckets of their hashes.\<close>

lemma rehash_chain_set:
  assumes "length nh = n" "\<And>s. lmod s n < n"
  shows "length (rehash_chain hp n ps nh) = n \<and> (i < n \<longrightarrow>
    set (rehash_chain hp n ps nh ! i) = set (nh ! i)
      \<union> {p \<in> set ps. lmod (case hp p of Some ts \<Rightarrow> shash ts | None \<Rightarrow> 0) n = i})"
  using assms(1)
proof (induction ps arbitrary: nh)
  case (Cons p ps)
  define h where "h = lmod (case hp p of Some ts \<Rightarrow> shash ts | None \<Rightarrow> 0) n"
  have h: "h < n" unfolding h_def by (rule assms(2))
  have "length (nh[h := p # nh ! h]) = n" using Cons.prems by simp
  note IH = Cons.IH [OF this]
  have e: "rehash_chain hp n (p # ps) nh = rehash_chain hp n ps (nh[h := p # nh ! h])"
    by (simp add: h_def Let_def)
  have s: "{q \<in> set (p # ps). lmod (case hp q of Some ts \<Rightarrow> shash ts | None \<Rightarrow> 0) n = i} =
      (if h = i then {p} else {}) \<union> {q \<in> set ps. lmod (case hp q of Some ts \<Rightarrow> shash ts | None \<Rightarrow> 0) n = i}"
    by (auto simp: h_def)
  show ?case unfolding e s using IH h Cons.prems by (simp add: nth_list_update)
qed simp

lemma rehash_all_set:
  assumes "length nh = n" "\<And>s. lmod s n < n"
  shows "length (fold (rehash_chain hp n) bs nh) = n \<and> (i < n \<longrightarrow>
    set (fold (rehash_chain hp n) bs nh ! i) = set (nh ! i)
      \<union> {p \<in> \<Union>(set ` set bs). lmod (case hp p of Some ts \<Rightarrow> shash ts | None \<Rightarrow> 0) n = i})"
  using assms(1)
proof (induction bs arbitrary: nh)
  case (Cons b bs)
  note c = rehash_chain_set [OF Cons.prems assms(2), of hp b i]
  from Cons.IH [of "rehash_chain hp n b nh"] c show ?case by auto
qed simp

lemma strt_okD:
  assumes "strt_ok g"
  shows "objs g p = Some ts \<Longrightarrow> shash ts = luaS_hash (chars ts) \<and> len ts = length (chars ts)"
    "i < strt_size g \<Longrightarrow> p \<in> set (buckets g ! i) \<longleftrightarrow>
       (\<exists>ts. objs g p = Some ts \<and> lmod (shash ts) (strt_size g) = i)"
    "objs g p = Some ts \<Longrightarrow> objs g q = Some us \<Longrightarrow> chars ts = chars us \<Longrightarrow> p = q"
  using assms unfolding strt_ok_def by blast+

lemma all_buckets:
  assumes "strt_ok g"
  shows "\<Union>(set ` set (buckets g)) = dom (objs g)"
proof (rule set_eqI, rule iffI)
  fix p assume "p \<in> \<Union>(set ` set (buckets g))"
  then obtain b where "b \<in> set (buckets g)" "p \<in> set b" by blast
  then obtain i where "i < strt_size g" "p \<in> set (buckets g ! i)"
    by (metis in_set_conv_nth strt_size_def)
  with strt_okD(2) [OF assms] show "p \<in> dom (objs g)" by blast
next
  fix p assume "p \<in> dom (objs g)"
  then obtain ts where "objs g p = Some ts" by blast
  with strt_okD(2) [OF assms lmod_bound [OF assms]]
  have "p \<in> set (buckets g ! lmod (shash ts) (strt_size g))" by blast
  then show "p \<in> \<Union>(set ` set (buckets g))"
    using lmod_bound [OF assms] nth_mem unfolding strt_size_def by blast
qed

lemma luaS_resize_ok:
  assumes ok: "strt_ok g" and n: "n = 2 ^ k" "k \<le> 31"
  shows "strt_ok (luaS_resize g n)" "objs (luaS_resize g n) = objs g"
    "\<not> sweeping g \<Longrightarrow> strt_size (luaS_resize g n) = n"
proof -
  have l: "lmod s n < n" for s using lmod_less [OF n] .
  let ?nb = "fold (rehash_chain (objs g) n) (buckets g) (replicate n [])"
  have f: "length ?nb = n" "i < n \<Longrightarrow> p \<in> set (?nb ! i) \<longleftrightarrow>
      (\<exists>ts. objs g p = Some ts \<and> lmod (shash ts) n = i)" for i p
    using rehash_all_set [of "replicate n []" n "objs g" "buckets g" i] l
    unfolding all_buckets [OF ok] by (auto split: option.splits)
  show "objs (luaS_resize g n) = objs g" by (simp add: luaS_resize_def)
  show "\<not> sweeping g \<Longrightarrow> strt_size (luaS_resize g n) = n"
    using f(1) by (simp add: luaS_resize_def strt_size_def)
  show "strt_ok (luaS_resize g n)"
  proof (cases "sweeping g")
    case True
    with ok show ?thesis by (simp add: luaS_resize_def)
  next
    case False
    then show ?thesis
      using strt_okD(1,3) [OF ok] f n unfolding strt_ok_def
      by (auto simp: luaS_resize_def strt_size_def)
  qed
qed

section \<open>Interning\<close>

lemma newlstr_ok:
  assumes ok: "strt_ok g" and new: "\<And>p ts. objs g p = Some ts \<Longrightarrow> chars ts \<noteq> str"
    and fresh: "alloc (objs g) \<notin> dom (objs g)" and l: "length str + 1 \<le> MAX_SIZET - sizeof_TString"
  shows "\<exists>g'. newlstr alloc g str (luaS_hash str) = Some (alloc (objs g), g') \<and> strt_ok g'
    \<and> str_bytes g' = (str_bytes g)(alloc (objs g) \<mapsto> str)"
proof -
  define p where "p = alloc (objs g)"
  define ts where "ts = \<lparr>marked = luaC_white g, reserved = 0, shash = luaS_hash str,
    len = length str, chars = str\<rparr>"
  define b where "b = lmod (luaS_hash str) (strt_size g)"
  define g1 where "g1 = g\<lparr>objs := (objs g)(p \<mapsto> ts),
    buckets := (buckets g)[b := p # buckets g ! b], nuse := nuse g + 1\<rparr>"
  have b: "b < strt_size g" unfolding b_def by (rule lmod_bound [OF ok])
  have p: "objs g p = None" using fresh by (auto simp: p_def)
  have sz: "strt_size g1 = strt_size g" by (simp add: g1_def strt_size_def)
  have ok1: "strt_ok g1"
    unfolding strt_ok_def sz
  proof (intro conjI allI impI)
    show "\<exists>k \<le> 31. strt_size g = 2 ^ k" using ok by (simp add: strt_ok_def)
  next
    fix q us assume "objs g1 q = Some us"
    then show "shash us = luaS_hash (chars us)" "len us = length (chars us)"
      using strt_okD(1) [OF ok, of q us] by (auto simp: g1_def ts_def split: if_splits)
  next
    fix i q assume i: "i < strt_size g"
    show "q \<in> set (buckets g1 ! i) \<longleftrightarrow> (\<exists>us. objs g1 q = Some us \<and> lmod (shash us) (strt_size g) = i)"
      using strt_okD(2) [OF ok i, of q] i b p
      by (auto simp: g1_def ts_def b_def strt_size_def nth_list_update)
  next
    fix q r us vs assume "objs g1 q = Some us" "objs g1 r = Some vs" "chars us = chars vs"
    then show "q = r" using strt_okD(3) [OF ok, of q us r vs] new [of q us] new [of r vs]
      by (auto simp: g1_def ts_def split: if_splits)
  qed
  define g2 where "g2 = (if nuse g1 > strt_size g1 \<and> int (strt_size g1) \<le> MAX_INT div 2
    then luaS_resize g1 (strt_size g1 * 2) else g1)"
  have "strt_ok g2 \<and> objs g2 = objs g1"
  proof (cases "nuse g1 > strt_size g1 \<and> int (strt_size g1) \<le> MAX_INT div 2")
    case True
    obtain k where k: "strt_size g1 = 2 ^ k" using ok1 by (auto simp: strt_ok_def)
    have "\<not> 30 \<le> k"
    proof
      assume "30 \<le> k"
      then have "(2::nat) ^ 30 \<le> 2 ^ k" by (intro power_increasing) auto
      then have "int (2 ^ 30) \<le> int (2 ^ k)" by (simp only: of_nat_le_iff)
      with True k show False by (simp add: MAX_INT_def INT_MAX_def)
    qed
    with luaS_resize_ok(1,2) [OF ok1, of "strt_size g1 * 2" "Suc k"] True k
    show ?thesis by (simp add: g2_def)
  qed (use ok1 g2_def in auto)
  moreover have "newlstr alloc g str (luaS_hash str) = Some (p, g2)"
    using l by (simp add: newlstr_def Let_def g2_def g1_def p_def ts_def b_def del: fun_upd_apply)
  moreover have "str_bytes g1 = (str_bytes g)(p \<mapsto> str)"
    by (auto simp: str_bytes_def g1_def ts_def fun_eq_iff)
  ultimately show ?thesis by (intro exI [of _ g2]) (simp add: p_def str_bytes_def fun_eq_iff)
qed

text \<open>A string that is in the table is found, and at most brought back to life.\<close>

lemma luaS_newlstr_found:
  assumes ok: "strt_ok g" and b: "str_bytes g p = Some str"
  shows "\<exists>g'. luaS_newlstr alloc g str = Some (p, g') \<and> strt_ok g' \<and> str_bytes g' = str_bytes g"
proof -
  let ?b = "buckets g ! lmod (luaS_hash str) (strt_size g)"
  from b obtain ts where ts: "objs g p = Some ts" "chars ts = str" by (auto simp: str_bytes_def)
  with strt_okD(1) [OF ok ts(1)] have h: "shash ts = luaS_hash str" "len ts = length str" by simp_all
  with strt_okD(2) [OF ok lmod_bound [OF ok, of "luaS_hash str"], of p] ts
  have mem: "p \<in> set ?b" by auto
  have f: "find_string (objs g) ?b str = Some p"
  proof (cases "find_string (objs g) ?b str")
    case None
    with find_string_None [OF None mem ts(1)] h ts(2) show ?thesis by simp
  next
    case (Some q)
    with find_string_Some [OF Some] strt_okD(3) [OF ok _ ts(1)] ts(2) show ?thesis by auto
  qed
  define us where "us = (if isdead g ts then changewhite ts else ts)"
  have us: "chars us = chars ts" "shash us = shash ts" "len us = len ts"
    by (simp_all add: us_def changewhite_def)
  define g' where "g' = g\<lparr>objs := (objs g)(p \<mapsto> us)\<rparr>"
  have sz: "strt_size g' = strt_size g" by (simp add: g'_def strt_size_def)
  have o: "\<exists>ts0. objs g q = Some ts0 \<and> chars ts0 = chars vs \<and> shash ts0 = shash vs \<and> len ts0 = len vs"
    if "objs g' q = Some vs" for q vs using that ts us by (auto simp: g'_def split: if_splits)
  have "strt_ok g'"
    unfolding strt_ok_def sz
  proof (intro conjI allI impI)
    show "\<exists>k \<le> 31. strt_size g = 2 ^ k" using ok by (simp add: strt_ok_def)
  next
    fix q vs assume "objs g' q = Some vs"
    then show "shash vs = luaS_hash (chars vs)" "len vs = length (chars vs)"
      using o strt_okD(1) [OF ok] by metis+
  next
    fix i q assume i: "i < strt_size g"
    show "q \<in> set (buckets g' ! i) \<longleftrightarrow> (\<exists>vs. objs g' q = Some vs \<and> lmod (shash vs) (strt_size g) = i)"
      using strt_okD(2) [OF ok i, of q] ts us by (auto simp: g'_def)
  next
    fix q r vs ws assume "objs g' q = Some vs" "objs g' r = Some ws" "chars vs = chars ws"
    then show "q = r" using o strt_okD(3) [OF ok] by metis
  qed
  moreover have "luaS_newlstr alloc g str = Some (p, g')"
    using f ts by (simp add: luaS_newlstr_def Let_def g'_def us_def)
  moreover have "str_bytes g' q = str_bytes g q" for q
    using ts us by (simp add: str_bytes_def g'_def)
  then have "str_bytes g' = str_bytes g" ..
  ultimately show ?thesis by blast
qed

text \<open>
  \<open>luaS_newlstr\<close> returns a string with the given bytes, creates one only if there was none,
  and leaves the bytes of every other string.
\<close>

lemma luaS_newlstr_ok:
  assumes ok: "strt_ok g" and fresh: "alloc (objs g) \<notin> dom (objs g)"
    and l: "length str + 1 \<le> MAX_SIZET - sizeof_TString"
  obtains (found) p g' where "luaS_newlstr alloc g str = Some (p, g')" "strt_ok g'"
      "str_bytes g p = Some str" "str_bytes g' = str_bytes g"
  | (created) p g' where "luaS_newlstr alloc g str = Some (p, g')" "strt_ok g'"
      "str_bytes g p = None" "Some str \<notin> range (str_bytes g)" "str_bytes g' = (str_bytes g)(p \<mapsto> str)"
proof (cases "Some str \<in> range (str_bytes g)")
  case True
  then obtain p where "str_bytes g p = Some str" by (metis rangeE)
  with luaS_newlstr_found [OF ok this, of alloc] found show thesis by blast
next
  case False
  have new: "chars ts \<noteq> str" if "objs g p = Some ts" for p ts
  proof
    assume "chars ts = str"
    with that have "str_bytes g p = Some str" by (simp add: str_bytes_def)
    with False show False by (metis rangeI)
  qed
  have "find_string (objs g) (buckets g ! lmod (luaS_hash str) (strt_size g)) str = None"
    using find_string_Some new by (meson not_Some_eq)
  moreover obtain g' where g': "newlstr alloc g str (luaS_hash str) = Some (alloc (objs g), g')" "strt_ok g'"
    "str_bytes g' = (str_bytes g)(alloc (objs g) \<mapsto> str)"
    using newlstr_ok [of g str alloc] ok new fresh l by blast
  moreover have "str_bytes g (alloc (objs g)) = None" using fresh by (auto simp: str_bytes_def)
  ultimately show thesis using False by (intro created [of "alloc (objs g)" g']) (simp_all add: luaS_newlstr_def)
qed

lemma interned_unique:
  assumes "strt_ok g" "str_bytes g p = Some s" "str_bytes g q = Some s"
  shows "p = q"
  using assms strt_okD(3) [OF assms(1)] by (auto simp: str_bytes_def)

lemma luaS_newlstr_post:
  assumes "strt_ok g" "alloc (objs g) \<notin> dom (objs g)" "length s + 1 \<le> MAX_SIZET - sizeof_TString"
    and r: "luaS_newlstr alloc g s = Some (p, g')"
  shows "strt_ok g' \<and> str_bytes g' p = Some s
    \<and> (\<forall>q b. str_bytes g q = Some b \<longrightarrow> str_bytes g' q = Some b)"
proof (cases rule: luaS_newlstr_ok [where alloc = alloc and g = g and str = s, case_names a b c found created])
  case (found q h)
  with r show ?thesis by simp
next
  case (created q h)
  with r show ?thesis by auto
qed (use assms in auto)

section \<open>Pointer equality is string equality\<close>

text \<open>
  C10: two strings interned one after the other have the same address if and only if they have
  the same bytes, and each keeps its bytes, also when the string table grows in between.
\<close>

theorem interned_equality:
  assumes "strt_ok g" "alloc (objs g) \<notin> dom (objs g)" "length s + 1 \<le> MAX_SIZET - sizeof_TString"
    and "luaS_newlstr alloc g s = Some (p, g1)"
    and "alloc (objs g1) \<notin> dom (objs g1)" "length s' + 1 \<le> MAX_SIZET - sizeof_TString"
    and "luaS_newlstr alloc g1 s' = Some (q, g2)"
  shows "strt_ok g2 \<and> (p = q \<longleftrightarrow> s = s') \<and> str_bytes g2 p = Some s \<and> str_bytes g2 q = Some s'"
proof -
  note 1 = luaS_newlstr_post [OF assms(1,2,3,4)]
  with luaS_newlstr_post [OF _ assms(5,6,7)]
  have 2: "strt_ok g2" "str_bytes g2 q = Some s'" "str_bytes g2 p = Some s" by blast+
  then show ?thesis using interned_unique [OF 2(1)] by auto
qed

definition sample_strt :: stringtable where
  "sample_strt = \<lparr>objs = Map.empty, buckets = replicate 32 [], nuse = 0, currentwhite = 1, sweeping = False\<rparr>"

definition sample_alloc :: "str_heap \<Rightarrow> ptr" where
  "sample_alloc h = (if h 64 = None then 64 else if h 128 = None then 128 else 192)"

lemma sample_strt_ok: "strt_ok sample_strt"
  by (auto simp: strt_ok_def sample_strt_def strt_size_def intro!: exI [of _ 5])

theorem interned_equality_witness:
  "(let r1 = the (luaS_newlstr sample_alloc sample_strt [1, 2]);
        r2 = the (luaS_newlstr sample_alloc (snd r1) [3])
    in strt_ok (snd r2) \<and> (fst r1 = fst r2 \<longleftrightarrow> [1, 2] = [3 :: byte])
      \<and> str_bytes (snd r2) (fst r1) = Some [1, 2] \<and> str_bytes (snd r2) (fst r2) = Some [3])"
proof -
  have h: "luaS_hash [1, 2] = 2129" "luaS_hash [3] = 34"
    by (simp_all add: luaS_hash_def hash_loop.simps)
  note eval = luaS_newlstr_def newlstr_def sample_alloc_def sample_strt_def strt_size_def lmod_def h
    MAX_SIZET_def sizeof_TString_def Let_def
  define r1 where "r1 = the (luaS_newlstr sample_alloc sample_strt [1, 2])"
  define r2 where "r2 = the (luaS_newlstr sample_alloc (snd r1) [3])"
  have r1: "luaS_newlstr sample_alloc sample_strt [1, 2] = Some (fst r1, snd r1)"
    and o: "objs (snd r1) 64 \<noteq> None" "objs (snd r1) 128 = None"
    by (simp_all add: r1_def eval)
  have r2: "luaS_newlstr sample_alloc (snd r1) [3] = Some (fst r2, snd r2)"
    by (simp add: r2_def r1_def eval)
  have "sample_alloc (objs sample_strt) \<notin> dom (objs sample_strt)"
    "sample_alloc (objs (snd r1)) \<notin> dom (objs (snd r1))"
    using o by (auto simp: sample_alloc_def sample_strt_def)
  from interned_equality [OF sample_strt_ok this(1) _ r1 this(2) _ r2] show ?thesis
    by (simp add: Let_def MAX_SIZET_def sizeof_TString_def flip: r1_def r2_def)
qed
end
