(* ===== verification/Verifier.thy ===== *)
theory Verifier
  imports Opcodes Objects
begin

text \<open>
  Function prototypes (\<open>lobject.h\<close>) and the bytecode verifier (\<open>ldebug.c\<close>, \<open>lfunc.c\<close>).
  \<open>symbexec\<close> serves two purposes: with \<open>reg = NO_REG\<close> it checks every instruction of a
  function (\<open>luaG_checkcode\<close>), with another register it finds the instruction that last changed
  it, from which \<open>getobjname\<close> names a value in an error message. The theory shows what code that
  the checker accepts cannot do.
\<close>

unbundle bit_operations_syntax

section \<open>Prototypes\<close>

text \<open>
  The size fields of the C structure are the lengths of the lists. A pointer to a string is
  an address or \<open>NULL\<close>.
\<close>

record LocVar =
  varname :: "ptr option"
  startpc :: int
  endpc :: int

datatype Proto = Proto
  (f_k: "TValue list") (f_code: "Instruction list") (f_p: "Proto list") (lineinfo: "int list")
  (locvars: "LocVar list") (upvalues: "ptr option list") (source: "ptr option")
  (linedefined: int) (lastlinedefined: int)
  (nups: u8) (numparams: u8) (is_vararg: u8) (maxstacksize: u8)

definition VARARG_HASARG :: u8 where "VARARG_HASARG = 1"
definition VARARG_ISVARARG :: u8 where "VARARG_ISVARARG = 2"
definition VARARG_NEEDSARG :: u8 where "VARARG_NEEDSARG = 4"

definition MAXSTACK :: int where "MAXSTACK = 250"
definition LUA_MULTRET :: int where "LUA_MULTRET = -1"

abbreviation sizecode :: "Proto \<Rightarrow> nat" where "sizecode f \<equiv> length (f_code f)"
abbreviation sizek :: "Proto \<Rightarrow> nat" where "sizek f \<equiv> length (f_k f)"

definition ttisstring :: "TValue \<Rightarrow> bool" where "ttisstring v \<longleftrightarrow> ttype v = 4"

section \<open>The checks\<close>

definition check :: "bool \<Rightarrow> 'a option \<Rightarrow> 'a option" where
  "check x rest = (if x then rest else None)"

definition checkreg :: "Proto \<Rightarrow> int \<Rightarrow> bool" where
  "checkreg pt reg \<longleftrightarrow> reg < uint (maxstacksize pt)"

definition precheck :: "Proto \<Rightarrow> bool" where
  "precheck pt \<longleftrightarrow> uint (maxstacksize pt) \<le> MAXSTACK
     \<and> uint (numparams pt) + uint (is_vararg pt AND VARARG_HASARG) \<le> uint (maxstacksize pt)
     \<and> (is_vararg pt AND VARARG_NEEDSARG = 0 \<or> is_vararg pt AND VARARG_HASARG \<noteq> 0)
     \<and> int (length (upvalues pt)) \<le> uint (nups pt)
     \<and> (length (lineinfo pt) = sizecode pt \<or> length (lineinfo pt) = 0)
     \<and> sizecode pt > 0 \<and> GET_OPCODE (f_code pt ! (sizecode pt - 1)) = opnum OP_RETURN"

definition luaG_checkopenop :: "Instruction \<Rightarrow> bool" where
  "luaG_checkopenop i \<longleftrightarrow>
     GET_OPCODE i \<in> {opnum OP_CALL, opnum OP_TAILCALL, opnum OP_RETURN, opnum OP_SETLIST}
     \<and> GETARG_B i = 0"

definition checkArgMode :: "Proto \<Rightarrow> int \<Rightarrow> OpArgMask \<Rightarrow> bool" where
  "checkArgMode pt r mode = (case mode of
     OpArgN \<Rightarrow> r = 0
   | OpArgU \<Rightarrow> True
   | OpArgR \<Rightarrow> checkreg pt r
   | OpArgK \<Rightarrow> (if ISK r then INDEXK r < int (sizek pt) else r < uint (maxstacksize pt)))"

text \<open>A word that looks like a \<open>SETLIST\<close> whose count is in the next word.\<close>

definition setlist_open :: "Instruction \<Rightarrow> bool" where
  "setlist_open d \<longleftrightarrow> GET_OPCODE d = opnum OP_SETLIST \<and> GETARG_C d = 0"

text \<open>The loop that walks back from a jump's destination; its result is \<open>j\<close>.\<close>

fun setlist_run :: "Instruction list \<Rightarrow> nat \<Rightarrow> nat" where
  "setlist_run code 0 = 0"
| "setlist_run code (Suc d) = (if setlist_open (code ! d) then Suc (setlist_run code d) else 0)"

text \<open>The switch over the operand formats: the operands \<open>b\<close> and \<open>c\<close>.\<close>

definition symb_operands :: "Proto \<Rightarrow> nat \<Rightarrow> Instruction \<Rightarrow> nat \<Rightarrow> (int \<times> int) option" where
  "symb_operands pt pc i op = (case getOpMode op of
     iABC \<Rightarrow>
       (let b = GETARG_B i; c = GETARG_C i in
        check (checkArgMode pt b (getBMode op)) (check (checkArgMode pt c (getCMode op)) (Some (b, c))))
   | iABx \<Rightarrow>
       (let b = GETARG_Bx i in
        check (getBMode op = OpArgK \<longrightarrow> b < int (sizek pt)) (Some (b, 0)))
   | iAsBx \<Rightarrow>
       (let b = GETARG_sBx i in
        if getBMode op = OpArgR then
          (let dest = int pc + 1 + b in
           check (0 \<le> dest \<and> dest < int (sizecode pt))
             (check (dest > 0 \<longrightarrow> even (setlist_run (f_code pt) (nat dest))) (Some (b, 0))))
        else Some (b, 0)))"

text \<open>The end of the cases of \<open>OP_FORLOOP\<close>, \<open>OP_FORPREP\<close> and \<open>OP_JMP\<close>.\<close>

definition symb_jump :: "nat \<Rightarrow> int \<Rightarrow> nat \<Rightarrow> nat \<Rightarrow> int \<Rightarrow> (nat \<times> nat) option" where
  "symb_jump lastpc reg pc lst b =
    (let dest = int pc + 1 + b in
     if reg \<noteq> NO_REG \<and> int pc < dest \<and> dest \<le> int lastpc then Some (nat (int pc + b), lst)
     else Some (pc, lst))"

text \<open>The case of \<open>OP_CALL\<close> and \<open>OP_TAILCALL\<close>.\<close>

definition symb_call ::
    "Proto \<Rightarrow> int \<Rightarrow> nat \<Rightarrow> nat \<Rightarrow> int \<Rightarrow> int \<Rightarrow> int \<Rightarrow> (nat \<times> nat) option" where
  "symb_call pt reg pc lst a b c =
     check (b \<noteq> 0 \<longrightarrow> checkreg pt (a + b - 1))
       (check (if c - 1 = LUA_MULTRET then luaG_checkopenop (f_code pt ! (pc + 1))
               else c - 1 \<noteq> 0 \<longrightarrow> checkreg pt (a + (c - 1) - 1))
         (Some (pc, if reg \<ge> a then pc else lst)))"

text \<open>The switch over the opcodes: the new \<open>pc\<close> (before its increment) and the new \<open>last\<close> (here \<open>lst\<close>).\<close>

definition symb_special ::
    "Proto \<Rightarrow> nat \<Rightarrow> int \<Rightarrow> nat \<Rightarrow> nat \<Rightarrow> OpCode \<Rightarrow> int \<Rightarrow> int \<Rightarrow> int \<Rightarrow> (nat \<times> nat) option" where
  "symb_special pt lastpc reg pc lst op a b c = (let code = f_code pt in case op of
     OP_LOADBOOL \<Rightarrow>
       if c = 1 then
         check (pc + 2 < sizecode pt)
           (check (GET_OPCODE (code ! (pc + 1)) \<noteq> opnum OP_SETLIST \<or> GETARG_C (code ! (pc + 1)) \<noteq> 0)
             (Some (pc, lst)))
       else Some (pc, lst)
   | OP_LOADNIL \<Rightarrow> Some (pc, if a \<le> reg \<and> reg \<le> b then pc else lst)
   | OP_GETUPVAL \<Rightarrow> check (b < uint (nups pt)) (Some (pc, lst))
   | OP_SETUPVAL \<Rightarrow> check (b < uint (nups pt)) (Some (pc, lst))
   | OP_GETGLOBAL \<Rightarrow> check (ttisstring (f_k pt ! nat b)) (Some (pc, lst))
   | OP_SETGLOBAL \<Rightarrow> check (ttisstring (f_k pt ! nat b)) (Some (pc, lst))
   | OP_SELF \<Rightarrow> check (checkreg pt (a + 1)) (Some (pc, if reg = a + 1 then pc else lst))
   | OP_CONCAT \<Rightarrow> check (b < c) (Some (pc, lst))
   | OP_TFORLOOP \<Rightarrow>
       check (c \<ge> 1) (check (checkreg pt (a + 2 + c)) (Some (pc, if reg \<ge> a + 2 then pc else lst)))
   | OP_FORLOOP \<Rightarrow> check (checkreg pt (a + 3)) (symb_jump lastpc reg pc lst b)
   | OP_FORPREP \<Rightarrow> check (checkreg pt (a + 3)) (symb_jump lastpc reg pc lst b)
   | OP_JMP \<Rightarrow> symb_jump lastpc reg pc lst b
   | OP_CALL \<Rightarrow> symb_call pt reg pc lst a b c
   | OP_TAILCALL \<Rightarrow> symb_call pt reg pc lst a b c
   | OP_RETURN \<Rightarrow> check (b - 1 > 0 \<longrightarrow> checkreg pt (a + (b - 1) - 1)) (Some (pc, lst))
   | OP_SETLIST \<Rightarrow>
       check (b > 0 \<longrightarrow> checkreg pt (a + b))
         (if c = 0 then check (int (pc + 1) < int (sizecode pt) - 1) (Some (pc + 1, lst))
          else Some (pc, lst))
   | OP_CLOSURE \<Rightarrow>
       check (b < int (length (f_p pt)))
         (let nup = unat (nups (f_p pt ! nat b)) in
          check (pc + nup < sizecode pt)
            (check (\<forall>j \<in> set [1..<nup + 1]. GET_OPCODE (code ! (pc + j)) \<in> {opnum OP_GETUPVAL, opnum OP_MOVE})
              (Some (if reg \<noteq> NO_REG then pc + nup else pc, lst))))
   | OP_VARARG \<Rightarrow>
       check (is_vararg pt AND VARARG_ISVARARG \<noteq> 0 \<and> is_vararg pt AND VARARG_NEEDSARG = 0)
         (check (b - 1 = LUA_MULTRET \<longrightarrow> luaG_checkopenop (code ! (pc + 1)))
           (check (checkreg pt (a + (b - 1) - 1)) (Some (pc, lst))))
   | _ \<Rightarrow> Some (pc, lst))"

text \<open>The body of the loop.\<close>

definition symb_step :: "Proto \<Rightarrow> nat \<Rightarrow> int \<Rightarrow> nat \<Rightarrow> nat \<Rightarrow> (nat \<times> nat) option" where
  "symb_step pt lastpc reg pc lst =
    (let i = f_code pt ! pc; op = GET_OPCODE i; a = GETARG_A i in
     check (op < NUM_OPCODES) (check (checkreg pt a)
       (case symb_operands pt pc i op of
          None \<Rightarrow> None
        | Some (b, c) \<Rightarrow>
            (let lst = (if testAMode op \<and> a = reg then pc else lst) in
             check (testTMode op \<longrightarrow> pc + 2 < sizecode pt
                 \<and> GET_OPCODE (f_code pt ! (pc + 1)) = opnum OP_JMP)
               (symb_special pt lastpc reg pc lst (all_opcodes ! op) a b c)))))"

lemma check_eq_Some [simp]: "check x m = Some y \<longleftrightarrow> x \<and> m = Some y"
  by (simp add: check_def)

lemma symb_jump_eq:
  "symb_jump lastpc reg pc lst b = Some (pc', lst') \<Longrightarrow> pc \<le> pc' \<and> lst' = lst"
  by (auto simp: symb_jump_def Let_def split: if_splits)

lemma symb_call_eq:
  "symb_call pt reg pc lst a b c = Some (pc', lst') \<Longrightarrow> pc' = pc \<and> (lst' = lst \<or> lst' = pc)"
  by (auto simp: symb_call_def split: if_splits)

lemma symb_special_result:
  assumes "symb_special pt lastpc reg pc lst op a b c = Some (pc', lst')"
  shows "pc \<le> pc' \<and> (lst' = lst \<or> (lst' = pc \<and> op \<noteq> OP_MOVE))"
  using assms symb_jump_eq [of lastpc reg pc lst b pc' lst']
    symb_call_eq [of pt reg pc lst a b c pc' lst']
  by (cases op) (auto simp: symb_special_def Let_def split: if_splits)

lemma symb_step_result:
  assumes "symb_step pt lastpc reg pc lst = Some (pc', lst')"
  shows "pc \<le> pc'" "lst' = lst \<or> (lst' = pc \<and>
    (GET_OPCODE (f_code pt ! pc) = opnum OP_MOVE \<longrightarrow>
       GETARG_A (f_code pt ! pc) = reg \<and> checkreg pt reg))"
proof -
  from assms obtain b c where a: "checkreg pt (GETARG_A (f_code pt ! pc))"
    and s: "symb_special pt lastpc reg pc
      (if testAMode (GET_OPCODE (f_code pt ! pc)) \<and> GETARG_A (f_code pt ! pc) = reg then pc else lst)
      (all_opcodes ! GET_OPCODE (f_code pt ! pc)) (GETARG_A (f_code pt ! pc)) b c = Some (pc', lst')"
    by (auto simp: symb_step_def Let_def split: option.splits)
  note r = symb_special_result [OF s]
  from r show "pc \<le> pc'" by simp
  show "lst' = lst \<or> (lst' = pc \<and>
    (GET_OPCODE (f_code pt ! pc) = opnum OP_MOVE \<longrightarrow>
       GETARG_A (f_code pt ! pc) = reg \<and> checkreg pt reg))"
    using r a opnum_nth [of OP_MOVE] by (auto split: if_splits)
qed

function symb_loop :: "Proto \<Rightarrow> nat \<Rightarrow> int \<Rightarrow> nat \<Rightarrow> nat \<Rightarrow> nat option" where
  "symb_loop pt lastpc reg pc lst =
    (if pc < lastpc then
       (case symb_step pt lastpc reg pc lst of
          None \<Rightarrow> None
        | Some (pc', lst') \<Rightarrow> symb_loop pt lastpc reg (pc' + 1) lst')
     else Some lst)"
  by pat_completeness auto
termination
  by (relation "measure (\<lambda>(pt, lastpc, reg, pc, lst). lastpc - pc)")
    (auto dest: symb_step_result)

declare symb_loop.simps [simp del]

text \<open>The result 0 stands for a failed check.\<close>

definition symbexec :: "Proto \<Rightarrow> nat \<Rightarrow> int \<Rightarrow> Instruction" where
  "symbexec pt lastpc reg =
    (if \<not> precheck pt then 0
     else case symb_loop pt lastpc reg 0 (sizecode pt - 1) of
       None \<Rightarrow> 0
     | Some lst \<Rightarrow> f_code pt ! lst)"

definition luaG_checkcode :: "Proto \<Rightarrow> bool" where
  "luaG_checkcode pt \<longleftrightarrow> symbexec pt (sizecode pt) NO_REG \<noteq> 0"

section \<open>Names for error messages\<close>

text \<open>A name is the string of a constant or variable, or the literal \<open>"?"\<close>.\<close>

datatype name = StringName "ptr option" | QuestionMark

definition kname :: "Proto \<Rightarrow> int \<Rightarrow> name" where
  "kname p c = (if ISK c \<and> ttisstring (f_k p ! nat (INDEXK c))
     then (case f_k p ! nat (INDEXK c) of LString s \<Rightarrow> StringName (Some s) | _ \<Rightarrow> QuestionMark)
     else QuestionMark)"

text \<open>The result \<^term>\<open>None\<close> is \<open>NULL\<close>.\<close>

fun getlocalname_loop :: "LocVar list \<Rightarrow> int \<Rightarrow> int \<Rightarrow> name option" where
  "getlocalname_loop [] local_number pc = None"
| "getlocalname_loop (v # vs) local_number pc =
     (if startpc v \<le> pc then
        (if pc < endpc v then
           (if local_number - 1 = 0 then Some (StringName (varname v))
            else getlocalname_loop vs (local_number - 1) pc)
         else getlocalname_loop vs local_number pc)
      else None)"

definition luaF_getlocalname :: "Proto \<Rightarrow> int \<Rightarrow> int \<Rightarrow> name option" where
  "luaF_getlocalname f local_number pc = getlocalname_loop (locvars f) local_number pc"

lemma opnum_return_not_move: "opnum OP_RETURN \<noteq> opnum OP_MOVE"
  by simp

lemma symb_loop_last:
  assumes "symb_loop pt lastpc reg pc lst = Some l"
  shows "l = lst \<or> (GET_OPCODE (f_code pt ! l) = opnum OP_MOVE \<longrightarrow>
    GETARG_A (f_code pt ! l) = reg \<and> checkreg pt reg)"
  using assms
proof (induction pt lastpc reg pc lst rule: symb_loop.induct)
  case (1 pt lastpc reg pc lst)
  show ?case
  proof (cases "pc < lastpc")
    case True
    with "1.prems" obtain pc' lst' where s: "symb_step pt lastpc reg pc lst = Some (pc', lst')"
      "symb_loop pt lastpc reg (pc' + 1) lst' = Some l"
      by (subst (asm) symb_loop.simps) (auto split: option.splits)
    from "1.IH" [OF True s(1) refl s(2)] symb_step_result(2) [OF s(1)] show ?thesis by metis
  next
    case False
    with "1.prems" show ?thesis by (subst (asm) symb_loop.simps) simp
  qed
qed

text \<open>A \<open>MOVE\<close> that the symbolic execution finds moves into the register asked for.\<close>

lemma symbexec_move:
  assumes "GET_OPCODE (symbexec pt lastpc reg) = opnum OP_MOVE"
    "GETARG_B (symbexec pt lastpc reg) < GETARG_A (symbexec pt lastpc reg)"
  shows "GETARG_A (symbexec pt lastpc reg) = reg"
proof -
  have z: "GETARG_B 0 = 0" "GETARG_A 0 = 0" by (simp_all add: op_fields bitfield_def)
  with assms(2) have p: "precheck pt" by (auto simp: symbexec_def split: if_splits)
  show ?thesis
  proof (cases "symb_loop pt lastpc reg 0 (sizecode pt - 1)")
    case None
    with assms(2) p z show ?thesis by (simp add: symbexec_def)
  next
    case (Some l)
    from p have "GET_OPCODE (f_code pt ! (sizecode pt - 1)) = opnum OP_RETURN" by (simp add: precheck_def)
    with symb_loop_last [OF Some] assms(1) p Some opnum_return_not_move show ?thesis
      by (auto simp: symbexec_def simp del: opnum.simps)
  qed
qed

text \<open>
  The case of a Lua function at the instruction \<open>pc\<close>; for another function the result is
  \<open>NULL\<close>. The kind is the string that the C function returns.
\<close>

function getobjname :: "Proto \<Rightarrow> nat \<Rightarrow> int \<Rightarrow> (string \<times> name) option" where
  "getobjname p pc stackpos =
    (case luaF_getlocalname p (stackpos + 1) (int pc) of
       Some nm \<Rightarrow> Some (''local'', nm)
     | None \<Rightarrow>
        (let i = symbexec p pc stackpos; op = GET_OPCODE i in
         if op = opnum OP_GETGLOBAL then
           (case f_k p ! nat (GETARG_Bx i) of
              LString s \<Rightarrow> Some (''global'', StringName (Some s))
            | _ \<Rightarrow> Some (''global'', QuestionMark))
         else if op = opnum OP_MOVE then
           (if GETARG_B i < GETARG_A i then getobjname p pc (GETARG_B i) else None)
         else if op = opnum OP_GETTABLE then Some (''field'', kname p (GETARG_C i))
         else if op = opnum OP_GETUPVAL then
           Some (''upvalue'', if upvalues p \<noteq> [] then StringName (upvalues p ! nat (GETARG_B i)) else QuestionMark)
         else if op = opnum OP_SELF then Some (''method'', kname p (GETARG_C i))
         else None))"
  by pat_completeness auto
termination
proof (relation "measure (\<lambda>(p, pc, stackpos). nat stackpos)", goal_cases)
  case (2 p pc stackpos i op)
  then have "GETARG_A i = stackpos" using symbexec_move [of p pc stackpos] by simp
  with 2 op_get_bounds(4) [of i] show ?case by simp
qed simp

declare getobjname.simps [simp del]

section \<open>The instructions of a function\<close>

text \<open>
  The code array holds instructions and counts: the word after a \<open>SETLIST\<close> with operand
  \<open>C = 0\<close> is a count. \<open>instr_start\<close> holds of the positions of instructions.
\<close>

inductive instr_start :: "Proto \<Rightarrow> nat \<Rightarrow> bool" for pt where
  first: "instr_start pt 0"
| plain: "instr_start pt pc \<Longrightarrow> pc < sizecode pt \<Longrightarrow> \<not> setlist_open (f_code pt ! pc) \<Longrightarrow>
    instr_start pt (pc + 1)"
| setlist: "instr_start pt pc \<Longrightarrow> pc < sizecode pt \<Longrightarrow> setlist_open (f_code pt ! pc) \<Longrightarrow>
    instr_start pt (pc + 2)"

inductive_cases instr_start_SucE: "instr_start pt (Suc pc)"

lemma start_or_count:
  assumes "pc \<le> sizecode pt"
  shows "instr_start pt pc \<or> (\<exists>q. pc = Suc q \<and> instr_start pt q \<and> setlist_open (f_code pt ! q))"
  using assms
proof (induction pc)
  case 0
  show ?case using instr_start.first by blast
next
  case (Suc pc)
  then have pc: "pc < sizecode pt" by simp
  from Suc consider "instr_start pt pc" | q where "pc = Suc q" "instr_start pt q" "setlist_open (f_code pt ! q)"
    by auto
  then show ?case
  proof cases
    case 1
    with instr_start.plain [OF 1 pc] show ?thesis by auto
  next
    case 2
    with instr_start.setlist [OF 2(2) _ 2(3)] pc show ?thesis by simp
  qed
qed

lemma count_not_start:
  assumes "instr_start pt d" "setlist_open (f_code pt ! d)"
  shows "\<not> instr_start pt (Suc d)"
  using assms
proof (induction d rule: less_induct)
  case (less d)
  show ?case
  proof
    assume "instr_start pt (Suc d)"
    then show False
      by (rule instr_start_SucE) (use less in auto)
  qed
qed

text \<open>
  The parity argument of the comment in \<open>symbexec\<close>: a destination that an even number of
  words like an open \<open>SETLIST\<close> precede is an instruction.
\<close>

lemma even_run_start:
  assumes "dest \<le> sizecode pt"
  shows "instr_start pt dest \<longleftrightarrow>
    (even (setlist_run (f_code pt) dest))"
  using assms
proof (induction "setlist_run (f_code pt) dest" arbitrary: dest rule: less_induct)
  case less
  show ?case
  proof (cases dest)
    case 0
    then show ?thesis by (simp add: instr_start.first)
  next
    case d: (Suc d)
    then have lt: "d < sizecode pt" using less.prems by simp
    show ?thesis
    proof (cases "setlist_open (f_code pt ! d)")
      case False
      have "instr_start pt dest"
        using start_or_count [of d pt] lt instr_start.plain [OF _ lt False] instr_start.setlist d False
        by fastforce
      with False d show ?thesis by simp
    next
      case True
      have r: "setlist_run (f_code pt) dest = Suc (setlist_run (f_code pt) d)" using True d by simp
      have IH: "instr_start pt d \<longleftrightarrow> even (setlist_run (f_code pt) d)"
        using less.hyps [of d] r lt by simp
      have "instr_start pt dest \<longleftrightarrow> \<not> instr_start pt d"
      proof
        assume s: "instr_start pt dest"
        show "\<not> instr_start pt d"
        proof
          assume sd: "instr_start pt d"
          from count_not_start [OF this True] have "\<not> instr_start pt (Suc d)" .
          then show False using s d by simp
        qed
      next
        assume "\<not> instr_start pt d"
        with start_or_count [of d pt] lt obtain q where "d = Suc q" "instr_start pt q"
          "setlist_open (f_code pt ! q)" by auto
        with instr_start.setlist [of pt q] lt d show "instr_start pt dest" by simp
      qed
      with IH r show ?thesis by simp
    qed
  qed
qed

section \<open>What the checker guarantees\<close>

lemma opcode_cases:
  assumes "n < NUM_OPCODES"
  obtains oc where "n = opnum oc"
proof -
  have "\<forall>n < 38. n = opnum (all_opcodes ! n)" by (simp add: all_opcodes_def numeral_eq_Suc All_less_Suc)
  with assms that show thesis by (auto simp: NUM_OPCODES_def)
qed

text \<open>The operand modes of the opcodes.\<close>

definition modes :: "OpCode \<Rightarrow> OpMode \<times> OpArgMask \<times> OpArgMask \<times> bool" where
  "modes oc = (getOpMode (opnum oc), getBMode (opnum oc), getCMode (opnum oc), testTMode (opnum oc))"

lemma modes_eq:
  "modes OP_MOVE = (iABC, OpArgR, OpArgN, False)" "modes OP_LOADK = (iABx, OpArgK, OpArgN, False)"
  "modes OP_LOADBOOL = (iABC, OpArgU, OpArgU, False)" "modes OP_LOADNIL = (iABC, OpArgR, OpArgN, False)"
  "modes OP_GETUPVAL = (iABC, OpArgU, OpArgN, False)" "modes OP_GETGLOBAL = (iABx, OpArgK, OpArgN, False)"
  "modes OP_GETTABLE = (iABC, OpArgR, OpArgK, False)" "modes OP_SETGLOBAL = (iABx, OpArgK, OpArgN, False)"
  "modes OP_SETUPVAL = (iABC, OpArgU, OpArgN, False)" "modes OP_SETTABLE = (iABC, OpArgK, OpArgK, False)"
  "modes OP_NEWTABLE = (iABC, OpArgU, OpArgU, False)" "modes OP_SELF = (iABC, OpArgR, OpArgK, False)"
  "modes OP_ADD = (iABC, OpArgK, OpArgK, False)" "modes OP_SUB = (iABC, OpArgK, OpArgK, False)"
  "modes OP_MUL = (iABC, OpArgK, OpArgK, False)" "modes OP_DIV = (iABC, OpArgK, OpArgK, False)"
  "modes OP_MOD = (iABC, OpArgK, OpArgK, False)" "modes OP_POW = (iABC, OpArgK, OpArgK, False)"
  "modes OP_UNM = (iABC, OpArgR, OpArgN, False)" "modes OP_NOT = (iABC, OpArgR, OpArgN, False)"
  "modes OP_LEN = (iABC, OpArgR, OpArgN, False)" "modes OP_CONCAT = (iABC, OpArgR, OpArgR, False)"
  "modes OP_JMP = (iAsBx, OpArgR, OpArgN, False)" "modes OP_EQ = (iABC, OpArgK, OpArgK, True)"
  "modes OP_LT = (iABC, OpArgK, OpArgK, True)" "modes OP_LE = (iABC, OpArgK, OpArgK, True)"
  "modes OP_TEST = (iABC, OpArgR, OpArgU, True)" "modes OP_TESTSET = (iABC, OpArgR, OpArgU, True)"
  "modes OP_CALL = (iABC, OpArgU, OpArgU, False)" "modes OP_TAILCALL = (iABC, OpArgU, OpArgU, False)"
  "modes OP_RETURN = (iABC, OpArgU, OpArgN, False)" "modes OP_FORLOOP = (iAsBx, OpArgR, OpArgN, False)"
  "modes OP_FORPREP = (iAsBx, OpArgR, OpArgN, False)" "modes OP_TFORLOOP = (iABC, OpArgN, OpArgU, True)"
  "modes OP_SETLIST = (iABC, OpArgU, OpArgU, False)" "modes OP_CLOSE = (iABC, OpArgN, OpArgN, False)"
  "modes OP_CLOSURE = (iABx, OpArgU, OpArgN, False)" "modes OP_VARARG = (iABC, OpArgU, OpArgN, False)"
  by (simp_all add: modes_def getOpMode_def getBMode_def getCMode_def testTMode_def luaP_opmodes_def
      opmode_def)

text \<open>
  What the interpreter relies on when it executes the instruction at \<open>pc\<close>: registers below
  the size of the frame, constants, upvalues and inner functions that exist, destinations inside
  the code, a jump after every test, a consumer after every open call.
\<close>

definition reg_ok :: "Proto \<Rightarrow> int \<Rightarrow> bool" where
  "reg_ok pt r \<longleftrightarrow> r < uint (maxstacksize pt)"

definition rk_ok :: "Proto \<Rightarrow> int \<Rightarrow> bool" where
  "rk_ok pt r \<longleftrightarrow> (if ISK r then INDEXK r < int (sizek pt) else reg_ok pt r)"

definition jump_ok :: "Proto \<Rightarrow> nat \<Rightarrow> Instruction \<Rightarrow> bool" where
  "jump_ok pt pc i \<longleftrightarrow> (let dest = int pc + 1 + GETARG_sBx i in
     0 \<le> dest \<and> dest < int (sizecode pt) \<and> instr_start pt (nat dest))"

definition test_ok :: "Proto \<Rightarrow> nat \<Rightarrow> bool" where
  "test_ok pt pc \<longleftrightarrow> pc + 2 < sizecode pt \<and> GET_OPCODE (f_code pt ! (pc + 1)) = opnum OP_JMP"

definition open_ok :: "Proto \<Rightarrow> nat \<Rightarrow> bool" where
  "open_ok pt pc \<longleftrightarrow> luaG_checkopenop (f_code pt ! (pc + 1))"

fun operands_ok :: "Proto \<Rightarrow> nat \<Rightarrow> Instruction \<Rightarrow> OpCode \<Rightarrow> bool" where
  "operands_ok pt pc i OP_LOADK = (GETARG_Bx i < int (sizek pt))"
| "operands_ok pt pc i OP_LOADBOOL = (GETARG_C i = 1 \<longrightarrow> pc + 2 < sizecode pt \<and> \<not> setlist_open (f_code pt ! (pc + 1)))"
| "operands_ok pt pc i OP_GETUPVAL = (GETARG_B i < uint (nups pt))"
| "operands_ok pt pc i OP_SETUPVAL = (GETARG_B i < uint (nups pt))"
| "operands_ok pt pc i OP_GETGLOBAL = (GETARG_Bx i < int (sizek pt) \<and> ttisstring (f_k pt ! nat (GETARG_Bx i)))"
| "operands_ok pt pc i OP_SETGLOBAL = (GETARG_Bx i < int (sizek pt) \<and> ttisstring (f_k pt ! nat (GETARG_Bx i)))"
| "operands_ok pt pc i OP_GETTABLE = (reg_ok pt (GETARG_B i) \<and> rk_ok pt (GETARG_C i))"
| "operands_ok pt pc i OP_NEWTABLE = True"
| "operands_ok pt pc i OP_SELF = (reg_ok pt (GETARG_B i) \<and> rk_ok pt (GETARG_C i) \<and> reg_ok pt (GETARG_A i + 1))"
| "operands_ok pt pc i OP_CONCAT = (GETARG_B i < GETARG_C i \<and> reg_ok pt (GETARG_C i))"
| "operands_ok pt pc i OP_JMP = jump_ok pt pc i"
| "operands_ok pt pc i OP_EQ = (rk_ok pt (GETARG_B i) \<and> rk_ok pt (GETARG_C i) \<and> test_ok pt pc)"
| "operands_ok pt pc i OP_LT = (rk_ok pt (GETARG_B i) \<and> rk_ok pt (GETARG_C i) \<and> test_ok pt pc)"
| "operands_ok pt pc i OP_LE = (rk_ok pt (GETARG_B i) \<and> rk_ok pt (GETARG_C i) \<and> test_ok pt pc)"
| "operands_ok pt pc i OP_TEST = test_ok pt pc"
| "operands_ok pt pc i OP_TESTSET = (reg_ok pt (GETARG_B i) \<and> test_ok pt pc)"
| "operands_ok pt pc i OP_CALL =
     ((GETARG_B i \<noteq> 0 \<longrightarrow> reg_ok pt (GETARG_A i + GETARG_B i - 1))
      \<and> (GETARG_C i = 0 \<longrightarrow> open_ok pt pc) \<and> (GETARG_C i > 1 \<longrightarrow> reg_ok pt (GETARG_A i + GETARG_C i - 2)))"
| "operands_ok pt pc i OP_TAILCALL =
     ((GETARG_B i \<noteq> 0 \<longrightarrow> reg_ok pt (GETARG_A i + GETARG_B i - 1))
      \<and> (GETARG_C i = 0 \<longrightarrow> open_ok pt pc) \<and> (GETARG_C i > 1 \<longrightarrow> reg_ok pt (GETARG_A i + GETARG_C i - 2)))"
| "operands_ok pt pc i OP_RETURN = (GETARG_B i > 1 \<longrightarrow> reg_ok pt (GETARG_A i + GETARG_B i - 2))"
| "operands_ok pt pc i OP_FORLOOP = (reg_ok pt (GETARG_A i + 3) \<and> jump_ok pt pc i)"
| "operands_ok pt pc i OP_FORPREP = (reg_ok pt (GETARG_A i + 3) \<and> jump_ok pt pc i)"
| "operands_ok pt pc i OP_TFORLOOP =
     (1 \<le> GETARG_C i \<and> reg_ok pt (GETARG_A i + 2 + GETARG_C i) \<and> test_ok pt pc)"
| "operands_ok pt pc i OP_SETLIST =
     ((GETARG_B i > 0 \<longrightarrow> reg_ok pt (GETARG_A i + GETARG_B i)) \<and> (GETARG_C i = 0 \<longrightarrow> pc + 2 < sizecode pt))"
| "operands_ok pt pc i OP_CLOSE = True"
| "operands_ok pt pc i OP_CLOSURE =
     (GETARG_Bx i < int (length (f_p pt))
      \<and> (let nup = unat (nups (f_p pt ! nat (GETARG_Bx i))) in pc + nup < sizecode pt
         \<and> (\<forall>j. 1 \<le> j \<and> j \<le> nup \<longrightarrow>
              GET_OPCODE (f_code pt ! (pc + j)) \<in> {opnum OP_GETUPVAL, opnum OP_MOVE})))"
| "operands_ok pt pc i OP_VARARG =
     (is_vararg pt AND VARARG_ISVARARG \<noteq> 0 \<and> (GETARG_B i = 0 \<longrightarrow> open_ok pt pc)
      \<and> (GETARG_B i > 1 \<longrightarrow> reg_ok pt (GETARG_A i + GETARG_B i - 2)))"
| "operands_ok pt pc i OP_MOVE = reg_ok pt (GETARG_B i)"
| "operands_ok pt pc i OP_LOADNIL = reg_ok pt (GETARG_B i)"
| "operands_ok pt pc i OP_UNM = reg_ok pt (GETARG_B i)"
| "operands_ok pt pc i OP_NOT = reg_ok pt (GETARG_B i)"
| "operands_ok pt pc i OP_LEN = reg_ok pt (GETARG_B i)"
| "operands_ok pt pc i _ = (rk_ok pt (GETARG_B i) \<and> rk_ok pt (GETARG_C i))"

definition instr_ok :: "Proto \<Rightarrow> nat \<Rightarrow> bool" where
  "instr_ok pt pc \<longleftrightarrow> (let i = f_code pt ! pc in
     \<exists>oc. GET_OPCODE i = opnum oc \<and> reg_ok pt (GETARG_A i) \<and> operands_ok pt pc i oc)"

lemma symb_step_parts:
  assumes "symb_step pt lastpc reg pc lst = Some r"
  obtains oc b c lst' where "GET_OPCODE (f_code pt ! pc) = opnum oc" "checkreg pt (GETARG_A (f_code pt ! pc))"
    "symb_operands pt pc (f_code pt ! pc) (opnum oc) = Some (b, c)"
    "testTMode (opnum oc) \<longrightarrow> test_ok pt pc"
    "symb_special pt lastpc reg pc lst' oc (GETARG_A (f_code pt ! pc)) b c = Some r"
proof -
  let ?i = "f_code pt ! pc"
  have op: "GET_OPCODE ?i < NUM_OPCODES" using assms by (simp add: symb_step_def Let_def)
  then obtain oc where oc: "GET_OPCODE ?i = opnum oc" by (rule opcode_cases)
  from assms show thesis
    using that [OF oc] by (auto simp: symb_step_def Let_def oc opnum_nth test_ok_def split: option.splits)
qed

lemma symb_jump_ok:
  assumes "symb_operands pt pc i op = Some (b, c)" "getOpMode op = iAsBx" "getBMode op = OpArgR"
  shows "b = GETARG_sBx i" "jump_ok pt pc i"
proof -
  show b: "b = GETARG_sBx i" using assms by (simp add: symb_operands_def Let_def)
  let ?d = "int pc + 1 + GETARG_sBx i"
  have d: "0 \<le> ?d" "?d < int (sizecode pt)" "?d > 0 \<longrightarrow> even (setlist_run (f_code pt) (nat ?d))"
    using assms by (auto simp: symb_operands_def Let_def)
  have "instr_start pt (nat ?d)"
  proof (cases "?d = 0")
    case True
    then show ?thesis using instr_start.first by simp
  next
    case False
    with d even_run_start [of "nat ?d" pt] show ?thesis by simp
  qed
  with d show "jump_ok pt pc i" by (simp add: jump_ok_def Let_def)
qed

lemma rk_checkArgMode: "checkArgMode pt r OpArgK \<longleftrightarrow> rk_ok pt r"
  "checkArgMode pt r OpArgR \<longleftrightarrow> reg_ok pt r" "checkArgMode pt r OpArgU" "checkArgMode pt r OpArgN \<longleftrightarrow> r = 0"
  by (simp_all add: checkArgMode_def rk_ok_def reg_ok_def checkreg_def)

lemma modesD:
  assumes "modes oc = (m, b, c, t)"
  shows "getOpMode (opnum oc) = m" "getBMode (opnum oc) = b" "getCMode (opnum oc) = c"
    "testTMode (opnum oc) = t"
  using assms by (simp_all add: modes_def)

lemmas mode_simps = modes_eq [THEN modesD(1)] modes_eq [THEN modesD(2)] modes_eq [THEN modesD(3)]
  modes_eq [THEN modesD(4)]

text \<open>A step that does not fail has checked the instruction.\<close>

lemma symb_step_ok:
  assumes "symb_step pt lastpc reg pc lst = Some r"
  shows "instr_ok pt pc"
proof -
  define i where "i = f_code pt ! pc"
  from symb_step_parts [OF assms] obtain oc b c lst' where p: "GET_OPCODE i = opnum oc"
    "checkreg pt (GETARG_A i)" "symb_operands pt pc i (opnum oc) = Some (b, c)"
    "testTMode (opnum oc) \<longrightarrow> test_ok pt pc"
    "symb_special pt lastpc reg pc lst' oc (GETARG_A i) b c = Some r"
    unfolding i_def by blast
  note bounds = op_get_bounds(2,4,6,8) [of i]
  have "operands_ok pt pc i oc"
  proof (cases "getOpMode (opnum oc)")
    case iAsBx
    then have oc: "oc \<in> {OP_JMP, OP_FORLOOP, OP_FORPREP}" by (cases oc) (simp_all add: mode_simps del: opnum.simps)
    then have "getBMode (opnum oc) = OpArgR" by (auto simp: mode_simps simp del: opnum.simps)
    from symb_jump_ok [OF p(3) iAsBx this] oc p(5) show ?thesis
      by (auto simp: symb_special_def reg_ok_def checkreg_def)
  next
    case iABx
    then show ?thesis using p(3-5) bounds
      by (cases oc) (auto simp: mode_simps symb_operands_def symb_special_def Let_def
          simp del: opnum.simps)
  next
    case iABC
    then have bc: "b = GETARG_B i" "c = GETARG_C i" "checkArgMode pt b (getBMode (opnum oc))"
      "checkArgMode pt c (getCMode (opnum oc))"
      using p(3) by (auto simp: symb_operands_def Let_def)
    show ?thesis
      using iABC bc p(4,5) bounds
      by (cases oc) (simp_all add: mode_simps symb_special_def symb_call_def rk_checkArgMode
          reg_ok_def checkreg_def open_ok_def LUA_MULTRET_def setlist_open_def Let_def
          algebra_simps del: opnum.simps split: if_splits)
  qed
  then show ?thesis using p(1,2) unfolding instr_ok_def i_def [symmetric] Let_def
    by (auto simp: checkreg_def reg_ok_def)
qed

text \<open>The checker does not follow jumps, so it visits every instruction.\<close>

lemma symb_step_next:
  assumes "symb_step pt lastpc NO_REG pc lst = Some (pc', lst')"
  shows "pc' = (if setlist_open (f_code pt ! pc) then pc + 1 else pc)"
proof -
  obtain oc b c lst'' where p: "GET_OPCODE (f_code pt ! pc) = opnum oc"
    "symb_operands pt pc (f_code pt ! pc) (opnum oc) = Some (b, c)"
    "symb_special pt lastpc NO_REG pc lst'' oc (GETARG_A (f_code pt ! pc)) b c = Some (pc', lst')"
    by (rule symb_step_parts [OF assms]) (rule that)
  show ?thesis
  proof (cases "oc = OP_SETLIST")
    case True
    with p show ?thesis
      by (auto simp: symb_operands_def mode_simps symb_special_def setlist_open_def Let_def
          simp del: opnum.simps split: if_splits)
  next
    case False
    then have "\<not> setlist_open (f_code pt ! pc)" using p(1) by (auto simp: setlist_open_def simp del: opnum.simps)
    moreover have "pc' = pc"
      using p(3) False symb_call_eq [of pt NO_REG pc lst'' _ b c pc' lst']
      by (cases oc) (auto simp: symb_special_def symb_jump_def Let_def split: if_splits)
    ultimately show ?thesis by simp
  qed
qed

lemma symb_loop_visits:
  assumes "symb_loop pt (sizecode pt) NO_REG pc lst = Some l" "instr_start pt pc"
    "pc \<le> q" "q < sizecode pt" "instr_start pt q"
  shows "instr_ok pt q"
  using assms
proof (induction pt "sizecode pt" NO_REG pc lst rule: symb_loop.induct)
  case (1 pt pc lst)
  then have pc: "pc < sizecode pt" by linarith
  with "1.prems"(1) obtain pc' lst' where s: "symb_step pt (sizecode pt) NO_REG pc lst = Some (pc', lst')"
    "symb_loop pt (sizecode pt) NO_REG (pc' + 1) lst' = Some l"
    by (subst (asm) symb_loop.simps) (auto split: option.splits)
  show ?case
  proof (cases "q = pc")
    case True
    with symb_step_ok [OF s(1)] show ?thesis by simp
  next
    case False
    note n = symb_step_next [OF s(1)]
    have "q \<noteq> Suc pc" if "setlist_open (f_code pt ! pc)"
      using count_not_start [OF "1.prems"(2) that] "1.prems"(5) by blast
    with False n "1.prems"(3) have "pc' + 1 \<le> q" by auto
    moreover have "instr_start pt (pc' + 1)"
      using n instr_start.plain [OF "1.prems"(2) pc] instr_start.setlist [OF "1.prems"(2) pc] by auto
    ultimately show ?thesis using "1.hyps" [OF pc s(1) refl s(2)] "1.prems"(4,5) by blast
  qed
qed

text \<open>The checker succeeds when no check fails: the word that it returns then is never 0.\<close>

lemma checkcode_iff:
  "luaG_checkcode pt \<longleftrightarrow> precheck pt \<and> symb_loop pt (sizecode pt) NO_REG 0 (sizecode pt - 1) \<noteq> None"
proof (cases "precheck pt")
  case True
  show ?thesis
  proof (cases "symb_loop pt (sizecode pt) NO_REG 0 (sizecode pt - 1)")
    case (Some l)
    have "\<not> checkreg pt NO_REG"
      using True by (simp add: precheck_def checkreg_def MAXSTACK_def NO_REG_def op_limits op_layout)
    with symb_loop_last [OF Some] True have "GET_OPCODE (f_code pt ! l) \<noteq> opnum OP_MOVE"
      by (auto simp: precheck_def)
    moreover have "GET_OPCODE 0 = opnum OP_MOVE" by (simp add: op_fields bitfield_def)
    ultimately have "f_code pt ! l \<noteq> 0" by metis
    with True Some show ?thesis by (simp add: luaG_checkcode_def symbexec_def)
  qed (use True in \<open>simp add: luaG_checkcode_def symbexec_def\<close>)
qed (simp add: luaG_checkcode_def symbexec_def)

lemma checkcode_instr_ok:
  assumes "luaG_checkcode pt" "instr_start pt pc" "pc < sizecode pt"
  shows "instr_ok pt pc"
  using assms symb_loop_visits [OF _ instr_start.first] unfolding checkcode_iff by blast

section \<open>Properties\<close>

text \<open>
  C6: in a function that \<open>luaG_checkcode\<close> accepts, every instruction is well-formed: its
  registers lie in the frame, its constants, upvalues and inner functions exist, a test is
  followed by a jump, an open call by a consumer, and a jump leads to the start of an
  instruction inside the code, never to the count of a \<open>SETLIST\<close>.
\<close>

theorem checkcode_sound:
  assumes "luaG_checkcode pt" "instr_start pt pc" "pc < length (f_code pt)"
  shows "instr_ok pt pc"
  using assms by (rule checkcode_instr_ok)

text \<open>A function: \<open>LOADK 0 0; JMP 1; MOVE 1 0; RETURN 0 2\<close>.\<close>

definition sample_code :: "Instruction list" where
  "sample_code = [CREATE_ABx (opnum OP_LOADK) 0 0, SETARG_sBx (CREATE_ABx (opnum OP_JMP) 0 0) 1,
     CREATE_ABC (opnum OP_MOVE) 1 0 0, CREATE_ABC (opnum OP_RETURN) 0 2 0]"

definition sample_proto :: "Instruction list \<Rightarrow> Proto" where
  "sample_proto code = Proto [LBoolean True] code [] [] [] [] None 0 0 0 0 0 2"

theorem checkcode_sound_witness: "instr_ok (sample_proto sample_code) 1"
proof -
  have "luaG_checkcode (sample_proto sample_code)" by code_simp
  moreover have "instr_start (sample_proto sample_code) (0 + 1)"
    by (rule instr_start.plain [OF instr_start.first]) code_simp+
  moreover have "1 < length (f_code (sample_proto sample_code))" by code_simp
  ultimately show ?thesis using checkcode_sound by simp
qed

definition overrun_code :: "Instruction list" where
  "overrun_code = [CREATE_ABC (opnum OP_LOADBOOL) 0 0 2, CREATE_ABC (opnum OP_RETURN) 0 1 0]"

text \<open>
  An example that the checker lets through: it misses a skip. \<open>OP_LOADBOOL\<close> skips the next instruction when its operand C is
  not zero (\<open>lvm.c\<close>), but the checker looks at the skip only when C is 1: it accepts the two
  instructions \<open>LOADBOOL 0 0 2; RETURN 0 1\<close>, whose execution runs past the end of the code.
\<close>

lemma checkcode_misses_skip:
  "luaG_checkcode (sample_proto overrun_code)
   \<and> GET_OPCODE (overrun_code ! 0) = opnum OP_LOADBOOL \<and> GETARG_C (overrun_code ! 0) \<noteq> 0
   \<and> \<not> 0 + 2 < length overrun_code"
proof (intro conjI)
  show "luaG_checkcode (sample_proto overrun_code)" by code_simp
qed (code_simp+)
end
