(* ===== verification/Actions.thy ===== *)
theory Actions
  imports Prelude
begin

text \<open>
  Actions: the C functions that change a state and may raise an error are functions from a
  state to an error or a result and the new state. The loader and the lexer are written with
  them.
\<close>

type_synonym ('s, 'e, 'a) action = "'s \<Rightarrow> 'e + 'a \<times> 's"

definition lret :: "'a \<Rightarrow> ('s, 'e, 'a) action" where
  "lret x = (\<lambda>s. Inr (x, s))"

definition lbind :: "('s, 'e, 'a) action \<Rightarrow> ('a \<Rightarrow> ('s, 'e, 'b) action) \<Rightarrow> ('s, 'e, 'b) action" where
  "lbind m f = (\<lambda>s. case m s of Inl e \<Rightarrow> Inl e | Inr (x, s') \<Rightarrow> f x s')"

definition lseq :: "('s, 'e, 'a) action \<Rightarrow> ('s, 'e, 'b) action \<Rightarrow> ('s, 'e, 'b) action" where
  "lseq m k = lbind m (\<lambda>_. k)"

definition lif :: "('s \<Rightarrow> bool) \<Rightarrow> ('s, 'e, 'a) action \<Rightarrow> ('s, 'e, 'a) action \<Rightarrow> ('s, 'e, 'a) action" where
  "lif c a b = (\<lambda>s. if c s then a s else b s)"

definition lmodify :: "('s \<Rightarrow> 's) \<Rightarrow> ('s, 'e, unit) action" where
  "lmodify f = (\<lambda>s. Inr ((), f s))"

lemma lbind_Inr [simp]:
  "lbind m f s = Inr (y, t) \<longleftrightarrow> (\<exists>x s1. m s = Inr (x, s1) \<and> f x s1 = Inr (y, t))"
  by (auto simp: lbind_def split: sum.splits)

lemma lret_Inr [simp]: "lret x s = Inr (y, t) \<longleftrightarrow> y = x \<and> t = s"
  by (auto simp: lret_def)

lemma lseq_Inr [simp]:
  "lseq m k s = Inr (y, t) \<longleftrightarrow> (\<exists>x s1. m s = Inr (x, s1) \<and> k s1 = Inr (y, t))"
  by (simp add: lseq_def)

lemma lmodify_Inr [simp]: "lmodify f s = Inr (u, t) \<longleftrightarrow> t = f s"
  by (auto simp: lmodify_def)

text \<open>A \<open>while\<close> loop with fuel; \<open>d\<close> is the error of a loop that does not end.\<close>

fun while_act :: "'e \<Rightarrow> nat \<Rightarrow> ('s \<Rightarrow> bool) \<Rightarrow> ('s, 'e, unit) action \<Rightarrow> ('s, 'e, unit) action" where
  "while_act d 0 c b = (\<lambda>s. Inl d)"
| "while_act d (Suc n) c b = lif c (lseq b (while_act d n c b)) (lret ())"

section \<open>Actions that return\<close>

text \<open>
  \<open>runs m t Q\<close>: the action \<open>m\<close> returns in the state \<open>t\<close>, and its result and the new state
  satisfy \<open>Q\<close>.
\<close>

definition runs :: "('s, 'e, 'a) action \<Rightarrow> 's \<Rightarrow> ('a \<Rightarrow> 's \<Rightarrow> bool) \<Rightarrow> bool" where
  "runs m t Q \<longleftrightarrow> (\<exists>x t'. m t = Inr (x, t') \<and> Q x t')"

lemma runs_lret [simp]: "runs (lret x) t Q \<longleftrightarrow> Q x t"
  by (simp add: runs_def lret_def)

lemma runs_lbind [simp]: "runs (lbind m f) t Q \<longleftrightarrow> runs m t (\<lambda>x s. runs (f x) s Q)"
  by (auto simp: runs_def)

lemma runs_lseq [simp]: "runs (lseq m f) t Q \<longleftrightarrow> runs m t (\<lambda>x s. runs f s Q)"
  by (simp add: lseq_def)

lemma runs_mono: "runs m t Q \<Longrightarrow> (\<And>x s. Q x s \<Longrightarrow> R x s) \<Longrightarrow> runs m t R"
  unfolding runs_def by blast

lemma runs_pure: "m t = Inr (x, t) \<Longrightarrow> runs m t Q \<longleftrightarrow> Q x t"
  by (simp add: runs_def)

end
