(* ===== verification/Zio.thy ===== *)
theory Zio
  imports Prelude
begin

text \<open>
  Buffered input (\<open>lzio.c\<close>, \<open>lzio.h\<close>). A stream asks its reader for one block after the other;
  the reader is the list of the blocks that its calls return, an empty block standing for
  \<open>NULL\<close> or size 0, the end. The lexer reads a stream byte by byte, the loader of
  precompiled chunks in blocks; both see the same sequence of bytes. The locale
  \<open>byte_source\<close> is the interface that the loader relies on.
\<close>

unbundle bit_operations_syntax

section \<open>Streams\<close>

text \<open>\<open>zp\<close> holds the bytes from the current position to the end of the block.\<close>

record ZIO =
  zn :: u64
  zp :: "byte list"
  zdata :: "byte list list"

definition EOZ :: int where "EOZ = -1"

definition luaZ_init :: "byte list list \<Rightarrow> ZIO" where
  "luaZ_init reader = \<lparr>zn = 0, zp = [], zdata = reader\<rparr>"

definition luaZ_fill :: "ZIO \<Rightarrow> int \<times> ZIO" where
  "luaZ_fill z = (case zdata z of
     [] \<Rightarrow> (EOZ, z)
   | buff # rest \<Rightarrow>
       if buff = [] then (EOZ, z\<lparr>zdata := rest\<rparr>)
       else (uint (hd buff), z\<lparr>zn := word_of_nat (length buff) - 1, zp := tl buff, zdata := rest\<rparr>))"

definition luaZ_lookahead :: "ZIO \<Rightarrow> int \<times> ZIO" where
  "luaZ_lookahead z =
    (if zn z = 0 then
       (let (c, z) = luaZ_fill z in
        if c = EOZ then (EOZ, z) else (c, z\<lparr>zn := zn z + 1, zp := word_of_int c # zp z\<rparr>))
     else (uint (hd (zp z)), z))"

text \<open>\<open>((z)->n--)>0\<close> decrements also when the test fails; the counter then wraps around.\<close>

definition zgetc :: "ZIO \<Rightarrow> int \<times> ZIO" where
  "zgetc z = (let n = zn z; z = z\<lparr>zn := n - 1\<rparr> in
     if n > 0 then (uint (hd (zp z)), z\<lparr>zp := tl (zp z)\<rparr>) else luaZ_fill z)"

text \<open>
  The loop of \<open>luaZ_read\<close>: the number of missing bytes, the bytes read and the stream. Each
  round reads at least one byte, so \<open>n\<close> rounds are enough.
\<close>

fun luaZ_read_loop :: "nat \<Rightarrow> ZIO \<Rightarrow> nat \<Rightarrow> byte list \<Rightarrow> (nat \<times> byte list \<times> ZIO) option" where
  "luaZ_read_loop fuel z 0 b = Some (0, b, z)"
| "luaZ_read_loop 0 z (Suc n) b = None"
| "luaZ_read_loop (Suc fuel) z (Suc n) b =
     (let (c, z) = luaZ_lookahead z in
      if c = EOZ then Some (Suc n, b, z)
      else let m = (if Suc n \<le> unat (zn z) then Suc n else unat (zn z)) in
        luaZ_read_loop fuel (z\<lparr>zn := zn z - word_of_nat m, zp := drop m (zp z)\<rparr>)
          (Suc n - m) (b @ take m (zp z)))"

definition luaZ_read :: "ZIO \<Rightarrow> nat \<Rightarrow> (nat \<times> byte list \<times> ZIO) option" where
  "luaZ_read z n = luaZ_read_loop n z n []"

section \<open>Buffers\<close>

record Mbuffer =
  buffer :: "byte list"
  bn :: nat
  buffsize :: nat

definition LUA_MINBUFFER :: nat where "LUA_MINBUFFER = 32"

text \<open>The bytes that a reallocation does not keep or initialise are modelled as 0.\<close>

definition luaZ_resizebuffer :: "Mbuffer \<Rightarrow> nat \<Rightarrow> Mbuffer" where
  "luaZ_resizebuffer buff sz =
    buff\<lparr>buffer := take sz (buffer buff) @ replicate (sz - length (buffer buff)) 0, buffsize := sz\<rparr>"

definition luaZ_resetbuffer :: "Mbuffer \<Rightarrow> Mbuffer" where
  "luaZ_resetbuffer buff = buff\<lparr>bn := 0\<rparr>"

definition luaZ_openspace :: "Mbuffer \<Rightarrow> nat \<Rightarrow> Mbuffer" where
  "luaZ_openspace buff n =
    (if n > buffsize buff then luaZ_resizebuffer buff (if n < LUA_MINBUFFER then LUA_MINBUFFER else n)
     else buff)"

section \<open>The bytes of a stream\<close>

definition zio_ok :: "ZIO \<Rightarrow> bool" where
  "zio_ok z \<longleftrightarrow> unat (zn z) = length (zp z) \<and> (\<forall>b \<in> set (zdata z). length b < 2 ^ 64)"

text \<open>What is still to be read: the rest of the block and the blocks up to the end.\<close>

definition pending :: "ZIO \<Rightarrow> byte list" where
  "pending z = zp z @ concat (takeWhile (\<lambda>b. b \<noteq> []) (zdata z))"

lemma luaZ_init_ok:
  assumes "\<forall>b \<in> set bs. length b < 2 ^ 64"
  shows "zio_ok (luaZ_init bs)" "pending (luaZ_init bs) = concat (takeWhile (\<lambda>b. b \<noteq> []) bs)"
  using assms by (simp_all add: zio_ok_def luaZ_init_def pending_def)

lemma len64: "length b < 2 ^ 64 \<Longrightarrow> unat (word_of_nat (length b) :: u64) = length b"
  by (simp add: unat_of_nat_eq)

lemma uint_not_EOZ: "uint (c :: byte) \<noteq> EOZ"
  using uint_ge_0 [of c] unfolding EOZ_def by linarith

lemma luaZ_lookahead_ok:
  assumes "zio_ok z"
  shows "(pending z = [] \<and> fst (luaZ_lookahead z) = EOZ \<and> zio_ok (snd (luaZ_lookahead z)))
    \<or> (\<exists>c cs. pending z = c # cs \<and> fst (luaZ_lookahead z) = uint c
        \<and> zio_ok (snd (luaZ_lookahead z)) \<and> pending (snd (luaZ_lookahead z)) = c # cs
        \<and> zp (snd (luaZ_lookahead z)) \<noteq> [])"
proof (cases "zn z = 0")
  case False
  then obtain c cs where z: "zp z = c # cs" using assms by (cases "zp z") (auto simp: zio_ok_def unat_eq_0)
  with False assms show ?thesis by (simp add: luaZ_lookahead_def pending_def)
next
  case True
  then have e: "zp z = []" using assms by (simp add: zio_ok_def)
  show ?thesis
  proof (cases "zdata z")
    case Nil
    with True e assms show ?thesis by (simp add: luaZ_lookahead_def luaZ_fill_def pending_def)
  next
    case (Cons b bs)
    show ?thesis
    proof (cases b)
      case Nil
      with True e assms Cons show ?thesis
        by (simp add: luaZ_lookahead_def luaZ_fill_def pending_def zio_ok_def)
    next
      case (Cons c cs)
      have l: "length b < 2 ^ 64" using assms \<open>zdata z = b # bs\<close> by (simp add: zio_ok_def)
      have ne: "uint c \<noteq> EOZ" by (rule uint_not_EOZ)
      with True e assms Cons \<open>zdata z = b # bs\<close> len64 [OF l] show ?thesis
        by (simp add: luaZ_lookahead_def luaZ_fill_def pending_def zio_ok_def add.commute)
    qed
  qed
qed

lemma luaZ_read_loop_ok:
  assumes "zio_ok z" "n \<le> fuel"
  shows "\<exists>z'. luaZ_read_loop fuel z n b = Some (n - length (pending z), b @ take n (pending z), z')
    \<and> zio_ok z' \<and> (n \<le> length (pending z) \<longrightarrow> pending z' = drop n (pending z))"
  using assms
proof (induction fuel z n b rule: luaZ_read_loop.induct)
  case (1 fuel z b)
  then show ?case by simp
next
  case (2 z n b)
  then show ?case by simp
next
  case (3 fuel z n b)
  obtain c z1 where l: "luaZ_lookahead z = (c, z1)" by fastforce
  note la = luaZ_lookahead_ok [OF "3.prems"(1), unfolded l, simplified]
  show ?case
  proof (cases "pending z")
    case Nil
    with la l show ?thesis by (auto simp: EOZ_def)
  next
    case (Cons d ds)
    with la have z1: "c = uint d" "zio_ok z1" "pending z1 = pending z" "zp z1 \<noteq> []" by auto
    have c: "c \<noteq> EOZ" using z1(1) uint_not_EOZ by simp
    define m where "m = (if Suc n \<le> unat (zn z1) then Suc n else unat (zn z1))"
    have zn: "unat (zn z1) = length (zp z1)" using z1(2) by (simp add: zio_ok_def)
    have m: "0 < m" "m \<le> Suc n" "m \<le> length (zp z1)" using z1(4) zn by (auto simp: m_def)
    define z2 where "z2 = z1\<lparr>zn := zn z1 - word_of_nat m, zp := drop m (zp z1)\<rparr>"
    have "word_of_nat m \<le> zn z1" using m(3) zn by (simp add: word_le_nat_alt unat_of_nat take_bit_nat_eq_self_iff le_less_trans)
    then have "unat (zn z1 - word_of_nat m) = length (zp z1) - m"
      using m(3) zn unsigned_less [of "zn z1", where ?'a = nat]
      by (simp add: unat_sub unat_of_nat)
    then have z2ok: "zio_ok z2" using z1(2) by (simp add: z2_def zio_ok_def)
    have "pending z2 = drop m (pending z1)" using m(3) by (simp add: z2_def pending_def)
    then have z2: "zio_ok z2" "pending z2 = drop m (pending z)" using z2ok z1(3) by simp_all
    have le: "m \<le> length (pending z)" unfolding z1(3) [symmetric] using m(3) by (simp add: pending_def)
    have "Suc n - m \<le> fuel" using "3.prems"(2) m(1) by simp
    note IH = "3.IH" [OF l [symmetric] refl c m_def, folded z2_def, OF z2(1) this]
    have t: "take m (zp z1) = take m (pending z)"
      unfolding z1(3) [symmetric] using m(3) by (simp add: pending_def)
    have e: "luaZ_read_loop (Suc fuel) z (Suc n) b
        = luaZ_read_loop fuel z2 (Suc n - m) (b @ take m (zp z1))"
      using l c by (simp add: m_def z2_def Let_def)
    have "take m (pending z) @ take (Suc n - m) (drop m (pending z)) = take (Suc n) (pending z)"
      using m(2) by (metis le_add_diff_inverse take_add)
    moreover have "Suc n - m - length (drop m (pending z)) = Suc n - length (pending z)"
      using m(2) le by simp
    moreover have "drop (Suc n - m) (drop m (pending z)) = drop (Suc n) (pending z)"
      using m(2) by simp
    moreover have "Suc n - m \<le> length (drop m (pending z)) \<longleftrightarrow> Suc n \<le> length (pending z)"
      using le m(2) by auto
    ultimately show ?thesis using IH unfolding e z2(2) t append_assoc by metis
  qed
qed

section \<open>The interface of a byte source\<close>

text \<open>
  \<open>rd s n\<close> reads up to \<open>n\<close> bytes: the number of bytes missing, the bytes, the new source.
\<close>

locale byte_source =
  fixes inv :: "'s \<Rightarrow> bool"
    and rest :: "'s \<Rightarrow> byte list"
    and rd :: "'s \<Rightarrow> nat \<Rightarrow> (nat \<times> byte list \<times> 's) option"
  assumes rd_law: "inv s \<Longrightarrow> \<exists>s'. rd s n = Some (n - length (rest s), take n (rest s), s')
    \<and> inv s' \<and> (n \<le> length (rest s) \<longrightarrow> rest s' = drop n (rest s))"
begin

lemma rd_exact:
  assumes "inv s" "rest s = xs @ ys"
  shows "\<exists>s'. rd s (length xs) = Some (0, xs, s') \<and> inv s' \<and> rest s' = ys"
  using rd_law [OF assms(1), of "length xs"] assms(2) by simp

lemma rd_short:
  assumes "inv s" "length (rest s) < n"
  shows "\<exists>s' r. rd s n = Some (r, rest s, s') \<and> 0 < r"
  using rd_law [OF assms(1), of n] assms(2) by auto

text \<open>Two reads see what one read of both lengths sees.\<close>

lemma rd_split:
  assumes "inv s" "m + n \<le> length (rest s)" "rd s m = Some (0, xs, s1)" "rd s1 n = Some (0, ys, s2)"
  shows "\<exists>s'. rd s (m + n) = Some (0, xs @ ys, s') \<and> rest s' = rest s2"
proof -
  from rd_law [OF assms(1), of m] assms(2,3) have 1: "inv s1" "xs = take m (rest s)" "rest s1 = drop m (rest s)"
    by auto
  from rd_law [OF 1(1), of n] assms(2,4) 1(3) have 2: "ys = take n (drop m (rest s))" "rest s2 = drop n (drop m (rest s))"
    by auto
  from rd_law [OF assms(1), of "m + n"] assms(2) 1 2 show ?thesis
    by (auto simp: take_add add.commute)
qed

end

interpretation zio: byte_source zio_ok pending luaZ_read
proof
  fix s :: ZIO and n
  assume "zio_ok s"
  from luaZ_read_loop_ok [OF this order_refl, of n "[]"]
  show "\<exists>s'. luaZ_read s n = Some (n - length (pending s), take n (pending s), s') \<and> zio_ok s'
      \<and> (n \<le> length (pending s) \<longrightarrow> pending s' = drop n (pending s))"
    by (simp add: luaZ_read_def)
qed

section \<open>Reading byte by byte\<close>

lemma zgetc_ok:
  assumes "zio_ok z"
  shows "(pending z = [] \<and> fst (zgetc z) = EOZ)
    \<or> (\<exists>c cs. pending z = c # cs \<and> fst (zgetc z) = uint c \<and> zio_ok (snd (zgetc z)) \<and> pending (snd (zgetc z)) = cs)"
proof (cases "zn z = 0")
  case False
  then obtain c cs where z: "zp z = c # cs" using assms by (cases "zp z") (auto simp: zio_ok_def unat_eq_0)
  have "unat (zn z - 1) = length cs"
    using assms z False by (simp add: zio_ok_def unat_minus_one)
  with False assms z show ?thesis
    by (simp add: zgetc_def pending_def zio_ok_def Let_def word_neq_0_conv)
next
  case True
  then have e: "zp z = []" using assms by (simp add: zio_ok_def)
  show ?thesis
  proof (cases "zdata z")
    case Nil
    with True e show ?thesis by (simp add: zgetc_def luaZ_fill_def pending_def)
  next
    case (Cons b bs)
    show ?thesis
    proof (cases b)
      case Nil
      with True e Cons show ?thesis by (simp add: zgetc_def luaZ_fill_def pending_def)
    next
      case (Cons c cs)
      have "length b < 2 ^ 64" using assms \<open>zdata z = b # bs\<close> by (simp add: zio_ok_def)
      then have "length cs < 2 ^ 64" using Cons by simp
      from len64 [OF this] True e assms Cons \<open>zdata z = b # bs\<close> show ?thesis
        by (simp add: zgetc_def luaZ_fill_def pending_def zio_ok_def)
    qed
  qed
qed

end
