(* ===== verification/Bytes.thy ===== *)
theory Bytes
  imports Prelude
begin

text \<open>
  The little-endian representation of integers in memory, as the loader and the dumper of
  precompiled chunks copy it: a number as its bytes, a \<open>char\<close>, an \<open>int\<close>, and vectors.
\<close>

section \<open>Unsigned numbers\<close>

definition byte_of :: "nat \<Rightarrow> byte" where "byte_of n = word_of_nat n"

fun to_le :: "nat \<Rightarrow> nat \<Rightarrow> byte list" where
  "to_le 0 v = []"
| "to_le (Suc n) v = byte_of (v mod 256) # to_le n (v div 256)"

fun of_le :: "byte list \<Rightarrow> nat" where
  "of_le [] = 0"
| "of_le (b # bs) = unat b + 256 * of_le bs"

lemma length_to_le [simp]: "length (to_le n v) = n"
  by (induction n arbitrary: v) simp_all

lemma unat_byte_of: "unat (byte_of v) = v mod 256"
  by (simp add: byte_of_def unat_of_nat)

lemma of_le_to_le [codec_simps]: "of_le (to_le n v) = v mod 256 ^ n"
proof (induction n arbitrary: v)
  case (Suc n)
  have "v mod 256 + 256 * (v div 256 mod 256 ^ n) = v mod (256 * 256 ^ n)"
    by (rule mod_mult2_eq [symmetric, where m = v and n = 256, unfolded add.commute [of "256 * _"]])
  with Suc show ?case by (simp add: unat_byte_of)
qed simp

lemma of_le_less: "of_le bs < 256 ^ length bs"
proof (induction bs)
  case (Cons b bs)
  have "unat b < 256" using unsigned_less [of b, where ?'a = nat] by simp
  with Cons show ?case by simp
qed simp

lemma to_le_of_le: "length bs = n \<Longrightarrow> to_le n (of_le bs) = bs"
proof (induction bs arbitrary: n)
  case (Cons b bs)
  have b: "unat b < 256" using unsigned_less [of b, where ?'a = nat] by simp
  then have "(unat b + 256 * of_le bs) mod 256 = unat b" "(unat b + 256 * of_le bs) div 256 = of_le bs"
    by simp_all
  with Cons show ?case by (auto simp: byte_of_def)
qed simp

section \<open>Signed numbers\<close>

definition int_to_le :: "int \<Rightarrow> byte list" where
  "int_to_le x = to_le 4 (nat (x mod 2 ^ 32))"

definition int_of_le :: "byte list \<Rightarrow> int" where
  "int_of_le bs = (let v = int (of_le bs) in if v < 2 ^ 31 then v else v - 2 ^ 32)"

lemma length_int_to_le [simp]: "length (int_to_le x) = 4"
  by (simp add: int_to_le_def)

definition is_int :: "int \<Rightarrow> bool" where
  "is_int x \<longleftrightarrow> INT_MIN \<le> x \<and> x \<le> INT_MAX"

lemma int_of_le_to_le [codec_simps]:
  assumes "is_int x"
  shows "int_of_le (int_to_le x) = x"
proof -
  have "int (of_le (int_to_le x)) = x mod 2 ^ 32"
    by (simp add: int_to_le_def codec_simps)
  moreover have "x mod 2 ^ 32 = (if 0 \<le> x then x else x + 2 ^ 32)"
  proof (cases "0 \<le> x")
    case True
    with assms show ?thesis by (simp add: is_int_def INT_MAX_def)
  next
    case False
    then have "x mod 2 ^ 32 = (x + 2 ^ 32) mod 2 ^ 32" by simp
    also have "\<dots> = x + 2 ^ 32" using assms False by (intro mod_pos_pos_trivial) (simp_all add: is_int_def INT_MIN_def)
    finally show ?thesis using False by simp
  qed
  ultimately show ?thesis
    using assms by (simp add: int_of_le_def is_int_def INT_MAX_def INT_MIN_def Let_def)
qed

section \<open>Vectors\<close>

text \<open>\<open>k\<close> elements of \<open>n\<close> bytes each.\<close>

fun chunks :: "nat \<Rightarrow> nat \<Rightarrow> byte list \<Rightarrow> byte list list" where
  "chunks n 0 bs = []"
| "chunks n (Suc k) bs = take n bs # chunks n k (drop n bs)"

lemma chunks_concat [codec_simps]:
  "\<forall>b \<in> set bss. length b = n \<Longrightarrow> k = length bss \<Longrightarrow> chunks n k (concat bss) = bss"
  by (induction bss arbitrary: k) simp_all

lemma length_chunks [simp]: "length (chunks n k bs) = k"
  by (induction k arbitrary: bs) simp_all

lemma length_concat_const:
  "\<forall>b \<in> set bss. length b = n \<Longrightarrow> length (concat bss) = length bss * n"
  by (induction bss) simp_all

end
