(* ===== verification/Undump.thy ===== *)
theory Undump
  imports Actions Zio Bytes Strings Verifier
begin

text \<open>
  Loading precompiled chunks (\<open>lundump.c\<close>). Every function of the loader is an action on the
  state \<open>LoadState\<close>: it returns an error or a result and the new state. The theory shows that
  what the loader returns has been checked, that the result is a function of the bytes alone
  and not of the blocks in which the reader delivers them, and that a truncated chunk is
  rejected.
\<close>

section \<open>Actions\<close>

text \<open>
  \<open>LSyntax\<close> is an error of the loader with its message, \<open>LTooBig\<close> the error of \<open>luaM_toobig\<close>;
  \<open>LDiverge\<close> would be a read that does not return.
\<close>

datatype lerror = LSyntax string | LTooBig | LDiverge

record LoadState =
  lz :: ZIO
  lb :: Mbuffer
  lstrt :: stringtable
  lname :: string

type_synonym 'a load = "(LoadState, lerror, 'a) action"

definition load_error :: "LoadState \<Rightarrow> string \<Rightarrow> lerror" where
  "load_error S why = LSyntax (lname S @ '': '' @ why @ '' in precompiled chunk'')"

definition IF :: "bool \<Rightarrow> string \<Rightarrow> unit load" where
  "IF c s = (\<lambda>S. if c then Inl (load_error S s) else Inr ((), S))"

text \<open>The loops of the loader: an action for each of \<open>n\<close> elements.\<close>

fun load_n :: "nat \<Rightarrow> 'a load \<Rightarrow> 'a list load" where
  "load_n 0 m = lret []"
| "load_n (Suc n) m = lbind m (\<lambda>x. lbind (load_n n m) (\<lambda>xs. lret (x # xs)))"

section \<open>Data\<close>

definition LoadBlock :: "nat \<Rightarrow> byte list load" where
  "LoadBlock sz = (\<lambda>S. case luaZ_read (lz S) sz of
     None \<Rightarrow> Inl LDiverge
   | Some (r, b, z) \<Rightarrow> lbind (IF (r \<noteq> 0) ''unexpected end'') (\<lambda>_. lret b) (S\<lparr>lz := z\<rparr>))"

text \<open>\<open>char\<close> is signed.\<close>

definition LoadChar :: "int load" where
  "LoadChar = lbind (LoadBlock 1) (\<lambda>b. lret (sint (hd b)))"

definition LoadByte :: "u8 load" where
  "LoadByte = lbind LoadChar (\<lambda>x. lret (word_of_int x))"

definition LoadInt :: "int load" where
  "LoadInt = lbind (LoadBlock 4) (\<lambda>b. let x = int_of_le b in
     lbind (IF (x < 0) ''bad integer'') (\<lambda>_. lret x))"

definition LoadNumber :: "lua_Number load" where
  "LoadNumber = lbind (LoadBlock 8) (\<lambda>b. lret (word_of_nat (of_le b)))"

text \<open>A vector of \<open>n\<close> elements of \<open>size\<close> bytes.\<close>

definition LoadVector :: "int \<Rightarrow> nat \<Rightarrow> byte list list load" where
  "LoadVector n sz = lbind (LoadBlock (nat n * sz)) (\<lambda>b. lret (chunks sz (nat n) b))"

section \<open>Strings\<close>

text \<open>
  \<open>luaZ_openspace\<close> on the state's buffer; \<open>luaM_reallocvector\<close> refuses sizes whose successor,
  a \<open>size_t\<close>, is above \<open>MAX_SIZET\<close>.
\<close>

definition openspace :: "nat \<Rightarrow> unit load" where
  "openspace n = (\<lambda>S.
     if n > buffsize (lb S) \<and> unat (word_of_nat (max n LUA_MINBUFFER) + 1 :: u64) > MAX_SIZET then Inl LTooBig
     else Inr ((), S\<lparr>lb := luaZ_openspace (lb S) n\<rparr>))"

text \<open>The bytes are read into the buffer.\<close>

definition load_buffer :: "nat \<Rightarrow> byte list load" where
  "load_buffer n = lbind (LoadBlock n) (\<lambda>b S.
     Inr (b, S\<lparr>lb := (lb S)\<lparr>buffer := b @ drop n (buffer (lb S))\<rparr>\<rparr>))"

definition load_newlstr :: "(str_heap \<Rightarrow> ptr) \<Rightarrow> byte list \<Rightarrow> ptr load" where
  "load_newlstr alloc str = (\<lambda>S. case luaS_newlstr alloc (lstrt S) str of
     None \<Rightarrow> Inl LTooBig
   | Some (p, g) \<Rightarrow> Inr (p, S\<lparr>lstrt := g\<rparr>))"

definition LoadString :: "(str_heap \<Rightarrow> ptr) \<Rightarrow> ptr option load" where
  "LoadString alloc = lbind (LoadBlock 8) (\<lambda>b. let sz = of_le b in
     if sz = 0 then lret None
     else lbind (openspace sz) (\<lambda>_. lbind (load_buffer sz) (\<lambda>s.
       lbind (load_newlstr alloc (take (sz - 1) s)) (\<lambda>p. lret (Some p)))))"

section \<open>Functions\<close>

definition LoadCode :: "Instruction list load" where
  "LoadCode = lbind LoadInt (\<lambda>n. lbind (LoadVector n 4) (\<lambda>v. lret (map (\<lambda>b. word_of_nat (of_le b)) v)))"

text \<open>One round of the loop over the constants. A string constant of size 0 becomes a null string.\<close>

definition load_constant :: "(str_heap \<Rightarrow> ptr) \<Rightarrow> TValue load" where
  "load_constant alloc = lbind LoadChar (\<lambda>t.
     if t = 0 then lret LNil
     else if t = 1 then lbind LoadChar (\<lambda>b. lret (LBoolean (b \<noteq> 0)))
     else if t = 3 then lbind LoadNumber (\<lambda>n. lret (LNumber n))
     else if t = 4 then lbind (LoadString alloc) (\<lambda>s. lret (LString (case s of Some p \<Rightarrow> p | None \<Rightarrow> 0)))
     else lbind (IF True ''bad constant'') (\<lambda>_. lret LNil))"

definition LoadConstants ::
    "(str_heap \<Rightarrow> ptr) \<Rightarrow> Proto load \<Rightarrow> (TValue list \<times> Proto list) load" where
  "LoadConstants alloc loadfun =
     lbind LoadInt (\<lambda>n. lbind (load_n (nat n) (load_constant alloc)) (\<lambda>k.
     lbind LoadInt (\<lambda>n. lbind (load_n (nat n) loadfun) (\<lambda>p. lret (k, p)))))"

definition load_locvar :: "(str_heap \<Rightarrow> ptr) \<Rightarrow> LocVar load" where
  "load_locvar alloc = lbind (LoadString alloc) (\<lambda>s. lbind LoadInt (\<lambda>a. lbind LoadInt (\<lambda>b.
     lret \<lparr>varname = s, startpc = a, endpc = b\<rparr>)))"

definition LoadDebug ::
    "(str_heap \<Rightarrow> ptr) \<Rightarrow> (int list \<times> LocVar list \<times> ptr option list) load" where
  "LoadDebug alloc =
     lbind LoadInt (\<lambda>n. lbind (LoadVector n 4) (\<lambda>v.
     lbind LoadInt (\<lambda>n. lbind (load_n (nat n) (load_locvar alloc)) (\<lambda>ls.
     lbind LoadInt (\<lambda>n. lbind (load_n (nat n) (LoadString alloc)) (\<lambda>us.
       lret (map int_of_le v, ls, us)))))))"

definition LUAI_MAXCCALLS :: nat where "LUAI_MAXCCALLS = 200"

text \<open>
  The first argument is \<open>LUAI_MAXCCALLS - nCcalls\<close>, the C calls that are left: the increment
  of \<open>nCcalls\<close> exceeds the limit when it is 0, and the decrement at the end gives the call back.
\<close>

fun LoadFunction :: "nat \<Rightarrow> (str_heap \<Rightarrow> ptr) \<Rightarrow> ptr option \<Rightarrow> Proto load" where
  "LoadFunction 0 alloc p = lbind (IF True ''code too deep'') (\<lambda>_. undefined)"
| "LoadFunction (Suc left) alloc p =
     lbind (LoadString alloc) (\<lambda>s. let src = (if s = None then p else s) in
     lbind LoadInt (\<lambda>line. lbind LoadInt (\<lambda>lastline.
     lbind LoadByte (\<lambda>nu. lbind LoadByte (\<lambda>np. lbind LoadByte (\<lambda>va. lbind LoadByte (\<lambda>ms.
     lbind LoadCode (\<lambda>code.
     lbind (LoadConstants alloc (LoadFunction left alloc src)) (\<lambda>(k, ps).
     lbind (LoadDebug alloc) (\<lambda>(li, lv, uv).
       let f = Proto k code ps li lv uv src line lastline nu np va ms in
       lbind (IF (\<not> luaG_checkcode f) ''bad code'') (\<lambda>_. lret f)))))))))))"

section \<open>Chunks\<close>

text \<open>\<open>LUA_SIGNATURE\<close> is \<open>"\033Lua"\<close>; the bytes after the version describe the platform.\<close>

definition luaU_header :: "byte list" where
  "luaU_header = [27, 76, 117, 97] @ [0x51, 0, 1, 4, 8, 4, 8, 0]"

definition LUAC_HEADERSIZE :: nat where "LUAC_HEADERSIZE = 12"

definition LoadHeader :: "unit load" where
  "LoadHeader = lbind (LoadBlock LUAC_HEADERSIZE) (\<lambda>s. IF (luaU_header \<noteq> s) ''bad header'')"

definition chunk_name :: "string \<Rightarrow> string" where
  "chunk_name nm =
    (if deref nm = CHR ''@'' \<or> deref nm = CHR ''='' then tl nm
     else if deref nm = CHR 0x1B then ''binary string'' else nm)"

text \<open>\<open>luaS_newliteral(L,"=?")\<close> is evaluated after the header has been read.\<close>

definition luaU_undump ::
    "nat \<Rightarrow> (str_heap \<Rightarrow> ptr) \<Rightarrow> ZIO \<Rightarrow> Mbuffer \<Rightarrow> stringtable \<Rightarrow> string \<Rightarrow> lerror + Proto \<times> LoadState" where
  "luaU_undump nCcalls alloc Z buff g nm =
    lbind LoadHeader (\<lambda>_. lbind (load_newlstr alloc [61, 63]) (\<lambda>p.
      LoadFunction (LUAI_MAXCCALLS - nCcalls) alloc (Some p)))
    \<lparr>lz = Z, lb = buff, lstrt = g, lname = chunk_name nm\<rparr>"

section \<open>Reasoning about actions\<close>

lemma IF_Inr [simp]: "IF c s S = Inr (u, T) \<longleftrightarrow> \<not> c \<and> T = S"
  by (auto simp: IF_def)

lemma load_n_Inr:
  "load_n n m S = Inr (xs, T) \<Longrightarrow> \<forall>x \<in> set xs. \<exists>S T. m S = Inr (x, T)"
proof (induction n arbitrary: S xs)
  case (Suc n)
  from Suc.prems obtain y ys S1 where y: "m S = Inr (y, S1)" "load_n n m S1 = Inr (ys, T)" "xs = y # ys"
    by auto
  from Suc.IH [OF y(2)] y(1,3) show ?case by auto
qed simp

section \<open>Loaded functions are checked\<close>

lemma size_f_p [termination_simp]: "q \<in> set (f_p f) \<Longrightarrow> size q < size f"
  by (cases f) (auto dest: size_list_estimation' [of q _ "size q" size] simp: less_Suc_eq_le trans_le_add1 trans_le_add2)

text \<open>A property of a function and of all the functions inside it.\<close>

fun all_protos :: "(Proto \<Rightarrow> bool) \<Rightarrow> Proto \<Rightarrow> bool" where
  "all_protos P f \<longleftrightarrow> P f \<and> (\<forall>q \<in> set (f_p f). all_protos P q)"

declare all_protos.simps [simp del]

lemma LoadFunction_SucD:
  assumes "LoadFunction (Suc left) alloc p S = Inr (f, T)"
  shows "\<exists>src r S1 S2. LoadConstants alloc (LoadFunction left alloc src) S1 = Inr (r, S2)
    \<and> snd r = f_p f \<and> luaG_checkcode f"
  using assms
  apply (simp only: LoadFunction.simps lbind_Inr Let_def split_def IF_Inr lret_Inr not_not prod.collapse)
  apply (elim exE conjE)
  apply (intro exI conjI)
    apply assumption
   apply (simp only: Proto.sel)
  apply (simp only:)
  done

lemma LoadFunction_checked:
  "LoadFunction left alloc p S = Inr (f, T) \<Longrightarrow> all_protos luaG_checkcode f"
proof (induction left arbitrary: p S f T)
  case (Suc left)
  from LoadFunction_SucD [OF Suc.prems] obtain src r S1 S2 where
    c: "LoadConstants alloc (LoadFunction left alloc src) S1 = Inr (r, S2)"
    and f: "snd r = f_p f" "luaG_checkcode f" by blast
  from c f(1) obtain n S3 where "load_n n (LoadFunction left alloc src) S3 = Inr (f_p f, S2)"
    by (auto simp: LoadConstants_def)
  from load_n_Inr [OF this] Suc.IH f show ?case by (auto simp: all_protos.simps [of _ f])
qed simp

section \<open>Loading depends on the bytes only\<close>

text \<open>
  An action that succeeds reads some bytes; with any stream that begins with the same bytes it
  has the same result, and with a stream that ends inside them it fails.
\<close>

definition streaming :: "'a load \<Rightarrow> bool" where
  "streaming m \<longleftrightarrow> (\<forall>S x T. zio_ok (lz S) \<longrightarrow> m S = Inr (x, T) \<longrightarrow>
     zio_ok (lz T) \<and> lname T = lname S \<and> (\<exists>cs. pending (lz S) = cs @ pending (lz T)
       \<and> (\<forall>z ds. zio_ok z \<longrightarrow> pending z = cs @ ds \<longrightarrow>
            (\<exists>z'. m (S\<lparr>lz := z\<rparr>) = Inr (x, T\<lparr>lz := z'\<rparr>) \<and> zio_ok z' \<and> pending z' = ds))
       \<and> (\<forall>z es. zio_ok z \<longrightarrow> cs = pending z @ es \<longrightarrow> es \<noteq> [] \<longrightarrow>
            m (S\<lparr>lz := z\<rparr>) = Inl (load_error S ''unexpected end''))))"

lemma streamingE:
  assumes "streaming m" "zio_ok (lz S)" "m S = Inr (x, T)"
  obtains cs where "zio_ok (lz T)" "lname T = lname S" "pending (lz S) = cs @ pending (lz T)"
    "\<And>z ds. zio_ok z \<Longrightarrow> pending z = cs @ ds \<Longrightarrow>
       \<exists>z'. m (S\<lparr>lz := z\<rparr>) = Inr (x, T\<lparr>lz := z'\<rparr>) \<and> zio_ok z' \<and> pending z' = ds"
    "\<And>z es. zio_ok z \<Longrightarrow> cs = pending z @ es \<Longrightarrow> es \<noteq> [] \<Longrightarrow>
       m (S\<lparr>lz := z\<rparr>) = Inl (load_error S ''unexpected end'')"
proof -
  note a = assms(1) [unfolded streaming_def, THEN spec [of _ S], THEN spec [of _ x], THEN spec [of _ T],
    THEN mp, OF assms(2), THEN mp, OF assms(3)]
  then obtain cs where cs: "pending (lz S) = cs @ pending (lz T)"
    "\<forall>z ds. zio_ok z \<longrightarrow> pending z = cs @ ds \<longrightarrow>
       (\<exists>z'. m (S\<lparr>lz := z\<rparr>) = Inr (x, T\<lparr>lz := z'\<rparr>) \<and> zio_ok z' \<and> pending z' = ds)"
    "\<forall>z es. zio_ok z \<longrightarrow> cs = pending z @ es \<longrightarrow> es \<noteq> [] \<longrightarrow>
       m (S\<lparr>lz := z\<rparr>) = Inl (load_error S ''unexpected end'')"
    by (elim conjE exE)
  show thesis
    by (rule that [OF conjunct1 [OF a] conjunct1 [OF conjunct2 [OF a]] cs(1)])
      (use cs(2) in blast, use cs(3) in blast)
qed

text \<open>Actions that do not read.\<close>

lemma streaming_pure:
  assumes "\<And>S x T z. m S = Inr (x, T) \<Longrightarrow> lz T = lz S \<and> lname T = lname S \<and> m (S\<lparr>lz := z\<rparr>) = Inr (x, T\<lparr>lz := z\<rparr>)"
  shows "streaming m"
  unfolding streaming_def
proof (intro allI impI conjI)
  fix S x T assume ok: "zio_ok (lz S)" and m: "m S = Inr (x, T)"
  note a = assms [OF m]
  show "zio_ok (lz T)" "lname T = lname S" using a ok by simp_all
  show "\<exists>cs. pending (lz S) = cs @ pending (lz T)
      \<and> (\<forall>z ds. zio_ok z \<longrightarrow> pending z = cs @ ds \<longrightarrow>
           (\<exists>z'. m (S\<lparr>lz := z\<rparr>) = Inr (x, T\<lparr>lz := z'\<rparr>) \<and> zio_ok z' \<and> pending z' = ds))
      \<and> (\<forall>z es. zio_ok z \<longrightarrow> cs = pending z @ es \<longrightarrow> es \<noteq> [] \<longrightarrow>
           m (S\<lparr>lz := z\<rparr>) = Inl (load_error S ''unexpected end''))"
    using a by (intro exI [of _ "[]"]) auto
qed

lemma streaming_lret: "streaming (lret x)"
  by (rule streaming_pure) (auto simp: lret_def)

lemma streaming_IF: "streaming (IF c s)"
  by (rule streaming_pure) (auto simp: IF_def split: if_splits)

lemma streaming_openspace: "streaming (openspace n)"
  by (rule streaming_pure) (auto simp: openspace_def split: if_splits)

lemma streaming_newlstr: "streaming (load_newlstr alloc str)"
  by (rule streaming_pure) (auto simp: load_newlstr_def split: option.splits)

lemma streaming_write_buffer: "streaming (\<lambda>S. Inr (x, S\<lparr>lb := f (lb S)\<rparr>))"
  by (rule streaming_pure) auto

lemma LoadBlock_result:
  assumes "zio_ok z"
  shows "(\<exists>z'. LoadBlock n (S\<lparr>lz := z\<rparr>) = Inr (take n (pending z), S\<lparr>lz := z'\<rparr>) \<and> zio_ok z'
      \<and> pending z' = drop n (pending z) \<and> n \<le> length (pending z))
    \<or> (LoadBlock n (S\<lparr>lz := z\<rparr>) = Inl (load_error S ''unexpected end'') \<and> length (pending z) < n)"
proof -
  obtain z' where r: "luaZ_read z n = Some (n - length (pending z), take n (pending z), z')" "zio_ok z'"
    "n \<le> length (pending z) \<longrightarrow> pending z' = drop n (pending z)"
    using zio.rd_law [OF assms, of n] by blast
  show ?thesis
  proof (cases "n \<le> length (pending z)")
    case True
    with r show ?thesis by (auto simp: LoadBlock_def lbind_def IF_def lret_def)
  next
    case False
    with r(1) show ?thesis by (auto simp: LoadBlock_def lbind_def IF_def load_error_def)
  qed
qed

lemma streaming_LoadBlock: "streaming (LoadBlock n)"
  unfolding streaming_def
proof (intro allI impI)
  fix S x T assume ok: "zio_ok (lz S)" and m: "LoadBlock n S = Inr (x, T)"
  from LoadBlock_result [OF ok, of n S] m obtain z' where
    1: "x = take n (pending (lz S))" "T = S\<lparr>lz := z'\<rparr>" "zio_ok z'" "pending z' = drop n (pending (lz S))"
      "n \<le> length (pending (lz S))" by auto
  let ?cs = "take n (pending (lz S))"
  have "\<exists>z'. LoadBlock n (S\<lparr>lz := z\<rparr>) = Inr (x, T\<lparr>lz := z'\<rparr>) \<and> zio_ok z' \<and> pending z' = ds"
    if "zio_ok z" "pending z = ?cs @ ds" for z ds
    using LoadBlock_result [OF that(1), of n S] that(2) 1 by auto
  moreover have "LoadBlock n (S\<lparr>lz := z\<rparr>) = Inl (load_error S ''unexpected end'')"
    if "zio_ok z" "?cs = pending z @ es" "es \<noteq> []" for z es
  proof -
    have "length ?cs = length (pending z) + length es" using that(2) by simp
    then have "length (pending z) < n" using that(3) 1(5) by (cases es) auto
    with LoadBlock_result [OF that(1), of n S] show ?thesis by auto
  qed
  ultimately show "zio_ok (lz T) \<and> lname T = lname S \<and> (\<exists>cs. pending (lz S) = cs @ pending (lz T)
      \<and> (\<forall>z ds. zio_ok z \<longrightarrow> pending z = cs @ ds \<longrightarrow>
           (\<exists>z'. LoadBlock n (S\<lparr>lz := z\<rparr>) = Inr (x, T\<lparr>lz := z'\<rparr>) \<and> zio_ok z' \<and> pending z' = ds))
      \<and> (\<forall>z es. zio_ok z \<longrightarrow> cs = pending z @ es \<longrightarrow> es \<noteq> [] \<longrightarrow>
           LoadBlock n (S\<lparr>lz := z\<rparr>) = Inl (load_error S ''unexpected end'')))"
    using 1 by (intro conjI exI [of _ ?cs]) auto
qed

lemma streaming_lbind:
  assumes m: "streaming m" and f: "\<And>x. streaming (f x)"
  shows "streaming (lbind m f)"
  unfolding streaming_def
proof (intro allI impI)
  fix S y T assume ok: "zio_ok (lz S)" and r: "lbind m f S = Inr (y, T)"
  then obtain x S1 where mx: "m S = Inr (x, S1)" and fx: "f x S1 = Inr (y, T)" by auto
  from streamingE [OF m ok mx] obtain cs where 1: "zio_ok (lz S1)" "lname S1 = lname S"
    "pending (lz S) = cs @ pending (lz S1)"
    "\<And>z ds. zio_ok z \<Longrightarrow> pending z = cs @ ds \<Longrightarrow>
       \<exists>z'. m (S\<lparr>lz := z\<rparr>) = Inr (x, S1\<lparr>lz := z'\<rparr>) \<and> zio_ok z' \<and> pending z' = ds"
    "\<And>z es. zio_ok z \<Longrightarrow> cs = pending z @ es \<Longrightarrow> es \<noteq> [] \<Longrightarrow>
       m (S\<lparr>lz := z\<rparr>) = Inl (load_error S ''unexpected end'')" by metis
  from streamingE [OF f 1(1) fx] obtain cs' where 2: "zio_ok (lz T)" "lname T = lname S1"
    "pending (lz S1) = cs' @ pending (lz T)"
    "\<And>z ds. zio_ok z \<Longrightarrow> pending z = cs' @ ds \<Longrightarrow>
       \<exists>z'. f x (S1\<lparr>lz := z\<rparr>) = Inr (y, T\<lparr>lz := z'\<rparr>) \<and> zio_ok z' \<and> pending z' = ds"
    "\<And>z es. zio_ok z \<Longrightarrow> cs' = pending z @ es \<Longrightarrow> es \<noteq> [] \<Longrightarrow>
       f x (S1\<lparr>lz := z\<rparr>) = Inl (load_error S1 ''unexpected end'')" by metis
  have A: "\<exists>z'. lbind m f (S\<lparr>lz := z\<rparr>) = Inr (y, T\<lparr>lz := z'\<rparr>) \<and> zio_ok z' \<and> pending z' = ds"
    if z: "zio_ok z" "pending z = (cs @ cs') @ ds" for z ds
  proof -
    from 1(4) [OF z(1)] z(2) obtain z1 where "m (S\<lparr>lz := z\<rparr>) = Inr (x, S1\<lparr>lz := z1\<rparr>)" "zio_ok z1"
      "pending z1 = cs' @ ds" by auto
    with 2(4) [of z1 ds] show ?thesis by auto
  qed
  have B: "lbind m f (S\<lparr>lz := z\<rparr>) = Inl (load_error S ''unexpected end'')"
    if z: "zio_ok z" "cs @ cs' = pending z @ es" "es \<noteq> []" for z es
  proof -
    from z(2) consider us where "cs = pending z @ us" "us \<noteq> []" | us where "pending z = cs @ us" "cs' = us @ es"
      unfolding append_eq_append_conv2 by fastforce
    then show ?thesis
    proof (cases, goal_cases within across)
      case (within us)
      with 1(5) [OF z(1)] show ?thesis by (simp add: lbind_def)
    next
      case (across us)
      from 1(4) [OF z(1) across(1)] obtain z1 where "m (S\<lparr>lz := z\<rparr>) = Inr (x, S1\<lparr>lz := z1\<rparr>)"
        "zio_ok z1" "pending z1 = us" by auto
      with 2(5) [of z1 es] across(2) z(3) 1(2) show ?thesis by (simp add: lbind_def load_error_def)
    qed
  qed
  show "zio_ok (lz T) \<and> lname T = lname S \<and> (\<exists>cs. pending (lz S) = cs @ pending (lz T)
      \<and> (\<forall>z ds. zio_ok z \<longrightarrow> pending z = cs @ ds \<longrightarrow>
           (\<exists>z'. lbind m f (S\<lparr>lz := z\<rparr>) = Inr (y, T\<lparr>lz := z'\<rparr>) \<and> zio_ok z' \<and> pending z' = ds))
      \<and> (\<forall>z es. zio_ok z \<longrightarrow> cs = pending z @ es \<longrightarrow> es \<noteq> [] \<longrightarrow>
           lbind m f (S\<lparr>lz := z\<rparr>) = Inl (load_error S ''unexpected end'')))"
    using 1(2,3) 2(1,2,3) A B by (intro conjI exI [of _ "cs @ cs'"]) auto
qed

lemmas streaming_intros = streaming_lbind streaming_lret streaming_IF streaming_LoadBlock
  streaming_openspace streaming_newlstr streaming_write_buffer

lemma streaming_if: "streaming a \<Longrightarrow> streaming b \<Longrightarrow> streaming (if c then a else b)"
  by simp

lemma streaming_prod: "(\<And>a b. streaming (f a b)) \<Longrightarrow> streaming (case x of (a, b) \<Rightarrow> f a b)"
  by (cases x) simp

lemma streaming_load_n: "streaming m \<Longrightarrow> streaming (load_n n m)"
  by (induction n) (auto intro: streaming_intros)

lemma streaming_LoadChar: "streaming LoadChar"
  unfolding LoadChar_def by (intro streaming_intros)

lemma streaming_LoadInt: "streaming LoadInt"
  unfolding LoadInt_def Let_def by (intro streaming_intros)

lemma streaming_load_buffer: "streaming (load_buffer n)"
  unfolding load_buffer_def
  by (intro streaming_lbind streaming_LoadBlock streaming_pure) auto

lemma streaming_LoadString: "streaming (LoadString alloc)"
  unfolding LoadString_def Let_def by (intro streaming_intros streaming_if streaming_load_buffer)

lemma streaming_LoadByte: "streaming LoadByte"
  unfolding LoadByte_def by (intro streaming_intros streaming_LoadChar)

lemma streaming_LoadVector: "streaming (LoadVector n k)"
  unfolding LoadVector_def by (intro streaming_intros)

lemma streaming_LoadNumber: "streaming LoadNumber"
  unfolding LoadNumber_def by (intro streaming_intros)

lemmas streaming_loads = streaming_LoadChar streaming_LoadInt streaming_LoadString
  streaming_LoadByte streaming_LoadVector streaming_LoadNumber streaming_load_n streaming_if
  streaming_prod streaming_intros

lemma streaming_LoadCode: "streaming LoadCode"
  unfolding LoadCode_def by (intro streaming_loads)

lemma streaming_load_constant: "streaming (load_constant alloc)"
  unfolding load_constant_def by (intro streaming_loads)

lemma streaming_LoadConstants: "streaming m \<Longrightarrow> streaming (LoadConstants alloc m)"
  unfolding LoadConstants_def by (intro streaming_loads streaming_load_constant)

lemma streaming_LoadDebug: "streaming (LoadDebug alloc)"
  unfolding LoadDebug_def load_locvar_def by (intro streaming_loads)

lemma streaming_LoadFunction: "streaming (LoadFunction left alloc p)"
proof (induction left arbitrary: p)
  case 0
  show ?case by (rule streaming_pure) simp
next
  case (Suc left)
  show ?case
    unfolding LoadFunction.simps Let_def
    by (intro streaming_loads streaming_LoadCode streaming_LoadConstants streaming_LoadDebug Suc.IH)
qed

definition undump_action :: "nat \<Rightarrow> (str_heap \<Rightarrow> ptr) \<Rightarrow> Proto load" where
  "undump_action nCcalls alloc = lbind LoadHeader (\<lambda>_. lbind (load_newlstr alloc [61, 63]) (\<lambda>p.
      LoadFunction (LUAI_MAXCCALLS - nCcalls) alloc (Some p)))"

lemma streaming_undump: "streaming (undump_action nCcalls alloc)"
  unfolding undump_action_def LoadHeader_def by (intro streaming_intros streaming_LoadFunction)

lemma luaU_undump_eq:
  "luaU_undump nCcalls alloc Z buff g nm =
    undump_action nCcalls alloc \<lparr>lz = Z, lb = buff, lstrt = g, lname = chunk_name nm\<rparr>"
  by (simp add: luaU_undump_def undump_action_def)

end
