(* ===== verification/Dump.thy ===== *)
theory Dump
  imports Undump
begin

text \<open>
  Saving precompiled chunks (\<open>ldump.c\<close>). The writer is a parameter: it takes a block and its
  own state and returns a status, 0 for success. The theory shows that dumping a function is
  writing a fixed list of blocks one after the other until the writer fails, and that loading
  these blocks gives the function back.
\<close>

section \<open>Dumping\<close>

type_synonym 'd lua_Writer = "byte list \<Rightarrow> 'd \<Rightarrow> int \<times> 'd"

record 'd DumpState =
  ddata :: 'd
  dstrip :: bool
  dstatus :: int

definition DumpBlock :: "'d lua_Writer \<Rightarrow> byte list \<Rightarrow> 'd DumpState \<Rightarrow> 'd DumpState" where
  "DumpBlock w b D =
    (if dstatus D = 0 then (let (st, d) = w b (ddata D) in D\<lparr>dstatus := st, ddata := d\<rparr>) else D)"

definition DumpChar :: "'d lua_Writer \<Rightarrow> nat \<Rightarrow> 'd DumpState \<Rightarrow> 'd DumpState" where
  "DumpChar w y = DumpBlock w [byte_of y]"

definition DumpInt :: "'d lua_Writer \<Rightarrow> int \<Rightarrow> 'd DumpState \<Rightarrow> 'd DumpState" where
  "DumpInt w x = DumpBlock w (int_to_le x)"

definition DumpNumber :: "'d lua_Writer \<Rightarrow> lua_Number \<Rightarrow> 'd DumpState \<Rightarrow> 'd DumpState" where
  "DumpNumber w x = DumpBlock w (to_le 8 (unat x))"

definition DumpVector :: "'d lua_Writer \<Rightarrow> byte list list \<Rightarrow> 'd DumpState \<Rightarrow> 'd DumpState" where
  "DumpVector w xs D = DumpBlock w (concat xs) (DumpInt w (int (length xs)) D)"

text \<open>
  \<open>sb\<close> gives the bytes of the string at an address. The trailing \<open>'\0'\<close> is written with the
  string.
\<close>

type_synonym string_bytes = "ptr \<Rightarrow> byte list option"

definition DumpString :: "'d lua_Writer \<Rightarrow> string_bytes \<Rightarrow> ptr option \<Rightarrow> 'd DumpState \<Rightarrow> 'd DumpState" where
  "DumpString w sb s D = (case s of
     None \<Rightarrow> DumpBlock w (to_le 8 0) D
   | Some p \<Rightarrow>
       let str = the (sb p) in
       DumpBlock w (str @ [0]) (DumpBlock w (to_le 8 (length str + 1)) D))"

definition DumpCode :: "'d lua_Writer \<Rightarrow> Instruction list \<Rightarrow> 'd DumpState \<Rightarrow> 'd DumpState" where
  "DumpCode w code = DumpVector w (map (\<lambda>i. to_le 4 (unat i)) code)"

text \<open>One round of the loop over the constants.\<close>

definition dump_constant :: "'d lua_Writer \<Rightarrow> string_bytes \<Rightarrow> TValue \<Rightarrow> 'd DumpState \<Rightarrow> 'd DumpState" where
  "dump_constant w sb v D = (let D = DumpChar w (ttype v) D in case v of
     LNil \<Rightarrow> D
   | LBoolean b \<Rightarrow> DumpChar w (if b then 1 else 0) D
   | LNumber n \<Rightarrow> DumpNumber w n D
   | LString p \<Rightarrow> DumpString w sb (if p = 0 then None else Some p) D
   | _ \<Rightarrow> D)"

definition dump_locvar :: "'d lua_Writer \<Rightarrow> string_bytes \<Rightarrow> LocVar \<Rightarrow> 'd DumpState \<Rightarrow> 'd DumpState" where
  "dump_locvar w sb v D = DumpInt w (endpc v) (DumpInt w (startpc v) (DumpString w sb (varname v) D))"

definition DumpDebug :: "'d lua_Writer \<Rightarrow> string_bytes \<Rightarrow> Proto \<Rightarrow> 'd DumpState \<Rightarrow> 'd DumpState" where
  "DumpDebug w sb f D =
    (let D = DumpVector w (map int_to_le (if dstrip D then [] else lineinfo f)) D;
         lv = (if dstrip D then [] else locvars f);
         D = fold (dump_locvar w sb) lv (DumpInt w (int (length lv)) D);
         uv = (if dstrip D then [] else upvalues f)
     in fold (DumpString w sb) uv (DumpInt w (int (length uv)) D))"

definition DumpConstants ::
    "'d lua_Writer \<Rightarrow> string_bytes \<Rightarrow> (Proto \<Rightarrow> 'd DumpState \<Rightarrow> 'd DumpState) \<Rightarrow> Proto \<Rightarrow> 'd DumpState \<Rightarrow> 'd DumpState" where
  "DumpConstants w sb dumpfun f D =
    (let D = fold (dump_constant w sb) (f_k f) (DumpInt w (int (length (f_k f))) D)
     in fold dumpfun (f_p f) (DumpInt w (int (length (f_p f))) D))"

lemma DumpConstants_cong [fundef_cong]:
  assumes "w = w'" "sb = sb'" "f = f'" "D = D'" "\<And>q D. q \<in> set (f_p f') \<Longrightarrow> d q D = d' q D"
  shows "DumpConstants w sb d f D = DumpConstants w' sb' d' f' D'"
proof -
  have "fold d (f_p f') E = fold d' (f_p f') E" for E
    by (rule fold_cong [OF refl refl]) (use assms(5) in auto)
  with assms(1-4) show ?thesis by (simp add: DumpConstants_def)
qed

fun DumpFunction ::
    "'d lua_Writer \<Rightarrow> string_bytes \<Rightarrow> Proto \<Rightarrow> ptr option \<Rightarrow> 'd DumpState \<Rightarrow> 'd DumpState" where
  "DumpFunction w sb f p D =
    (let D = DumpString w sb (if source f = p \<or> dstrip D then None else source f) D;
         D = DumpInt w (linedefined f) D;
         D = DumpInt w (lastlinedefined f) D;
         D = DumpChar w (unat (nups f)) D;
         D = DumpChar w (unat (numparams f)) D;
         D = DumpChar w (unat (is_vararg f)) D;
         D = DumpChar w (unat (maxstacksize f)) D;
         D = DumpCode w (f_code f) D;
         D = DumpConstants w sb (\<lambda>q. DumpFunction w sb q (source f)) f D
     in DumpDebug w sb f D)"

declare DumpFunction.simps [simp del]

definition DumpHeader :: "'d lua_Writer \<Rightarrow> 'd DumpState \<Rightarrow> 'd DumpState" where
  "DumpHeader w = DumpBlock w luaU_header"

definition luaU_dump :: "string_bytes \<Rightarrow> Proto \<Rightarrow> 'd lua_Writer \<Rightarrow> 'd \<Rightarrow> bool \<Rightarrow> int \<times> 'd" where
  "luaU_dump sb f w d strip =
    (let D = DumpFunction w sb f None (DumpHeader w \<lparr>ddata = d, dstrip = strip, dstatus = 0\<rparr>)
     in (dstatus D, ddata D))"

section \<open>The blocks of a chunk\<close>

definition enc_string :: "string_bytes \<Rightarrow> ptr option \<Rightarrow> byte list list" where
  "enc_string sb s = (case s of None \<Rightarrow> [to_le 8 0]
     | Some p \<Rightarrow> [to_le 8 (length (the (sb p)) + 1), the (sb p) @ [0]])"

fun enc_constant :: "string_bytes \<Rightarrow> TValue \<Rightarrow> byte list list" where
  "enc_constant sb (LBoolean b) = [[1], [if b then 1 else 0]]"
| "enc_constant sb (LNumber n) = [[3], to_le 8 (unat n)]"
| "enc_constant sb (LString p) = [4] # enc_string sb (if p = 0 then None else Some p)"
| "enc_constant sb v = [[byte_of (ttype v)]]"

definition enc_vector :: "('a \<Rightarrow> byte list) \<Rightarrow> 'a list \<Rightarrow> byte list list" where
  "enc_vector e xs = [int_to_le (int (length xs)), concat (map e xs)]"

definition enc_list :: "('a \<Rightarrow> byte list list) \<Rightarrow> 'a list \<Rightarrow> byte list list" where
  "enc_list e xs = int_to_le (int (length xs)) # concat (map e xs)"

definition enc_locvar :: "string_bytes \<Rightarrow> LocVar \<Rightarrow> byte list list" where
  "enc_locvar sb v = enc_string sb (varname v) @ [int_to_le (startpc v), int_to_le (endpc v)]"

definition enc_debug :: "string_bytes \<Rightarrow> bool \<Rightarrow> Proto \<Rightarrow> byte list list" where
  "enc_debug sb strip f =
     enc_vector int_to_le (if strip then [] else lineinfo f)
   @ enc_list (enc_locvar sb) (if strip then [] else locvars f)
   @ enc_list (enc_string sb) (if strip then [] else upvalues f)"

fun enc_function :: "string_bytes \<Rightarrow> bool \<Rightarrow> Proto \<Rightarrow> ptr option \<Rightarrow> byte list list" where
  "enc_function sb strip f p =
     enc_string sb (if source f = p \<or> strip then None else source f)
   @ [int_to_le (linedefined f), int_to_le (lastlinedefined f),
      [nups f], [numparams f], [is_vararg f], [maxstacksize f]]
   @ enc_vector (\<lambda>i. to_le 4 (unat i)) (f_code f)
   @ enc_list (enc_constant sb) (f_k f)
   @ int_to_le (int (length (f_p f))) # concat (map (\<lambda>q. enc_function sb strip q (source f)) (f_p f))
   @ enc_debug sb strip f"

declare enc_function.simps [simp del]

text \<open>Writing blocks one after the other until the writer fails.\<close>

fun write_blocks :: "'d lua_Writer \<Rightarrow> byte list list \<Rightarrow> 'd \<Rightarrow> int \<times> 'd" where
  "write_blocks w [] d = (0, d)"
| "write_blocks w (b # bs) d = (let (st, d) = w b d in if st = 0 then write_blocks w bs d else (st, d))"

section \<open>Dumping writes the blocks\<close>

lemma dstrip_DumpBlock [simp]: "dstrip (DumpBlock w b D) = dstrip D"
  by (simp add: DumpBlock_def split: prod.splits)

lemma dstrip_fold [simp]: "dstrip (fold (DumpBlock w) bs D) = dstrip D"
  by (induction bs arbitrary: D) simp_all

lemma byte_of_unat [simp]: "byte_of (unat b) = b"
  by (simp add: byte_of_def)

lemma DumpString_blocks: "DumpString w sb s D = fold (DumpBlock w) (enc_string sb s) D"
  by (simp add: DumpString_def enc_string_def Let_def split: option.splits)

lemma dump_constant_blocks: "dump_constant w sb v D = fold (DumpBlock w) (enc_constant sb v) D"
  by (cases v) (simp_all add: dump_constant_def DumpChar_def DumpNumber_def DumpString_blocks Let_def byte_of_def)

lemma dump_locvar_blocks: "dump_locvar w sb v D = fold (DumpBlock w) (enc_locvar sb v) D"
  by (simp add: dump_locvar_def enc_locvar_def DumpInt_def DumpString_blocks)

lemma fold_blocks:
  assumes "\<And>x D. x \<in> set xs \<Longrightarrow> f x D = fold (DumpBlock w) (e x) D"
  shows "fold f xs D = fold (DumpBlock w) (concat (map e xs)) D"
  using assms by (induction xs arbitrary: D) simp_all

lemma DumpVector_blocks: "DumpVector w (map e xs) D = fold (DumpBlock w) (enc_vector e xs) D"
  by (simp add: DumpVector_def enc_vector_def DumpInt_def)

lemma DumpDebug_blocks: "DumpDebug w sb f D = fold (DumpBlock w) (enc_debug sb (dstrip D) f) D"
  by (simp add: DumpDebug_def enc_debug_def enc_list_def DumpVector_blocks Let_def DumpInt_def
      fold_blocks [of _ "dump_locvar w sb" w "enc_locvar sb", OF dump_locvar_blocks]
      fold_blocks [of _ "DumpString w sb" w "enc_string sb", OF DumpString_blocks])

lemma DumpFunction_blocks:
  "DumpFunction w sb f p D = fold (DumpBlock w) (enc_function sb (dstrip D) f p) D"
proof (induction f arbitrary: p D rule: measure_induct_rule [of size])
  case (less f)
  have IH: "fold (\<lambda>q. DumpFunction w sb q s) (f_p f) E
      = fold (DumpBlock w) (concat (map (\<lambda>q. enc_function sb (dstrip E) q s) (f_p f))) E" for s E
  proof -
    have "fold (\<lambda>q. DumpFunction w sb q s) qs E
      = fold (DumpBlock w) (concat (map (\<lambda>q. enc_function sb (dstrip E) q s) qs)) E"
      if "set qs \<subseteq> set (f_p f)" for qs
      using that
    proof (induction qs arbitrary: E)
      case (Cons q qs)
      then show ?case using less.IH [OF size_f_p, of q] by simp
    qed simp
    then show ?thesis by simp
  qed
  show ?case
    by (simp add: DumpFunction.simps [of w sb f] enc_function.simps [of sb _ f] Let_def DumpConstants_def
        IH DumpString_blocks DumpInt_def DumpChar_def DumpCode_def DumpVector_blocks DumpDebug_blocks
        fold_blocks [of _ "dump_constant w sb" w "enc_constant sb", OF dump_constant_blocks] enc_list_def)
qed

lemma fold_DumpBlock_failed: "dstatus D \<noteq> 0 \<Longrightarrow> fold (DumpBlock w) bs D = D"
  by (induction bs) (simp_all add: DumpBlock_def)

lemma fold_DumpBlock_write:
  "dstatus D = 0 \<Longrightarrow> (dstatus (fold (DumpBlock w) bs D), ddata (fold (DumpBlock w) bs D)) = write_blocks w bs (ddata D)"
proof (induction bs arbitrary: D)
  case (Cons b bs)
  obtain st d where w: "w b (ddata D) = (st, d)" by fastforce
  show ?case
  proof (cases "st = 0")
    case True
    with Cons.IH [of "DumpBlock w b D"] Cons.prems w show ?thesis by (simp add: DumpBlock_def)
  next
    case False
    moreover have "DumpBlock w b D = D\<lparr>dstatus := st, ddata := d\<rparr>"
      using Cons.prems w by (simp add: DumpBlock_def)
    ultimately show ?thesis using w by (simp add: fold_DumpBlock_failed)
  qed
qed simp

definition chunk_blocks :: "string_bytes \<Rightarrow> bool \<Rightarrow> Proto \<Rightarrow> byte list list" where
  "chunk_blocks sb strip f = luaU_header # enc_function sb strip f None"

lemma dump_blocks_eq:
  "luaU_dump sb f w d strip = write_blocks w (chunk_blocks sb strip f) d"
proof -
  let ?D = "\<lparr>ddata = d, dstrip = strip, dstatus = 0\<rparr>"
  have "DumpFunction w sb f None (DumpHeader w ?D) = fold (DumpBlock w) (chunk_blocks sb strip f) ?D"
    by (simp add: DumpHeader_def DumpFunction_blocks chunk_blocks_def)
  with fold_DumpBlock_write [of ?D w "chunk_blocks sb strip f"] show ?thesis
    by (simp add: luaU_dump_def Let_def)
qed

text \<open>
  C15: \<open>luaU_dump\<close> refines the writing of a fixed list of blocks, which depends only on the
  function and the \<open>strip\<close> flag: it passes them to the writer in order, stops at the first
  error of the writer and returns its status.
\<close>

theorem dump_writes_blocks:
  "luaU_dump sb f w d strip = write_blocks w (chunk_blocks sb strip f) d"
  by (rule dump_blocks_eq)

section \<open>Loading what was dumped\<close>

text \<open>
  \<open>L\<close> reads the bytes \<open>bs\<close> and returns \<open>x\<close>, whatever follows, in a state whose strings have the
  bytes \<open>sb\<close>.
\<close>

definition decodes :: "string_bytes \<Rightarrow> 'a load \<Rightarrow> byte list \<Rightarrow> 'a \<Rightarrow> bool" where
  "decodes sb L bs x \<longleftrightarrow> (\<forall>S ds. zio_ok (lz S) \<and> strt_ok (lstrt S) \<and> str_bytes (lstrt S) = sb
     \<and> pending (lz S) = bs @ ds \<longrightarrow>
     (\<exists>T. L S = Inr (x, T) \<and> zio_ok (lz T) \<and> strt_ok (lstrt T) \<and> str_bytes (lstrt T) = sb
       \<and> pending (lz T) = ds))"

lemma decodesD:
  assumes "decodes sb L bs x" "zio_ok (lz S)" "strt_ok (lstrt S)" "str_bytes (lstrt S) = sb"
    "pending (lz S) = bs @ ds"
  shows "\<exists>T. L S = Inr (x, T) \<and> zio_ok (lz T) \<and> strt_ok (lstrt T) \<and> str_bytes (lstrt T) = sb
       \<and> pending (lz T) = ds"
  using assms unfolding decodes_def by blast

lemma decodes_lret: "decodes sb (lret x) [] x"
  by (simp add: decodes_def)

lemma decodes_lbind:
  assumes "decodes sb m bs x" "decodes sb (f x) cs y"
  shows "decodes sb (lbind m f) (bs @ cs) y"
  unfolding decodes_def
proof (intro allI impI)
  fix S :: LoadState and ds assume a: "zio_ok (lz S) \<and> strt_ok (lstrt S) \<and> str_bytes (lstrt S) = sb
     \<and> pending (lz S) = (bs @ cs) @ ds"
  with decodesD [OF assms(1), of S "cs @ ds"] obtain T where T: "m S = Inr (x, T)" "zio_ok (lz T)"
    "strt_ok (lstrt T)" "str_bytes (lstrt T) = sb" "pending (lz T) = cs @ ds" by auto
  from decodesD [OF assms(2) T(2-5)] T(1)
  show "\<exists>T. lbind m f S = Inr (y, T) \<and> zio_ok (lz T) \<and> strt_ok (lstrt T) \<and> str_bytes (lstrt T) = sb
       \<and> pending (lz T) = ds" by auto
qed

lemma decodes_then:
  assumes "decodes sb m bs x" "decodes sb (f x) cs y" "zs = bs @ cs"
  shows "decodes sb (lbind m f) zs y"
  unfolding assms(3) by (rule decodes_lbind [of sb m bs x f cs y, OF assms(1,2)])

lemma decodes_lbind_ret:
  assumes "decodes sb m bs x" "g x = y"
  shows "decodes sb (lbind m (\<lambda>x. lret (g x))) bs y"
  by (rule decodes_then [OF assms(1)]) (simp_all add: decodes_lret assms(2))

lemma decodes_IF: "\<not> c \<Longrightarrow> decodes sb (f ()) bs x \<Longrightarrow> decodes sb (lbind (IF c s) f) bs x"
  by (simp add: decodes_def lbind_def IF_def)

lemma decodes_LoadBlock: "n = length bs \<Longrightarrow> decodes sb (LoadBlock n) bs bs"
  unfolding decodes_def
proof (intro allI impI)
  fix S :: LoadState and ds assume n: "n = length bs" and a: "zio_ok (lz S) \<and> strt_ok (lstrt S) \<and> str_bytes (lstrt S) = sb
     \<and> pending (lz S) = bs @ ds"
  then have "zio_ok (lz S)" by simp
  from LoadBlock_result [OF this, of n S] a n obtain z' where
    "LoadBlock n S = Inr (bs, S\<lparr>lz := z'\<rparr>)" "zio_ok z'" "pending z' = ds" by auto
  with a show "\<exists>T. LoadBlock n S = Inr (bs, T) \<and> zio_ok (lz T) \<and> strt_ok (lstrt T)
      \<and> str_bytes (lstrt T) = sb \<and> pending (lz T) = ds" by auto
qed

lemma decodes_block_then:
  assumes "decodes sb (f bs) cs y" "n = length bs" "zs = bs @ cs"
  shows "decodes sb (lbind (LoadBlock n) f) zs y"
  by (rule decodes_then [of sb "LoadBlock n" bs bs f cs y zs]) (use assms decodes_LoadBlock in auto)

lemma decodes_load_n:
  assumes "\<And>x. x \<in> set xs \<Longrightarrow> decodes sb L (e x) (h x)"
  shows "decodes sb (load_n (length xs) L) (concat (map e xs)) (map h xs)"
  using assms
proof (induction xs)
  case (Cons x xs)
  have 1: "decodes sb L (e x) (h x)"
    "decodes sb (load_n (length xs) L) (concat (map e xs)) (map h xs)" using Cons by simp_all
  have "decodes sb (lbind (load_n (length xs) L) (\<lambda>ys. lret (h x # ys))) (concat (map e xs)) (map h (x # xs))"
    by (rule decodes_lbind_ret [OF 1(2)]) simp
  then have "decodes sb (lbind L (\<lambda>y. lbind (load_n (length xs) L) (\<lambda>ys. lret (y # ys))))
      (concat (map e (x # xs))) (map h (x # xs))"
    by (rule decodes_then [OF 1(1)]) simp
  then show ?case by simp
qed (simp add: decodes_lret)

lemma decodes_LoadChar: "decodes sb LoadChar [b] (sint b)"
  unfolding LoadChar_def by (rule decodes_lbind_ret [OF decodes_LoadBlock]) simp_all

lemma decodes_LoadByte: "decodes sb LoadByte [b] b"
  unfolding LoadByte_def by (rule decodes_lbind_ret [OF decodes_LoadChar]) simp

definition is_size :: "int \<Rightarrow> bool" where "is_size n \<longleftrightarrow> 0 \<le> n \<and> n \<le> INT_MAX"

lemma is_size_int: "is_size n \<Longrightarrow> is_int n \<and> \<not> n < 0"
  by (simp add: is_size_def is_int_def INT_MIN_def)

lemma decodes_LoadInt:
  assumes "is_size n"
  shows "decodes sb LoadInt (int_to_le n) n"
proof -
  have e: "int_of_le (int_to_le n) = n" using is_size_int [OF assms] by (simp add: codec_simps)
  have "decodes sb (let x = int_of_le (int_to_le n) in lbind (IF (x < 0) ''bad integer'') (\<lambda>_. lret x)) [] n"
    unfolding e Let_def by (rule decodes_IF) (use is_size_int [OF assms] in \<open>simp_all add: decodes_lret\<close>)
  then show ?thesis
    unfolding LoadInt_def by (rule decodes_block_then) simp_all
qed

lemma decodes_LoadNumber: "decodes sb LoadNumber (to_le 8 (unat x)) x"
  unfolding LoadNumber_def
proof (rule decodes_lbind_ret [OF decodes_LoadBlock])
  have "unat x < 2 ^ 64" using unsigned_less [of x, where ?'a = nat] by simp
  then show "word_of_nat (of_le (to_le 8 (unat x))) = x" by (simp add: codec_simps)
qed simp

text \<open>A string that is in the table and whose size the allocator accepts.\<close>

definition known_string :: "string_bytes \<Rightarrow> ptr option \<Rightarrow> bool" where
  "known_string sb s \<longleftrightarrow> (case s of None \<Rightarrow> True
     | Some p \<Rightarrow> (\<exists>b. sb p = Some b \<and> length b + 1 \<le> MAX_SIZET - sizeof_TString))"

lemma decodes_openspace:
  assumes "n \<le> MAX_SIZET - sizeof_TString" "decodes sb (f ()) bs x"
  shows "decodes sb (lbind (openspace n) f) bs x"
proof -
  define k where "k = max n LUA_MINBUFFER"
  have m: "k + 1 \<le> MAX_SIZET" "k + 1 < 2 ^ 64"
    using assms(1) by (auto simp: k_def MAX_SIZET_def sizeof_TString_def LUA_MINBUFFER_def)
  have "unat (word_of_nat (k + 1) :: u64) = k + 1" by (rule unat_of_nat_eq) (use m(2) in simp)
  moreover have "(word_of_nat k + 1 :: u64) = word_of_nat (k + 1)" by simp
  ultimately have "\<not> MAX_SIZET < unat (word_of_nat k + 1 :: u64)"
    using m(1) by (simp only: not_less)
  then have "openspace n S = Inr ((), S\<lparr>lb := luaZ_openspace (lb S) n\<rparr>)" for S
    unfolding k_def by (simp add: openspace_def)
  then have e: "lbind (openspace n) f S = f () (S\<lparr>lb := luaZ_openspace (lb S) n\<rparr>)" for S
    by (simp add: lbind_def)
  have "\<exists>T. f () (S\<lparr>lb := B\<rparr>) = Inr (x, T) \<and> zio_ok (lz T) \<and> strt_ok (lstrt T) \<and> str_bytes (lstrt T) = sb
      \<and> pending (lz T) = ds"
    if "zio_ok (lz S) \<and> strt_ok (lstrt S) \<and> str_bytes (lstrt S) = sb \<and> pending (lz S) = bs @ ds" for S ds B
    by (rule decodesD [OF assms(2)]) (use that in simp_all)
  then show ?thesis unfolding decodes_def e by blast
qed

lemma decodes_load_buffer: "n = length bs \<Longrightarrow> decodes sb (load_buffer n) bs bs"
  unfolding load_buffer_def by (rule decodes_block_then [where cs = "[]"]) (simp_all add: decodes_def)

lemma decodes_buffer_then:
  assumes "decodes sb (f bs) cs y" "n = length bs" "zs = bs @ cs"
  shows "decodes sb (lbind (load_buffer n) f) zs y"
  by (rule decodes_then [of sb "load_buffer n" bs bs f cs y zs]) (use assms decodes_load_buffer in auto)

lemma decodes_newlstr:
  assumes "sb p = Some b"
  shows "decodes sb (load_newlstr alloc b) [] p"
  unfolding decodes_def
proof (intro allI impI)
  fix S :: LoadState and ds assume a: "zio_ok (lz S) \<and> strt_ok (lstrt S) \<and> str_bytes (lstrt S) = sb
     \<and> pending (lz S) = [] @ ds"
  with luaS_newlstr_found [of "lstrt S" p b alloc] assms obtain g' where
    "luaS_newlstr alloc (lstrt S) b = Some (p, g')" "strt_ok g'" "str_bytes g' = sb" by auto
  with a show "\<exists>T. load_newlstr alloc b S = Inr (p, T) \<and> zio_ok (lz T) \<and> strt_ok (lstrt T)
      \<and> str_bytes (lstrt T) = sb \<and> pending (lz T) = ds" by (simp add: load_newlstr_def)
qed

lemma decodes_LoadString:
  assumes "known_string sb s"
  shows "decodes sb (LoadString alloc) (concat (enc_string sb s)) s"
proof (cases s)
  case None
  have "decodes sb (let sz = of_le (to_le 8 0) in if sz = 0 then lret None else K sz) [] None" for K
    by (simp add: codec_simps decodes_lret)
  then have "decodes sb (LoadString alloc) (to_le 8 0) None"
    unfolding LoadString_def by (rule decodes_block_then) simp_all
  then show ?thesis using None by (simp add: enc_string_def)
next
  case (Some p)
  with assms obtain b where b: "sb p = Some b" "length b + 1 \<le> MAX_SIZET - sizeof_TString"
    by (auto simp: known_string_def)
  then have "length b + 1 < 2 ^ 64" by (simp add: MAX_SIZET_def)
  then have l: "of_le (to_le 8 (length b + 1)) = length b + 1" by (simp add: codec_simps)
  have t: "take (length b + 1 - 1) (b @ [0]) = b" by simp
  have 1: "decodes sb (lbind (load_newlstr alloc (take (length b + 1 - 1) (b @ [0]))) (\<lambda>p. lret (Some p))) [] (Some p)"
    unfolding t by (rule decodes_lbind_ret [OF decodes_newlstr [of sb p b, OF b(1)]]) simp
  have 2: "decodes sb (let sz = of_le (to_le 8 (length b + 1)) in if sz = 0 then lret None
      else lbind (openspace sz) (\<lambda>_. lbind (load_buffer sz) (\<lambda>s.
        lbind (load_newlstr alloc (take (sz - 1) s)) (\<lambda>p. lret (Some p))))) ((b @ [0]) @ []) (Some p)"
    unfolding l Let_def if_not_P [OF Suc_not_Zero [of "length b", unfolded Suc_eq_plus1]]
    by (rule decodes_openspace [OF b(2)], rule decodes_buffer_then, rule 1) simp_all
  then have "decodes sb (LoadString alloc) (to_le 8 (length b + 1) @ b @ [0]) (Some p)"
    unfolding LoadString_def by (rule decodes_block_then) simp_all
  then show ?thesis using Some b(1) by (simp add: enc_string_def)
qed

lemma decodes_LoadInt_then:
  assumes "decodes sb (f n) cs y" "is_size n" "zs = int_to_le n @ cs"
  shows "decodes sb (lbind LoadInt f) zs y"
  by (rule decodes_then [of sb LoadInt "int_to_le n" n f cs y zs]) (use assms decodes_LoadInt in auto)

lemma decodes_LoadByte_then:
  assumes "decodes sb (f b) cs y" "zs = b # cs"
  shows "decodes sb (lbind LoadByte f) zs y"
  by (rule decodes_then [of sb LoadByte "[b]" b f cs y zs]) (use assms decodes_LoadByte in auto)

lemma decodes_LoadString_then:
  assumes "decodes sb (f s) cs y" "known_string sb s" "zs = concat (enc_string sb s) @ cs"
  shows "decodes sb (lbind (LoadString alloc) f) zs y"
  by (rule decodes_then [of sb "LoadString alloc" "concat (enc_string sb s)" s f cs y zs])
    (use assms decodes_LoadString in auto)

lemma decodes_list_then:
  assumes "decodes sb (f (map h xs)) cs y" "is_size (int (length xs))"
    "\<And>x. x \<in> set xs \<Longrightarrow> decodes sb L (concat (e x)) (h x)" "zs = concat (enc_list e xs) @ cs"
  shows "decodes sb (lbind LoadInt (\<lambda>n. lbind (load_n (nat n) L) f)) zs y"
proof (rule decodes_LoadInt_then [OF _ assms(2)])
  have "decodes sb (load_n (length xs) L) (concat (map (\<lambda>x. concat (e x)) xs)) (map h xs)"
    by (rule decodes_load_n) (rule assms(3))
  then show "decodes sb (lbind (load_n (nat (int (length xs))) L) f)
      (concat (map (\<lambda>x. concat (e x)) xs) @ cs) y"
    unfolding nat_int by (rule decodes_then [of sb _ _ "map h xs" f cs y, OF _ assms(1)]) simp
  have "concat (map (\<lambda>x. concat (e x)) xs) = concat (concat (map e xs))" by (induction xs) simp_all
  then show "zs = int_to_le (int (length xs)) @ concat (map (\<lambda>x. concat (e x)) xs) @ cs"
    by (simp add: assms(4) enc_list_def)
qed

lemma decodes_vector_then:
  assumes "decodes sb (f (map e xs)) cs y" "is_size (int (length xs))" "\<And>x. length (e x) = k"
    "zs = concat (enc_vector e xs) @ cs"
  shows "decodes sb (lbind LoadInt (\<lambda>n. lbind (LoadVector n k) f)) zs y"
proof (rule decodes_LoadInt_then [OF _ assms(2)])
  have l: "\<forall>b \<in> set (map e xs). length b = k" using assms(3) by simp
  have "decodes sb (LoadVector (int (length xs)) k) (concat (map e xs)) (map e xs)"
    unfolding LoadVector_def nat_int
    by (rule decodes_lbind_ret [OF decodes_LoadBlock])
      (simp_all add: length_concat_const [OF l] chunks_concat [OF l])
  then show "decodes sb (lbind (LoadVector (int (length xs)) k) f) (concat (map e xs) @ cs) y"
    by (rule decodes_then [of sb _ _ "map e xs" f cs y, OF _ assms(1)]) simp
  show "zs = int_to_le (int (length xs)) @ concat (map e xs) @ cs"
    by (simp add: assms(4) enc_vector_def)
qed

text \<open>The constants that a function can have.\<close>

definition const_ok :: "string_bytes \<Rightarrow> TValue \<Rightarrow> bool" where
  "const_ok sb v \<longleftrightarrow> (case v of LNil \<Rightarrow> True | LBoolean _ \<Rightarrow> True | LNumber _ \<Rightarrow> True
     | LString p \<Rightarrow> known_string sb (if p = 0 then None else Some p) | _ \<Rightarrow> False)"

lemma decodes_load_constant:
  assumes "const_ok sb v"
  shows "decodes sb (load_constant alloc) (concat (enc_constant sb v)) v"
proof -
  note c = decodes_then [OF decodes_LoadChar]
  show ?thesis
  proof (cases v)
    case LNil
    have "decodes sb (load_constant alloc) [0] LNil"
      unfolding load_constant_def by (rule c [where cs = "[]"]) (simp_all add: decodes_lret)
    then show ?thesis by (simp add: LNil byte_of_def)
  next
    case (LBoolean b)
    have "decodes sb (lbind LoadChar (\<lambda>x. lret (LBoolean (x \<noteq> 0)))) [if b then 1 else 0] v"
      by (rule decodes_lbind_ret [OF decodes_LoadChar]) (simp add: LBoolean)
    then have "decodes sb (load_constant alloc) ([1] @ [if b then 1 else 0]) v"
      unfolding load_constant_def by (intro c [where cs = "[if b then 1 else 0]"]) simp_all
    then show ?thesis by (simp add: LBoolean)
  next
    case (LNumber n)
    have "decodes sb (lbind LoadNumber (\<lambda>n. lret (LNumber n))) (to_le 8 (unat n)) v"
      by (rule decodes_lbind_ret [OF decodes_LoadNumber]) (simp add: LNumber)
    then have "decodes sb (load_constant alloc) ([3] @ to_le 8 (unat n)) v"
      unfolding load_constant_def by (intro c [where cs = "to_le 8 (unat n)"]) simp_all
    then show ?thesis by (simp add: LNumber)
  next
    case (LString p)
    let ?s = "if p = 0 then None else Some p"
    have "known_string sb ?s" using assms by (simp add: const_ok_def LString)
    then have "decodes sb (lbind (LoadString alloc) (\<lambda>s. lret (LString (case s of Some p \<Rightarrow> p | None \<Rightarrow> 0))))
        (concat (enc_string sb ?s)) v"
      by (intro decodes_lbind_ret [OF decodes_LoadString]) (simp_all add: LString)
    then have "decodes sb (load_constant alloc) ([4] @ concat (enc_string sb ?s)) v"
      unfolding load_constant_def by (intro c [where cs = "concat (enc_string sb ?s)"]) simp_all
    then show ?thesis by (simp add: LString)
  qed (use assms in \<open>simp_all add: const_ok_def\<close>)
qed

section \<open>The round trip\<close>

text \<open>What the loader makes of a dumped function: missing source names are those of the parent.\<close>

fun reloaded :: "bool \<Rightarrow> ptr option \<Rightarrow> Proto \<Rightarrow> Proto" where
  "reloaded strip p f = (let src = (if source f = None \<or> strip then p else source f) in
     Proto (f_k f) (f_code f) (map (reloaded strip src) (f_p f))
       (if strip then [] else lineinfo f) (if strip then [] else locvars f) (if strip then [] else upvalues f)
       src (linedefined f) (lastlinedefined f) (nups f) (numparams f) (is_vararg f) (maxstacksize f))"

declare reloaded.simps [simp del]

fun nesting :: "Proto \<Rightarrow> nat" where
  "nesting f = Suc (fold max (map nesting (f_p f)) 0)"

declare nesting.simps [simp del]

lemma fold_max_le: "fold max xs (m::nat) \<le> k \<Longrightarrow> (\<forall>x \<in> set xs. x \<le> k) \<and> m \<le> k"
proof (induction xs arbitrary: m)
  case (Cons x xs)
  from Cons.IH [of "max x m"] Cons.prems show ?case by simp
qed simp

lemma nesting_child:
  assumes "q \<in> set (f_p f)" "nesting f \<le> Suc n"
  shows "nesting q \<le> n"
  using assms fold_max_le [of "map nesting (f_p f)" 0 n] by (simp add: nesting.simps [of f])

definition locvar_ok :: "string_bytes \<Rightarrow> LocVar \<Rightarrow> bool" where
  "locvar_ok sb v \<longleftrightarrow> known_string sb (varname v) \<and> is_size (startpc v) \<and> is_size (endpc v)"

text \<open>The fields have the ranges of their C types, and the strings are in the string table.\<close>

definition dumpable :: "string_bytes \<Rightarrow> Proto \<Rightarrow> bool" where
  "dumpable sb f \<longleftrightarrow> known_string sb (source f) \<and> is_size (linedefined f) \<and> is_size (lastlinedefined f)
     \<and> is_size (int (length (f_code f))) \<and> is_size (int (length (f_k f))) \<and> is_size (int (length (f_p f)))
     \<and> is_size (int (length (lineinfo f))) \<and> is_size (int (length (locvars f)))
     \<and> is_size (int (length (upvalues f)))
     \<and> (\<forall>v \<in> set (f_k f). const_ok sb v) \<and> (\<forall>l \<in> set (lineinfo f). is_int l)
     \<and> (\<forall>v \<in> set (locvars f). locvar_ok sb v) \<and> (\<forall>u \<in> set (upvalues f). known_string sb u)"

lemma is_size_0 [simp]: "is_size 0"
  by (simp add: is_size_def INT_MAX_def)

lemma decodes_LoadCode_then:
  assumes "decodes sb (f code) cs y" "is_size (int (length code))"
    "zs = concat (enc_vector (\<lambda>i. to_le 4 (unat i)) code) @ cs"
  shows "decodes sb (lbind LoadCode f) zs y"
proof (rule decodes_then [of sb _ _ code f cs y, OF _ assms(1,3)])
  have "word_of_nat (of_le (to_le 4 (unat i))) = i" for i :: Instruction
  proof -
    have "unat i < 256 ^ 4" using unsigned_less [of i, where ?'a = nat] by (simp del: unsigned_less)
    then have "of_le (to_le 4 (unat i)) = unat i" unfolding of_le_to_le by (rule mod_less)
    then show ?thesis by simp
  qed
  then have "map (\<lambda>b. word_of_nat (of_le b)) (map (\<lambda>i. to_le 4 (unat i)) code) = code"
    by (simp only: map_map o_def list.map_ident)
  then have r: "decodes sb (lret (map (\<lambda>b. word_of_nat (of_le b)) (map (\<lambda>i. to_le 4 (unat i)) code))) [] code"
    by (simp only: decodes_lret)
  show "decodes sb LoadCode (concat (enc_vector (\<lambda>i. to_le 4 (unat i)) code)) code"
    unfolding LoadCode_def by (rule decodes_vector_then, rule r) (use assms(2) in simp_all)
qed

lemma decodes_load_locvar:
  assumes "locvar_ok sb v"
  shows "decodes sb (load_locvar alloc) (concat (enc_locvar sb v)) v"
proof -
  have e: "\<lparr>varname = varname v, startpc = startpc v, endpc = endpc v\<rparr> = v" by simp
  have r: "decodes sb (lret \<lparr>varname = varname v, startpc = startpc v, endpc = endpc v\<rparr>) [] v"
    unfolding e by (rule decodes_lret)
  show ?thesis
    unfolding load_locvar_def enc_locvar_def
    by (rule decodes_LoadString_then, rule decodes_LoadInt_then, rule decodes_LoadInt_then, rule r)
      (use assms in \<open>simp_all add: locvar_ok_def\<close>)
qed

lemma decodes_LoadDebug:
  assumes "dumpable sb f"
  shows "decodes sb (LoadDebug alloc) (concat (enc_debug sb strip f))
    (if strip then [] else lineinfo f, if strip then [] else locvars f, if strip then [] else upvalues f)"
proof -
  let ?li = "if strip then [] else lineinfo f" and ?lv = "if strip then [] else locvars f"
    and ?uv = "if strip then [] else upvalues f"
  have d: "is_size (int (length ?li))" "is_size (int (length ?lv))" "is_size (int (length ?uv))"
    "\<forall>l \<in> set ?li. is_int l" "\<forall>v \<in> set ?lv. locvar_ok sb v" "\<forall>u \<in> set ?uv. known_string sb u"
    using assms by (simp_all add: dumpable_def)
  have m: "map int_of_le (map int_to_le ?li) = ?li"
    using d(4) by (simp only: map_map) (rule map_idI, simp add: int_of_le_to_le)
  have r: "decodes sb (lret (map int_of_le (map int_to_le ?li), map (\<lambda>v. v) ?lv, map (\<lambda>v. v) ?uv)) [] (?li, ?lv, ?uv)"
    unfolding m by (simp add: decodes_lret)
  show ?thesis
    unfolding LoadDebug_def enc_debug_def
    apply (rule decodes_vector_then, rule decodes_list_then, rule decodes_list_then, rule r)
    using d by (simp_all add: decodes_load_locvar decodes_LoadString)
qed

text \<open>The checker looks at the code, the constants and the numbers of upvalues only.\<close>

lemma check_cong: "c = c' \<Longrightarrow> (c' \<Longrightarrow> m = m') \<Longrightarrow> check c m = check c' m'"
  by (simp add: check_def)

lemma symbexec_reloaded:
  shows "symb_loop (reloaded strip p f) lp reg pc lst = symb_loop f lp reg pc lst"
proof -
  let ?g = "reloaded strip p f"
  have f: "f_code ?g = f_code f" "f_k ?g = f_k f" "is_vararg ?g = is_vararg f" "maxstacksize ?g = maxstacksize f"
    "nups ?g = nups f" "length (f_p ?g) = length (f_p f)"
    by (simp_all add: reloaded.simps [of _ _ f] Let_def)
  have n: "nups (f_p ?g ! b) = nups (f_p f ! b)" if "b < length (f_p f)" for b
    using that by (simp add: reloaded.simps [of _ _ f] reloaded.simps [of _ _ "f_p f ! b"] Let_def)
  have nn: "nups (f_p ?g ! nat b) = nups (f_p f ! nat b)" if "b < int (length (f_p f))" for b
  proof (cases "f_p f")
    case Nil
    then show ?thesis using f(6) by simp
  next
    case Cons
    with that have "nat b < length (f_p f)" by (cases "0 \<le> b") auto
    then show ?thesis by (rule n)
  qed
  have "symb_special ?g lp reg pc lst op a b c = symb_special f lp reg pc lst op a b c" for pc lst op a b c
    using nn [of b] by (cases op)
      (simp_all add: symb_special_def f checkreg_def symb_call_def Let_def cong: check_cong)
  note special = this
  have step: "symb_step ?g lp reg pc lst = symb_step f lp reg pc lst" for pc lst
    unfolding symb_step_def symb_operands_def checkArgMode_def checkreg_def f special by (rule refl)
  show ?thesis
  proof (induction "lp - pc" arbitrary: pc lst rule: less_induct)
    case less
    show ?case
    proof (cases "pc < lp")
      case True
      have "symb_loop ?g lp reg (pc' + 1) lst' = symb_loop f lp reg (pc' + 1) lst'"
        if "symb_step f lp reg pc lst = Some (pc', lst')" for pc' lst'
        using less [of "pc' + 1"] True symb_step_result(1) [OF that] by simp
      then show ?thesis
        unfolding symb_loop.simps [of ?g lp reg pc lst] symb_loop.simps [of f lp reg pc lst] step
        by (simp split: option.split)
    next
      case False
      then show ?thesis by (simp add: symb_loop.simps [of _ lp reg pc lst])
    qed
  qed
qed

lemma checkcode_reloaded:
  assumes "luaG_checkcode f"
  shows "luaG_checkcode (reloaded strip p f)"
proof -
  let ?g = "reloaded strip p f"
  have f: "f_code ?g = f_code f" "is_vararg ?g = is_vararg f" "maxstacksize ?g = maxstacksize f"
    "nups ?g = nups f" "numparams ?g = numparams f" "lineinfo ?g = (if strip then [] else lineinfo f)"
    "upvalues ?g = (if strip then [] else upvalues f)"
    by (simp_all add: reloaded.simps [of _ _ f] Let_def)
  have "precheck f" using assms by (simp add: luaG_checkcode_def symbexec_def split: if_splits)
  then have "precheck ?g" by (auto simp: precheck_def f)
  with assms \<open>precheck f\<close> show ?thesis
    unfolding luaG_checkcode_def symbexec_def symbexec_reloaded f by simp
qed

lemma decodes_LoadConstants:
  assumes "dumpable sb f"
    and child: "\<And>q. q \<in> set (f_p f) \<Longrightarrow> decodes sb L (concat (e q)) (h q)"
  shows "decodes sb (LoadConstants alloc L)
    (concat (enc_list (enc_constant sb) (f_k f) @ enc_list e (f_p f))) (f_k f, map h (f_p f))"
proof -
  have r: "decodes sb (lret (map (\<lambda>v. v) (f_k f), map h (f_p f))) [] (f_k f, map h (f_p f))"
    by (simp add: decodes_lret)
  show ?thesis
    unfolding LoadConstants_def
    apply (rule decodes_list_then [where h = "\<lambda>v. v"], rule decodes_list_then, rule r)
    using assms by (simp_all add: dumpable_def decodes_load_constant)
qed

lemma decodes_LoadFunction:
  assumes "nesting f \<le> left" "all_protos (dumpable sb) f" "all_protos luaG_checkcode f"
    "known_string sb p" "source f = p' \<Longrightarrow> \<not> strip \<Longrightarrow> source f \<noteq> None \<Longrightarrow> p = p'"
  shows "decodes sb (LoadFunction left alloc p) (concat (enc_function sb strip f p')) (reloaded strip p f)"
  using assms
proof (induction left arbitrary: f p p')
  case 0
  then show ?case by (simp add: nesting.simps [of f])
next
  case (Suc left)
  define s where "s = (if source f = p' \<or> strip then None else source f)"
  define src where "src = (if s = None then p else s)"
  have src: "src = (if source f = None \<or> strip then p else source f)"
    using Suc.prems(5) by (auto simp: src_def s_def)
  have d: "dumpable sb f" "luaG_checkcode f" using Suc.prems(2,3) by (simp_all add: all_protos.simps [of _ f])
  have ks: "known_string sb s" "known_string sb src"
    using d(1) Suc.prems(4) by (auto simp: s_def src_def dumpable_def known_string_def)
  have child: "decodes sb (LoadFunction left alloc src) (concat (enc_function sb strip q (source f))) (reloaded strip src q)"
    if "q \<in> set (f_p f)" for q
    by (rule Suc.IH [OF nesting_child [OF that Suc.prems(1)]])
      (use Suc.prems(2,3) that ks(2) src in \<open>auto simp: all_protos.simps [of _ f]\<close>)
  have c: "decodes sb (LoadConstants alloc (LoadFunction left alloc src))
      (concat (enc_list (enc_constant sb) (f_k f) @ enc_list (\<lambda>q. enc_function sb strip q (source f)) (f_p f)))
      (f_k f, map (reloaded strip src) (f_p f))"
    by (rule decodes_LoadConstants [OF d(1)]) (rule child)
  have e: "reloaded strip p f = Proto (f_k f) (f_code f) (map (reloaded strip src) (f_p f))
       (if strip then [] else lineinfo f) (if strip then [] else locvars f) (if strip then [] else upvalues f)
       src (linedefined f) (lastlinedefined f) (nups f) (numparams f) (is_vararg f) (maxstacksize f)"
    unfolding reloaded.simps [of _ _ f] Let_def src by (rule refl)
  have fin: "decodes sb (let g = Proto (f_k f) (f_code f) (map (reloaded strip src) (f_p f))
       (if strip then [] else lineinfo f) (if strip then [] else locvars f) (if strip then [] else upvalues f)
       src (linedefined f) (lastlinedefined f) (nups f) (numparams f) (is_vararg f) (maxstacksize f)
     in lbind (IF (\<not> luaG_checkcode g) ''bad code'') (\<lambda>_. lret g)) [] (reloaded strip p f)"
    unfolding Let_def e [symmetric] by (rule decodes_IF) (simp_all add: checkcode_reloaded [OF d(2)] decodes_lret)
  have z: "concat (enc_function sb strip f p') = concat (enc_string sb s)
      @ int_to_le (linedefined f) @ int_to_le (lastlinedefined f)
      @ nups f # numparams f # is_vararg f # maxstacksize f
      # concat (enc_vector (\<lambda>i. to_le 4 (unat i)) (f_code f))
      @ concat (enc_list (enc_constant sb) (f_k f) @ enc_list (\<lambda>q. enc_function sb strip q (source f)) (f_p f))
      @ concat (enc_debug sb strip f)"
    by (simp add: enc_function.simps [of sb strip f] s_def enc_list_def)
  have lines: "is_size (linedefined f)" "is_size (lastlinedefined f)" "is_size (int (length (f_code f)))"
    using d(1) by (simp_all add: dumpable_def)
  show ?case
    unfolding LoadFunction.simps z
    apply (rule decodes_LoadString_then [OF _ ks(1) refl])
    apply (unfold Let_def, fold src_def, unfold split_def)
    apply (rule decodes_LoadInt_then [OF _ lines(1) refl])
    apply (rule decodes_LoadInt_then [OF _ lines(2) refl])
    apply (rule decodes_LoadByte_then [OF _ refl])+
    apply (rule decodes_LoadCode_then [OF _ lines(3) refl])
    apply (rule decodes_then [OF c _ refl])
    apply (rule decodes_then [OF decodes_LoadDebug [OF d(1), of alloc strip], of _ "[]"])
     apply (simp only: fst_conv snd_conv)
     apply (rule fin [unfolded Let_def])
    apply simp
    done
qed

section \<open>Strings that are added\<close>

definition string_ext :: "string_bytes \<Rightarrow> string_bytes \<Rightarrow> bool" where
  "string_ext sb sb' \<longleftrightarrow> (\<forall>q b. sb q = Some b \<longrightarrow> sb' q = Some b)"

lemma known_string_ext:
  "string_ext sb sb' \<Longrightarrow> known_string sb s \<Longrightarrow> known_string sb' s \<and> enc_string sb' s = enc_string sb s"
  by (auto simp: string_ext_def known_string_def enc_string_def split: option.splits)

lemma const_ok_ext:
  "string_ext sb sb' \<Longrightarrow> const_ok sb v \<Longrightarrow> const_ok sb' v \<and> enc_constant sb' v = enc_constant sb v"
  by (cases v) (auto simp: const_ok_def dest: known_string_ext)

lemma dumpable_ext: "string_ext sb sb' \<Longrightarrow> dumpable sb f \<Longrightarrow> dumpable sb' f"
  unfolding dumpable_def locvar_ok_def using known_string_ext const_ok_ext by blast

lemma all_protos_mono:
  assumes "\<And>q. P q \<Longrightarrow> Q q"
  shows "all_protos P f \<Longrightarrow> all_protos Q f"
proof (induction f rule: measure_induct_rule [of size])
  case (less f)
  then show ?case using assms size_f_p by (auto simp: all_protos.simps [of _ f])
qed

lemma enc_debug_ext:
  assumes "string_ext sb sb'" "dumpable sb f"
  shows "enc_debug sb' strip f = enc_debug sb strip f"
proof -
  have "map (enc_locvar sb') (locvars f) = map (enc_locvar sb) (locvars f)"
    "map (enc_string sb') (upvalues f) = map (enc_string sb) (upvalues f)"
    using assms(2) known_string_ext [OF assms(1)]
    by (auto simp: dumpable_def locvar_ok_def enc_locvar_def)
  note m = this
  show ?thesis by (cases strip) (simp_all only: enc_debug_def enc_list_def if_True if_False list.map m)
qed

lemma enc_function_ext:
  "string_ext sb sb' \<Longrightarrow> all_protos (dumpable sb) f \<Longrightarrow> enc_function sb' strip f p = enc_function sb strip f p"
proof (induction f arbitrary: p rule: measure_induct_rule [of size])
  case (less f)
  have d: "dumpable sb f" using less.prems(2) by (simp add: all_protos.simps [of _ f])
  then have "known_string sb (if source f = p \<or> strip then None else source f)"
    by (simp add: dumpable_def known_string_def)
  note s = conjunct2 [OF known_string_ext [OF less.prems(1) this]]
  have c: "map (\<lambda>q. enc_function sb' strip q (source f)) (f_p f) = map (\<lambda>q. enc_function sb strip q (source f)) (f_p f)"
    using less.IH [OF size_f_p less.prems(1)] less.prems(2) by (auto simp: all_protos.simps [of _ f])
  have k: "map (enc_constant sb') (f_k f) = map (enc_constant sb) (f_k f)"
    using d const_ok_ext [OF less.prems(1)] by (auto simp: dumpable_def)
  show ?case
    unfolding enc_function.simps [of _ strip f] s c enc_debug_ext [OF less.prems(1) d] enc_list_def k ..
qed

lemma reloaded_id: "all_protos (\<lambda>q. source q \<noteq> None) f \<Longrightarrow> reloaded False p f = f"
proof (induction f arbitrary: p rule: measure_induct_rule [of size])
  case (less f)
  have "map (reloaded False (source f)) (f_p f) = f_p f"
    using less.IH [OF size_f_p] less.prems by (intro map_idI) (auto simp: all_protos.simps [of _ f])
  moreover have "source f \<noteq> None" using less.prems by (simp add: all_protos.simps [of _ f])
  ultimately have "reloaded False p f = Proto (f_k f) (f_code f) (f_p f) (lineinfo f) (locvars f) (upvalues f)
       (source f) (linedefined f) (lastlinedefined f) (nups f) (numparams f) (is_vararg f) (maxstacksize f)"
    by (auto simp add: reloaded.simps [of _ _ f])
  then show ?case by simp
qed

lemma write_append: "write_blocks (\<lambda>b d. (0, d @ b)) bs d = (0, d @ concat bs)"
  by (induction bs arbitrary: d) simp_all

lemma decodes_LoadHeader: "decodes sb LoadHeader luaU_header ()"
proof -
  have "decodes sb (IF (luaU_header \<noteq> luaU_header) ''bad header'') [] ()" by (simp add: decodes_def IF_def)
  then show ?thesis
    unfolding LoadHeader_def by (rule decodes_block_then) (simp_all add: LUAC_HEADERSIZE_def luaU_header_def)
qed

lemma dump_concat:
  "concat (chunk_blocks sb strip f) = luaU_header @ concat (enc_function sb strip f None)"
  by (simp add: chunk_blocks_def)

lemma undump_blocks:
  assumes g: "strt_ok g" "alloc (objs g) \<notin> dom (objs g)"
    and f: "all_protos (dumpable (str_bytes g)) f" "all_protos luaG_checkcode f"
      "nesting f \<le> LUAI_MAXCCALLS - nCcalls"
    and z: "zio_ok Z" "pending Z = concat (chunk_blocks (str_bytes g) strip f) @ ds"
  shows "\<exists>p S. luaU_undump nCcalls alloc Z buff g nm = Inr (reloaded strip (Some p) f, S)
    \<and> str_bytes (lstrt S) p = Some [61, 63] \<and> pending (lz S) = ds"
proof -
  let ?S = "\<lparr>lz = Z, lb = buff, lstrt = g, lname = chunk_name nm\<rparr>"
  let ?e = "concat (enc_function (str_bytes g) strip f None)"
  have "pending (lz ?S) = luaU_header @ ?e @ ds" using z(2) by (simp add: dump_concat)
  from decodesD [OF decodes_LoadHeader _ _ refl this] z(1) g(1) obtain T where
    T: "LoadHeader ?S = Inr ((), T)" "zio_ok (lz T)" "strt_ok (lstrt T)" "str_bytes (lstrt T) = str_bytes g"
      "pending (lz T) = ?e @ ds" by auto
  have eq: "lstrt T = g"
    using T(1) by (auto simp: LoadHeader_def LoadBlock_def lbind_def IF_def lret_def split: option.splits prod.splits if_splits)
  have l: "length [61 :: byte, 63] + 1 \<le> MAX_SIZET - sizeof_TString" by (simp add: MAX_SIZET_def sizeof_TString_def)
  obtain p g' where n: "luaS_newlstr alloc g [61, 63] = Some (p, g')"
    by (rule luaS_newlstr_ok [of g alloc "[61, 63]"]) (use g l in blast)+
  note post = luaS_newlstr_post [OF g l n]
  have ext: "string_ext (str_bytes g) (str_bytes g')" using post by (simp add: string_ext_def)
  let ?T = "T\<lparr>lstrt := g'\<rparr>"
  have "known_string (str_bytes g') (Some p)" using post l by (simp add: known_string_def)
  then have "decodes (str_bytes g') (LoadFunction (LUAI_MAXCCALLS - nCcalls) alloc (Some p))
      (concat (enc_function (str_bytes g') strip f None)) (reloaded strip (Some p) f)"
    by (intro decodes_LoadFunction f(2,3) all_protos_mono [OF dumpable_ext [OF ext] f(1)]) simp_all
  from decodesD [OF this, of ?T ds] post T(2,5) enc_function_ext [OF ext f(1)] obtain S where
    "LoadFunction (LUAI_MAXCCALLS - nCcalls) alloc (Some p) ?T = Inr (reloaded strip (Some p) f, S)"
    "str_bytes (lstrt S) = str_bytes g'" "pending (lz S) = ds" by auto
  moreover have "load_newlstr alloc [61, 63] T = Inr (p, ?T)" by (simp add: load_newlstr_def eq n)
  ultimately have "luaU_undump nCcalls alloc Z buff g nm = Inr (reloaded strip (Some p) f, S)"
    using T(1) by (auto simp: luaU_undump_def)
  with \<open>str_bytes (lstrt S) = str_bytes g'\<close> \<open>pending (lz S) = ds\<close> post show ?thesis by auto
qed

end
