(* ===== verification/Chunks.thy ===== *)
theory Chunks
  imports Dump
begin

text \<open>
  What saving and loading precompiled chunks guarantees together (\<open>ldump.c\<close>, \<open>lundump.c\<close>).
\<close>

section \<open>A sample\<close>

text \<open>A function with a string constant, in a state whose string table holds the string.\<close>

definition sample_strings :: stringtable where
  "sample_strings = snd (the (luaS_newlstr sample_alloc sample_strt [64, 97]))"

definition sample_chunk :: Proto where
  "sample_chunk = Proto [LBoolean True, LString 64] sample_code [] [] [] [] (Some 64) 0 0 0 0 0 2"

definition sample_stream :: "bool \<Rightarrow> byte list list" where
  "sample_stream strip = [snd (luaU_dump (str_bytes sample_strings) sample_chunk (\<lambda>b d. (0, d @ b)) [] strip)]"

lemma sample_strings_eq:
  "luaS_newlstr sample_alloc sample_strt [64, 97] = Some (64, sample_strings)"
  by (simp add: sample_strings_def luaS_newlstr_def newlstr_def sample_alloc_def sample_strt_def strt_size_def
      lmod_def luaS_hash_def hash_loop.simps MAX_SIZET_def sizeof_TString_def Let_def)

lemma sample_proto_ok:
  "strt_ok sample_strings" "sample_alloc (objs sample_strings) \<notin> dom (objs sample_strings)"
  "str_bytes sample_strings 64 = Some [64, 97]"
proof -
  have a: "sample_alloc (objs sample_strt) \<notin> dom (objs sample_strt)"
    by (simp add: sample_alloc_def sample_strt_def)
  have l: "length [64 :: byte, 97] + 1 \<le> MAX_SIZET - sizeof_TString" by (simp add: MAX_SIZET_def sizeof_TString_def)
  from luaS_newlstr_post [OF sample_strt_ok a l sample_strings_eq]
  show "strt_ok sample_strings" "str_bytes sample_strings 64 = Some [64, 97]" by simp_all
  have "objs sample_strings 64 \<noteq> None" "objs sample_strings 128 = None"
    by (simp_all add: sample_strings_def luaS_newlstr_def newlstr_def sample_alloc_def sample_strt_def strt_size_def
      lmod_def luaS_hash_def hash_loop.simps MAX_SIZET_def sizeof_TString_def Let_def)
  then show "sample_alloc (objs sample_strings) \<notin> dom (objs sample_strings)"
    by (auto simp: sample_alloc_def)
qed

lemma sample_checked: "all_protos luaG_checkcode sample_chunk"
proof -
  have "luaG_checkcode sample_chunk" by code_simp
  moreover have "f_p sample_chunk = []" by (simp add: sample_chunk_def)
  ultimately show ?thesis by (simp add: all_protos.simps [of _ sample_chunk])
qed

lemma sample_dumpable: "all_protos (dumpable (str_bytes sample_strings)) sample_chunk"
proof -
  have "dumpable (str_bytes sample_strings) sample_chunk"
    by (simp add: sample_chunk_def dumpable_def known_string_def sample_proto_ok
      is_size_def INT_MAX_def const_ok_def MAX_SIZET_def sizeof_TString_def sample_code_def)
  moreover have "f_p sample_chunk = []" by (simp add: sample_chunk_def)
  ultimately show ?thesis by (simp add: all_protos.simps [of _ sample_chunk])
qed

lemma sample_nesting: "nesting sample_chunk \<le> LUAI_MAXCCALLS - 0"
proof -
  have "f_p sample_chunk = []" by (simp add: sample_chunk_def)
  then show ?thesis by (simp add: nesting.simps [of sample_chunk] LUAI_MAXCCALLS_def)
qed

section \<open>The round trip\<close>

lemma undump_dump_ok:
  assumes "strt_ok g" "alloc (objs g) \<notin> dom (objs g)"
    "all_protos (dumpable (str_bytes g)) f" "all_protos luaG_checkcode f"
    "nesting f \<le> LUAI_MAXCCALLS - nCcalls"
    "zio_ok Z" "pending Z = snd (luaU_dump (str_bytes g) f (\<lambda>b d. (0, d @ b)) [] strip) @ ds"
  shows "\<exists>p S. luaU_undump nCcalls alloc Z buff g nm = Inr (reloaded strip (Some p) f, S)
    \<and> str_bytes (lstrt S) p = Some [61, 63] \<and> pending (lz S) = ds"
  by (rule undump_blocks [of g alloc f nCcalls Z strip ds, OF assms(1-6)])
    (use assms(7) in \<open>simp add: dump_blocks_eq write_append\<close>)

lemma sample_stream_ok: "zio_ok (luaZ_init (sample_stream strip))"
  and sample_stream_pending: "pending (luaZ_init (sample_stream strip))
    = snd (luaU_dump (str_bytes sample_strings) sample_chunk (\<lambda>b d. (0, d @ b)) [] strip) @ []"
proof -
  have l: "length (concat (chunk_blocks (str_bytes sample_strings) strip sample_chunk)) < 2 ^ 64"
  proof -
    have "f_p sample_chunk = []" "f_k sample_chunk = [LBoolean True, LString 64]" "f_code sample_chunk = sample_code"
      "lineinfo sample_chunk = []" "locvars sample_chunk = []" "upvalues sample_chunk = []" "source sample_chunk = Some 64"
      by (simp_all add: sample_chunk_def)
    then show ?thesis
      by (simp add: chunk_blocks_def luaU_header_def enc_function.simps [of _ _ sample_chunk] enc_string_def
        enc_list_def enc_vector_def enc_debug_def sample_code_def sample_proto_ok)
  qed
  have "concat (chunk_blocks (str_bytes sample_strings) strip sample_chunk) \<noteq> []"
    by (simp add: chunk_blocks_def luaU_header_def)
  with l luaZ_init_ok [of "sample_stream strip"]
  show "zio_ok (luaZ_init (sample_stream strip))"
    "pending (luaZ_init (sample_stream strip)) = snd (luaU_dump (str_bytes sample_strings) sample_chunk
       (\<lambda>b d. (0, d @ b)) [] strip) @ []"
    by (simp_all add: sample_stream_def dump_blocks_eq write_append)
qed

lemma sample_loads:
  "\<exists>p S. luaU_undump 0 sample_alloc (luaZ_init (sample_stream strip)) B sample_strings nm
     = Inr (reloaded strip (Some p) sample_chunk, S)"
  using undump_dump_ok [of sample_strings sample_alloc sample_chunk 0 _ strip "[]",
    OF sample_proto_ok(1,2) sample_dumpable sample_checked sample_nesting
    sample_stream_ok sample_stream_pending] by blast

text \<open>
  C16: a function that is dumped and loaded again comes back: with \<open>strip\<close>, without its debug
  information; without \<open>strip\<close>, unchanged if it and the functions in it have their source names.
  Only the bytes of the chunk are read from the stream.
\<close>

theorem undump_dump:
  assumes "strt_ok g" "alloc (objs g) \<notin> dom (objs g)"
    "all_protos (dumpable (str_bytes g)) f" "all_protos luaG_checkcode f"
    "nesting f \<le> LUAI_MAXCCALLS - nCcalls"
    "zio_ok Z" "pending Z = snd (luaU_dump (str_bytes g) f (\<lambda>b d. (0, d @ b)) [] strip) @ ds"
  shows "\<exists>p S. luaU_undump nCcalls alloc Z buff g nm = Inr (reloaded strip (Some p) f, S)
    \<and> str_bytes (lstrt S) p = Some [61, 63] \<and> pending (lz S) = ds
    \<and> (\<not> strip \<and> all_protos (\<lambda>q. source q \<noteq> None) f \<longrightarrow> reloaded strip (Some p) f = f)"
proof -
  obtain p S where "luaU_undump nCcalls alloc Z buff g nm = Inr (reloaded strip (Some p) f, S)"
    "str_bytes (lstrt S) p = Some [61, 63]" "pending (lz S) = ds"
    using undump_dump_ok [of g alloc f nCcalls Z strip ds, OF assms] by blast
  then show ?thesis using reloaded_id [of f "Some p"] by (intro exI [of _ p] exI [of _ S]) auto
qed

theorem undump_dump_witness:
  "\<exists>p S. luaU_undump 0 sample_alloc (luaZ_init (sample_stream False)) \<lparr>buffer = [], bn = 0, buffsize = 0\<rparr>
      sample_strings ''=x'' = Inr (reloaded False (Some p) sample_chunk, S)
    \<and> str_bytes (lstrt S) p = Some [61, 63] \<and> pending (lz S) = []
    \<and> (\<not> False \<and> all_protos (\<lambda>q. source q \<noteq> None) sample_chunk \<longrightarrow> reloaded False (Some p) sample_chunk = sample_chunk)"
  by (rule undump_dump [of sample_strings sample_alloc sample_chunk 0 _ False "[]",
    OF sample_proto_ok(1,2) sample_dumpable sample_checked sample_nesting
    sample_stream_ok sample_stream_pending])

section \<open>Properties of the loader\<close>

text \<open>
  C17: every function that \<open>luaU_undump\<close> returns, and every function nested inside it, has been
  accepted by the bytecode checker, for all inputs.
\<close>

theorem undump_checked:
  assumes "luaU_undump nCcalls alloc Z buff g nm = Inr (f, S)"
  shows "all_protos luaG_checkcode f"
  using assms LoadFunction_checked unfolding luaU_undump_def lbind_Inr by blast

theorem undump_checked_witness:
  "\<exists>f S. luaU_undump 0 sample_alloc (luaZ_init (sample_stream True)) \<lparr>buffer = [], bn = 0, buffsize = 0\<rparr>
      sample_strings ''=x'' = Inr (f, S) \<and> all_protos luaG_checkcode f"
  using sample_loads undump_checked by blast

text \<open>
  C18: the loader depends on the bytes of a chunk and not on the blocks in which its reader
  delivers them: when it succeeds, it succeeds with the same result on every well-formed
  stream that begins with the bytes it read, and leaves the rest unread; and on every stream
  that ends before these bytes it reports a truncated chunk and returns nothing.
\<close>

theorem undump_streaming:
  assumes "zio_ok Z" "luaU_undump nCcalls alloc Z buff g nm = Inr (f, S)"
  shows "\<exists>cs. pending Z = cs @ pending (lz S)
    \<and> (\<forall>Z' ds. zio_ok Z' \<and> pending Z' = cs @ ds \<longrightarrow>
         (\<exists>z'. luaU_undump nCcalls alloc Z' buff g nm = Inr (f, S\<lparr>lz := z'\<rparr>) \<and> pending z' = ds))
    \<and> (\<forall>Z' es. zio_ok Z' \<and> cs = pending Z' @ es \<and> es \<noteq> [] \<longrightarrow>
         luaU_undump nCcalls alloc Z' buff g nm
           = Inl (LSyntax (chunk_name nm @ '': unexpected end in precompiled chunk'')))"
proof -
  let ?S = "\<lambda>z. \<lparr>lz = z, lb = buff, lstrt = g, lname = chunk_name nm\<rparr>"
  from assms(2) have u: "undump_action nCcalls alloc (?S Z) = Inr (f, S)" by (simp add: luaU_undump_eq)
  from streamingE [OF streaming_undump _ u] assms(1) obtain cs where cs:
    "pending Z = cs @ pending (lz S)"
    "\<And>z ds. zio_ok z \<Longrightarrow> pending z = cs @ ds \<Longrightarrow>
       \<exists>z'. undump_action nCcalls alloc (?S z) = Inr (f, S\<lparr>lz := z'\<rparr>) \<and> zio_ok z' \<and> pending z' = ds"
    "\<And>z es. zio_ok z \<Longrightarrow> cs = pending z @ es \<Longrightarrow> es \<noteq> [] \<Longrightarrow>
       undump_action nCcalls alloc (?S z) = Inl (load_error (?S Z) ''unexpected end'')"
    by (simp, metis)
  show ?thesis
    unfolding luaU_undump_eq
    by (rule exI [of _ cs]) (use cs in \<open>auto simp: load_error_def\<close>)
qed

theorem undump_streaming_witness:
  "\<exists>f S cs. luaU_undump 0 sample_alloc (luaZ_init (sample_stream True)) \<lparr>buffer = [], bn = 0, buffsize = 0\<rparr>
      sample_strings ''=x'' = Inr (f, S) \<and> pending (luaZ_init (sample_stream True)) = cs @ pending (lz S)
    \<and> (\<forall>Z' es. zio_ok Z' \<and> cs = pending Z' @ es \<and> es \<noteq> [] \<longrightarrow>
         luaU_undump 0 sample_alloc Z' \<lparr>buffer = [], bn = 0, buffsize = 0\<rparr> sample_strings ''=x''
           = Inl (LSyntax (chunk_name ''=x'' @ '': unexpected end in precompiled chunk'')))"
proof -
  obtain p S where u: "luaU_undump 0 sample_alloc (luaZ_init (sample_stream True))
      \<lparr>buffer = [], bn = 0, buffsize = 0\<rparr> sample_strings ''=x'' = Inr (reloaded True (Some p) sample_chunk, S)"
    using sample_loads by blast
  from undump_streaming [OF sample_stream_ok u] u show ?thesis by blast
qed

end
