(* ===== verification/Pattern_Spec.thy ===== *)
theory Pattern_Spec
  imports Patterns
begin

text \<open>
  What the pattern matcher computes. The relation \<open>pm\<close> says, rule by rule, which part of the
  subject a pattern matches and with which captures, with every choice left open. The list
  \<open>search\<close> has the outcomes of all attempts in the order of the manual: greedy repetitions from the
  longest on, lazy ones from the shortest on. The matcher, which works in place and backtracks,
  returns the first outcome, and it leaves the captures of a failed attempt as they were.
\<close>

section \<open>Patterns and matches\<close>

text \<open>What the matcher sees at a position of the pattern.\<close>

datatype kind = KEnd | KDollar | KPos | KOpen | KClose | KBalance | KFrontier | KBack | KItem

definition kind :: "string \<Rightarrow> nat \<Rightarrow> kind" where
  "kind pat p =
    (let c = char_at pat p; c1 = char_at pat (p + 1) in
     if c = CHR ''('' then (if c1 = CHR '')'' then KPos else KOpen)
     else if c = CHR '')'' then KClose
     else if c = L_ESC \<and> c1 = CHR ''b'' then KBalance
     else if c = L_ESC \<and> c1 = CHR ''f'' then KFrontier
     else if c = L_ESC \<and> isdigit (uchar c1) then KBack
     else if c = NUL then KEnd
     else if c = CHR ''$'' \<and> c1 = NUL then KDollar
     else KItem)"

text \<open>\<open>n\<close> characters from \<open>s\<close> on match the item from \<open>p\<close> to \<open>ep\<close>.\<close>

definition item_run :: "string \<Rightarrow> string \<Rightarrow> nat \<Rightarrow> nat \<Rightarrow> nat \<Rightarrow> nat \<Rightarrow> bool" where
  "item_run src pat p ep s n \<longleftrightarrow>
    (\<forall>i < n. s + i < length src \<and> singlematch pat (uchar (char_at src (s + i))) p ep)"

definition frontier :: "string \<Rightarrow> string \<Rightarrow> nat \<Rightarrow> nat \<Rightarrow> nat \<Rightarrow> bool" where
  "frontier src pat s q ep \<longleftrightarrow>
    \<not> matchbracketclass pat (uchar (if s = 0 then NUL else char_at src (s - 1))) q (ep - 1)
    \<and> matchbracketclass pat (uchar (char_at src s)) q (ep - 1)"

definition as_state :: "cap list \<Rightarrow> MatchState" where
  "as_state cs = \<lparr>level = length cs, capture = cs\<rparr>"

inductive pm :: "string \<Rightarrow> string \<Rightarrow> cap list \<Rightarrow> nat \<Rightarrow> nat \<Rightarrow> nat \<Rightarrow> cap list \<Rightarrow> bool"
  for src pat where
  pm_end: "kind pat p = KEnd \<Longrightarrow> pm src pat cs s p s cs"
| pm_dollar: "kind pat p = KDollar \<Longrightarrow> s = length src \<Longrightarrow> pm src pat cs s p s cs"
| pm_pos: "kind pat p = KPos \<Longrightarrow> length cs < LUA_MAXCAPTURES \<Longrightarrow>
    pm src pat (cs @ [(s, CAP_POSITION)]) s (p + 2) e cs' \<Longrightarrow> pm src pat cs s p e cs'"
| pm_open: "kind pat p = KOpen \<Longrightarrow> length cs < LUA_MAXCAPTURES \<Longrightarrow>
    pm src pat (cs @ [(s, CAP_UNFINISHED)]) s (p + 1) e cs' \<Longrightarrow> pm src pat cs s p e cs'"
| pm_close: "kind pat p = KClose \<Longrightarrow> open_capture cs (length cs) = Some l \<Longrightarrow>
    pm src pat (cs[l := (fst (cs ! l), int s - int (fst (cs ! l)))]) s (p + 1) e cs' \<Longrightarrow>
    pm src pat cs s p e cs'"
| pm_balance: "kind pat p = KBalance \<Longrightarrow> matchbalance src pat s (p + 2) = Inr (Some s') \<Longrightarrow>
    pm src pat cs s' (p + 4) e cs' \<Longrightarrow> pm src pat cs s p e cs'"
| pm_frontier: "kind pat p = KFrontier \<Longrightarrow> char_at pat (p + 2) = CHR ''['' \<Longrightarrow>
    classend pat (p + 2) = Inr ep \<Longrightarrow> frontier src pat s (p + 2) ep \<Longrightarrow>
    pm src pat cs s ep e cs' \<Longrightarrow> pm src pat cs s p e cs'"
| pm_back: "kind pat p = KBack \<Longrightarrow>
    match_capture src (as_state cs) s (uchar (char_at pat (p + 1))) = Inr (Some s') \<Longrightarrow>
    pm src pat cs s' (p + 2) e cs' \<Longrightarrow> pm src pat cs s p e cs'"
| pm_single: "kind pat p = KItem \<Longrightarrow> classend pat p = Inr ep \<Longrightarrow>
    char_at pat ep \<notin> {CHR ''?'', CHR ''*'', CHR ''+'', CHR ''-''} \<Longrightarrow> item_run src pat p ep s 1 \<Longrightarrow>
    pm src pat cs (s + 1) ep e cs' \<Longrightarrow> pm src pat cs s p e cs'"
| pm_repeat: "kind pat p = KItem \<Longrightarrow> classend pat p = Inr ep \<Longrightarrow>
    char_at pat ep = CHR ''?'' \<and> n \<le> 1 \<or> char_at pat ep \<in> {CHR ''*'', CHR ''-''}
      \<or> char_at pat ep = CHR ''+'' \<and> 1 \<le> n \<Longrightarrow>
    item_run src pat p ep s n \<Longrightarrow> pm src pat cs (s + n) (ep + 1) e cs' \<Longrightarrow> pm src pat cs s p e cs'"

inductive_cases pm_kindE: "pm src pat cs s p e cs'"

section \<open>The state of the matcher\<close>

definition ms_ok :: "MatchState \<Rightarrow> bool" where
  "ms_ok ms \<longleftrightarrow> level ms \<le> LUA_MAXCAPTURES \<and> length (capture ms) = LUA_MAXCAPTURES"

definition caps :: "MatchState \<Rightarrow> cap list" where
  "caps ms = take (level ms) (capture ms)"

lemma length_caps [simp]: "ms_ok ms \<Longrightarrow> length (caps ms) = level ms"
  by (simp add: caps_def ms_ok_def)

lemma caps_nth [simp]: "l < level ms \<Longrightarrow> caps ms ! l = capture ms ! l"
  by (simp add: caps_def)

lemma open_capture_less: "open_capture cs n = Some l \<Longrightarrow> l < n \<and> snd (cs ! l) = CAP_UNFINISHED"
  by (induction n) (auto split: if_splits)

lemma open_capture_take: "n \<le> k \<Longrightarrow> open_capture (take k cs) n = open_capture cs n"
  by (induction n) simp_all

lemma match_capture_caps:
  assumes "ms_ok ms"
  shows "match_capture src ms s c = match_capture src (as_state (caps ms)) s c"
  using assms by (auto simp: match_capture_def check_capture_def as_state_def Let_def nat_less_iff)

section \<open>The order of the search\<close>

text \<open>
  The numbers of repetitions of an item in the order in which they are tried; \<open>d\<close> is the character
  behind the item and \<open>n\<close> the length of the rest of the subject.
\<close>

definition choices :: "char \<Rightarrow> nat \<Rightarrow> nat list" where
  "choices d n =
    (if d = CHR ''?'' then [1, 0]
     else if d = CHR ''*'' then rev [0..<Suc n]
     else if d = CHR ''+'' then rev [1..<Suc n]
     else if d = CHR ''-'' then [0..<Suc n]
     else [1])"

definition behind_item :: "char \<Rightarrow> nat \<Rightarrow> nat" where
  "behind_item d ep = (if d \<in> {CHR ''?'', CHR ''*'', CHR ''+'', CHR ''-''} then ep + 1 else ep)"

lemma kind_inside: "kind pat p \<noteq> KEnd \<Longrightarrow> p < length pat"
  by (rule ccontr) (simp add: kind_def char_at_def L_ESC_def)

text \<open>
  The outcomes of the attempts, in order: the end of a match with its captures, or the message of
  an error in the pattern, which the search meets at that point.
\<close>

function search :: "string \<Rightarrow> string \<Rightarrow> cap list \<Rightarrow> nat \<Rightarrow> nat \<Rightarrow> (string + nat \<times> cap list) list" where
  "search src pat cs s p = (case kind pat p of
     KEnd \<Rightarrow> [Inr (s, cs)]
   | KDollar \<Rightarrow> if s = length src then [Inr (s, cs)] else []
   | KPos \<Rightarrow>
       if length cs \<ge> LUA_MAXCAPTURES then [Inl ''too many captures'']
       else search src pat (cs @ [(s, CAP_POSITION)]) s (p + 2)
   | KOpen \<Rightarrow>
       if length cs \<ge> LUA_MAXCAPTURES then [Inl ''too many captures'']
       else search src pat (cs @ [(s, CAP_UNFINISHED)]) s (p + 1)
   | KClose \<Rightarrow> (case open_capture cs (length cs) of
       None \<Rightarrow> [Inl ''invalid pattern capture'']
     | Some l \<Rightarrow> search src pat (cs[l := (fst (cs ! l), int s - int (fst (cs ! l)))]) s (p + 1))
   | KBalance \<Rightarrow> (case matchbalance src pat s (p + 2) of
       Inl err \<Rightarrow> [Inl err] | Inr None \<Rightarrow> [] | Inr (Some s') \<Rightarrow> search src pat cs s' (p + 4))
   | KFrontier \<Rightarrow>
       if char_at pat (p + 2) \<noteq> CHR ''['' then [Inl ''missing '[' after '%f' in pattern'']
       else (case classend pat (p + 2) of
         Inl err \<Rightarrow> [Inl err]
       | Inr ep \<Rightarrow> if frontier src pat s (p + 2) ep then search src pat cs s ep else [])
   | KBack \<Rightarrow> (case match_capture src (as_state cs) s (uchar (char_at pat (p + 1))) of
       Inl err \<Rightarrow> [Inl err] | Inr None \<Rightarrow> [] | Inr (Some s') \<Rightarrow> search src pat cs s' (p + 2))
   | KItem \<Rightarrow> (case classend pat p of
       Inl err \<Rightarrow> [Inl err]
     | Inr ep \<Rightarrow>
         let d = char_at pat ep in
         concat (map (\<lambda>n. search src pat cs (s + n) (behind_item d ep))
           (filter (item_run src pat p ep s) (choices d (length src - s))))))"
  by pat_completeness auto
termination
  by (relation "measure (\<lambda>(src, pat, cs, s, p). length pat - p)")
    (auto dest!: classend_greater kind_inside [rotated] simp: behind_item_def kind_inside intro!: diff_less_mono2)

declare search.simps [simp del]

section \<open>The first outcome\<close>

definition is_first :: "(string + nat \<times> cap list) list \<Rightarrow> cap list \<Rightarrow> match_result \<Rightarrow> bool" where
  "is_first xs cs r = (case xs of
     [] \<Rightarrow> \<exists>ms'. r = Inr (None, ms') \<and> ms_ok ms' \<and> caps ms' = cs
   | Inl err # _ \<Rightarrow> r = Inl err
   | Inr (e, cs') # _ \<Rightarrow> \<exists>ms'. r = Inr (Some e, ms') \<and> ms_ok ms' \<and> caps ms' = cs')"

lemma is_first_simps [simp]:
  "is_first [] cs r \<longleftrightarrow> (\<exists>ms'. r = Inr (None, ms') \<and> ms_ok ms' \<and> caps ms' = cs)"
  "is_first (Inl err # xs) cs r \<longleftrightarrow> r = Inl err"
  "is_first (Inr (e, cs') # xs) cs r \<longleftrightarrow> (\<exists>ms'. r = Inr (Some e, ms') \<and> ms_ok ms' \<and> caps ms' = cs')"
  by (simp_all add: is_first_def)

definition seeks ::
    "(MatchState \<Rightarrow> nat \<Rightarrow> match_result) \<Rightarrow> (cap list \<Rightarrow> nat \<Rightarrow> (string + nat \<times> cap list) list) \<Rightarrow> bool" where
  "seeks k F \<longleftrightarrow> (\<forall>ms s. ms_ok ms \<longrightarrow> is_first (F (caps ms) s) (caps ms) (k ms s))"

lemma seeksI: "(\<And>ms s. ms_ok ms \<Longrightarrow> is_first (F (caps ms) s) (caps ms) (k ms s)) \<Longrightarrow> seeks k F"
  by (simp add: seeks_def)

lemma seeksD: "seeks k F \<Longrightarrow> ms_ok ms \<Longrightarrow> is_first (F (caps ms) s) (caps ms) (k ms s)"
  by (simp add: seeks_def)

text \<open>The outcome of an attempt, when a failure is followed by \<open>r'\<close>.\<close>

lemma is_first_or:
  assumes "is_first xs cs r" "\<And>ms'. r = Inr (None, ms') \<Longrightarrow> ms_ok ms' \<Longrightarrow> caps ms' = cs \<Longrightarrow> is_first ys cs (r' ms')"
  shows "is_first (xs @ ys) cs (case r of Inl e \<Rightarrow> Inl e | Inr (Some e, ms) \<Rightarrow> Inr (Some e, ms) | Inr (None, ms) \<Rightarrow> r' ms)"
proof (cases xs)
  case Nil
  with assms show ?thesis by auto
next
  case (Cons x xs')
  with assms(1) show ?thesis by (cases x) auto
qed

section \<open>Captures\<close>

lemma caps_start:
  assumes "ms_ok ms" "level ms < LUA_MAXCAPTURES"
  shows "ms_ok ((set_capture ms (level ms) c)\<lparr>level := level ms + 1\<rparr>)"
    "caps ((set_capture ms (level ms) c)\<lparr>level := level ms + 1\<rparr>) = caps ms @ [c]"
  using assms by (simp_all add: ms_ok_def caps_def set_capture_def take_Suc_conv_app_nth)

lemma start_capture_seeks:
  assumes "seeks k F"
  shows "seeks (\<lambda>ms s. start_capture k ms s what)
    (\<lambda>cs s. if length cs \<ge> LUA_MAXCAPTURES then [Inl ''too many captures''] else F (cs @ [(s, what)]) s)"
proof (rule seeksI)
  fix ms s assume ok: "ms_ok ms"
  let ?m = "(set_capture ms (level ms) (s, what))\<lparr>level := level ms + 1\<rparr>"
  show "is_first (if length (caps ms) \<ge> LUA_MAXCAPTURES then [Inl ''too many captures''] else F (caps ms @ [(s, what)]) s)
    (caps ms) (start_capture k ms s what)"
  proof (cases "level ms \<ge> LUA_MAXCAPTURES")
    case True
    then show ?thesis using ok by (simp add: start_capture_def)
  next
    case False
    then have l: "level ms < LUA_MAXCAPTURES" by simp
    note m = caps_start [OF ok l, of "(s, what)"]
    from seeksD [OF assms m(1), of s] have r: "is_first (F (caps ms @ [(s, what)]) s) (caps ms @ [(s, what)]) (k ?m s)"
      unfolding m(2) .
    have d: "ms_ok (m1\<lparr>level := level m1 - 1\<rparr>) \<and> caps (m1\<lparr>level := level m1 - 1\<rparr>) = caps ms"
      if "ms_ok m1" "caps m1 = caps ms @ [(s, what)]" for m1
    proof -
      have "level m1 = level ms + 1" using that ok by (metis length_caps length_append_singleton Suc_eq_plus1)
      then have "caps (m1\<lparr>level := level m1 - 1\<rparr>) = butlast (caps m1)" "ms_ok (m1\<lparr>level := level m1 - 1\<rparr>)"
        using that(1) by (simp_all add: caps_def ms_ok_def butlast_take)
      with that(2) show ?thesis by simp
    qed
    show ?thesis
    proof (cases "F (caps ms @ [(s, what)]) s")
      case Nil
      with r d l ok show ?thesis by (auto simp: start_capture_def)
    next
      case (Cons x xs)
      with r l ok show ?thesis by (cases x) (auto simp: start_capture_def)
    qed
  qed
qed

lemma caps_set_capture:
  assumes "ms_ok ms" "l < level ms"
  shows "ms_ok (set_capture ms l c)" "caps (set_capture ms l c) = (caps ms)[l := c]"
  using assms by (simp_all add: ms_ok_def caps_def set_capture_def take_update_swap)

lemma end_capture_seeks:
  assumes "seeks k F"
  shows "seeks (end_capture k) (\<lambda>cs s. case open_capture cs (length cs) of
      None \<Rightarrow> [Inl ''invalid pattern capture'']
    | Some l \<Rightarrow> F (cs[l := (fst (cs ! l), int s - int (fst (cs ! l)))]) s)"
proof (rule seeksI)
  fix ms s assume ok: "ms_ok ms"
  have o: "open_capture (caps ms) (length (caps ms)) = open_capture (capture ms) (level ms)"
    unfolding length_caps [OF ok] by (simp add: caps_def open_capture_take)
  show "is_first (case open_capture (caps ms) (length (caps ms)) of
      None \<Rightarrow> [Inl ''invalid pattern capture'']
    | Some l \<Rightarrow> F ((caps ms)[l := (fst (caps ms ! l), int s - int (fst (caps ms ! l)))]) s) (caps ms) (end_capture k ms s)"
  proof (cases "open_capture (capture ms) (level ms)")
    case None
    then show ?thesis unfolding o by (simp add: end_capture_def capture_to_close_def)
  next
    case (Some l)
    have l: "l < level ms" "snd (capture ms ! l) = CAP_UNFINISHED" using open_capture_less [OF Some] by simp_all
    let ?c = "(fst (capture ms ! l), int s - int (fst (capture ms ! l)))"
    note m = caps_set_capture [OF ok l(1), of ?c]
    have r: "is_first (F ((caps ms)[l := ?c]) s) ((caps ms)[l := ?c]) (k (set_capture ms l ?c) s)"
      using seeksD [OF assms m(1)] by (simp add: m(2))
    have d: "ms_ok (set_capture m1 l (fst (capture m1 ! l), CAP_UNFINISHED))
        \<and> caps (set_capture m1 l (fst (capture m1 ! l), CAP_UNFINISHED)) = caps ms"
      if "ms_ok m1" "caps m1 = (caps ms)[l := ?c]" for m1
    proof -
      have lv: "level m1 = level ms" using that ok by (metis length_caps length_list_update)
      have f: "fst (capture m1 ! l) = fst (caps ms ! l)"
        using that l(1) lv ok by (metis caps_nth fst_conv length_caps nth_list_update_eq)
      have "caps (set_capture m1 l (fst (capture m1 ! l), CAP_UNFINISHED)) = (caps ms)[l := (fst (caps ms ! l), CAP_UNFINISHED)]"
        using caps_set_capture(2) [OF that(1), of l] l(1) lv that(2) by (simp add: f)
      also have "\<dots> = caps ms" using l ok by (intro list_update_same_conv [THEN iffD2]) (simp_all add: prod_eq_iff)
      finally show ?thesis using caps_set_capture(1) [OF that(1), of l] l(1) lv by simp
    qed
    show ?thesis
    proof (cases "F ((caps ms)[l := ?c]) s")
      case Nil
      with r d l(1) show ?thesis unfolding o by (auto simp: Some end_capture_def capture_to_close_def)
    next
      case (Cons x xs)
      with r l(1) show ?thesis unfolding o by (cases x) (auto simp: Some end_capture_def capture_to_close_def)
    qed
  qed
qed

section \<open>Repetitions\<close>

lemma item_run_0 [simp]: "item_run src pat p ep s 0"
  by (simp add: item_run_def)

lemma item_run_Suc:
  "item_run src pat p ep s (Suc n) \<longleftrightarrow>
    s < length src \<and> singlematch pat (uchar (char_at src s)) p ep \<and> item_run src pat p ep (s + 1) n"
  unfolding item_run_def by (auto simp: less_Suc_eq_0_disj)

lemma item_run_le: "item_run src pat p ep s n \<Longrightarrow> m \<le> n \<Longrightarrow> item_run src pat p ep s m"
  by (simp add: item_run_def)

lemma count_expand_run:
  "length src - s \<le> n \<Longrightarrow> item_run src pat p ep s m \<longleftrightarrow> m \<le> count_expand src pat p ep s n"
proof (induction n arbitrary: s m)
  case 0
  then show ?case by (cases m) (simp_all add: item_run_Suc)
next
  case (Suc n)
  then show ?case by (cases m) (auto simp: item_run_Suc)
qed

lemma max_expand_loop_0:
  "max_expand_loop k ms s 0 = (case k ms s of
     Inl e \<Rightarrow> Inl e | Inr (Some r, ms) \<Rightarrow> Inr (Some r, ms) | Inr (None, ms) \<Rightarrow> Inr (None, ms))"
  by (subst max_expand_loop.simps) (simp split: sum.splits option.splits prod.splits)

lemma max_expand_loop_Suc:
  "max_expand_loop k ms s (Suc i) = (case k ms (s + Suc i) of
     Inl e \<Rightarrow> Inl e | Inr (Some r, ms) \<Rightarrow> Inr (Some r, ms) | Inr (None, ms) \<Rightarrow> max_expand_loop k ms s i)"
  by (subst max_expand_loop.simps) (simp split: sum.splits option.splits prod.splits)

lemma count_expand_le: "count_expand src pat p ep s n \<le> n"
  by (induction n arbitrary: s) auto

lemma filter_le_upt: "c \<le> n \<Longrightarrow> filter (\<lambda>m. m \<le> c) [0..<Suc n] = [0..<Suc c]"
proof -
  assume "c \<le> n"
  then have "[0..<Suc n] = [0..<Suc c] @ [Suc c..<Suc n]" by (metis Suc_le_mono le0 upt_add_eq_append le_add_diff_inverse)
  then show ?thesis by (simp add: filter_id_conv filter_empty_conv del: upt_Suc)
qed

lemma filter_run_upto:
  "filter (item_run src pat p ep s) [0..<Suc (length src - s)]
    = [0..<Suc (count_expand src pat p ep s (length src - s))]"
  using filter_le_upt [OF count_expand_le] count_expand_run [OF order_refl, where src = src and s = s and pat = pat and p = p and ep = ep] by (metis (mono_tags, lifting) filter_cong)

lemma max_expand_loop_first:
  assumes "seeks k F" "ms_ok ms"
  shows "is_first (concat (map (\<lambda>n. F (caps ms) (s + n)) (rev [0..<Suc i]))) (caps ms) (max_expand_loop k ms s i)"
  using assms(2)
proof (induction i arbitrary: ms)
  case 0
  from is_first_or [OF seeksD [OF assms(1) 0, of s], of "[]" "\<lambda>ms. Inr (None, ms)"]
  show ?case by (simp add: max_expand_loop_0)
next
  case (Suc i)
  let ?F = "\<lambda>n. F (caps ms) (s + n)"
  have e: "rev [0..<Suc (Suc i)] = Suc i # rev [0..<Suc i]" by simp
  have "is_first (concat (map ?F (rev [0..<Suc i]))) (caps ms) (max_expand_loop k m1 s i)"
    if "ms_ok m1" "caps m1 = caps ms" for m1
    using Suc.IH [OF that(1)] by (simp add: that(2))
  then show ?case
    unfolding e max_expand_loop_Suc list.map concat.simps
    by (rule is_first_or [OF seeksD [OF assms(1) Suc.prems]])
qed

lemma max_expand_seeks:
  assumes "seeks k F"
  shows "seeks (\<lambda>ms s. max_expand src pat k ms s p ep)
    (\<lambda>cs s. concat (map (\<lambda>n. F cs (s + n)) (filter (item_run src pat p ep s) (rev [0..<Suc (length src - s)]))))"
proof (rule seeksI)
  fix ms s assume ok: "ms_ok ms"
  let ?n = "length src - s" and ?c = "count_expand src pat p ep s (length src - s)"
  have "filter (item_run src pat p ep s) (rev [0..<Suc ?n]) = rev [0..<Suc ?c]"
    using filter_run_upto by (simp add: rev_filter [symmetric] del: upt_Suc)
  with max_expand_loop_first [OF assms ok, of s ?c]
  show "is_first (concat (map (\<lambda>n. F (caps ms) (s + n)) (filter (item_run src pat p ep s) (rev [0..<Suc ?n])))) (caps ms)
     (max_expand src pat k ms s p ep)" by (simp add: max_expand_def del: upt_Suc)
qed

section \<open>The matcher finds the first outcome\<close>

lemma min_expand_seeks:
  assumes "seeks k F" "ms_ok ms"
  shows "is_first (concat (map (\<lambda>n. F (caps ms) (s + n)) [0..<Suc (count_expand src pat p ep s (length src - s))])) (caps ms)
    (min_expand src pat k ms s p ep)"
  using assms(2)
proof (induction "length src - s" arbitrary: ms s)
  case 0
  have "min_expand src pat k ms s p ep = (case k ms s of
     Inl e \<Rightarrow> Inl e | Inr (Some r, ms) \<Rightarrow> Inr (Some r, ms) | Inr (None, ms) \<Rightarrow> Inr (None, ms))"
    using 0(1) by (subst min_expand.simps) (simp split: sum.splits option.splits prod.splits)
  with is_first_or [OF seeksD [OF assms(1) 0(2), of s], of "[]" "\<lambda>ms. Inr (None, ms)"] 0(1) show ?case
    by (simp flip: 0(1))
next
  case (Suc n)
  let ?m = "s < length src \<and> singlematch pat (uchar (char_at src s)) p ep"
  have n: "n = length src - (s + 1)" using Suc.hyps(2) by simp
  have e: "min_expand src pat k ms s p ep = (case k ms s of
     Inl e \<Rightarrow> Inl e | Inr (Some r, ms) \<Rightarrow> Inr (Some r, ms)
   | Inr (None, ms) \<Rightarrow> if ?m then min_expand src pat k ms (s + 1) p ep else Inr (None, ms))"
    by (subst min_expand.simps) (simp split: sum.splits option.splits prod.splits)
  let ?c = "count_expand src pat p ep (s + 1) n"
  have c: "count_expand src pat p ep s (Suc n) = (if ?m then Suc ?c else 0)" by simp
  let ?ys = "if ?m then concat (map (\<lambda>n. F (caps ms) (s + 1 + n)) [0..<Suc ?c]) else []"
  have l: "concat (map (\<lambda>n. F (caps ms) (s + n)) [0..<Suc (count_expand src pat p ep s (Suc n))]) = F (caps ms) s @ ?ys"
  proof (cases ?m)
    case True
    then have "count_expand src pat p ep s (Suc n) = Suc ?c" unfolding c by (rule if_P)
    moreover have "[0..<Suc (Suc ?c)] = 0 # map Suc [0..<Suc ?c]"
      unfolding map_Suc_upt by (rule upt_conv_Cons) simp
    ultimately show ?thesis using True by (simp add: comp_def del: upt_Suc)
  next
    case False
    then have "count_expand src pat p ep s (Suc n) = 0" "?ys = []" unfolding c by (rule if_not_P)+
    then show ?thesis by simp
  qed
  show ?case
    unfolding e Suc.hyps(2) [symmetric] l
  proof (rule is_first_or [OF seeksD [OF assms(1) Suc.prems]])
    fix m1 assume m1: "ms_ok m1" "caps m1 = caps ms"
    show "is_first ?ys (caps ms) (if ?m then min_expand src pat k m1 (s + 1) p ep else Inr (None, m1))"
      using Suc.hyps(1) [OF n m1(1), folded n, unfolded m1(2)] m1 by (simp del: upt_Suc)
  qed
qed

lemma min_expand_seeks_all:
  assumes "seeks k F"
  shows "seeks (\<lambda>ms s. min_expand src pat k ms s p ep)
    (\<lambda>cs s. concat (map (\<lambda>n. F cs (s + n)) (filter (item_run src pat p ep s) [0..<Suc (length src - s)])))"
  unfolding filter_run_upto by (rule seeksI, rule min_expand_seeks [OF assms])

lemma match_KEnd: "kind pat p = KEnd \<Longrightarrow> match src pat ms s p = Inr (Some s, ms)"
  by (subst match.simps) (auto simp: kind_def L_ESC_def Let_def split: if_splits)

lemma match_KDollar:
  "kind pat p = KDollar \<Longrightarrow> match src pat ms s p = Inr (if s = length src then Some s else None, ms)"
  by (subst match.simps) (auto simp: kind_def L_ESC_def Let_def split: if_splits)

lemma match_KPos: "kind pat p = KPos \<Longrightarrow>
    match src pat ms s p = start_capture (\<lambda>ms s. match src pat ms s (p + 2)) ms s CAP_POSITION"
  by (subst match.simps) (auto simp: kind_def L_ESC_def Let_def split: if_splits)

lemma match_KOpen: "kind pat p = KOpen \<Longrightarrow>
    match src pat ms s p = start_capture (\<lambda>ms s. match src pat ms s (p + 1)) ms s CAP_UNFINISHED"
  by (subst match.simps) (auto simp: kind_def L_ESC_def Let_def split: if_splits)

lemma match_KClose: "kind pat p = KClose \<Longrightarrow>
    match src pat ms s p = end_capture (\<lambda>ms s. match src pat ms s (p + 1)) ms s"
  by (subst match.simps) (auto simp: kind_def L_ESC_def Let_def split: if_splits)

lemma match_KBalance: "kind pat p = KBalance \<Longrightarrow>
    match src pat ms s p = (case matchbalance src pat s (p + 2) of
          Inl e \<Rightarrow> Inl e
        | Inr None \<Rightarrow> Inr (None, ms)
        | Inr (Some s) \<Rightarrow> match src pat ms s (p + 4))"
  by (subst match.simps) (auto simp: kind_def L_ESC_def Let_def split: if_splits)

lemma match_KFrontier: "kind pat p = KFrontier \<Longrightarrow>
    match src pat ms s p =
      (if char_at pat (p + 2) \<noteq> CHR ''['' then Inl ''missing '[' after '%f' in pattern''
       else case classend pat (p + 2) of
          Inl e \<Rightarrow> Inl e
        | Inr ep \<Rightarrow> if frontier src pat s (p + 2) ep then match src pat ms s ep else Inr (None, ms))"
  by (subst match.simps) (auto simp: kind_def frontier_def L_ESC_def Let_def split: if_splits sum.splits)

lemma match_KBack: "kind pat p = KBack \<Longrightarrow>
    match src pat ms s p = (case match_capture src ms s (uchar (char_at pat (p + 1))) of
          Inl e \<Rightarrow> Inl e
        | Inr None \<Rightarrow> Inr (None, ms)
        | Inr (Some s) \<Rightarrow> match src pat ms s (p + 2))"
  by (subst match.simps) (auto simp: kind_def L_ESC_def Let_def split: if_splits)

lemma match_KItem: "kind pat p = KItem \<Longrightarrow>
    match src pat ms s p = (case classend pat p of
          Inl e \<Rightarrow> Inl e
        | Inr ep \<Rightarrow>
            (let m = item_run src pat p ep s 1; d = char_at pat ep in
             if d = CHR ''?'' then
               (if m then
                  (case match src pat ms (s + 1) (ep + 1) of
                     Inl e \<Rightarrow> Inl e
                   | Inr (Some r, ms) \<Rightarrow> Inr (Some r, ms)
                   | Inr (None, ms) \<Rightarrow> match src pat ms s (ep + 1))
                else match src pat ms s (ep + 1))
             else if d = CHR ''*'' then max_expand src pat (\<lambda>ms s. match src pat ms s (ep + 1)) ms s p ep
             else if d = CHR ''+'' then
               (if m then max_expand src pat (\<lambda>ms s. match src pat ms s (ep + 1)) ms (s + 1) p ep
                else Inr (None, ms))
             else if d = CHR ''-'' then min_expand src pat (\<lambda>ms s. match src pat ms s (ep + 1)) ms s p ep
             else if \<not> m then Inr (None, ms)
             else match src pat ms (s + 1) ep))"
proof -
  assume k: "kind pat p = KItem"
  have "item_run src pat p ep s 1 \<longleftrightarrow> s < length src \<and> singlematch pat (uchar (char_at src s)) p ep" for ep
    by (simp add: item_run_def)
  note item = this
  from k have n: "char_at pat p \<noteq> CHR ''(''" "char_at pat p \<noteq> CHR '')''"
    "\<not> (char_at pat p = L_ESC \<and> char_at pat (p + 1) = CHR ''b'')"
    "\<not> (char_at pat p = L_ESC \<and> char_at pat (p + 1) = CHR ''f'')"
    "\<not> (char_at pat p = L_ESC \<and> isdigit (uchar (char_at pat (p + 1))))"
    "char_at pat p \<noteq> NUL" "\<not> (char_at pat p = CHR ''$'' \<and> char_at pat (p + 1) = NUL)"
    unfolding kind_def Let_def by (simp_all only: kind.distinct if_True if_False not_False_eq_True simp_thms split: if_splits)
  show ?thesis
    unfolding match.simps [of src pat ms s p] Let_def item by (simp only: n if_False)
qed

lemmas match_kinds = match_KEnd match_KDollar match_KPos match_KOpen match_KClose match_KBalance
  match_KFrontier match_KBack match_KItem

lemma search_kinds:
  "kind pat p = KEnd \<Longrightarrow> search src pat cs s p = [Inr (s, cs)]"
  "kind pat p = KDollar \<Longrightarrow> search src pat cs s p = (if s = length src then [Inr (s, cs)] else [])"
  by (simp_all add: search.simps)

lemma seeks_match_step:
  assumes IH: "\<And>q. p < q \<Longrightarrow> seeks (\<lambda>ms s. match src pat ms s q) (\<lambda>cs s. search src pat cs s q)"
  shows "seeks (\<lambda>ms s. match src pat ms s p) (\<lambda>cs s. search src pat cs s p)"
proof (cases "kind pat p")
  case KEnd
  show ?thesis by (rule seeksI) (simp add: match_KEnd [OF KEnd] search.simps [of src pat _ _ p] KEnd)
next
  case KDollar
  show ?thesis by (rule seeksI) (simp add: match_KDollar [OF KDollar] search.simps [of src pat _ _ p] KDollar)
next
  case KPos
  have e: "search src pat cs s p = (if length cs \<ge> LUA_MAXCAPTURES then [Inl ''too many captures'']
      else search src pat (cs @ [(s, CAP_POSITION)]) s (p + 2))" for cs s
    by (subst search.simps) (simp add: KPos)
  show ?thesis unfolding match_KPos [OF KPos] e by (rule start_capture_seeks) (rule IH, simp)
next
  case KOpen
  have e: "search src pat cs s p = (if length cs \<ge> LUA_MAXCAPTURES then [Inl ''too many captures'']
      else search src pat (cs @ [(s, CAP_UNFINISHED)]) s (p + 1))" for cs s
    by (subst search.simps) (simp add: KOpen)
  show ?thesis unfolding match_KOpen [OF KOpen] e by (rule start_capture_seeks) (rule IH, simp)
next
  case KClose
  have e: "search src pat cs s p = (case open_capture cs (length cs) of
       None \<Rightarrow> [Inl ''invalid pattern capture'']
     | Some l \<Rightarrow> search src pat (cs[l := (fst (cs ! l), int s - int (fst (cs ! l)))]) s (p + 1))" for cs s
    by (subst search.simps) (simp add: KClose)
  show ?thesis unfolding match_KClose [OF KClose] e by (rule end_capture_seeks) (rule IH, simp)
next
  case KBalance
  have e: "search src pat cs s p = (case matchbalance src pat s (p + 2) of
       Inl err \<Rightarrow> [Inl err] | Inr None \<Rightarrow> [] | Inr (Some s') \<Rightarrow> search src pat cs s' (p + 4))" for cs s
    by (subst search.simps) (simp add: KBalance)
  have i: "seeks (\<lambda>ms s. match src pat ms s (p + 4)) (\<lambda>cs s. search src pat cs s (p + 4))" by (rule IH) simp
  show ?thesis unfolding match_KBalance [OF KBalance] e
    by (rule seeksI) (use seeksD [OF i] in \<open>auto split: sum.split option.split\<close>)
next
  case KFrontier
  have e: "search src pat cs s p = (if char_at pat (p + 2) \<noteq> CHR ''['' then [Inl ''missing '[' after '%f' in pattern'']
       else (case classend pat (p + 2) of
         Inl err \<Rightarrow> [Inl err]
       | Inr ep \<Rightarrow> if frontier src pat s (p + 2) ep then search src pat cs s ep else []))" for cs s
    by (subst search.simps) (simp add: KFrontier)
  have i: "seeks (\<lambda>ms s. match src pat ms s ep) (\<lambda>cs s. search src pat cs s ep)" if "classend pat (p + 2) = Inr ep" for ep
    by (rule IH) (use classend_greater [OF that] in simp)
  show ?thesis unfolding match_KFrontier [OF KFrontier] e
    by (rule seeksI) (use seeksD [OF i] in \<open>auto split: sum.split\<close>)
next
  case KBack
  have e: "search src pat cs s p = (case match_capture src (as_state cs) s (uchar (char_at pat (p + 1))) of
       Inl err \<Rightarrow> [Inl err] | Inr None \<Rightarrow> [] | Inr (Some s') \<Rightarrow> search src pat cs s' (p + 2))" for cs s
    by (subst search.simps) (simp add: KBack)
  have i: "seeks (\<lambda>ms s. match src pat ms s (p + 2)) (\<lambda>cs s. search src pat cs s (p + 2))" by (rule IH) simp
  show ?thesis unfolding match_KBack [OF KBack] e
    by (rule seeksI) (use seeksD [OF i] in \<open>auto simp: match_capture_caps split: sum.split option.split\<close>)
next
  case KItem
  show ?thesis
  proof (cases "classend pat p")
    case (Inl err)
    show ?thesis
      by (rule seeksI) (simp add: match_KItem [OF KItem] search.simps [of src pat _ _ p] KItem Inl)
  next
    case (Inr ep)
    have p: "p < ep" by (rule classend_greater [OF Inr])
    define d where "d = char_at pat ep"
    define k where "k = (\<lambda>ms s. match src pat ms s (behind_item d ep))"
    define F where "F = (\<lambda>cs s. search src pat cs s (behind_item d ep))"
    have k: "seeks k F" unfolding k_def F_def by (rule IH) (use p in \<open>simp add: behind_item_def\<close>)
    have e: "search src pat cs s p = concat (map (\<lambda>n. F cs (s + n)) (filter (item_run src pat p ep s) (choices d (length src - s))))"
      for cs s by (subst search.simps) (simp add: KItem Inr F_def d_def Let_def)
    note m = match_KItem [OF KItem, of src, unfolded Inr, simplified sum.case Let_def, folded d_def]
    consider "d = CHR ''?''" | "d = CHR ''*''" | "d = CHR ''+''" | "d = CHR ''-''"
      | "d \<notin> {CHR ''?'', CHR ''*'', CHR ''+'', CHR ''-''}" by blast
    then show ?thesis
    proof cases
      case 1
      have kd: "k = (\<lambda>ms s. match src pat ms s (ep + 1))" by (simp add: k_def behind_item_def 1)
      have mt: "match src pat ms s p = (if item_run src pat p ep s 1 then
            (case k ms (s + 1) of Inl e \<Rightarrow> Inl e | Inr (Some r, ms) \<Rightarrow> Inr (Some r, ms)
               | Inr (None, ms) \<Rightarrow> k ms s) else k ms s)" for ms s
        unfolding m kd by (simp only: 1 if_True simp_thms)
      have se: "search src pat cs s p = (if item_run src pat p ep s 1 then F cs (s + 1) @ F cs s else F cs s)" for cs s
        unfolding e by (simp add: 1 choices_def)
      have "is_first (F (caps ms) (s + 1) @ F (caps ms) s) (caps ms)
          (case k ms (s + 1) of Inl e \<Rightarrow> Inl e | Inr (Some r, ms) \<Rightarrow> Inr (Some r, ms) | Inr (None, ms) \<Rightarrow> k ms s)"
        if "ms_ok ms" for ms s
        by (rule is_first_or [OF seeksD [OF k that]]) (use seeksD [OF k] in metis)
      then show ?thesis unfolding mt se using seeksD [OF k] by (intro seeksI) simp
    next
      case 2
      have kd: "k = (\<lambda>ms s. match src pat ms s (ep + 1))" by (simp add: k_def behind_item_def 2)
      have "match src pat ms s p = max_expand src pat k ms s p ep" for ms s by (simp add: m 2 kd)
      then show ?thesis using max_expand_seeks [OF k, of src pat p ep] unfolding e by (simp add: 2 choices_def)
    next
      case 3
      have kd: "k = (\<lambda>ms s. match src pat ms s (ep + 1))" by (simp add: k_def behind_item_def 3)
      have mt: "match src pat ms s p = (if item_run src pat p ep s 1 then max_expand src pat k ms (s + 1) p ep
          else Inr (None, ms))" for ms s by (simp add: m 3 kd)
      have f: "filter (item_run src pat p ep s) (rev [1..<Suc (length src - s)])
          = (if item_run src pat p ep s 1 then map Suc (filter (item_run src pat p ep (s + 1)) (rev [0..<Suc (length src - (s + 1))])) else [])" for s
      proof (cases "item_run src pat p ep s 1")
        case True
        then have s: "s < length src" by (simp add: item_run_def)
        then have "Suc (length src - (s + 1)) = length src - s" by simp
        then have "rev [1..<Suc (length src - s)] = map Suc (rev [0..<Suc (length src - (s + 1))])"
          by (simp only: rev_map [symmetric] map_Suc_upt One_nat_def)
        moreover have "item_run src pat p ep s (Suc n) = item_run src pat p ep (s + 1) n" for n
          using True by (simp add: item_run_Suc)
        ultimately show ?thesis using True by (simp add: filter_map comp_def del: upt_Suc)
      next
        case False
        then have "\<not> item_run src pat p ep s n" if "1 \<le> n" for n using item_run_le that by blast
        then show ?thesis using False by (simp add: filter_empty_conv del: upt_Suc)
      qed
      have se: "search src pat cs s p = (if item_run src pat p ep s 1 then
          concat (map (\<lambda>n. F cs (s + 1 + n)) (filter (item_run src pat p ep (s + 1)) (rev [0..<Suc (length src - (s + 1))]))) else [])" for cs s
      proof -
        have "choices d n = rev [1..<Suc n]" for n by (simp add: 3 choices_def del: upt_Suc One_nat_def)
        then show ?thesis unfolding e by (simp only: f) (simp add: comp_def del: upt_Suc)
      qed
      show ?thesis
        unfolding mt se
      proof (rule seeksI)
        fix ms s assume "ms_ok ms"
        from seeksD [OF max_expand_seeks [OF k, of src pat p ep] this, of "s + 1"] this
        show "is_first (if item_run src pat p ep s 1 then
            concat (map (\<lambda>n. F (caps ms) (s + 1 + n)) (filter (item_run src pat p ep (s + 1)) (rev [0..<Suc (length src - (s + 1))])))
            else []) (caps ms)
          (if item_run src pat p ep s 1 then max_expand src pat k ms (s + 1) p ep else Inr (None, ms))"
          by (simp del: upt_Suc)
      qed
    next
      case 4
      have kd: "k = (\<lambda>ms s. match src pat ms s (ep + 1))" by (simp add: k_def behind_item_def 4)
      have "match src pat ms s p = min_expand src pat k ms s p ep" for ms s by (simp add: m 4 kd)
      then show ?thesis using min_expand_seeks_all [OF k, of src pat p ep] unfolding e by (simp add: 4 choices_def)
    next
      case 5
      have kd: "k = (\<lambda>ms s. match src pat ms s ep)" using 5 by (simp add: k_def behind_item_def)
      have "match src pat ms s p = (if item_run src pat p ep s 1 then k ms (s + 1)
          else Inr (None, ms))" for ms s using 5 by (auto simp add: m kd)
      moreover have "search src pat cs s p = (if item_run src pat p ep s 1 then F cs (s + 1) else [])" for cs s
        unfolding e using 5 by (simp add: choices_def)
      ultimately show ?thesis using seeksD [OF k] by (intro seeksI) simp
    qed
  qed
qed

lemma match_seeks: "seeks (\<lambda>ms s. match src pat ms s p) (\<lambda>cs s. search src pat cs s p)"
proof (induction "length pat - p" arbitrary: p rule: less_induct)
  case less
  show ?case
  proof (cases "p < length pat")
    case True
    show ?thesis by (rule seeks_match_step, rule less) (use True in \<open>simp add: diff_less_mono2\<close>)
  next
    case False
    then have "char_at pat p = NUL" by (simp add: char_at_def)
    then have "kind pat p = KEnd" by (simp add: kind_def L_ESC_def)
    then show ?thesis by (intro seeksI) (simp add: match_KEnd search.simps [of src pat _ _ p])
  qed
qed

section \<open>The relation\<close>

text \<open>The outcomes without an error are the matches of the relation, whatever their order.\<close>

lemma choices_iff:
  "item_run src pat p ep s n \<Longrightarrow> n \<in> set (choices d (length src - s)) \<longleftrightarrow>
    (d = CHR ''?'' \<and> n \<le> 1 \<or> d \<in> {CHR ''*'', CHR ''-''} \<or> d = CHR ''+'' \<and> 1 \<le> n
     \<or> d \<notin> {CHR ''?'', CHR ''*'', CHR ''+'', CHR ''-''} \<and> n = 1)"
proof -
  assume "item_run src pat p ep s n"
  then have "n \<le> length src - s"
    unfolding count_expand_run [OF order_refl] using count_expand_le order_trans by blast
  then show ?thesis by (auto simp: choices_def)
qed

lemma search_pm: "Inr (e, cs') \<in> set (search src pat cs s p) \<longleftrightarrow> pm src pat cs s p e cs'"
proof (induction src pat cs s p rule: search.induct)
  case (1 src pat cs s p)
  show ?case
  proof (cases "kind pat p")
    case KEnd
    then show ?thesis by (subst search.simps) (auto intro: pm_end elim: pm_kindE)
  next
    case KDollar
    then show ?thesis by (subst search.simps) (auto intro: pm_dollar elim: pm_kindE)
  next
    case KPos
    with 1 show ?thesis by (subst search.simps) (auto intro: pm_pos elim: pm_kindE)
  next
    case KOpen
    with 1 show ?thesis by (subst search.simps) (auto intro: pm_open elim: pm_kindE)
  next
    case KClose
    with 1 show ?thesis by (subst search.simps) (auto intro: pm_close elim: pm_kindE split: option.splits)
  next
    case KBalance
    have "pm src pat cs s p e cs' \<longleftrightarrow> (\<exists>s'. matchbalance src pat s (p + 2) = Inr (Some s') \<and> pm src pat cs s' (p + 4) e cs')"
      by (auto simp: KBalance intro: pm_balance [OF KBalance] elim: pm_kindE)
    with 1(4) [OF KBalance] show ?thesis by (subst search.simps) (auto simp: KBalance split: sum.split option.split)
  next
    case KFrontier
    have "pm src pat cs s p e cs' \<longleftrightarrow> (\<exists>ep. char_at pat (p + 2) = CHR ''['' \<and> classend pat (p + 2) = Inr ep
        \<and> frontier src pat s (p + 2) ep \<and> pm src pat cs s ep e cs')"
      by (auto simp: KFrontier intro: pm_frontier [OF KFrontier] elim: pm_kindE)
    with 1(5) [OF KFrontier] show ?thesis by (subst search.simps) (auto simp: KFrontier split: sum.split)
  next
    case KBack
    have "pm src pat cs s p e cs' \<longleftrightarrow> (\<exists>s'. match_capture src (as_state cs) s (uchar (char_at pat (p + 1))) = Inr (Some s')
        \<and> pm src pat cs s' (p + 2) e cs')"
      by (auto simp: KBack intro: pm_back [OF KBack] elim: pm_kindE)
    with 1(6) [OF KBack] show ?thesis by (subst search.simps) (auto simp: KBack split: sum.split option.split)
  next
    case KItem
    show ?thesis
    proof (cases "classend pat p")
      case (Inl err)
      then show ?thesis using KItem by (subst search.simps) (auto elim: pm_kindE)
    next
      case (Inr ep)
      define d where "d = char_at pat ep"
      have IH: "Inr (e, cs') \<in> set (search src pat cs (s + n) (behind_item d ep)) \<longleftrightarrow> pm src pat cs (s + n) (behind_item d ep) e cs'"
        if "item_run src pat p ep s n" "n \<in> set (choices d (length src - s))" for n
        using 1(7) [OF KItem Inr d_def, of n] that by simp
      have 2: "Inr (e, cs') \<in> set (search src pat cs s p) \<longleftrightarrow>
          (\<exists>n. item_run src pat p ep s n \<and> n \<in> set (choices d (length src - s)) \<and> pm src pat cs (s + n) (behind_item d ep) e cs')"
        using IH by (subst search.simps) (auto simp: KItem Inr Let_def simp flip: d_def)
      have pm: "pm src pat cs s p e cs' \<longleftrightarrow>
          (d \<notin> {CHR ''?'', CHR ''*'', CHR ''+'', CHR ''-''} \<and> item_run src pat p ep s 1 \<and> pm src pat cs (s + 1) ep e cs')
          \<or> (\<exists>n. (d = CHR ''?'' \<and> n \<le> 1 \<or> d \<in> {CHR ''*'', CHR ''-''} \<or> d = CHR ''+'' \<and> 1 \<le> n)
              \<and> item_run src pat p ep s n \<and> pm src pat cs (s + n) (ep + 1) e cs')"
        unfolding d_def
        using pm_single [OF KItem Inr, of src s cs e cs'] pm_repeat [OF KItem Inr, of _ src s cs e cs']
        by (auto simp: KItem Inr elim: pm_kindE)
      have "(\<exists>n. item_run src pat p ep s n \<and> n \<in> set (choices d (length src - s)) \<and> pm src pat cs (s + n) (behind_item d ep) e cs')
          \<longleftrightarrow> pm src pat cs s p e cs'"
      proof (cases "d \<in> {CHR ''?'', CHR ''*'', CHR ''+'', CHR ''-''}")
        case True
        have "pm src pat cs s p e cs' \<longleftrightarrow> (\<exists>n. (d = CHR ''?'' \<and> n \<le> 1 \<or> d \<in> {CHR ''*'', CHR ''-''} \<or> d = CHR ''+'' \<and> 1 \<le> n)
            \<and> item_run src pat p ep s n \<and> pm src pat cs (s + n) (ep + 1) e cs')"
          unfolding pm using True by blast
        moreover have "n \<in> set (choices d (length src - s)) \<longleftrightarrow> d = CHR ''?'' \<and> n \<le> 1 \<or> d \<in> {CHR ''*'', CHR ''-''} \<or> d = CHR ''+'' \<and> 1 \<le> n"
          if "item_run src pat p ep s n" for n using choices_iff [OF that, of d] True by blast
        moreover have "behind_item d ep = ep + 1" using True by (simp add: behind_item_def)
        ultimately show ?thesis by (metis (no_types, lifting))
      next
        case False
        then have "pm src pat cs s p e cs' \<longleftrightarrow> item_run src pat p ep s 1 \<and> pm src pat cs (s + 1) ep e cs'"
          unfolding pm by blast
        moreover have "n \<in> set (choices d (length src - s)) \<longleftrightarrow> n = 1" if "item_run src pat p ep s n" for n
          using choices_iff [OF that, of d] False by blast
        moreover have "behind_item d ep = ep" using False by (simp add: behind_item_def)
        ultimately show ?thesis by (metis (no_types, lifting))
      qed
      with 2 show ?thesis by simp
    qed
  qed
qed

text \<open>What a result of the matcher says about the relation.\<close>

lemma match_pm:
  assumes "ms_ok ms"
  shows "match src pat ms s p = Inr (Some e, ms') \<Longrightarrow> ms_ok ms' \<and> pm src pat (caps ms) s p e (caps ms')"
    "match src pat ms s p = Inr (None, ms') \<Longrightarrow> ms_ok ms' \<and> caps ms' = caps ms \<and> (\<forall>e cs. \<not> pm src pat (caps ms) s p e cs)"
proof -
  note f = seeksD [OF match_seeks [of src pat p] assms, of s]
  show "ms_ok ms' \<and> pm src pat (caps ms) s p e (caps ms')" if "match src pat ms s p = Inr (Some e, ms')"
    using f that search_pm [of e "caps ms'" src pat "caps ms" s p]
    by (cases "search src pat (caps ms) s p") (auto simp: is_first_def split: list.splits sum.splits prod.splits)
  show "ms_ok ms' \<and> caps ms' = caps ms \<and> (\<forall>e cs. \<not> pm src pat (caps ms) s p e cs)"
    if "match src pat ms s p = Inr (None, ms')"
    using f that search_pm [of _ _ src pat "caps ms" s p]
    by (cases "search src pat (caps ms) s p") (auto simp: is_first_def split: list.splits sum.splits prod.splits)
qed

section \<open>What a match is\<close>

lemma balance_loop_bounds: "balance_loop src b e s cont = Some r \<Longrightarrow> s < r \<and> r \<le> length src"
proof (induction src b e s cont rule: balance_loop.induct)
  case (1 src b e s cont)
  then show ?case
    by (subst (asm) (4) balance_loop.simps) (fastforce simp: Let_def split: if_splits)
qed

lemma matchbalance_bounds:
  "matchbalance src pat s p = Inr (Some r) \<Longrightarrow> s \<le> r \<and> r \<le> length src"
  by (auto simp: matchbalance_def dest!: balance_loop_bounds split: if_splits)

lemma match_capture_bounds:
  "match_capture src ms s c = Inr (Some r) \<Longrightarrow> s \<le> length src \<Longrightarrow> s \<le> r \<and> r \<le> length src"
  by (auto simp: match_capture_def Let_def split: sum.splits if_splits)

lemma pm_bounds: "pm src pat cs s p e cs' \<Longrightarrow> s \<le> length src \<Longrightarrow> s \<le> e \<and> e \<le> length src"
proof (induction rule: pm.induct)
  case (pm_balance p s s' cs e cs')
  then show ?case using matchbalance_bounds [OF pm_balance(2)] by simp
next
  case (pm_back p cs s s' e cs')
  then show ?case using match_capture_bounds [OF pm_back(2)] by simp
next
  case (pm_single p ep s cs e cs')
  then show ?case by (simp add: item_run_def)
next
  case (pm_repeat p ep n s cs e cs')
  have "s + n \<le> length src"
  proof (cases n)
    case (Suc m)
    with pm_repeat(4) show ?thesis by (auto simp: item_run_def dest: spec [of _ m])
  qed (use pm_repeat in simp)
  with pm_repeat show ?case by simp
qed simp_all

text \<open>A capture lies in the part of the subject that has been matched.\<close>

definition cap_in :: "nat \<Rightarrow> cap \<Rightarrow> bool" where
  "cap_in s c \<longleftrightarrow> fst c \<le> s \<and> (snd c = CAP_POSITION \<or> snd c = CAP_UNFINISHED
     \<or> 0 \<le> snd c \<and> int (fst c) + snd c \<le> int s)"

lemma cap_in_mono: "cap_in s c \<Longrightarrow> s \<le> t \<Longrightarrow> cap_in t c"
  by (auto simp: cap_in_def)

lemma pm_caps:
  "pm src pat cs s p e cs' \<Longrightarrow> s \<le> length src \<Longrightarrow> \<forall>c \<in> set cs. cap_in s c \<Longrightarrow>
    (\<forall>c \<in> set cs'. cap_in e c) \<and> length cs \<le> length cs' \<and> (length cs \<le> LUA_MAXCAPTURES \<longrightarrow> length cs' \<le> LUA_MAXCAPTURES)"
proof (induction rule: pm.induct)
  case (pm_close p cs l s e cs')
  have l: "l < length cs" using open_capture_less [OF pm_close(2)] by simp
  then have f: "fst (cs ! l) \<le> s" using pm_close(6) by (auto simp: cap_in_def)
  have "\<forall>c \<in> set (cs[l := (fst (cs ! l), int s - int (fst (cs ! l)))]). cap_in s c"
    using f pm_close(6) by (auto simp: cap_in_def dest!: set_update_subset_insert [THEN subsetD])
  with pm_close show ?case by simp
next
  case (pm_balance p s s' cs e cs')
  then show ?case using matchbalance_bounds [OF pm_balance(2)] cap_in_mono [of s _ s'] by auto
next
  case (pm_back p cs s s' e cs')
  then show ?case using match_capture_bounds [OF pm_back(2)] cap_in_mono [of s _ s'] by auto
next
  case (pm_single p ep s cs e cs')
  then show ?case using cap_in_mono [of s _ "s + 1"] by (auto simp: item_run_def)
next
  case (pm_repeat p ep n s cs e cs')
  have "s + n \<le> length src"
  proof (cases n)
    case (Suc m)
    with pm_repeat(4) show ?thesis by (auto simp: item_run_def dest: spec [of _ m])
  qed (use pm_repeat in simp)
  with pm_repeat show ?case using cap_in_mono [of s _ "s + n"] by auto
qed (auto simp: cap_in_def)

text \<open>
  C19: \<open>match\<close> returns the first outcome of the search in the order of the manual: a greedy item is tried
  with the longest run first, \<open>-\<close> with the shortest, \<open>?\<close> with one character before none, and what follows an
  item is tried for each run in turn. If the first outcome is a match, \<open>match\<close> returns its end and
  leaves its captures; if it is an error of the pattern, that error is raised; if there is none, \<open>match\<close>
  returns \<open>NULL\<close> and the captures are as before.
\<close>

theorem match_finds_first:
  assumes "ms_ok ms"
  shows "case search src pat (caps ms) s p of
       [] \<Rightarrow> \<exists>ms'. match src pat ms s p = Inr (None, ms') \<and> ms_ok ms' \<and> caps ms' = caps ms
     | Inl err # _ \<Rightarrow> match src pat ms s p = Inl err
     | Inr (e, cs) # _ \<Rightarrow> \<exists>ms'. match src pat ms s p = Inr (Some e, ms') \<and> ms_ok ms' \<and> caps ms' = cs"
  using seeksD [OF match_seeks [of src pat p] assms] unfolding is_first_def .

definition init_state :: MatchState where
  "init_state = \<lparr>level = 0, capture = replicate 32 (0, 0)\<rparr>"

theorem match_finds_first_witness:
  "search ''hellooo'' ''l(.*)o'' (caps init_state) 2 0 \<noteq> []
    \<and> hd (search ''hellooo'' ''l(.*)o'' (caps init_state) 2 0) = Inr (7, [(3, 3)])"
proof -
  have ok: "ms_ok init_state" by (simp add: ms_ok_def init_state_def LUA_MAXCAPTURES_def)
  have "match ''hellooo'' ''l(.*)o'' init_state 2 0 = Inr (Some 7, \<lparr>level = 1, capture = (3, 3) # replicate 31 (0, 0)\<rparr>)"
    by code_simp
  with match_finds_first [OF ok, of "''hellooo''" "''l(.*)o''" 2 0] show ?thesis
    by (auto simp: caps_def split: list.splits sum.splits)
qed

text \<open>
  C20: a match that starts inside the subject ends inside it, not before it started; the captures
  lie in what was matched, and there are never more than \<open>LUA_MAXCAPTURES\<close> of them, so that
  the capture array and the subject are never read or written out of bounds.
\<close>

theorem match_in_bounds:
  assumes "ms_ok ms" "s \<le> length src" "\<forall>c \<in> set (caps ms). cap_in s c"
    and "match src pat ms s p = Inr (Some e, ms')"
  shows "s \<le> e \<and> e \<le> length src \<and> ms_ok ms' \<and> (\<forall>c \<in> set (caps ms'). cap_in e c)"
  using match_pm(1) [OF assms(1,4)] pm_bounds [OF _ assms(2)] pm_caps [OF _ assms(2,3)]
  by blast

theorem match_in_bounds_witness:
  "\<exists>ms'. match ''x(a(b))'' ''(%b())'' init_state 1 0 = Inr (Some 7, ms')
    \<and> (1::nat) \<le> 7 \<and> 7 \<le> length ''x(a(b))'' \<and> ms_ok ms' \<and> (\<forall>c \<in> set (caps ms'). cap_in 7 c)"
proof -
  have "ms_ok init_state" by (simp add: ms_ok_def init_state_def LUA_MAXCAPTURES_def)
  moreover have m: "match ''x(a(b))'' ''(%b())'' init_state 1 0
      = Inr (Some 7, \<lparr>level = 1, capture = (1, 6) # replicate 31 (0, 0)\<rparr>)" by code_simp
  ultimately show ?thesis
    using match_in_bounds [OF _ _ _ m] by (simp add: caps_def init_state_def)
qed

end
