(* ===== verification/Strlib.thy ===== *)
theory Strlib
  imports Pattern_Spec
begin

text \<open>
  The functions of the string library (\<open>lstrlib.c\<close>). An argument has been checked and converted
  by the functions of \<open>lauxlib.c\<close> before: strings are lists of characters, integers are
  \<open>int\<close>. A \<open>luaL_Buffer\<close> is the string that it holds. What a function pushes on the stack is
  its result, the message of \<open>luaL_error\<close> is an error.
\<close>

section \<open>Simple functions\<close>

datatype sval = SInt int | SStr string | SNil

definition str_len :: "string \<Rightarrow> int" where
  "str_len s = int (length s)"

definition posrelat :: "int \<Rightarrow> nat \<Rightarrow> int" where
  "posrelat pos len = (let pos = (if pos < 0 then pos + int len + 1 else pos) in if pos \<ge> 0 then pos else 0)"

definition str_sub :: "string \<Rightarrow> int \<Rightarrow> int \<Rightarrow> string" where
  "str_sub s i j =
    (let l = length s; start = posrelat i l; e = posrelat j l;
         start = (if start < 1 then 1 else start);
         e = (if e > int l then int l else e)
     in if start \<le> e then take (nat (e - start + 1)) (drop (nat (start - 1)) s) else [])"

text \<open>The loop counts \<open>l\<close> down to 0.\<close>

fun reverse_loop :: "string \<Rightarrow> nat \<Rightarrow> string" where
  "reverse_loop s 0 = []"
| "reverse_loop s (Suc l) = char_at s l # reverse_loop s l"

definition str_reverse :: "string \<Rightarrow> string" where
  "str_reverse s = reverse_loop s (length s)"

definition str_lower :: "string \<Rightarrow> string" where
  "str_lower s = map (\<lambda>c. char_of (tolower (uchar c))) s"

definition str_upper :: "string \<Rightarrow> string" where
  "str_upper s = map (\<lambda>c. char_of (toupper (uchar c))) s"

definition str_rep :: "string \<Rightarrow> int \<Rightarrow> string" where
  "str_rep s n = concat (replicate (nat n) s)"

text \<open>
  \<open>n\<close> is an \<open>int\<close>: the cast wraps around. \<open>luaL_checkstack\<close> fails when the \<open>used\<close> values on the
  stack and \<open>n\<close> more exceed \<open>LUAI_MAXCSTACK\<close>.
\<close>

definition LUAI_MAXCSTACK :: int where "LUAI_MAXCSTACK = 8000"

definition to_cint :: "int \<Rightarrow> int" where "to_cint x = (x + 2 ^ 31) mod 2 ^ 32 - 2 ^ 31"

definition lua_checkstack :: "nat \<Rightarrow> int \<Rightarrow> bool" where
  "lua_checkstack used n \<longleftrightarrow> \<not> (n > LUAI_MAXCSTACK \<or> int used + n > LUAI_MAXCSTACK)"

definition str_byte :: "nat \<Rightarrow> string \<Rightarrow> int \<Rightarrow> int \<Rightarrow> string + int list" where
  "str_byte used s i j =
    (let l = length s; posi = posrelat i l; pose = posrelat j l;
         posi = (if posi \<le> 0 then 1 else posi);
         pose = (if pose > int l then int l else pose)
     in if posi > pose then Inr []
        else
          let n = to_cint (pose - posi + 1) in
          if posi + n \<le> pose then Inl ''string slice too long''
          else if \<not> lua_checkstack used n then Inl ''stack overflow (string slice too long)''
          else Inr (map (\<lambda>k. int (uchar (char_at s (nat posi + k - 1)))) [0..<nat n]))"

definition to_uchar :: "int \<Rightarrow> int" where "to_uchar c = c mod 256"

definition is_uchar :: "int \<Rightarrow> bool" where "is_uchar c \<longleftrightarrow> to_uchar c = c"

text \<open>The argument error names the position of the bad argument.\<close>

fun char_loop :: "nat \<Rightarrow> int list \<Rightarrow> string \<Rightarrow> nat + string" where
  "char_loop i [] b = Inr b"
| "char_loop i (c # cs) b =
     (if is_uchar c then char_loop (i + 1) cs (b @ [char_of (nat (to_uchar c))]) else Inl i)"

definition str_char :: "int list \<Rightarrow> nat + string" where
  "str_char cs = char_loop 1 cs []"

section \<open>Plain search\<close>

text \<open>\<open>memchr\<close> from the position \<open>p\<close> on, over \<open>n\<close> characters.\<close>

fun memchr :: "string \<Rightarrow> nat \<Rightarrow> char \<Rightarrow> nat \<Rightarrow> nat option" where
  "memchr s p c 0 = None"
| "memchr s p c (Suc n) = (if char_at s p = c then Some p else memchr s (p + 1) c n)"

lemma memchr_Some: "memchr s p c n = Some i \<Longrightarrow> p \<le> i \<and> i < p + n \<and> char_at s i = c
    \<and> (\<forall>j. p \<le> j \<and> j < i \<longrightarrow> char_at s j \<noteq> c)"
proof (induction n arbitrary: p)
  case (Suc n)
  show ?case
  proof (cases "char_at s p = c")
    case False
    with Suc.prems have "memchr s (p + 1) c n = Some i" by simp
    from Suc.IH [OF this] have i: "p + 1 \<le> i" "i < p + 1 + n" "char_at s i = c"
      "\<And>j. p + 1 \<le> j \<Longrightarrow> j < i \<Longrightarrow> char_at s j \<noteq> c" by auto
    have "char_at s j \<noteq> c" if "p \<le> j" "j < i" for j
      using i(4) [of j] that False by (cases "j = p") auto
    with i show ?thesis by simp
  qed (use Suc.prems in auto)
qed simp

lemma memchr_None: "memchr s p c n = None \<Longrightarrow> p \<le> i \<Longrightarrow> i < p + n \<Longrightarrow> char_at s i \<noteq> c"
proof (induction n arbitrary: p)
  case (Suc n)
  from Suc.prems(1) have n: "char_at s p \<noteq> c" "memchr s (p + 1) c n = None" by (auto split: if_splits)
  with Suc.IH [OF n(2)] Suc.prems(2,3) show ?case by (cases "i = p") auto
qed simp

text \<open>\<open>l1\<close> is the number of positions that are left for the first character.\<close>

function lmemfind_loop :: "string \<Rightarrow> nat \<Rightarrow> nat \<Rightarrow> string \<Rightarrow> nat option" where
  "lmemfind_loop s1 p l1 s2 =
    (if l1 > 0 then
       (case memchr s1 p (char_at s2 0) l1 of
          None \<Rightarrow> None
        | Some i \<Rightarrow>
            (let init = i + 1; l2 = length s2 - 1 in
             if take l2 (drop init s1) = drop 1 s2 then Some (init - 1)
             else lmemfind_loop s1 init (l1 - (init - p)) s2))
     else None)"
  by pat_completeness auto
termination
  by (relation "measure (\<lambda>(s1, p, l1, s2). l1)") (auto dest: memchr_Some)

declare lmemfind_loop.simps [simp del]

definition lmemfind :: "string \<Rightarrow> nat \<Rightarrow> string \<Rightarrow> nat option" where
  "lmemfind s1 p s2 =
    (let l1 = length s1 - p; l2 = length s2 in
     if l2 = 0 then Some p
     else if l2 > l1 then None
     else lmemfind_loop s1 p (l1 - (l2 - 1)) s2)"

section \<open>Captured values\<close>

definition substr :: "string \<Rightarrow> nat \<Rightarrow> nat \<Rightarrow> string" where
  "substr src s e = take (e - s) (drop s src)"

definition push_onecapture :: "string \<Rightarrow> MatchState \<Rightarrow> nat \<Rightarrow> nat \<Rightarrow> nat \<Rightarrow> string + sval" where
  "push_onecapture src ms i s e =
    (if i \<ge> level ms then
       (if i = 0 then Inr (SStr (substr src s e)) else Inl ''invalid capture index'')
     else
       (let l = snd (capture ms ! i); init = fst (capture ms ! i) in
        if l = CAP_UNFINISHED then Inl ''unfinished capture''
        else if l = CAP_POSITION then Inr (SInt (int init + 1))
        else Inr (SStr (take (nat l) (drop init src)))))"

fun push_list :: "string \<Rightarrow> MatchState \<Rightarrow> nat \<Rightarrow> nat \<Rightarrow> nat list \<Rightarrow> string + sval list" where
  "push_list src ms s e [] = Inr []"
| "push_list src ms s e (i # is) = (case push_onecapture src ms i s e of
     Inl err \<Rightarrow> Inl err
   | Inr v \<Rightarrow> (case push_list src ms s e is of Inl err \<Rightarrow> Inl err | Inr vs \<Rightarrow> Inr (v # vs)))"

text \<open>\<open>whole\<close> says that \<open>s\<close> is not \<open>NULL\<close>: without captures, the whole match is pushed.\<close>

definition push_captures :: "string \<Rightarrow> MatchState \<Rightarrow> bool \<Rightarrow> nat \<Rightarrow> nat \<Rightarrow> string + sval list" where
  "push_captures src ms whole s e =
    (let nlevels = (if level ms = 0 \<and> whole then 1 else level ms)
     in push_list src ms s e [0..<nlevels])"

section \<open>Searching\<close>

definition SPECIALS :: string where "SPECIALS = ''^$*+?.([%-''"

definition no_specials :: "string \<Rightarrow> bool" where
  "no_specials p \<longleftrightarrow> (\<forall>c \<in> set (takeWhile (\<lambda>c. c \<noteq> NUL) p). c \<notin> set SPECIALS)"

text \<open>The \<open>do\<close> loop over the starting positions; \<open>p\<close> is 1 if the pattern is anchored.\<close>

function find_loop ::
    "string \<Rightarrow> string \<Rightarrow> bool \<Rightarrow> MatchState \<Rightarrow> nat \<Rightarrow> string + (nat \<times> nat \<times> MatchState) option" where
  "find_loop src pat anchor ms s1 =
    (case match src pat (ms\<lparr>level := 0\<rparr>) s1 (if anchor then 1 else 0) of
       Inl err \<Rightarrow> Inl err
     | Inr (Some e, ms) \<Rightarrow> Inr (Some (s1, e, ms))
     | Inr (None, ms) \<Rightarrow>
         if s1 < length src \<and> \<not> anchor then find_loop src pat anchor ms (s1 + 1) else Inr None)"
  by pat_completeness auto
termination
  by (relation "measure (\<lambda>(src, pat, anchor, ms, s1). length src - s1)") auto

declare find_loop.simps [simp del]

definition str_find_aux ::
    "MatchState \<Rightarrow> bool \<Rightarrow> string \<Rightarrow> string \<Rightarrow> int \<Rightarrow> bool \<Rightarrow> string + sval list" where
  "str_find_aux ms is_find s p i plain =
    (let l1 = length s;
         init = posrelat i l1 - 1;
         init = (if init < 0 then 0 else if init > int l1 then l1 else nat init)
     in if is_find \<and> (plain \<or> no_specials p) then
          (case lmemfind s init p of
             Some s2 \<Rightarrow> Inr [SInt (int s2 + 1), SInt (int s2 + int (length p))]
           | None \<Rightarrow> Inr [SNil])
        else
          (case find_loop s p (char_at p 0 = CHR ''^'') ms init of
             Inl err \<Rightarrow> Inl err
           | Inr None \<Rightarrow> Inr [SNil]
           | Inr (Some (s1, e, ms)) \<Rightarrow>
               if is_find then
                 (case push_captures s ms False s1 e of
                    Inl err \<Rightarrow> Inl err
                  | Inr vs \<Rightarrow> Inr (SInt (int s1 + 1) # SInt (int e) # vs))
               else push_captures s ms True s1 e))"

definition str_find :: "MatchState \<Rightarrow> string \<Rightarrow> string \<Rightarrow> int \<Rightarrow> bool \<Rightarrow> string + sval list" where
  "str_find ms s p i plain = str_find_aux ms True s p i plain"

definition str_match :: "MatchState \<Rightarrow> string \<Rightarrow> string \<Rightarrow> int \<Rightarrow> string + sval list" where
  "str_match ms s p i = str_find_aux ms False s p i False"

text \<open>
  One call of the iterator of \<open>gmatch\<close>: the values and the new start, the iterator's third
  upvalue; \<^term>\<open>None\<close> ends the iteration.
\<close>

function gmatch_loop :: "string \<Rightarrow> string \<Rightarrow> MatchState \<Rightarrow> nat \<Rightarrow> string + (sval list \<times> nat) option" where
  "gmatch_loop src pat ms s =
    (if s \<le> length src then
       (case match src pat (ms\<lparr>level := 0\<rparr>) s 0 of
          Inl err \<Rightarrow> Inl err
        | Inr (None, ms) \<Rightarrow> gmatch_loop src pat ms (s + 1)
        | Inr (Some e, ms) \<Rightarrow>
            (let newstart = (if e = s then e + 1 else e) in
             case push_captures src ms True s e of
               Inl err \<Rightarrow> Inl err
             | Inr vs \<Rightarrow> Inr (Some (vs, newstart))))
     else Inr None)"
  by pat_completeness auto
termination
  by (relation "measure (\<lambda>(src, pat, ms, s). Suc (length src) - s)") auto

declare gmatch_loop.simps [simp del]

definition gmatch_aux :: "MatchState \<Rightarrow> string \<Rightarrow> string \<Rightarrow> nat \<Rightarrow> string + (sval list \<times> nat) option" where
  "gmatch_aux ms s p start = gmatch_loop s p ms start"

section \<open>Substitution\<close>

text \<open>The decimal numeral of a position.\<close>

fun nat_text :: "nat \<Rightarrow> string" where
  "nat_text n = (if n < 10 then [char_of (48 + n)] else nat_text (n div 10) @ [char_of (48 + n mod 10)])"

declare nat_text.simps [simp del]

text \<open>The text of a captured value, which \<open>luaL_addvalue\<close> adds: positions are at least 1.\<close>

fun sval_text :: "sval \<Rightarrow> string" where
  "sval_text (SStr s) = s"
| "sval_text (SInt n) = nat_text (nat n)"
| "sval_text SNil = []"

function add_s_loop ::
    "string \<Rightarrow> string \<Rightarrow> MatchState \<Rightarrow> nat \<Rightarrow> nat \<Rightarrow> nat \<Rightarrow> string \<Rightarrow> string + string" where
  "add_s_loop news src ms s e i b =
    (if i < length news then
       (if char_at news i \<noteq> L_ESC then add_s_loop news src ms s e (i + 1) (b @ [char_at news i])
        else
          (let i = i + 1; c = char_at news i in
           if \<not> isdigit (uchar c) then add_s_loop news src ms s e (i + 1) (b @ [c])
           else if c = CHR ''0'' then add_s_loop news src ms s e (i + 1) (b @ substr src s e)
           else (case push_onecapture src ms (uchar c - 49) s e of
                   Inl err \<Rightarrow> Inl err
                 | Inr v \<Rightarrow> add_s_loop news src ms s e (i + 1) (b @ sval_text v))))
     else Inr b)"
  by pat_completeness auto
termination
  by (relation "measure (\<lambda>(news, src, ms, s, e, i, b). length news - i)") auto

declare add_s_loop.simps [simp del]

definition add_s :: "string \<Rightarrow> string \<Rightarrow> MatchState \<Rightarrow> nat \<Rightarrow> nat \<Rightarrow> string \<Rightarrow> string + string" where
  "add_s news src ms s e b = add_s_loop news src ms s e 0 b"

text \<open>
  The third argument of \<open>gsub\<close>. A function or a table is Lua code (a table may have an
  \<open>__index\<close> metamethod), a parameter here: it gets values and its state, and returns an error or
  a value and its new state. A value is false, a text (a string or a number), or of another
  type, whose name is given.
\<close>

datatype rval = RFalse | RText string | ROther string

datatype 'st repl = ReplString string
  | ReplFunction "'st \<Rightarrow> sval list \<Rightarrow> string + rval \<times> 'st"
  | ReplTable "'st \<Rightarrow> sval \<Rightarrow> string + rval \<times> 'st"

definition add_result :: "string \<Rightarrow> nat \<Rightarrow> nat \<Rightarrow> string \<Rightarrow> string + rval \<times> 'st \<Rightarrow> string + string \<times> 'st" where
  "add_result src s e b r = (case r of
     Inl err \<Rightarrow> Inl err
   | Inr (RFalse, st) \<Rightarrow> Inr (b @ substr src s e, st)
   | Inr (RText t, st) \<Rightarrow> Inr (b @ t, st)
   | Inr (ROther t, st) \<Rightarrow> Inl (''invalid replacement value (a '' @ t @ '')''))"

definition add_value ::
    "'st repl \<Rightarrow> 'st \<Rightarrow> string \<Rightarrow> MatchState \<Rightarrow> nat \<Rightarrow> nat \<Rightarrow> string \<Rightarrow> string + string \<times> 'st" where
  "add_value r st src ms s e b = (case r of
     ReplString news \<Rightarrow> (case add_s news src ms s e b of Inl err \<Rightarrow> Inl err | Inr b \<Rightarrow> Inr (b, st))
   | ReplFunction f \<Rightarrow> (case push_captures src ms True s e of
       Inl err \<Rightarrow> Inl err | Inr vs \<Rightarrow> add_result src s e b (f st vs))
   | ReplTable t \<Rightarrow> (case push_onecapture src ms 0 s e of
       Inl err \<Rightarrow> Inl err | Inr v \<Rightarrow> add_result src s e b (t st v)))"

text \<open>
  The loop of \<open>gsub\<close>: the subject's position, the number of substitutions and the buffer.
\<close>

function gsub_loop ::
    "'st repl \<Rightarrow> string \<Rightarrow> string \<Rightarrow> bool \<Rightarrow> int \<Rightarrow> 'st \<Rightarrow> MatchState \<Rightarrow> nat \<Rightarrow> nat \<Rightarrow> string
      \<Rightarrow> string + nat \<times> nat \<times> string \<times> 'st" where
  "gsub_loop r src pat anchor max_s st ms s n b =
    (if int n < max_s then
       (case match src pat (ms\<lparr>level := 0\<rparr>) s (if anchor then 1 else 0) of
          Inl err \<Rightarrow> Inl err
        | Inr (None, ms) \<Rightarrow>
            (if s < length src then
               (let b = b @ [src ! s] in
                if anchor then Inr (s + 1, n, b, st) else gsub_loop r src pat anchor max_s st ms (s + 1) n b)
             else Inr (s, n, b, st))
        | Inr (Some e, ms) \<Rightarrow>
            (case add_value r st src ms s e b of
               Inl err \<Rightarrow> Inl err
             | Inr (b, st) \<Rightarrow>
                 (let n = n + 1 in
                  if e > s then
                    (if anchor then Inr (e, n, b, st) else gsub_loop r src pat anchor max_s st ms e n b)
                  else if s < length src then
                    (let b = b @ [src ! s] in
                     if anchor then Inr (s + 1, n, b, st) else gsub_loop r src pat anchor max_s st ms (s + 1) n b)
                  else Inr (s, n, b, st))))
     else Inr (s, n, b, st))"
  by pat_completeness auto
termination
  by (relation "measures [\<lambda>(r, src, pat, anchor, max_s, st, ms, s, n, b). nat (max_s - int n),
      \<lambda>(r, src, pat, anchor, max_s, st, ms, s, n, b). length src - s]") auto

declare gsub_loop.simps [simp del]

definition str_gsub ::
    "MatchState \<Rightarrow> string \<Rightarrow> string \<Rightarrow> 'st repl \<Rightarrow> int \<Rightarrow> 'st \<Rightarrow> string + string \<times> int \<times> 'st" where
  "str_gsub ms src p r max_s st =
    (case gsub_loop r src p (char_at p 0 = CHR ''^'') max_s st ms 0 0 [] of
       Inl err \<Rightarrow> Inl err
     | Inr (s, n, b, st) \<Rightarrow> Inr (b @ drop s src, int n, st))"

section \<open>Formats\<close>

definition FLAGS :: string where "FLAGS = ''-+ #0''"
definition MAX_FORMAT :: nat where "MAX_FORMAT = 6 + 2 + 10"
definition LUA_INTFRMLEN :: string where "LUA_INTFRMLEN = ''l''"

text \<open>The text that \<open>%q\<close> gives for a string.\<close>

definition quote_char :: "char \<Rightarrow> string" where
  "quote_char c =
    (if c \<in> {CHR 0x22, CHR 0x5C, CHR 0x0A} then [CHR 0x5C, c]
     else if c = CHR 0x0D then [CHR 0x5C, CHR ''r'']
     else if c = NUL then CHR 0x5C # ''000''
     else [c])"

definition addquoted :: "string \<Rightarrow> string \<Rightarrow> string" where
  "addquoted b s = b @ [CHR 0x22] @ concat (map quote_char s) @ [CHR 0x22]"

definition skip_digit :: "string \<Rightarrow> nat \<Rightarrow> nat" where
  "skip_digit f p = (if isdigit (uchar (char_at f p)) then p + 1 else p)"

function skip_flags :: "string \<Rightarrow> nat \<Rightarrow> nat" where
  "skip_flags f p = (if char_at f p \<noteq> NUL \<and> char_at f p \<in> set FLAGS then skip_flags f (p + 1) else p)"
  by pat_completeness auto
termination
  by (relation "measure (\<lambda>(f, p). length f - p)") (auto dest: char_at_less)

declare skip_flags.simps [simp del]

text \<open>
  \<open>scanformat\<close> reads one conversion specification at the position \<open>q\<close>: the position of its
  conversion character and the text written to \<open>form\<close> (without its terminator).
\<close>

definition scanformat :: "string \<Rightarrow> nat \<Rightarrow> string + nat \<times> string" where
  "scanformat f q =
    (let p = skip_flags f q in
     if p - q \<ge> 6 then Inl ''invalid format (repeated flags)''
     else
       let p = skip_digit f (skip_digit f p);
           p = (if char_at f p = CHR ''.'' then skip_digit f (skip_digit f (p + 1)) else p)
       in if isdigit (uchar (char_at f p)) then Inl ''invalid format (width or precision too long)''
          else Inr (p, CHR ''%'' # map (char_at f) [q..<p + 1]))"

definition addintlen :: "string \<Rightarrow> string" where
  "addintlen form = (let l = length form in take (l - 1) form @ LUA_INTFRMLEN @ [form ! (l - 1)])"

end
