(* ===== verification/Strlib_Props.thy ===== *)
theory Strlib_Props
  imports Strlib
begin

text \<open>
  What the functions of the string library compute: plain and pattern search find the first
  occurrence, substitution keeps the rest of the subject, slices and conversions.
\<close>

section \<open>Searching for a pattern\<close>

definition start_index :: "string \<Rightarrow> nat" where
  "start_index p = (if char_at p 0 = CHR ''^'' then 1 else 0)"

text \<open>The pattern matches at the position \<open>t\<close> of the subject.\<close>

definition matches_at :: "string \<Rightarrow> string \<Rightarrow> nat \<Rightarrow> bool" where
  "matches_at src pat t \<longleftrightarrow> (\<exists>e cs. pm src pat [] t (start_index pat) e cs)"

lemma fresh_state:
  assumes "length (capture ms) = LUA_MAXCAPTURES"
  shows "ms_ok (ms\<lparr>level := 0\<rparr>)" "caps (ms\<lparr>level := 0\<rparr>) = []"
  using assms by (simp_all add: ms_ok_def caps_def)

lemma match_fresh:
  assumes "length (capture ms) = LUA_MAXCAPTURES"
  shows "match src pat (ms\<lparr>level := 0\<rparr>) s p = Inr (Some e, ms') \<Longrightarrow> ms_ok ms' \<and> pm src pat [] s p e (caps ms')"
    "match src pat (ms\<lparr>level := 0\<rparr>) s p = Inr (None, ms') \<Longrightarrow> ms_ok ms' \<and> (\<forall>e cs. \<not> pm src pat [] s p e cs)"
  using match_pm [OF fresh_state(1) [OF assms], of src pat s p] fresh_state(2) [OF assms]
  by simp_all

lemma ms_ok_length: "ms_ok ms \<Longrightarrow> length (capture ms) = LUA_MAXCAPTURES"
  by (simp add: ms_ok_def)

definition find_post :: "string \<Rightarrow> string \<Rightarrow> bool \<Rightarrow> nat \<Rightarrow> string + (nat \<times> nat \<times> MatchState) option \<Rightarrow> bool" where
  "find_post src pat anchor s r \<longleftrightarrow> (case r of
     Inl err \<Rightarrow> True
   | Inr (Some (a, e, ms')) \<Rightarrow>
       s \<le> a \<and> a \<le> e \<and> e \<le> length src \<and> ms_ok ms' \<and> pm src pat [] a (start_index pat) e (caps ms')
       \<and> (\<forall>t. s \<le> t \<and> t < a \<longrightarrow> \<not> matches_at src pat t) \<and> (anchor \<longrightarrow> a = s)
   | Inr None \<Rightarrow> \<forall>t. s \<le> t \<and> t \<le> length src \<and> (anchor \<longrightarrow> t = s) \<longrightarrow> \<not> matches_at src pat t)"

lemma find_post_next:
  assumes "find_post src pat False (s + 1) r" "\<not> matches_at src pat s" "s < length src"
  shows "find_post src pat False s r"
proof (cases r)
  case (Inr q)
  have t: "s \<le> t \<longleftrightarrow> t = s \<or> s + 1 \<le> t" for t by auto
  show ?thesis
  proof (cases q)
    case None
    with Inr assms show ?thesis unfolding find_post_def by (auto simp: t)
  next
    case (Some w)
    obtain a e ms where "w = (a, e, ms)" by (cases w)
    with Some Inr assms show ?thesis unfolding find_post_def by (auto simp: t)
  qed
qed (simp add: find_post_def)

lemma find_loop_ok:
  assumes "length (capture ms) = LUA_MAXCAPTURES" "s \<le> length src" "anchor \<longleftrightarrow> char_at pat 0 = CHR ''^''"
  shows "find_post src pat anchor s (find_loop src pat anchor ms s)"
  using assms(1,2)
proof (induction "length src - s" arbitrary: s ms rule: less_induct)
  case less
  let ?p = "if anchor then 1 else 0"
  have p: "?p = start_index pat" by (simp add: start_index_def assms(3))
  show ?case
  proof (cases "match src pat (ms\<lparr>level := 0\<rparr>) s ?p")
    case (Inl err)
    then show ?thesis by (simp add: find_loop.simps [of _ _ _ ms] find_post_def)
  next
    case (Inr w)
    obtain q m1 where w: "w = (q, m1)" by (cases w)
    show ?thesis
    proof (cases q)
      case (Some e)
      have "ms_ok m1" "pm src pat [] s (start_index pat) e (caps m1)"
        using match_fresh(1) [OF less.prems(1) Inr [unfolded w Some]] unfolding p by simp_all
      with pm_bounds [OF this(2) less.prems(2)] Inr w Some show ?thesis
        by (auto simp add: find_loop.simps [of _ _ _ ms] find_post_def)
    next
      case None
      have m1: "length (capture m1) = LUA_MAXCAPTURES" "\<not> matches_at src pat s"
        using match_fresh(2) [OF less.prems(1) Inr [unfolded w None]] unfolding p matches_at_def
        by (simp_all add: ms_ok_length)
      show ?thesis
      proof (cases "s < length src \<and> \<not> anchor")
        case True
        then have "length src - (s + 1) < length src - s" "s + 1 \<le> length src" by auto
        from find_post_next [of src pat s] less.hyps [OF this(1) m1(1) this(2)] m1(2) True Inr w None
        show ?thesis by (simp add: find_loop.simps [of _ _ _ ms])
      next
        case False
        then have "t = s" if "s \<le> t" "t \<le> length src" "anchor \<longrightarrow> t = s" for t using that by auto
        with m1(2) False Inr w None show ?thesis
          by (auto simp: find_loop.simps [of _ _ _ ms] find_post_def)
      qed
    qed
  qed
qed

text \<open>
  C21: \<open>string.find\<close> with a pattern returns the first position, from the given start on, at which
  the pattern matches (for an anchored pattern, only the start), with the end of the match inside
  the subject; it returns nil only if the pattern matches nowhere.
\<close>

theorem find_leftmost:
  assumes "length (capture ms) = LUA_MAXCAPTURES" "\<not> no_specials p" "init \<le> length s"
    and r: "str_find ms s p (int init + 1) False = Inr vs"
  shows "(\<exists>a e. init \<le> a \<and> a \<le> e \<and> e \<le> length s \<and> (\<exists>cs. pm s p [] a (start_index p) e cs)
      \<and> (\<forall>t. init \<le> t \<and> t < a \<longrightarrow> \<not> matches_at s p t) \<and> (char_at p 0 = CHR ''^'' \<longrightarrow> a = init)
      \<and> take 2 vs = [SInt (int a + 1), SInt (int e)])
    \<or> vs = [SNil] \<and> (\<forall>t. init \<le> t \<and> t \<le> length s \<and> (char_at p 0 = CHR ''^'' \<longrightarrow> t = init)
        \<longrightarrow> \<not> matches_at s p t)"
proof -
  let ?a = "char_at p 0 = CHR ''^''"
  have init: "posrelat (int init + 1) (length s) - 1 = int init" by (simp add: posrelat_def)
  have "(case find_loop s p ?a ms init of
             Inl err \<Rightarrow> Inl err
           | Inr None \<Rightarrow> Inr [SNil]
           | Inr (Some (s1, e, ms)) \<Rightarrow>
                 (case push_captures s ms False s1 e of
                    Inl err \<Rightarrow> Inl err
                  | Inr vs \<Rightarrow> Inr (SInt (int s1 + 1) # SInt (int e) # vs))) = Inr vs"
    using r assms(2,3) unfolding str_find_def str_find_aux_def init Let_def if_True by simp
  then consider a e m where "find_loop s p ?a ms init = Inr (Some (a, e, m))"
      "take 2 vs = [SInt (int a + 1), SInt (int e)]"
    | "find_loop s p ?a ms init = Inr None" "vs = [SNil]"
    by (auto split: sum.splits option.splits)
  then show ?thesis
  proof cases
    case 1
    from find_loop_ok [OF assms(1,3) refl, of p, unfolded 1(1) find_post_def] 1(2) show ?thesis by auto
  next
    case 2
    from find_loop_ok [OF assms(1,3) refl, of p, unfolded 2(1) find_post_def] 2(2) show ?thesis by auto
  qed
qed

theorem find_leftmost_witness:
  "str_find init_state ''hello world'' ''o%s*w'' 3 False = Inr [SInt 5, SInt 7]
   \<and> \<not> (\<exists>t. 2 \<le> t \<and> t < 4 \<and> matches_at ''hello world'' ''o%s*w'' t)"
proof -
  have f: "str_find init_state ''hello world'' ''o%s*w'' (int 2 + 1) False = Inr [SInt 5, SInt 7]" by code_simp
  have c: "length (capture init_state) = LUA_MAXCAPTURES" by (simp add: init_state_def LUA_MAXCAPTURES_def)
  have n: "\<not> no_specials ''o%s*w''" by code_simp
  from find_leftmost [OF c n _ f] have "\<exists>a. int a + 1 = 5
    \<and> (\<forall>t. 2 \<le> t \<and> t < a \<longrightarrow> \<not> matches_at ''hello world'' ''o%s*w'' t)" by auto
  then obtain a where "int a + 1 = 5" "\<forall>t. 2 \<le> t \<and> t < a \<longrightarrow> \<not> matches_at ''hello world'' ''o%s*w'' t"
    by blast
  moreover from this(1) have "a = 4" by simp
  ultimately show ?thesis using f by simp
qed

section \<open>Plain search\<close>

definition occurs_at :: "string \<Rightarrow> string \<Rightarrow> nat \<Rightarrow> bool" where
  "occurs_at s q i \<longleftrightarrow> i + length q \<le> length s \<and> take (length q) (drop i s) = q"

lemma occurs_at_Cons:
  "occurs_at s (c # q) i \<longleftrightarrow> i + length q < length s \<and> char_at s i = c \<and> take (length q) (drop (i + 1) s) = q"
proof (cases "i < length s")
  case True
  then have "drop i s = s ! i # drop (i + 1) s" by (simp add: Cons_nth_drop_Suc)
  with True show ?thesis by (auto simp: occurs_at_def char_at_def)
qed (auto simp: occurs_at_def)

lemma lmemfind_loop_ok:
  assumes "p + l1 + length q = length s"
  shows "case lmemfind_loop s p l1 (c # q) of
      Some i \<Rightarrow> p \<le> i \<and> occurs_at s (c # q) i \<and> (\<forall>j. p \<le> j \<and> j < i \<longrightarrow> \<not> occurs_at s (c # q) j)
    | None \<Rightarrow> \<forall>j. p \<le> j \<longrightarrow> \<not> occurs_at s (c # q) j"
  using assms
proof (induction l1 arbitrary: p rule: less_induct)
  case (less l1)
  have c: "char_at (c # q) 0 = c" by (simp add: char_at_def)
  note e = lmemfind_loop.simps [of s p l1 "c # q", unfolded c]
  have far: "\<not> occurs_at s (c # q) j" if "p + l1 \<le> j" for j
    using that less.prems by (auto simp: occurs_at_def)
  show ?case
  proof (cases "l1 > 0 \<and> memchr s p c l1 \<noteq> None")
    case False
    have "\<not> occurs_at s (c # q) j" if "p \<le> j" for j
    proof (cases "j < p + l1")
      case True
      with False that memchr_None [of s p c l1 j] show ?thesis by (auto simp: occurs_at_Cons)
    qed (use far in simp)
    moreover have "lmemfind_loop s p l1 (c # q) = None" using False by (subst e) auto
    ultimately show ?thesis by simp
  next
    case True
    then obtain i where i: "memchr s p c l1 = Some i" and l1: "l1 > 0" by auto
    note m = memchr_Some [OF i]
    have before: "\<not> occurs_at s (c # q) j" if "p \<le> j" "j < i" for j
      using m that by (auto simp: occurs_at_Cons)
    show ?thesis
    proof (cases "take (length q) (drop (i + 1) s) = q")
      case True
      then have "occurs_at s (c # q) i" using m less.prems by (auto simp: occurs_at_Cons)
      moreover have "lmemfind_loop s p l1 (c # q) = Some i" using True i l1 by (subst e) simp
      ultimately show ?thesis using m before by simp
    next
      case False
      then have no: "\<not> occurs_at s (c # q) i" by (simp add: occurs_at_Cons)
      have "l1 - (i + 1 - p) < l1" "i + 1 + (l1 - (i + 1 - p)) + length q = length s"
        using l1 m less.prems by auto
      note IH = less.IH [OF this]
      have eq: "lmemfind_loop s p l1 (c # q) = lmemfind_loop s (i + 1) (l1 - (i + 1 - p)) (c # q)"
        using False i l1 by (subst e) simp
      have split: "(p \<le> j \<and> j < i) \<or> j = i \<or> i + 1 \<le> j" if "p \<le> j" for j using that by auto
      show ?thesis
      proof (cases "lmemfind_loop s (i + 1) (l1 - (i + 1 - p)) (c # q)")
        case None
        with IH have "\<forall>j. i + 1 \<le> j \<longrightarrow> \<not> occurs_at s (c # q) j" by simp
        with split no before have "\<forall>j. p \<le> j \<longrightarrow> \<not> occurs_at s (c # q) j" by blast
        with None show ?thesis unfolding eq by simp
      next
        case (Some k)
        with IH have k: "i + 1 \<le> k" "occurs_at s (c # q) k"
          "\<forall>j. i + 1 \<le> j \<and> j < k \<longrightarrow> \<not> occurs_at s (c # q) j" by simp_all
        have "\<not> occurs_at s (c # q) j" if "p \<le> j" "j < k" for j
          using that no before k(3) split [of j] by blast
        with Some k m show ?thesis unfolding eq by simp
      qed
    qed
  qed
qed

lemma lmemfind_ok:
  assumes "p \<le> length s"
  shows "case lmemfind s p q of
      Some i \<Rightarrow> p \<le> i \<and> occurs_at s q i \<and> (\<forall>j. p \<le> j \<and> j < i \<longrightarrow> \<not> occurs_at s q j)
    | None \<Rightarrow> \<forall>j. p \<le> j \<longrightarrow> \<not> occurs_at s q j"
proof (cases q)
  case Nil
  with assms show ?thesis by (auto simp: lmemfind_def occurs_at_def)
next
  case (Cons c r)
  show ?thesis
  proof (cases "length q > length s - p")
    case True
    then have "\<forall>j. p \<le> j \<longrightarrow> \<not> occurs_at s q j" using assms by (auto simp: occurs_at_def)
    with True Cons show ?thesis by (simp add: lmemfind_def)
  next
    case False
    then have "p + (length s - p - length r) + length r = length s" using assms Cons by simp
    from lmemfind_loop_ok [OF this, of c] False show ?thesis unfolding Cons by (simp add: lmemfind_def)
  qed
qed

text \<open>
  C22: the plain search (\<open>lmemfind\<close>, which jumps from one occurrence of the first character to the
  next) returns the first occurrence of the text from the given position on, and nothing only if
  there is none.
\<close>

theorem plain_find_first:
  assumes "length s \<le> 2 ^ 62" "init \<le> length s"
  shows "str_find ms s q (int init + 1) True =
    (if \<exists>i \<ge> init. occurs_at s q i
     then let i = (LEAST i. init \<le> i \<and> occurs_at s q i) in Inr [SInt (int i + 1), SInt (int i + int (length q))]
     else Inr [SNil])"
proof -
  have e: "str_find ms s q (int init + 1) True = (case lmemfind s init q of
      Some s2 \<Rightarrow> Inr [SInt (int s2 + 1), SInt (int s2 + int (length q))] | None \<Rightarrow> Inr [SNil])"
    using assms(2) by (simp add: str_find_def str_find_aux_def posrelat_def Let_def)
  note l = lmemfind_ok [OF assms(2), of q]
  show ?thesis
  proof (cases "lmemfind s init q")
    case None
    with l show ?thesis unfolding e by auto
  next
    case (Some i)
    with l have i: "init \<le> i" "occurs_at s q i" "\<And>j. init \<le> j \<Longrightarrow> j < i \<Longrightarrow> \<not> occurs_at s q j" by auto
    then have "(LEAST i. init \<le> i \<and> occurs_at s q i) = i"
      by (intro Least_equality) (auto simp: not_less [symmetric])
    with i Some show ?thesis unfolding e by (auto simp: Let_def)
  qed
qed

theorem plain_find_first_witness:
  "str_find init_state ''ab%a%'' ''%a'' (int 0 + 1) True =
    (if \<exists>i \<ge> 0. occurs_at ''ab%a%'' ''%a'' i
     then let i = (LEAST i. 0 \<le> i \<and> occurs_at ''ab%a%'' ''%a'' i) in Inr [SInt (int i + 1), SInt (int i + int (length ''%a''))]
     else Inr [SNil])"
  by (rule plain_find_first) simp_all

section \<open>Substitution\<close>

lemma add_s_whole: "add_s ''%0'' src ms s e b = Inr (b @ substr src s e)"
proof -
  have c: "char_at ''%0'' 0 = CHR ''%''" "char_at ''%0'' 1 = CHR ''0''" by (simp_all add: char_at_def)
  show ?thesis
    by (simp add: add_s_def add_s_loop.simps [of _ _ _ _ _ 0] add_s_loop.simps [of _ _ _ _ _ "Suc (Suc 0)"]
        c [simplified] L_ESC_def Let_def isdigit_def uchar_def)
qed

lemma take_substr: "s \<le> e \<Longrightarrow> take s src @ substr src s e = take e src"
  unfolding substr_def using take_add [of s "e - s" src] by simp

lemma gsub_loop_whole:
  assumes "length (capture ms) = LUA_MAXCAPTURES" "s \<le> length src" "b = take s src" "n \<le> s"
    "gsub_loop (ReplString ''%0'') src pat anchor max_s st ms s n b = Inr (s', n', b', st')"
  shows "s' \<le> length src \<and> b' = take s' src \<and> n \<le> n' \<and> n' \<le> length src + 1 \<and> (n < n' \<longrightarrow> int n' \<le> max_s)"
  using assms
proof (induction "length src - s" arbitrary: st ms s n b rule: less_induct)
  case less
  let ?p = "if anchor then 1 else 0"
  let ?g = "\<lambda>st. gsub_loop (ReplString ''%0'') src pat anchor max_s st"
  note e = less.prems(5) [unfolded gsub_loop.simps [of _ src pat anchor max_s st ms s n b]]
  show ?case
  proof (cases "int n < max_s")
    case False
    with e less.prems show ?thesis by auto
  next
    case True
    note n = this
    have nx: "take (s + 1) src = take s src @ [src ! s]" if "s < length src"
      using that by (simp add: take_Suc_conv_app_nth)
    show ?thesis
    proof (cases "match src pat (ms\<lparr>level := 0\<rparr>) s ?p")
      case (Inl err)
      with e n show ?thesis by simp
    next
      case (Inr w)
      obtain q m1 where w: "w = (q, m1)" by (cases w)
      show ?thesis
      proof (cases q)
        case None
        have m1: "length (capture m1) = LUA_MAXCAPTURES"
          using match_fresh(2) [OF less.prems(1) Inr [unfolded w None]] ms_ok_length by blast
        show ?thesis
        proof (cases "s < length src \<and> \<not> anchor")
          case True
          with e n Inr w None have g: "?g st m1 (s + 1) n (b @ [src ! s]) = Inr (s', n', b', st')" by simp
          have "length src - (s + 1) < length src - s" "s + 1 \<le> length src" "b @ [src ! s] = take (s + 1) src" "n \<le> s + 1"
            using True less.prems(3,4) nx by auto
          from less.hyps [OF this(1) m1 this(2-4) g] show ?thesis .
        next
          case False
          with e n Inr w None less.prems nx show ?thesis by (auto split: if_splits)
        qed
      next
        case (Some t)
        have m1: "ms_ok m1" "pm src pat [] s ?p t (caps m1)"
          using match_fresh(1) [OF less.prems(1) Inr [unfolded w Some]] by simp_all
        have t: "s \<le> t" "t \<le> length src" using pm_bounds [OF m1(2) less.prems(2)] by simp_all
        have a: "add_value (ReplString ''%0'') st src m1 s t b = Inr (take t src, st)"
          using take_substr [OF t(1), of src] less.prems(3) by (simp add: add_value_def add_s_whole)
        have later: ?thesis if "?g st m1 k (n + 1) (take k src) = Inr (s', n', b', st')" "s < k" "k \<le> length src" for k
        proof -
          have "length src - k < length src - s" "n + 1 \<le> k" using that less.prems(4) by auto
          from less.hyps [OF this(1) ms_ok_length [OF m1(1)] that(3) refl this(2) that(1)] n show ?thesis by auto
        qed
        consider "s < t" | "t = s" "s < length src" | "t = s" "s = length src" using t by linarith
        then show ?thesis
        proof cases
          case 1
          with e n Inr w Some a have "if anchor then (s', n', b', st') = (t, n + 1, take t src, st)
            else ?g st m1 t (n + 1) (take t src) = Inr (s', n', b', st')" by auto
          with later [OF _ 1 t(2)] 1 t n less.prems(4) show ?thesis by (auto split: if_splits)
        next
          case 2
          with e n Inr w Some a nx have "if anchor then (s', n', b', st') = (s + 1, n + 1, take (s + 1) src, st)
            else ?g st m1 (s + 1) (n + 1) (take (s + 1) src) = Inr (s', n', b', st')" by auto
          with later [of "s + 1"] 2 n less.prems(4) show ?thesis by (auto split: if_splits)
        next
          case 3
          with e n Inr w Some a less.prems show ?thesis by auto
        qed
      qed
    qed
  qed
qed

text \<open>
  C23: replacing every match by itself (\<open>%0\<close>) gives the subject back, for every pattern: no character
  is lost or doubled between matches, at empty matches and at the end. The number of substitutions
  is at most the limit and at most one more than the length of the subject.
\<close>

theorem gsub_whole_match:
  assumes "length (capture ms) = LUA_MAXCAPTURES"
    and "str_gsub ms src p (ReplString ''%0'') max_s st = Inr (r, n, st')"
  shows "r = src \<and> 0 \<le> n \<and> n \<le> int (length src) + 1 \<and> (0 < n \<longrightarrow> n \<le> max_s)"
proof -
  from assms(2) obtain s k b where g: "gsub_loop (ReplString ''%0'') src p (char_at p 0 = CHR ''^'') max_s st ms 0 0 []
      = Inr (s, k, b, st')" "r = b @ drop s src" "n = int k"
    by (auto simp: str_gsub_def split: sum.splits)
  from gsub_loop_whole [OF assms(1) _ _ _ g(1)] have "s \<le> length src" "b = take s src" "k \<le> length src + 1"
    "0 < k \<longrightarrow> int k \<le> max_s" by auto
  with g(2,3) show ?thesis by simp
qed

theorem gsub_whole_match_witness:
  "\<exists>r n. str_gsub init_state ''banana'' ''a*'' (ReplString ''%0'') 10 () = Inr (r, n, ())
    \<and> r = ''banana'' \<and> 0 \<le> n \<and> n \<le> int (length ''banana'') + 1 \<and> (0 < n \<longrightarrow> n \<le> 10)"
proof -
  have "str_gsub init_state ''banana'' ''a*'' (ReplString ''%0'') 10 () = Inr (''banana'', 7, ())" by code_simp
  with gsub_whole_match [OF _ this] show ?thesis by (simp add: init_state_def LUA_MAXCAPTURES_def)
qed

section \<open>Slices and characters\<close>

definition rel_pos :: "string \<Rightarrow> int \<Rightarrow> int" where
  "rel_pos s i = (if i < 0 then i + int (length s) + 1 else i)"

text \<open>
  C24: \<open>string.sub\<close> returns the characters whose positions, counted from 1, lie between the two given
  positions, where a negative position counts from the end: out-of-range positions need no special case.
\<close>

theorem str_sub_positions:
  "str_sub s i j = map (nth s) (filter (\<lambda>k. rel_pos s i \<le> int k + 1 \<and> int k + 1 \<le> rel_pos s j) [0..<length s])"
proof -
  define a where "a = (let x = posrelat i (length s) in if x < 1 then 1 else x)"
  define b where "b = (let x = posrelat j (length s) in if x > int (length s) then int (length s) else x)"
  have a: "1 \<le> a" "rel_pos s i \<le> int k + 1 \<longleftrightarrow> a \<le> int k + 1" for k
    by (auto simp: a_def posrelat_def rel_pos_def Let_def)
  have b: "b \<le> int (length s)" "k < length s \<Longrightarrow> int k + 1 \<le> rel_pos s j \<longleftrightarrow> int k + 1 \<le> b" for k
    by (auto simp: b_def posrelat_def rel_pos_def Let_def)
  have f: "filter (\<lambda>k. rel_pos s i \<le> int k + 1 \<and> int k + 1 \<le> rel_pos s j) [0..<length s]
      = filter (\<lambda>k. a \<le> int k + 1 \<and> int k + 1 \<le> b) [0..<length s]"
    by (rule filter_cong [OF refl]) (use a(2) b(2) in auto)
  have u: "filter (\<lambda>k. a \<le> int k + 1 \<and> int k + 1 \<le> b) [0..<n] = [nat (a - 1)..<min n (nat b)]" for n
  proof (induction n)
    case (Suc n)
    show ?case
    proof (cases "int n + 1 \<le> b")
      case True
      then have "min (Suc n) (nat b) = Suc n" "min n (nat b) = n" by auto
      with True Suc a(1) show ?thesis by auto
    next
      case False
      then have "min (Suc n) (nat b) = nat b" "min n (nat b) = nat b" by auto
      with False Suc show ?thesis by auto
    qed
  qed simp
  have "str_sub s i j = (if a \<le> b then take (nat (b - a + 1)) (drop (nat (a - 1)) s) else [])"
    by (simp add: str_sub_def a_def b_def Let_def)
  also have "\<dots> = map (nth s) [nat (a - 1)..<nat b]"
  proof (cases "a \<le> b")
    case True
    then have "nat b = nat (a - 1) + nat (b - a + 1)" using a(1) by simp
    moreover have "take n (drop m s) = map (nth s) [m..<m + n]" if "m + n \<le> length s" for m n
      using that by (intro nth_equalityI) auto
    ultimately show ?thesis using True b(1) by simp
  qed simp
  also have "[nat (a - 1)..<nat b] = [nat (a - 1)..<min (length s) (nat b)]"
  proof -
    have "min (length s) (nat b) = nat b" using b(1) by auto
    then show ?thesis by simp
  qed
  finally show ?thesis unfolding f u .
qed

lemma char_loop_ok:
  "char_loop i (map (\<lambda>c. int (uchar c)) s) b = Inr (b @ s)"
proof (induction s arbitrary: i b)
  case (Cons c s)
  have c: "int (uchar c) < 256" unfolding uchar_def by simp
  then have "to_uchar (int (uchar c)) = int (uchar c)" by (simp add: to_uchar_def uchar_def)
  moreover have "char_of (nat (int (uchar c))) = c" by (simp add: uchar_def)
  ultimately show ?case using Cons by (simp add: is_uchar_def)
qed simp

text \<open>
  C28: the bytes of a string that \<open>string.byte\<close> returns make the same string again with
  \<open>string.char\<close>, as long as the values fit on the stack.
\<close>

theorem str_byte_char:
  assumes "int used + int (length s) \<le> LUAI_MAXCSTACK"
  shows "\<exists>bs. str_byte used s 1 (-1) = Inr bs \<and> str_char bs = Inr s"
proof (cases "s = []")
  case True
  then show ?thesis by (simp add: str_byte_def posrelat_def str_char_def)
next
  case False
  let ?n = "int (length s)"
  have n: "0 < ?n" "?n \<le> 8000" using False assms by (simp_all add: LUAI_MAXCSTACK_def)
  then have c: "to_cint ?n = ?n" by (simp add: to_cint_def)
  have "map (\<lambda>k. int (uchar (char_at s (nat 1 + k - 1)))) [0..<nat ?n] = map (\<lambda>c. int (uchar c)) s"
    by (intro nth_equalityI) (auto simp: char_at_def)
  then have "str_byte used s 1 (-1) = Inr (map (\<lambda>c. int (uchar c)) s)"
    using n c assms False by (simp add: str_byte_def posrelat_def Let_def lua_checkstack_def LUAI_MAXCSTACK_def)
  then show ?thesis by (simp add: str_char_def char_loop_ok)
qed

theorem str_byte_char_witness:
  "\<exists>bs. str_byte 3 ''a%b'' 1 (-1) = Inr bs \<and> str_char bs = Inr ''a%b''"
  by (rule str_byte_char) (simp add: LUAI_MAXCSTACK_def)

section \<open>Formats\<close>

lemma skip_flags_le: "p \<le> skip_flags f p"
proof (induction f p rule: skip_flags.induct)
  case (1 f p)
  then show ?case by (subst skip_flags.simps) auto
qed

lemma skip_digit_le: "p \<le> skip_digit f p \<and> skip_digit f p \<le> p + 1"
  by (simp add: skip_digit_def)

text \<open>
  C27: the specification that \<open>scanformat\<close> copies, with the length modifier that \<open>addintlen\<close> inserts
  and the terminator, fits the buffer of \<open>MAX_FORMAT\<close> characters.
\<close>

theorem scanformat_fits:
  assumes "scanformat f q = Inr (p, form)"
  shows "length (addintlen form) + 1 \<le> MAX_FORMAT \<and> q \<le> p \<and> p < q + 11"
proof -
  define p0 where "p0 = skip_flags f q"
  define p1 where "p1 = skip_digit f (skip_digit f p0)"
  define p2 where "p2 = (if char_at f p1 = CHR ''.'' then skip_digit f (skip_digit f (p1 + 1)) else p1)"
  have r: "p0 - q < 6" "p = p2" "form = CHR ''%'' # map (char_at f) [q..<p2 + 1]"
    using assms unfolding scanformat_def Let_def p0_def [symmetric] p1_def [symmetric] p2_def [symmetric]
    by (auto split: if_splits)
  have "q \<le> p0" unfolding p0_def by (rule skip_flags_le)
  moreover have "p0 \<le> p1 \<and> p1 \<le> p0 + 2"
    unfolding p1_def using skip_digit_le [of p0 f] skip_digit_le [of "skip_digit f p0" f] by linarith
  moreover have "p1 \<le> p2 \<and> p2 \<le> p1 + 3"
    unfolding p2_def using skip_digit_le [of "p1 + 1" f] skip_digit_le [of "skip_digit f (p1 + 1)" f] by auto
  ultimately have "q \<le> p2" "p2 < q + 11" using r(1) by linarith+
  with r show ?thesis by (simp add: addintlen_def Let_def LUA_INTFRMLEN_def MAX_FORMAT_def)
qed

theorem scanformat_fits_witness:
  "length (addintlen ''%-+ #012.34d'') + 1 \<le> MAX_FORMAT \<and> (1::nat) \<le> 11 \<and> (11::nat) < 1 + 11"
proof -
  have "scanformat ''%-+ #012.34d'' 1 = Inr (11, ''%-+ #012.34d'')" by code_simp
  from scanformat_fits [OF this] show ?thesis .
qed

end
