(* ===== verification/Values.thy ===== *)
theory Values
  imports Actions Strings Tables Patterns
begin

text \<open>
  Conversion and comparison of values: numerals (\<open>luaO_str2d\<close> of \<open>lobject.c\<close>), the coercions
  between strings and numbers and the order of values (\<open>lvm.c\<close>), the error of a bad comparison
  (\<open>ldebug.c\<close>), the names of the types (\<open>ltm.c\<close>). \<open>strtod\<close>, \<open>strtoul\<close>, \<open>strcoll\<close>, the
  \<open>sprintf\<close> of a number and the call of a metamethod are parameters.
\<close>

section \<open>Numerals\<close>

text \<open>The text of a C string ends before the first zero byte.\<close>

definition c_text :: "byte list \<Rightarrow> byte list" where "c_text b = takeWhile (\<lambda>c. c \<noteq> 0) b"

text \<open>
  \<open>strtod\<close> and \<open>strtoul\<close> (with base 16) return the value and the number of characters that
  they have read.
\<close>

record libc =
  strtod :: "byte list \<Rightarrow> lua_Number \<times> nat"
  strtoul :: "byte list \<Rightarrow> u64 \<times> nat"

definition luaO_str2d :: "libc \<Rightarrow> byte list \<Rightarrow> lua_Number option" where
  "luaO_str2d C s = (let (r, e) = strtod C s in
     if e = 0 then None
     else
       let (r, e) = (if drop e s \<noteq> [] \<and> hd (drop e s) \<in> {of_char CHR ''x'', of_char CHR ''X''}
                     then let (v, e) = strtoul C s in (cast_num (uint v), e) else (r, e))
       in if drop e s = [] then Some r
          else if dropWhile (\<lambda>c. isspace (unat c)) (drop e s) \<noteq> [] then None
          else Some r)"

section \<open>Coercions\<close>

text \<open>
  The environment of the functions on values: the bytes of a string object, the C library,
  \<open>strcoll\<close> (its sign), the text of a number, and the call of an order metamethod
  (\<open>call_orderTM\<close>: \<open>None\<close> is the result -1) in a state \<open>'s\<close>, which it may change.
\<close>

datatype TMS = TM_LT | TM_LE

datatype lerr = LuaError string | ArgError nat string | LuaTable terror | LuaDiverge

record 's venv =
  svalue :: "ptr \<Rightarrow> byte list"
  vlibc :: libc
  strcoll :: "byte list \<Rightarrow> byte list \<Rightarrow> int"
  number2str :: "lua_Number \<Rightarrow> byte list"
  call_orderTM :: "TMS \<Rightarrow> TValue \<Rightarrow> TValue \<Rightarrow> ('s, lerr, bool option) action"

definition luaV_tonumber :: "'s venv \<Rightarrow> TValue \<Rightarrow> lua_Number option" where
  "luaV_tonumber E obj = (case obj of
     LNumber n \<Rightarrow> Some n
   | LString p \<Rightarrow> luaO_str2d (vlibc E) (c_text (svalue E p))
   | _ \<Rightarrow> None)"

text \<open>\<open>luaV_tostring\<close> replaces a number by its string; here it returns the bytes.\<close>

definition luaV_tostring :: "'s venv \<Rightarrow> TValue \<Rightarrow> byte list option" where
  "luaV_tostring E obj = (case obj of LNumber n \<Rightarrow> Some (c_text (number2str E n)) | _ \<Rightarrow> None)"

section \<open>The names of the types\<close>

definition luaT_typenames :: "string list" where
  "luaT_typenames = [''nil'', ''boolean'', ''userdata'', ''number'',
    ''string'', ''table'', ''function'', ''userdata'', ''thread'',
    ''proto'', ''upval'']"

section \<open>Order\<close>

text \<open>The third characters of the names are compared.\<close>

definition luaG_ordererror :: "TValue \<Rightarrow> TValue \<Rightarrow> lerr" where
  "luaG_ordererror p1 p2 =
    (let t1 = luaT_typenames ! ttype p1; t2 = luaT_typenames ! ttype p2 in
     if t1 ! 2 = t2 ! 2 then LuaError (''attempt to compare two '' @ t1 @ '' values'')
     else LuaError (''attempt to compare '' @ t1 @ '' with '' @ t2))"

text \<open>Strings are compared piece by piece: \<open>strcoll\<close> stops at a zero byte.\<close>

function l_strcmp :: "(byte list \<Rightarrow> byte list \<Rightarrow> int) \<Rightarrow> byte list \<Rightarrow> byte list \<Rightarrow> int" where
  "l_strcmp coll l r =
    (let temp = coll (c_text l) (c_text r) in
     if temp \<noteq> 0 then temp
     else let len = length (c_text l) in
       if len = length r then (if len = length l then 0 else 1)
       else if len = length l then -1
       else l_strcmp coll (drop (len + 1) l) (drop (len + 1) r))"
  by pat_completeness auto
termination
proof (relation "measure (\<lambda>(coll, l, r). length l)")
  fix coll :: "byte list \<Rightarrow> byte list \<Rightarrow> int" and l r :: "byte list" and temp len
  assume len: "len = length (c_text l)" and "len \<noteq> length l"
  moreover have "length (c_text l) \<le> length l" by (simp add: c_text_def length_takeWhile_le)
  ultimately show "((coll, drop (len + 1) l, drop (len + 1) r), (coll, l, r))
      \<in> measure (\<lambda>(coll, l, r). length l)" by simp
qed simp

declare l_strcmp.simps [simp del]

definition luaV_lessthan :: "'s venv \<Rightarrow> TValue \<Rightarrow> TValue \<Rightarrow> ('s, lerr, bool) action" where
  "luaV_lessthan E l r =
    (if ttype l \<noteq> ttype r then (\<lambda>s. Inl (luaG_ordererror l r))
     else case (l, r) of
       (LNumber a, LNumber b) \<Rightarrow> lret (luai_numlt a b)
     | (LString a, LString b) \<Rightarrow> lret (l_strcmp (strcoll E) (svalue E a) (svalue E b) < 0)
     | _ \<Rightarrow> lbind (call_orderTM E TM_LT l r) (\<lambda>res. case res of
          Some b \<Rightarrow> lret b
        | None \<Rightarrow> (\<lambda>s. Inl (luaG_ordererror l r))))"

definition lessequal :: "'s venv \<Rightarrow> TValue \<Rightarrow> TValue \<Rightarrow> ('s, lerr, bool) action" where
  "lessequal E l r =
    (if ttype l \<noteq> ttype r then (\<lambda>s. Inl (luaG_ordererror l r))
     else case (l, r) of
       (LNumber a, LNumber b) \<Rightarrow> lret (luai_numle a b)
     | (LString a, LString b) \<Rightarrow> lret (l_strcmp (strcoll E) (svalue E a) (svalue E b) \<le> 0)
     | _ \<Rightarrow> lbind (call_orderTM E TM_LE l r) (\<lambda>res. case res of
          Some b \<Rightarrow> lret b
        | None \<Rightarrow> lbind (call_orderTM E TM_LT r l) (\<lambda>res. case res of
            Some b \<Rightarrow> lret (\<not> b)
          | None \<Rightarrow> (\<lambda>s. Inl (luaG_ordererror l r)))))"

section \<open>The order of strings\<close>

text \<open>Bytes in dictionary order, as unsigned numbers; a proper prefix is less.\<close>

fun bytes_less :: "byte list \<Rightarrow> byte list \<Rightarrow> bool" where
  "bytes_less _ [] \<longleftrightarrow> False"
| "bytes_less [] (b # bs) \<longleftrightarrow> True"
| "bytes_less (a # as) (b # bs) \<longleftrightarrow> a < b \<or> (a = b \<and> bytes_less as bs)"

lemma bytes_less_irrefl: "\<not> bytes_less a a"
  by (induction a) auto

lemma bytes_less_trans: "bytes_less a b \<Longrightarrow> bytes_less b c \<Longrightarrow> bytes_less a c"
proof (induction a b arbitrary: c rule: bytes_less.induct)
  case (2 b bs)
  then show ?case by (cases c) auto
next
  case (3 a as b bs)
  then show ?case by (cases c) auto
qed simp

lemma bytes_less_total: "bytes_less a b \<or> a = b \<or> bytes_less b a"
  by (induction a b rule: bytes_less.induct) (auto elim: bytes_less.elims)

text \<open>\<open>strcoll\<close> in the C locale is \<open>strcmp\<close>.\<close>

definition strcmp_like :: "(byte list \<Rightarrow> byte list \<Rightarrow> int) \<Rightarrow> bool" where
  "strcmp_like coll \<longleftrightarrow> (\<forall>a b. 0 \<notin> set a \<longrightarrow> 0 \<notin> set b \<longrightarrow>
     (coll a b < 0 \<longleftrightarrow> bytes_less a b) \<and> (coll a b = 0 \<longleftrightarrow> a = b))"

lemma c_text_split:
  "l = c_text l \<or> (\<exists>xs. l = c_text l @ 0 # xs \<and> drop (Suc (length (c_text l))) l = xs)"
proof (cases "c_text l = l")
  case False
  then have "dropWhile (\<lambda>c. c \<noteq> 0) l \<noteq> []" unfolding c_text_def by (metis append_Nil2 takeWhile_dropWhile_id)
  then obtain y xs where d: "dropWhile (\<lambda>c. c \<noteq> 0) l = y # xs" by (cases "dropWhile (\<lambda>c. c \<noteq> 0) l") auto
  then have "y = 0" using hd_dropWhile [of "\<lambda>c. c \<noteq> 0" l] by auto
  then have "l = c_text l @ 0 # xs" using d unfolding c_text_def by (metis takeWhile_dropWhile_id)
  moreover from this have "drop (Suc (length (c_text l))) l = xs"
    by (metis append.assoc append_Cons append_Nil append_eq_conv_conj length_append_singleton)
  ultimately show ?thesis by blast
qed simp

lemma c_text_no_zero: "0 \<notin> set (c_text l)"
  by (auto simp: c_text_def dest: set_takeWhileD)

lemma bytes_less_append: "bytes_less (a @ b) (a @ c) \<longleftrightarrow> bytes_less b c"
  by (induction a) auto

lemma bytes_less_before:
  "bytes_less a b \<Longrightarrow> 0 \<notin> set b \<Longrightarrow> bytes_less (a @ 0 # xs) b"
  "bytes_less a b \<Longrightarrow> 0 \<notin> set b \<Longrightarrow> bytes_less (a @ 0 # xs) (b @ ys)"
  "bytes_less a b \<Longrightarrow> bytes_less a (b @ ys)"
  by (induction a b rule: bytes_less.induct) (auto simp: word_neq_0_conv)

lemma bytes_less_asym: "bytes_less a b \<Longrightarrow> \<not> bytes_less b a \<and> a \<noteq> b"
  using bytes_less_trans bytes_less_irrefl by blast

text \<open>Two strings whose first pieces differ are ordered as these pieces.\<close>

lemma bytes_less_pieces:
  assumes "bytes_less (c_text l) (c_text r)"
  shows "bytes_less l r"
  using c_text_split [of l] c_text_split [of r] bytes_less_before(1,2) [OF assms c_text_no_zero] bytes_less_before(3) [OF assms]
    assms by metis

lemma l_strcmp_ok:
  assumes "strcmp_like coll"
  shows "(l_strcmp coll l r < 0 \<longleftrightarrow> bytes_less l r) \<and> (l_strcmp coll l r = 0 \<longleftrightarrow> l = r)"
  using assms
proof (induction coll l r rule: l_strcmp.induct)
  case (1 coll l r)
  define a b where ab: "a = c_text l" "b = c_text r"
  have c: "coll a b < 0 \<longleftrightarrow> bytes_less a b" "coll a b = 0 \<longleftrightarrow> a = b"
    using 1(2) c_text_no_zero by (simp_all add: strcmp_like_def ab)
  note e = l_strcmp.simps [of coll l r, folded ab, unfolded Let_def]
  show ?case
  proof (cases "a = b")
    case False
    then have "coll a b \<noteq> 0" using c by simp
    then have "l_strcmp coll l r = coll a b" unfolding e by simp
    moreover have "bytes_less a b \<or> bytes_less b a" using False bytes_less_total by blast
    ultimately show ?thesis
      using c bytes_less_pieces [of l r, folded ab] bytes_less_pieces [of r l, folded ab] bytes_less_asym False by metis
  next
    case True
    with c have z: "coll a b = 0" by simp
    consider "r = a" "l = a" | xs where "r = a" "l = a @ 0 # xs" | ys where "l = a" "r = a @ 0 # ys"
      | xs ys where "l = a @ 0 # xs" "drop (Suc (length a)) l = xs" "r = a @ 0 # ys" "drop (Suc (length a)) r = ys"
      using c_text_split [of l] c_text_split [of r] True unfolding ab by metis
    then show ?thesis
    proof cases
      case 1
      then show ?thesis using z unfolding e by (simp add: bytes_less_irrefl)
    next
      case 2
      then show ?thesis using z bytes_less_append [of a "0 # xs" "[]"] unfolding e by simp
    next
      case 3
      then show ?thesis using z bytes_less_append [of a "[]" "0 # ys"] unfolding e by simp
    next
      case 4
      have ne: "length a \<noteq> length r" "length a \<noteq> length l" using 4 by simp_all
      have IH: "(l_strcmp coll xs ys < 0 \<longleftrightarrow> bytes_less xs ys) \<and> (l_strcmp coll xs ys = 0 \<longleftrightarrow> xs = ys)"
        using "1.IH" [folded ab, OF refl _ refl ne "1.prems"] z 4(2,4) by simp
      have "l_strcmp coll l r = l_strcmp coll xs ys" unfolding e using z ne 4(2,4) by simp
      with IH 4(1,3) show ?thesis by (simp add: bytes_less_append)
    qed
  qed
qed

text \<open>
  C25: \<open>l_strcmp\<close> compares whole strings, also strings with embedded zero bytes on which
  \<open>strcoll\<close> stops: when \<open>strcoll\<close> orders C strings as \<open>strcmp\<close> does, the comparison is negative
  exactly if the first string comes first in dictionary order, and zero exactly for equal strings.
\<close>

theorem l_strcmp_dictionary:
  assumes "strcmp_like coll"
  shows "(l_strcmp coll l r < 0 \<longleftrightarrow> bytes_less l r) \<and> (l_strcmp coll l r = 0 \<longleftrightarrow> l = r)
    \<and> (l_strcmp coll l r > 0 \<longleftrightarrow> bytes_less r l)"
  using l_strcmp_ok [OF assms, of l r] bytes_less_total [of l r] bytes_less_asym [of l r] bytes_less_asym [of r l] by auto

definition strcmp :: "byte list \<Rightarrow> byte list \<Rightarrow> int" where
  "strcmp a b = (if bytes_less a b then -1 else if a = b then 0 else 1)"

lemma strcmp_strcmp_like: "strcmp_like strcmp"
  by (auto simp: strcmp_like_def strcmp_def bytes_less_irrefl)

theorem l_strcmp_dictionary_witness:
  "l_strcmp strcmp [97, 0, 98] [97, 0, 99] < 0 \<and> bytes_less [97, 0, 98] [97, 0, 99]"
  using l_strcmp_dictionary [OF strcmp_strcmp_like, of "[97, 0, 98]" "[97, 0, 99]"] by simp

section \<open>Errors of comparisons\<close>

text \<open>What a script sees as the type of a value; it never sees a dead key.\<close>

fun type_name :: "TValue \<Rightarrow> string" where
  "type_name LNil = ''nil''"
| "type_name (LBoolean b) = ''boolean''"
| "type_name (LLightUserdata p) = ''userdata''"
| "type_name (LNumber n) = ''number''"
| "type_name (LString p) = ''string''"
| "type_name (LTable p) = ''table''"
| "type_name (LFunction p) = ''function''"
| "type_name (LUserdata p) = ''userdata''"
| "type_name (LThread p) = ''thread''"
| "type_name (LDeadKey p) = []"

text \<open>The types that the message says were compared.\<close>

definition order_message :: "TValue \<Rightarrow> TValue \<Rightarrow> string" where
  "order_message l r =
    (if type_name l = type_name r \<or> {type_name l, type_name r} = {''string'', ''thread''}
     then ''attempt to compare two '' @ type_name l @ '' values''
     else ''attempt to compare '' @ type_name l @ '' with '' @ type_name r)"

lemma typenames_type_name: "ttype v < 9 \<Longrightarrow> luaT_typenames ! ttype v = type_name v"
  by (cases v) (simp_all add: luaT_typenames_def)

lemma third_letter:
  assumes "ttype l < 9" "ttype r < 9"
  shows "type_name l ! 2 = type_name r ! 2
    \<longleftrightarrow> type_name l = type_name r \<or> {type_name l, type_name r} = {''string'', ''thread''}"
  using assms by (cases l; cases r) (simp_all add: doubleton_eq_iff)

lemma luaG_ordererror_message:
  "ttype l < 9 \<Longrightarrow> ttype r < 9 \<Longrightarrow> luaG_ordererror l r = LuaError (order_message l r)"
  by (simp add: luaG_ordererror_def order_message_def typenames_type_name third_letter)

text \<open>The values that are compared without a metamethod.\<close>

fun primitive_order :: "TValue \<Rightarrow> TValue \<Rightarrow> bool" where
  "primitive_order (LNumber a) (LNumber b) \<longleftrightarrow> True"
| "primitive_order (LString a) (LString b) \<longleftrightarrow> True"
| "primitive_order l r \<longleftrightarrow> False"

definition no_orderTM :: "'s venv \<Rightarrow> TValue \<Rightarrow> TValue \<Rightarrow> 's \<Rightarrow> bool" where
  "no_orderTM E l r s \<longleftrightarrow> (\<forall>e. call_orderTM E e l r s = Inr (None, s) \<and> call_orderTM E e r l s = Inr (None, s))"

text \<open>
  C26: two values of different types, or two of one type that have no order of their own and no metamethod,
  cannot be compared: both comparisons fail. The message names the types as a script sees them, and
  says that they are the same exactly when they have the same name, with one
  exception: a string and a thread are reported as two values of the first one's type.
\<close>

theorem order_errors:
  assumes "ttype l < 9" "ttype r < 9" "ttype l \<noteq> ttype r \<or> \<not> primitive_order l r \<and> no_orderTM E l r s"
  shows "luaV_lessthan E l r s = Inl (LuaError (order_message l r)) \<and> lessequal E l r s = Inl (LuaError (order_message l r))"
proof (cases "ttype l = ttype r")
  case False
  then show ?thesis by (simp add: luaV_lessthan_def lessequal_def luaG_ordererror_message assms(1,2))
next
  case True
  with assms(3) have p: "\<not> primitive_order l r" "call_orderTM E e l r s = Inr (None, s)" "call_orderTM E e r l s = Inr (None, s)"
    for e by (auto simp: no_orderTM_def)
  with True assms(1,2) show ?thesis
    by (auto simp: luaV_lessthan_def lessequal_def lbind_def luaG_ordererror_message split: TValue.split)
qed

definition plain_env :: "unit venv" where
  "plain_env = \<lparr>svalue = (\<lambda>p. []), vlibc = \<lparr>strtod = (\<lambda>s. (0, 0)), strtoul = (\<lambda>s. (0, 0))\<rparr>, strcoll = strcmp,
     number2str = (\<lambda>n. []), call_orderTM = (\<lambda>e l r. lret None)\<rparr>"

theorem order_errors_witness:
  "luaV_lessthan plain_env (LString 1) (LThread 2) () = Inl (LuaError ''attempt to compare two string values'')
   \<and> lessequal plain_env (LTable 1) (LTable 2) () = Inl (LuaError ''attempt to compare two table values'')
   \<and> luaV_lessthan plain_env LNil (LNumber 0) () = Inl (LuaError ''attempt to compare nil with number'')"
proof (intro conjI)
  have "no_orderTM plain_env l r ()" for l r by (simp add: no_orderTM_def plain_env_def lret_def)
  note e = order_errors [of _ _ plain_env "()", simplified this]
  show "luaV_lessthan plain_env (LString 1) (LThread 2) () = Inl (LuaError ''attempt to compare two string values'')"
    using e [of "LString 1" "LThread 2"] by (simp add: order_message_def)
  show "lessequal plain_env (LTable 1) (LTable 2) () = Inl (LuaError ''attempt to compare two table values'')"
    using e [of "LTable 1" "LTable 2"] by (simp add: order_message_def)
  show "luaV_lessthan plain_env LNil (LNumber 0) () = Inl (LuaError ''attempt to compare nil with number'')"
    using e [of LNil "LNumber 0"] by (simp add: order_message_def doubleton_eq_iff)
qed

end
