(* ===== verification/Lexer.thy ===== *)
theory Lexer
  imports Values Zio
begin

text \<open>
  The lexical analyser (\<open>llex.c\<close>, \<open>llex.h\<close>). Its functions are actions on the state \<open>LexState\<close>,
  which holds the current character, the input stream, the token buffer, and the parts of the
  Lua state that \<open>luaX_newstring\<close> changes: the string table and the constant table \<open>fs->h\<close> of
  the function being compiled. \<open>malloc\<close>, \<open>strtod\<close>,
  \<open>strtoul\<close> and \<open>localeconv\<close> are parameters.

  A loop gets as fuel the number of characters that are left; the theory \<open>Lexer_Safe\<close> shows
  that this is always enough.
\<close>

unbundle bit_operations_syntax

section \<open>Tokens\<close>

datatype RESERVED =
    TK_AND | TK_BREAK
  | TK_DO | TK_ELSE | TK_ELSEIF | TK_END | TK_FALSE | TK_FOR | TK_FUNCTION
  | TK_IF | TK_IN | TK_LOCAL | TK_NIL | TK_NOT | TK_OR | TK_REPEAT
  | TK_RETURN | TK_THEN | TK_TRUE | TK_UNTIL | TK_WHILE
  | TK_CONCAT | TK_DOTS | TK_EQ | TK_GE | TK_LE | TK_NE | TK_NUMBER
  | TK_NAME | TK_STRING | TK_EOS

definition FIRST_RESERVED :: int where "FIRST_RESERVED = 257"
definition NUM_RESERVED :: nat where "NUM_RESERVED = 21"

text \<open>The number of a terminal symbol.\<close>

fun tk :: "RESERVED \<Rightarrow> int" where
  "tk TK_AND = 257" | "tk TK_BREAK = 258" | "tk TK_DO = 259" | "tk TK_ELSE = 260"
| "tk TK_ELSEIF = 261" | "tk TK_END = 262" | "tk TK_FALSE = 263" | "tk TK_FOR = 264"
| "tk TK_FUNCTION = 265" | "tk TK_IF = 266" | "tk TK_IN = 267" | "tk TK_LOCAL = 268"
| "tk TK_NIL = 269" | "tk TK_NOT = 270" | "tk TK_OR = 271" | "tk TK_REPEAT = 272"
| "tk TK_RETURN = 273" | "tk TK_THEN = 274" | "tk TK_TRUE = 275" | "tk TK_UNTIL = 276"
| "tk TK_WHILE = 277" | "tk TK_CONCAT = 278" | "tk TK_DOTS = 279" | "tk TK_EQ = 280"
| "tk TK_GE = 281" | "tk TK_LE = 282" | "tk TK_NE = 283" | "tk TK_NUMBER = 284"
| "tk TK_NAME = 285" | "tk TK_STRING = 286" | "tk TK_EOS = 287"

definition luaX_tokens :: "string list" where
  "luaX_tokens = [
    ''and'', ''break'', ''do'', ''else'', ''elseif'',
    ''end'', ''false'', ''for'', ''function'', ''if'',
    ''in'', ''local'', ''nil'', ''not'', ''or'', ''repeat'',
    ''return'', ''then'', ''true'', ''until'', ''while'',
    ''..'', ''...'', ''=='', ''>='', ''<='', ''~='',
    ''<number>'', ''<name>'', ''<string>'', ''<eof>'']"

datatype SemInfo = SemNumber lua_Number | SemString ptr | SemNone

record Token =
  token :: int
  seminfo :: SemInfo

section \<open>State\<close>

text \<open>\<open>lsource\<close> is the text of \<open>ls->source\<close>; \<open>lstrings\<close> and \<open>fs_h\<close> belong to the Lua state.\<close>

record LexState =
  current :: int
  linenumber :: int
  lastline :: int
  tok :: Token
  lookahead :: Token
  lzio :: ZIO
  buff :: Mbuffer
  lsource :: string
  decpoint :: byte
  lstrings :: stringtable
  fs_h :: Table

record lex_env =
  alloc :: "str_heap \<Rightarrow> ptr"
  lex_libc :: libc
  locale_point :: byte

definition str2d :: "lex_env \<Rightarrow> byte list \<Rightarrow> lua_Number option" where
  "str2d E = luaO_str2d (lex_libc E)"

text \<open>
  A syntax error has the chunk name, the line, the message, and the text after \<open>near\<close>, if there
  is one. The others are the errors of the allocator and of the table. \<open>LexStuck\<close> is no error of the code:
  the model stops there when a loop has no fuel left, or when a byte would be written outside the
  token buffer.
\<close>

datatype lex_error = LexError string int string "byte list option" | LexTooBig | LexTable terror | LexStuck

type_synonym 'a lex = "(LexState, lex_error, 'a) action"

definition bytes :: "string \<Rightarrow> byte list" where "bytes s = map of_char s"

section \<open>Errors\<close>

definition MAXSRC :: nat where "MAXSRC = 80"

text \<open>The message without a token, as \<open>save\<close> raises it (the token 0 has no \<open>near\<close> part).\<close>

definition lexerror_plain :: "LexState \<Rightarrow> string \<Rightarrow> lex_error" where
  "lexerror_plain ls msg = LexError (luaO_chunkid (lsource ls) MAXSRC) (linenumber ls) msg None"

section \<open>Characters\<close>

text \<open>The macro \<open>next\<close>.\<close>

definition lnext :: "unit lex" where
  "lnext = lmodify (\<lambda>ls. let (c, z) = zgetc (lzio ls) in ls\<lparr>current := c, lzio := z\<rparr>)"

text \<open>The write \<open>b->buffer[b->n++] = c\<close>, with the bounds of the memory block.\<close>

definition put_byte :: "int \<Rightarrow> Mbuffer \<Rightarrow> unit lex" where
  "put_byte c b = (\<lambda>ls.
    if bn b < length (buffer b)
    then Inr ((), ls\<lparr>buff := b\<lparr>buffer := (buffer b)[bn b := word_of_int c], bn := bn b + 1\<rparr>\<rparr>)
    else Inl LexStuck)"

definition save :: "int \<Rightarrow> unit lex" where
  "save c = (\<lambda>ls.
    let b = buff ls in
    if bn b + 1 > buffsize b then
      (if buffsize b \<ge> MAX_SIZET div 2 then Inl (lexerror_plain ls ''lexical element too long'')
       else put_byte c (luaZ_resizebuffer b (buffsize b * 2)) ls)
    else put_byte c b ls)"

definition save_and_next :: "unit lex" where
  "save_and_next = (\<lambda>ls. lseq (save (current ls)) lnext ls)"

definition cur :: "char \<Rightarrow> LexState \<Rightarrow> bool" where
  "cur c ls \<longleftrightarrow> current ls = of_char c"

text \<open>A character class of \<open>ctype.h\<close>; \<open>EOZ\<close> is in none.\<close>

definition cur_in :: "(nat \<Rightarrow> bool) \<Rightarrow> LexState \<Rightarrow> bool" where
  "cur_in P ls \<longleftrightarrow> 0 \<le> current ls \<and> P (nat (current ls))"

definition currIsNewline :: "LexState \<Rightarrow> bool" where
  "currIsNewline ls \<longleftrightarrow> cur CHR 0x0A ls \<or> cur CHR 0x0D ls"

text \<open>The characters that are left, with the current one; and a loop with that fuel.\<close>

definition lex_left :: "LexState \<Rightarrow> nat" where
  "lex_left ls = (if current ls = EOZ then 0 else Suc (length (pending (lzio ls))))"

definition lwhile :: "(LexState \<Rightarrow> bool) \<Rightarrow> unit lex \<Rightarrow> unit lex" where
  "lwhile c b = (\<lambda>ls. while_act LexStuck (Suc (lex_left ls)) c b ls)"

section \<open>Messages\<close>

text \<open>The decimal text of a token number below \<open>FIRST_RESERVED\<close>, for control characters.\<close>

fun dec_text :: "nat \<Rightarrow> string" where
  "dec_text n = (if n < 10 then [char_of (48 + n)] else dec_text (n div 10) @ [char_of (48 + n mod 10)])"

declare dec_text.simps [simp del]

definition luaX_token2str :: "int \<Rightarrow> byte list" where
  "luaX_token2str t =
    (if t < FIRST_RESERVED then
       (if iscntrl (nat t) then bytes (''char('' @ dec_text (nat t) @ '')'') else [word_of_int t])
     else bytes (luaX_tokens ! nat (t - FIRST_RESERVED)))"

definition txtToken :: "int \<Rightarrow> byte list lex" where
  "txtToken t =
    (if t \<in> {tk TK_NAME, tk TK_STRING, tk TK_NUMBER}
     then lseq (save 0) (\<lambda>ls. Inr (c_text (buffer (buff ls)), ls))
     else lret (luaX_token2str t))"

text \<open>\<open>luaX_lexerror\<close> never returns; its type is that of the place where it is called.\<close>

definition luaX_lexerror :: "string \<Rightarrow> int \<Rightarrow> 'a lex" where
  "luaX_lexerror msg t = (\<lambda>ls.
    if t \<noteq> 0 then
      (case txtToken t ls of
         Inl e \<Rightarrow> Inl e
       | Inr (txt, ls) \<Rightarrow> Inl (LexError (luaO_chunkid (lsource ls) MAXSRC) (linenumber ls) msg (Some txt)))
    else Inl (lexerror_plain ls msg))"

definition luaX_syntaxerror :: "string \<Rightarrow> 'a lex" where
  "luaX_syntaxerror msg = (\<lambda>ls. luaX_lexerror msg (token (tok ls)) ls)"

section \<open>Strings and lines\<close>

definition str_hash :: "stringtable \<Rightarrow> ptr \<Rightarrow> u32" where
  "str_hash g p = (case objs g p of Some ts \<Rightarrow> shash ts | None \<Rightarrow> 0)"

text \<open>The string is entered in \<open>fs->h\<close>, so that it is not collected.\<close>

definition luaX_newstring :: "lex_env \<Rightarrow> byte list \<Rightarrow> ptr lex" where
  "luaX_newstring E str = (\<lambda>ls.
    case luaS_newlstr (alloc E) (lstrings ls) str of
      None \<Rightarrow> Inl LexTooBig
    | Some (p, g) \<Rightarrow>
        (case luaH_setstr (str_hash g) (fs_h ls) p of
           Inl e \<Rightarrow> Inl (LexTable e)
         | Inr (t, o1) \<Rightarrow>
             let t = (if ttisnil (tv_read t o1) then tv_write t o1 (LBoolean True) else t)
             in Inr (p, ls\<lparr>lstrings := g, fs_h := t\<rparr>)))"

definition inclinenumber :: "unit lex" where
  "inclinenumber = (\<lambda>ls.
    let old = current ls in
    lseq lnext
      (lseq (lif (\<lambda>ls. currIsNewline ls \<and> current ls \<noteq> old) lnext (lret ()))
        (lseq (lmodify (\<lambda>ls. ls\<lparr>linenumber := linenumber ls + 1\<rparr>))
          (lif (\<lambda>ls. linenumber ls \<ge> MAX_INT) (luaX_syntaxerror ''chunk has too many lines'') (lret ())))) ls)"

definition luaX_setinput :: "ZIO \<Rightarrow> string \<Rightarrow> unit lex" where
  "luaX_setinput z src = lseq (lmodify (\<lambda>ls. ls\<lparr>decpoint := of_char CHR ''.'',
      lookahead := (lookahead ls)\<lparr>token := tk TK_EOS\<rparr>, lzio := z, linenumber := 1, lastline := 1,
      lsource := src, buff := luaZ_resizebuffer (buff ls) LUA_MINBUFFER\<rparr>)) lnext"

text \<open>\<open>strchr\<close> also finds the terminator of the set: a zero character is in every set.\<close>

definition check_next :: "string \<Rightarrow> bool lex" where
  "check_next cs = lif (\<lambda>ls. current ls mod 256 \<in> set (map of_char (cs @ [NUL])))
     (lseq save_and_next (lret True)) (lret False)"

section \<open>Numerals\<close>

fun replace_byte :: "byte \<Rightarrow> byte \<Rightarrow> nat \<Rightarrow> byte list \<Rightarrow> byte list" where
  "replace_byte c d 0 p = p"
| "replace_byte c d (Suc n) p = replace_byte c d n (if p ! n = c then p[n := d] else p)"

definition buffreplace :: "byte \<Rightarrow> byte \<Rightarrow> unit lex" where
  "buffreplace c d = lmodify (\<lambda>ls. ls\<lparr>buff := (buff ls)\<lparr>buffer :=
     replace_byte c d (bn (buff ls)) (buffer (buff ls))\<rparr>\<rparr>)"

definition trydecpoint :: "lex_env \<Rightarrow> lua_Number lex" where
  "trydecpoint E = (\<lambda>ls.
    let old = decpoint ls in
    lseq (lmodify (\<lambda>ls. ls\<lparr>decpoint := locale_point E\<rparr>))
      (lseq (buffreplace old (locale_point E))
        (\<lambda>ls. case str2d E (c_text (buffer (buff ls))) of
           Some r \<Rightarrow> Inr (r, ls)
         | None \<Rightarrow> lseq (buffreplace (decpoint ls) (of_char CHR ''.''))
             (luaX_lexerror ''malformed number'' (tk TK_NUMBER)) ls)) ls)"

text \<open>The \<open>do\<close> loop has read the first digit already when its condition is tested.\<close>

definition read_numeral :: "lex_env \<Rightarrow> lua_Number lex" where
  "read_numeral E =
    lseq save_and_next
    (lseq (lwhile (\<lambda>ls. cur_in isdigit ls \<or> cur CHR ''.'' ls) save_and_next)
    (lseq (lbind (check_next ''Ee'') (\<lambda>e. if e then lseq (check_next ''+-'') (lret ()) else lret ()))
    (lseq (lwhile (\<lambda>ls. cur_in isalnum ls \<or> cur CHR ''_'' ls) save_and_next)
    (lseq (save 0)
    (lseq (\<lambda>ls. buffreplace (of_char CHR ''.'') (decpoint ls) ls)
    (\<lambda>ls. case str2d E (c_text (buffer (buff ls))) of
       Some r \<Rightarrow> Inr (r, ls)
     | None \<Rightarrow> trydecpoint E ls))))))"

section \<open>Long strings\<close>

text \<open>The number of \<open>=\<close> signs, or a negative number if no second bracket follows.\<close>

fun skip_sep_loop :: "nat \<Rightarrow> int \<Rightarrow> int lex" where
  "skip_sep_loop 0 count = (\<lambda>ls. Inl LexStuck)"
| "skip_sep_loop (Suc n) count =
     lif (cur CHR ''='') (lseq save_and_next (skip_sep_loop n (count + 1))) (lret count)"

definition skip_sep :: "int lex" where
  "skip_sep = (\<lambda>ls.
    let s = current ls in
    lbind (lseq save_and_next (\<lambda>ls. skip_sep_loop (Suc (lex_left ls)) 0 ls))
      (\<lambda>count ls. Inr (if current ls = s then count else - count - 1, ls)) ls)"

text \<open>
  The loop over the text; \<open>keep\<close> says that \<open>seminfo\<close> is not \<open>NULL\<close>. \<open>LUA_COMPAT_LSTR\<close> is 1.
\<close>

fun long_string_loop :: "nat \<Rightarrow> bool \<Rightarrow> int \<Rightarrow> unit lex" where
  "long_string_loop 0 keep sep = (\<lambda>ls. Inl LexStuck)"
| "long_string_loop (Suc n) keep sep =
    lif (\<lambda>ls. current ls = EOZ)
      (luaX_lexerror (if keep then ''unfinished long string'' else ''unfinished long comment'') (tk TK_EOS))
    (lif (cur CHR ''['')
      (lbind skip_sep (\<lambda>s.
        if s = sep then
          lseq save_and_next
            (if sep = 0 then luaX_lexerror ''nesting of [[...]] is deprecated'' (of_char CHR ''['')
             else long_string_loop n keep sep)
        else long_string_loop n keep sep))
    (lif (cur CHR '']'')
      (lbind skip_sep (\<lambda>s. if s = sep then save_and_next else long_string_loop n keep sep))
    (lif currIsNewline
      (lseq (save 10) (lseq inclinenumber
        (lseq (if keep then lret () else lmodify (\<lambda>ls. ls\<lparr>buff := luaZ_resetbuffer (buff ls)\<rparr>))
          (long_string_loop n keep sep))))
    (lseq (if keep then save_and_next else lnext) (long_string_loop n keep sep)))))"

text \<open>The bytes of the token buffer from \<open>i\<close> on, \<open>n\<close> of them.\<close>

definition buff_slice :: "LexState \<Rightarrow> nat \<Rightarrow> nat \<Rightarrow> byte list" where
  "buff_slice ls i n = take n (drop i (buffer (buff ls)))"

definition read_long_string :: "lex_env \<Rightarrow> bool \<Rightarrow> nat \<Rightarrow> ptr option lex" where
  "read_long_string E keep sep =
    lseq save_and_next
    (lseq (lif currIsNewline inclinenumber (lret ()))
    (lseq (\<lambda>ls. long_string_loop (Suc (lex_left ls)) keep (int sep) ls)
    (if keep then
       (\<lambda>ls. lbind (luaX_newstring E (buff_slice ls (2 + sep) (bn (buff ls) - 2 * (2 + sep))))
         (\<lambda>p. lret (Some p)) ls)
     else lret None)))"

section \<open>Quoted strings\<close>

definition UCHAR_MAX :: int where "UCHAR_MAX = 255"

text \<open>The \<open>do\<close> loop over at most three digits; \<open>n\<close> counts down from 3.\<close>

fun escape_digits :: "nat \<Rightarrow> int \<Rightarrow> int lex" where
  "escape_digits 0 c = lret c"
| "escape_digits (Suc n) c = (\<lambda>ls.
     let c = 10 * c + (current ls - 48) in
     lseq lnext (lif (cur_in isdigit) (escape_digits n c) (lret c)) ls)"

text \<open>The cases with a fixed value.\<close>

definition simple_escape :: "int \<Rightarrow> int option" where
  "simple_escape c =
    (if c = of_char CHR ''a'' then Some 7 else if c = of_char CHR ''b'' then Some 8
     else if c = of_char CHR ''f'' then Some 12 else if c = of_char CHR ''n'' then Some 10
     else if c = of_char CHR ''r'' then Some 13 else if c = of_char CHR ''t'' then Some 9
     else if c = of_char CHR ''v'' then Some 11 else None)"

text \<open>The case of the backslash, up to its \<open>continue\<close>.\<close>

definition read_escape :: "unit lex" where
  "read_escape = lseq lnext (\<lambda>ls. case simple_escape (current ls) of
      Some c \<Rightarrow> lseq (save c) lnext ls
    | None \<Rightarrow>
        lif currIsNewline (lseq (save 10) inclinenumber)
        (lif (\<lambda>ls. current ls = EOZ) (lret ())
        (lif (\<lambda>ls. \<not> cur_in isdigit ls) save_and_next
        (lbind (escape_digits 3 0) (\<lambda>c.
           if c > UCHAR_MAX then luaX_lexerror ''escape sequence too large'' (tk TK_STRING)
           else save c)))) ls)"

definition read_string_step :: "unit lex" where
  "read_string_step =
    lif (\<lambda>ls. current ls = EOZ) (luaX_lexerror ''unfinished string'' (tk TK_EOS))
    (lif currIsNewline (luaX_lexerror ''unfinished string'' (tk TK_STRING))
    (lif (cur CHR 0x5C) read_escape save_and_next))"

definition read_string :: "lex_env \<Rightarrow> int \<Rightarrow> ptr lex" where
  "read_string E del =
    lseq save_and_next
    (lseq (lwhile (\<lambda>ls. current ls \<noteq> del) read_string_step)
    (lseq save_and_next
      (\<lambda>ls. luaX_newstring E (buff_slice ls 1 (bn (buff ls) - 2)) ls)))"

section \<open>The scanner\<close>

text \<open>A token and its semantic information, where \<open>llex\<close> sets it.\<close>

type_synonym lex_result = "(int \<times> SemInfo option) lex"

definition tok_char :: "char \<Rightarrow> lex_result" where
  "tok_char c = lret (of_char c, None)"

definition tok_reserved :: "RESERVED \<Rightarrow> lex_result" where
  "tok_reserved r = lret (tk r, None)"

text \<open>The cases of \<open>=\<close>, \<open><\<close>, \<open>>\<close> and \<open>~\<close>, which may be followed by \<open>=\<close>.\<close>

definition lex_equal :: "char \<Rightarrow> RESERVED \<Rightarrow> lex_result" where
  "lex_equal c r = lseq lnext (lif (\<lambda>ls. \<not> cur CHR ''='' ls) (tok_char c) (lseq lnext (tok_reserved r)))"

definition lex_name :: "lex_env \<Rightarrow> lex_result" where
  "lex_name E =
    lseq save_and_next
    (lseq (lwhile (\<lambda>ls. cur_in isalnum ls \<or> cur CHR ''_'' ls) save_and_next)
    (\<lambda>ls. lbind (luaX_newstring E (take (bn (buff ls)) (buffer (buff ls)))) (\<lambda>p ls.
       let r = (case objs (lstrings ls) p of Some ts \<Rightarrow> reserved ts | None \<Rightarrow> 0) in
       if r > 0 then Inr ((uint r - 1 + FIRST_RESERVED, None), ls)
       else Inr ((tk TK_NAME, Some (SemString p)), ls)) ls))"

definition lex_number :: "lex_env \<Rightarrow> lex_result" where
  "lex_number E = lbind (read_numeral E) (\<lambda>r. lret (tk TK_NUMBER, Some (SemNumber r)))"

definition lex_dots :: "lex_env \<Rightarrow> lex_result" where
  "lex_dots E = lseq save_and_next (lbind (check_next ''.'') (\<lambda>d.
    if d then lbind (check_next ''.'') (\<lambda>d. tok_reserved (if d then TK_DOTS else TK_CONCAT))
    else lif (\<lambda>ls. \<not> cur_in isdigit ls) (tok_char CHR ''.'') (lex_number E)))"

definition reset_buffer :: "unit lex" where
  "reset_buffer = lmodify (\<lambda>ls. ls\<lparr>buff := luaZ_resetbuffer (buff ls)\<rparr>)"

text \<open>A comment, after its second minus sign.\<close>

definition lex_comment :: "lex_env \<Rightarrow> unit lex" where
  "lex_comment E =
    lbind (lif (cur CHR ''['')
        (lbind skip_sep (\<lambda>sep. lseq reset_buffer
          (if sep \<ge> 0 then lseq (read_long_string E False (nat sep)) (lseq reset_buffer (lret True))
           else lret False)))
        (lret False))
      (\<lambda>long. if long then lret ()
        else lwhile (\<lambda>ls. \<not> currIsNewline ls \<and> current ls \<noteq> EOZ) lnext)"

fun llex_loop :: "lex_env \<Rightarrow> nat \<Rightarrow> lex_result" where
  "llex_loop E 0 = (\<lambda>ls. Inl LexStuck)"
| "llex_loop E (Suc n) =
    lif currIsNewline (lseq inclinenumber (llex_loop E n))
    (lif (cur CHR ''-'')
      (lseq lnext (lif (\<lambda>ls. \<not> cur CHR ''-'' ls) (tok_char CHR ''-'')
        (lseq lnext (lseq (lex_comment E) (llex_loop E n)))))
    (lif (cur CHR ''['')
      (lbind skip_sep (\<lambda>sep.
        if sep \<ge> 0 then
          lbind (read_long_string E True (nat sep)) (\<lambda>p. lret (tk TK_STRING, map_option SemString p))
        else if sep = -1 then tok_char CHR ''[''
        else luaX_lexerror ''invalid long string delimiter'' (tk TK_STRING)))
    (lif (cur CHR ''='') (lex_equal CHR ''='' TK_EQ)
    (lif (cur CHR ''<'') (lex_equal CHR ''<'' TK_LE)
    (lif (cur CHR ''>'') (lex_equal CHR ''>'' TK_GE)
    (lif (cur CHR ''~'') (lex_equal CHR ''~'' TK_NE)
    (lif (\<lambda>ls. cur CHR 0x22 ls \<or> cur CHR 0x27 ls)
      (\<lambda>ls. lbind (read_string E (current ls)) (\<lambda>p. lret (tk TK_STRING, Some (SemString p))) ls)
    (lif (cur CHR ''.'') (lex_dots E)
    (lif (\<lambda>ls. current ls = EOZ) (tok_reserved TK_EOS)
    (lif (cur_in isspace) (lseq lnext (llex_loop E n))
    (lif (cur_in isdigit) (lex_number E)
    (lif (\<lambda>ls. cur_in isalpha ls \<or> cur CHR ''_'' ls) (lex_name E)
    (\<lambda>ls. let c = current ls in lseq lnext (lret (c, None)) ls)))))))))))))"

definition llex :: "lex_env \<Rightarrow> lex_result" where
  "llex E = lseq reset_buffer (\<lambda>ls. llex_loop E (Suc (lex_left ls)) ls)"

definition set_token :: "Token \<Rightarrow> int \<Rightarrow> SemInfo option \<Rightarrow> Token" where
  "set_token t k s = t\<lparr>token := k, seminfo := (case s of None \<Rightarrow> seminfo t | Some s \<Rightarrow> s)\<rparr>"

definition luaX_next :: "lex_env \<Rightarrow> unit lex" where
  "luaX_next E =
    lseq (lmodify (\<lambda>ls. ls\<lparr>lastline := linenumber ls\<rparr>))
      (lif (\<lambda>ls. token (lookahead ls) \<noteq> tk TK_EOS)
        (lmodify (\<lambda>ls. ls\<lparr>tok := lookahead ls, lookahead := (lookahead ls)\<lparr>token := tk TK_EOS\<rparr>\<rparr>))
        (lbind (llex E) (\<lambda>(k, s). lmodify (\<lambda>ls. ls\<lparr>tok := set_token (tok ls) k s\<rparr>))))"

definition luaX_lookahead :: "lex_env \<Rightarrow> unit lex" where
  "luaX_lookahead E =
    lbind (llex E) (\<lambda>(k, s). lmodify (\<lambda>ls. ls\<lparr>lookahead := set_token (lookahead ls) k s\<rparr>))"

section \<open>Reserved words\<close>

definition FIXEDBIT :: nat where "FIXEDBIT = 5"

text \<open>\<open>luaS_fix\<close> and the assignment to \<open>reserved\<close>.\<close>

definition fix_reserved :: "ptr \<Rightarrow> nat \<Rightarrow> stringtable \<Rightarrow> stringtable" where
  "fix_reserved p i g = (case objs g p of
     Some ts \<Rightarrow> g\<lparr>objs := (objs g)(p \<mapsto>
       ts\<lparr>marked := marked ts OR push_bit FIXEDBIT 1, reserved := word_of_nat (i + 1)\<rparr>)\<rparr>
   | None \<Rightarrow> g)"

fun init_loop :: "(str_heap \<Rightarrow> ptr) \<Rightarrow> nat \<Rightarrow> string list \<Rightarrow> stringtable \<Rightarrow> stringtable option" where
  "init_loop al i [] g = Some g"
| "init_loop al i (w # ws) g = (case luaS_newlstr al g (bytes w) of
     None \<Rightarrow> None
   | Some (p, g) \<Rightarrow> init_loop al (i + 1) ws (fix_reserved p i g))"

definition luaX_init :: "(str_heap \<Rightarrow> ptr) \<Rightarrow> stringtable \<Rightarrow> stringtable option" where
  "luaX_init al g = init_loop al 0 (take NUM_RESERVED luaX_tokens) g"

end
