(* ===== verification/Lexer_Safe.thy ===== *)
theory Lexer_Safe
  imports Lexer
begin

text \<open>
  The lexer always returns, and it writes only inside its buffer. The judgement
  \<open>lex_ok P k m Q\<close> says of an action \<open>m\<close> that started in a sound state with \<open>P\<close> it does not run
  out of fuel, and that it ends in a sound state with \<open>Q\<close> after reading at least \<open>k\<close> characters.
  There is a rule for each construct of the actions, so that the proofs follow the code.
\<close>

section \<open>Sound states\<close>

definition mbuf_ok :: "Mbuffer \<Rightarrow> bool" where
  "mbuf_ok b \<longleftrightarrow> length (buffer b) = buffsize b \<and> bn b \<le> buffsize b \<and> 0 < buffsize b"

text \<open>After the end of the stream no more character may be read.\<close>

definition lok :: "LexState \<Rightarrow> bool" where
  "lok ls \<longleftrightarrow> (current ls = EOZ \<or> 0 \<le> current ls \<and> current ls < 256 \<and> zio_ok (lzio ls)) \<and> mbuf_ok (buff ls)"

definition lex_ok :: "(LexState \<Rightarrow> bool) \<Rightarrow> nat \<Rightarrow> 'a lex \<Rightarrow> ('a \<Rightarrow> LexState \<Rightarrow> bool) \<Rightarrow> bool" where
  "lex_ok P k m Q \<longleftrightarrow> (\<forall>ls. lok ls \<and> P ls \<longrightarrow> (case m ls of
     Inl e \<Rightarrow> e \<noteq> LexStuck
   | Inr (x, ls') \<Rightarrow> lok ls' \<and> lex_left ls' + k \<le> lex_left ls \<and> Q x ls'))"

lemma lex_okI:
  assumes "\<And>ls. lok ls \<Longrightarrow> P ls \<Longrightarrow> m ls \<noteq> Inl LexStuck"
    "\<And>ls x ls'. lok ls \<Longrightarrow> P ls \<Longrightarrow> m ls = Inr (x, ls') \<Longrightarrow> lok ls' \<and> lex_left ls' + k \<le> lex_left ls \<and> Q x ls'"
  shows "lex_ok P k m Q"
  unfolding lex_ok_def
proof (intro allI impI)
  fix ls assume a: "lok ls \<and> P ls"
  show "case m ls of Inl e \<Rightarrow> e \<noteq> LexStuck
    | Inr (x, ls') \<Rightarrow> lok ls' \<and> lex_left ls' + k \<le> lex_left ls \<and> Q x ls'"
    using assms(1) [of ls] assms(2) [of ls] a by (cases "m ls") auto
qed

lemma lex_okD:
  assumes "lex_ok P k m Q" "lok ls" "P ls"
  shows "m ls \<noteq> Inl LexStuck"
    "m ls = Inr (x, ls') \<Longrightarrow> lok ls' \<and> lex_left ls' + k \<le> lex_left ls \<and> Q x ls'"
  using assms(1) [unfolded lex_ok_def, THEN spec [of _ ls]] assms(2,3) by auto

section \<open>Rules\<close>

named_theorems lex_rules \<open>the rules of the judgement\<close>

lemma lex_ok_weaken:
  assumes "lex_ok P k m Q" "\<And>ls. P' ls \<Longrightarrow> P ls" "j \<le> k" "\<And>x ls. Q x ls \<Longrightarrow> Q' x ls"
  shows "lex_ok P' j m Q'"
  using assms(2-4) lex_okD [OF assms(1)] by (intro lex_okI) (blast, fastforce)

lemma lex_ok_any:
  assumes "lex_ok P k m Q"
  shows "lex_ok P 0 m (\<lambda>_ _. True)"
  using lex_ok_weaken [OF assms] by simp

lemma lex_ok_lbind:
  assumes "lex_ok P k m Q" "\<And>x. lex_ok (Q x) 0 (f x) R"
  shows "lex_ok P k (lbind m f) R"
proof (rule lex_okI)
  fix ls assume a: "lok ls" "P ls"
  show "lbind m f ls \<noteq> Inl LexStuck"
  proof (cases "m ls")
    case (Inl e)
    with lex_okD(1) [OF assms(1) a] show ?thesis by (auto simp: lbind_def)
  next
    case (Inr w)
    obtain x l1 where w: "w = (x, l1)" by (cases w)
    from lex_okD(2) [OF assms(1) a Inr [unfolded w]] lex_okD(1) [OF assms(2), of l1 x]
    show ?thesis by (simp add: lbind_def Inr w)
  qed
next
  fix ls y ls' assume a: "lok ls" "P ls" "lbind m f ls = Inr (y, ls')"
  then obtain x l1 where 1: "m ls = Inr (x, l1)" "f x l1 = Inr (y, ls')" by auto
  from lex_okD(2) [OF assms(1) a(1,2) 1(1)] lex_okD(2) [OF assms(2), of l1 x y ls'] 1(2)
  show "lok ls' \<and> lex_left ls' + k \<le> lex_left ls \<and> R y ls'" by auto
qed

lemma lex_ok_lseq:
  "lex_ok P k m Q \<Longrightarrow> (\<And>x. lex_ok (Q x) 0 f R) \<Longrightarrow> lex_ok P k (lseq m f) R"
  unfolding lseq_def by (rule lex_ok_lbind)

text \<open>The second action may be the one that reads.\<close>

lemma lex_ok_lbind2:
  assumes "lex_ok P 0 m Q" "\<And>x. lex_ok (Q x) k (f x) R"
  shows "lex_ok P k (lbind m f) R"
proof (rule lex_okI)
  fix ls assume a: "lok ls" "P ls"
  show "lbind m f ls \<noteq> Inl LexStuck"
  proof (cases "m ls")
    case (Inl e)
    with lex_okD(1) [OF assms(1) a] show ?thesis by (auto simp: lbind_def)
  next
    case (Inr w)
    obtain x l1 where w: "w = (x, l1)" by (cases w)
    from lex_okD(2) [OF assms(1) a Inr [unfolded w]] lex_okD(1) [OF assms(2), of l1 x]
    show ?thesis by (simp add: lbind_def Inr w)
  qed
next
  fix ls y ls' assume a: "lok ls" "P ls" "lbind m f ls = Inr (y, ls')"
  then obtain x l1 where 1: "m ls = Inr (x, l1)" "f x l1 = Inr (y, ls')" by auto
  from lex_okD(2) [OF assms(1) a(1,2) 1(1)] lex_okD(2) [OF assms(2), of l1 x y ls'] 1(2)
  show "lok ls' \<and> lex_left ls' + k \<le> lex_left ls \<and> R y ls'" by auto
qed

lemma lex_ok_lif:
  assumes "lex_ok (\<lambda>ls. P ls \<and> c ls) k a Q" "lex_ok (\<lambda>ls. P ls \<and> \<not> c ls) k b Q"
  shows "lex_ok P k (lif c a b) Q"
  using assms unfolding lex_ok_def lif_def by auto

lemma lex_ok_lret: "(\<And>ls. P ls \<Longrightarrow> Q x ls) \<Longrightarrow> lex_ok P 0 (lret x) Q"
  by (simp add: lex_ok_def lret_def)

text \<open>An action that is chosen by the state that it starts in.\<close>

lemma lex_ok_state:
  "(\<And>ls. P ls \<Longrightarrow> lex_ok (\<lambda>l. l = ls \<and> P l) k (m ls) Q) \<Longrightarrow> lex_ok P k (\<lambda>ls. m ls ls) Q"
  unfolding lex_ok_def by blast

lemma lex_ok_if:
  "(c \<Longrightarrow> lex_ok P k a Q) \<Longrightarrow> (\<not> c \<Longrightarrow> lex_ok P k b Q) \<Longrightarrow> lex_ok P k (if c then a else b) Q"
  by simp

lemma while_act_ok:
  assumes "lex_ok (\<lambda>ls. I ls \<and> c ls) 1 b (\<lambda>_. I)" "lok ls" "I ls" "lex_left ls < n"
  shows "while_act LexStuck n c b ls \<noteq> Inl LexStuck
    \<and> (\<forall>x ls'. while_act LexStuck n c b ls = Inr (x, ls') \<longrightarrow>
         lok ls' \<and> lex_left ls' \<le> lex_left ls \<and> I ls' \<and> \<not> c ls')"
  using assms(2-4)
proof (induction n arbitrary: ls)
  case (Suc n)
  show ?case
  proof (cases "c ls")
    case False
    with Suc.prems show ?thesis by (simp add: lif_def lret_def)
  next
    case True
    note e = lex_okD [OF assms(1) Suc.prems(1) conjI [OF Suc.prems(2) True]]
    show ?thesis
    proof (cases "b ls")
      case (Inl err)
      with e(1) True show ?thesis by (simp add: lif_def lseq_def lbind_def)
    next
      case (Inr w)
      obtain x l1 where w: "w = (x, l1)" by (cases w)
      from e(2) [OF Inr [unfolded w]] Suc.prems(3) have 1: "lok l1" "I l1" "lex_left l1 < n" "lex_left l1 \<le> lex_left ls" by auto
      from Suc.IH [OF 1(1-3)] 1(4) Inr w True show ?thesis by (fastforce simp: lif_def lseq_def lbind_def)
    qed
  qed
qed simp

lemma lex_ok_lwhile:
  assumes "lex_ok (\<lambda>ls. I ls \<and> c ls) 1 b (\<lambda>_. I)"
  shows "lex_ok I 0 (lwhile c b) (\<lambda>_ ls. I ls \<and> \<not> c ls)"
proof (rule lex_okI)
  fix ls assume "lok ls" "I ls"
  from while_act_ok [OF assms this, of "Suc (lex_left ls)"]
  show "lwhile c b ls \<noteq> Inl LexStuck" by (simp add: lwhile_def del: while_act.simps)
next
  fix ls x ls' assume a: "lok ls" "I ls" "lwhile c b ls = Inr (x, ls')"
  from while_act_ok [OF assms a(1,2), of "Suc (lex_left ls)"] a(3)
  show "lok ls' \<and> lex_left ls' + 0 \<le> lex_left ls \<and> (I ls' \<and> \<not> c ls')"
    by (simp add: lwhile_def del: while_act.simps)
qed

section \<open>Reading characters\<close>

lemma lnext_ok: "lex_ok (\<lambda>ls. current ls \<noteq> EOZ) 1 lnext (\<lambda>_ _. True)"
proof (rule lex_okI)
  fix ls x ls' assume a: "lok ls" "current ls \<noteq> EOZ" "lnext ls = Inr (x, ls')"
  obtain c z where z: "zgetc (lzio ls) = (c, z)" by fastforce
  have "zio_ok (lzio ls)" using a(1,2) by (simp add: lok_def)
  from zgetc_ok [OF this] consider "c = EOZ"
    | d cs where "pending (lzio ls) = d # cs" "c = uint d" "zio_ok z" "pending z = cs"
    unfolding z fst_conv snd_conv by blast
  then have "(c = EOZ) \<or> (0 \<le> c \<and> c < 256 \<and> zio_ok z \<and> length (pending (lzio ls)) = Suc (length (pending z)))"
  proof cases
    case 2
    moreover have "uint d < 256" using unsigned_less [of d, where ?'a = int] by simp
    ultimately show ?thesis by simp
  qed simp
  moreover have "ls' = ls\<lparr>current := c, lzio := z\<rparr>" using a(3) z by (simp add: lnext_def)
  ultimately show "lok ls' \<and> lex_left ls' + 1 \<le> lex_left ls \<and> True"
    using a(1,2) by (auto simp: lok_def lex_left_def)
qed (simp add: lnext_def lmodify_def)

lemma save_ok: "(\<And>ls b. P ls \<Longrightarrow> Q (ls\<lparr>buff := b\<rparr>)) \<Longrightarrow> lex_ok P 0 (save c) (\<lambda>_. Q)"
proof (rule lex_okI)
  fix ls x ls' assume p: "\<And>ls b. P ls \<Longrightarrow> Q (ls\<lparr>buff := b\<rparr>)" and a: "lok ls" "P ls" "save c ls = Inr (x, ls')"
  obtain b where b: "ls' = ls\<lparr>buff := b\<rparr>" "mbuf_ok b"
    using a(1,3) by (auto simp: save_def put_byte_def Let_def lok_def mbuf_ok_def luaZ_resizebuffer_def split: if_splits)
  with p a(1,2) show "lok ls' \<and> lex_left ls' + 0 \<le> lex_left ls \<and> Q ls'"
    by (simp add: lok_def lex_left_def)
qed (auto simp: save_def put_byte_def lexerror_plain_def Let_def lok_def mbuf_ok_def luaZ_resizebuffer_def split: if_splits)

lemma save_and_next_ok: "lex_ok (\<lambda>ls. current ls \<noteq> EOZ) 1 save_and_next (\<lambda>_ _. True)"
  unfolding save_and_next_def lseq_def
  by (rule lex_ok_state, rule lex_ok_lbind2 [OF _ lnext_ok], rule save_ok) simp

text \<open>The fuel of a loop is more than the characters left.\<close>

lemma lex_ok_fuel:
  assumes "lex_ok P 1 m Q" "\<And>ls. P' ls \<Longrightarrow> P ls"
  shows "lex_ok (\<lambda>ls. lex_left ls < Suc n \<and> P' ls) 1 m (\<lambda>x ls. lex_left ls < n \<and> Q x ls)"
proof (rule lex_okI)
  fix ls assume "lok ls" "lex_left ls < Suc n \<and> P' ls"
  with lex_okD(1) [OF assms(1)] assms(2) show "m ls \<noteq> Inl LexStuck" by blast
next
  fix ls x ls' assume a: "lok ls" "lex_left ls < Suc n \<and> P' ls" "m ls = Inr (x, ls')"
  with lex_okD(2) [OF assms(1) a(1) _ a(3)] assms(2)
  show "lok ls' \<and> lex_left ls' + 1 \<le> lex_left ls \<and> lex_left ls' < n \<and> Q x ls'" by fastforce
qed

lemma lex_ok_fuel0:
  assumes "lex_ok P 0 m Q"
  shows "lex_ok (\<lambda>ls. lex_left ls < n \<and> P ls) 0 m (\<lambda>x ls. lex_left ls < n \<and> Q x ls)"
proof (rule lex_okI)
  fix ls assume "lok ls" "lex_left ls < n \<and> P ls"
  with lex_okD(1) [OF assms(1)] show "m ls \<noteq> Inl LexStuck" by blast
next
  fix ls x ls' assume a: "lok ls" "lex_left ls < n \<and> P ls" "m ls = Inr (x, ls')"
  with lex_okD(2) [OF assms(1) a(1) _ a(3)]
  show "lok ls' \<and> lex_left ls' + 0 \<le> lex_left ls \<and> lex_left ls' < n \<and> Q x ls'" by fastforce
qed

lemma bind_fuel:
  assumes "lex_ok P 1 m Q" "\<And>ls. P' ls \<Longrightarrow> lex_left ls < Suc n \<and> P ls"
    "\<And>x. lex_ok (\<lambda>ls. lex_left ls < n \<and> Q x ls) 0 (f x) R"
  shows "lex_ok P' 0 (lbind m f) R"
proof (rule lex_ok_lbind)
  show "lex_ok P' 0 m (\<lambda>x ls. lex_left ls < n \<and> Q x ls)"
    by (rule lex_ok_weaken [OF lex_ok_fuel [OF assms(1), of P n]]) (use assms(2) in auto)
qed (rule assms(3))

lemma seq_fuel:
  assumes "lex_ok P 1 m (\<lambda>_ _. True)" "\<And>ls. P' ls \<Longrightarrow> lex_left ls < Suc n \<and> P ls"
    "lex_ok (\<lambda>ls. lex_left ls < n) 0 f R"
  shows "lex_ok P' 0 (lseq m f) R"
  unfolding lseq_def by (rule bind_fuel [OF assms(1,2)]) (use assms(3) in simp_all)

lemma seq_fuel0:
  assumes "lex_ok P 0 m Q" "\<And>ls. P' ls \<Longrightarrow> lex_left ls < n \<and> P ls"
    "\<And>x. lex_ok (\<lambda>ls. lex_left ls < n \<and> Q x ls) 0 f R"
  shows "lex_ok P' 0 (lseq m f) R"
proof (rule lex_ok_lseq)
  show "lex_ok P' 0 m (\<lambda>x ls. lex_left ls < n \<and> Q x ls)"
    by (rule lex_ok_weaken [OF lex_ok_fuel0 [OF assms(1), of n]]) (use assms(2) in auto)
qed (rule assms(3))

lemma lex_ok_lmodify:
  assumes "\<And>ls. lok ls \<Longrightarrow> P ls \<Longrightarrow> lok (f ls) \<and> lex_left (f ls) = lex_left ls \<and> Q (f ls)"
  shows "lex_ok P 0 (lmodify f) (\<lambda>_. Q)"
  using assms by (simp add: lex_ok_def lmodify_def)

lemma lexerror_ok: "lex_ok P k (luaX_lexerror msg t) Q"
proof (rule lex_okI)
  fix ls assume "lok ls"
  then have "txtToken t ls \<noteq> Inl LexStuck"
    using lex_okD(1) [OF save_ok [of "\<lambda>_. True" "\<lambda>_. True" 0], of ls]
    by (auto simp: txtToken_def lret_def lseq_def lbind_def split: sum.splits)
  then show "luaX_lexerror msg t ls \<noteq> Inl LexStuck"
    by (auto simp: luaX_lexerror_def lexerror_plain_def split: sum.split)
qed (auto simp: luaX_lexerror_def split: if_splits sum.splits)

lemma syntaxerror_ok: "lex_ok P k (luaX_syntaxerror msg) Q"
  using lexerror_ok [of P k msg _ Q] unfolding lex_ok_def luaX_syntaxerror_def by blast

lemma newline_not_EOZ: "currIsNewline ls \<Longrightarrow> current ls \<noteq> EOZ"
  by (auto simp: currIsNewline_def cur_def EOZ_def)

lemma cur_not_EOZ: "cur c ls \<Longrightarrow> current ls \<noteq> EOZ"
proof -
  have "(of_char c :: int) = int (of_char c)" by (simp add: of_nat_of_char)
  then have "(0 :: int) \<le> of_char c" by linarith
  then show "cur c ls \<Longrightarrow> current ls \<noteq> EOZ" unfolding cur_def EOZ_def by linarith
qed

lemma cur_in_not_EOZ: "cur_in P ls \<Longrightarrow> current ls \<noteq> EOZ"
  by (auto simp: cur_in_def EOZ_def)

lemmas not_EOZ = newline_not_EOZ cur_not_EOZ cur_in_not_EOZ

text \<open>The reading actions in a state that is known not to be at the end.\<close>

lemma next_if: "(\<And>ls. P ls \<Longrightarrow> current ls \<noteq> EOZ) \<Longrightarrow> lex_ok P 1 lnext (\<lambda>_ _. True)"
  by (rule lex_ok_weaken [OF lnext_ok]) auto

lemma save_next_if: "(\<And>ls. P ls \<Longrightarrow> current ls \<noteq> EOZ) \<Longrightarrow> lex_ok P 1 save_and_next (\<lambda>_ _. True)"
  by (rule lex_ok_weaken [OF save_and_next_ok]) auto

lemma save_any: "lex_ok P 0 (save c) (\<lambda>_ _. True)"
  by (rule save_ok) simp

lemma inclinenumber_ok: "lex_ok currIsNewline 1 inclinenumber (\<lambda>_ _. True)"
proof -
  have "lex_ok currIsNewline 1 (lseq lnext
      (lseq (lif (\<lambda>l. currIsNewline l \<and> current l \<noteq> old) lnext (lret ()))
        (lseq (lmodify (\<lambda>ls. ls\<lparr>linenumber := linenumber ls + 1\<rparr>))
          (lif (\<lambda>ls. linenumber ls \<ge> MAX_INT) (luaX_syntaxerror ''chunk has too many lines'') (lret ())))))
    (\<lambda>_ _. True)" for old
    apply (rule lex_ok_lseq [OF next_if])
     apply (erule newline_not_EOZ)
    apply (rule lex_ok_lseq [where Q = "\<lambda>_ _. True"])
     apply (rule lex_ok_lif)
      apply (rule lex_ok_weaken [OF lnext_ok])
        apply (auto dest: newline_not_EOZ)[3]
     apply (rule lex_ok_lret, simp)
    apply (rule lex_ok_lseq [where Q = "\<lambda>_ _. True"])
     apply (rule lex_ok_lmodify, simp add: lok_def lex_left_def)
    apply (rule lex_ok_lif, rule syntaxerror_ok, rule lex_ok_lret, simp)
    done
  then show ?thesis unfolding lex_ok_def inclinenumber_def Let_def by blast
qed

lemma newline_if: "(\<And>ls. P ls \<Longrightarrow> currIsNewline ls) \<Longrightarrow> lex_ok P 1 inclinenumber (\<lambda>_ _. True)"
  by (rule lex_ok_weaken [OF inclinenumber_ok]) auto

lemma check_next_ok:
  assumes "255 \<notin> set (map of_char (cs @ [NUL]) :: int list)"
  shows "lex_ok P 0 (check_next cs) (\<lambda>_ _. True)"
  unfolding check_next_def
proof (rule lex_ok_lif)
  have "current ls \<noteq> EOZ" if "current ls mod 256 \<in> set (map of_char (cs @ [NUL]))" for ls
    using that assms by (auto simp: EOZ_def)
  then show "lex_ok (\<lambda>ls. P ls \<and> current ls mod 256 \<in> set (map of_char (cs @ [NUL]))) 0
      (lseq save_and_next (lret True)) (\<lambda>_ _. True)"
    by (intro lex_ok_lseq [where Q = "\<lambda>_ _. True"] lex_ok_lret lex_ok_any [OF save_next_if]) auto
qed (rule lex_ok_lret, simp)

lemma newstring_ok: "lex_ok P 0 (luaX_newstring E str) (\<lambda>_ _. True)"
proof (rule lex_okI)
  fix ls x ls' assume "lok ls" "luaX_newstring E str ls = Inr (x, ls')"
  then show "lok ls' \<and> lex_left ls' + 0 \<le> lex_left ls \<and> True"
    by (auto simp: luaX_newstring_def lok_def lex_left_def Let_def split: option.splits sum.splits)
qed (auto simp: luaX_newstring_def Let_def split: option.splits sum.splits)

section \<open>The parts of the scanner\<close>

lemma while_chars_ok:
  assumes "\<And>ls. c ls \<Longrightarrow> current ls \<noteq> EOZ"
  shows "lex_ok P 0 (lwhile c save_and_next) (\<lambda>_ _. True)" "lex_ok P 0 (lwhile c lnext) (\<lambda>_ _. True)"
  by (rule lex_ok_weaken [OF lex_ok_lwhile [where I = "\<lambda>_. True"]], rule save_next_if next_if, use assms in auto)+

lemma buffreplace_ok: "lex_ok P 0 (buffreplace c d) (\<lambda>_ _. True)"
proof -
  have "length (replace_byte c d n p) = length p" for n p by (induction n arbitrary: p) auto
  then show ?thesis
    unfolding buffreplace_def by (intro lex_ok_lmodify) (simp add: lok_def mbuf_ok_def lex_left_def)
qed

lemma lex_ok_true: "lex_ok P k m (\<lambda>_ _. True) \<Longrightarrow> (\<And>ls. P' ls \<Longrightarrow> P ls) \<Longrightarrow> lex_ok P' k m (\<lambda>_ _. True)"
  using lex_ok_weaken [of P k m "\<lambda>_ _. True" P' k "\<lambda>_ _. True"] by simp

text \<open>\<open>m\<close> does not depend on anything but a part of the state that it reads first.\<close>

lemma lex_ok_reads: "(\<And>ls. lex_ok P k (m ls) Q) \<Longrightarrow> lex_ok P k (\<lambda>ls. m ls ls) Q"
  unfolding lex_ok_def by blast

lemma str2d_ok:
  assumes "\<And>r. lex_ok P 0 (f r) Q" "lex_ok P 0 g Q"
  shows "lex_ok P 0 (\<lambda>ls. case str2d E (c_text (buffer (buff ls))) of Some r \<Rightarrow> f r ls | None \<Rightarrow> g ls) Q"
  using assms unfolding lex_ok_def by (auto split: option.split)

lemma trydecpoint_ok: "lex_ok (\<lambda>_. True) 0 (trydecpoint E) (\<lambda>_ _. True)"
proof -
  have r: "lex_ok (\<lambda>_. True) 0 (\<lambda>ls. lseq (buffreplace (decpoint ls) (of_char CHR ''.''))
             (luaX_lexerror ''malformed number'' (tk TK_NUMBER)) ls) (\<lambda>_ _. True)"
    by (rule lex_ok_reads, rule lex_ok_lseq [OF buffreplace_ok lexerror_ok])
  have "lex_ok (\<lambda>_. True) 0 (lseq (lmodify (\<lambda>ls. ls\<lparr>decpoint := locale_point E\<rparr>))
      (lseq (buffreplace old (locale_point E))
        (\<lambda>ls. case str2d E (c_text (buffer (buff ls))) of
           Some r \<Rightarrow> Inr (r, ls)
         | None \<Rightarrow> lseq (buffreplace (decpoint ls) (of_char CHR ''.''))
             (luaX_lexerror ''malformed number'' (tk TK_NUMBER)) ls))) (\<lambda>_ _. True)" for old
    apply (rule lex_ok_lseq [where Q = "\<lambda>_ _. True"])
     apply (rule lex_ok_lmodify, simp add: lok_def lex_left_def)
    apply (rule lex_ok_lseq [OF buffreplace_ok])
    apply (rule str2d_ok [where f = "\<lambda>r ls. Inr (r, ls)", OF _ r])
    apply (simp add: lex_ok_def)
    done
  then show ?thesis unfolding lex_ok_def trydecpoint_def Let_def by blast
qed

lemma read_numeral_ok: "lex_ok (\<lambda>ls. current ls \<noteq> EOZ) 1 (read_numeral E) (\<lambda>_ _. True)"
  unfolding read_numeral_def
  apply (rule lex_ok_lseq [OF save_and_next_ok])
  apply (rule lex_ok_lseq [OF while_chars_ok(1)])
   apply (elim disjE, (erule not_EOZ)+)
  apply (rule lex_ok_lseq [where Q = "\<lambda>_ _. True"])
   apply (rule lex_ok_lbind [OF check_next_ok], simp)
   apply (rule lex_ok_if, rule lex_ok_lseq [OF check_next_ok], simp)
    apply (rule lex_ok_lret, simp)+
  apply (rule lex_ok_lseq [OF while_chars_ok(1)])
   apply (elim disjE, (erule not_EOZ)+)
  apply (rule lex_ok_lseq [OF save_any])
  apply (rule lex_ok_lseq [where Q = "\<lambda>_ _. True"])
   apply (rule lex_ok_reads, rule buffreplace_ok)
  apply (rule str2d_ok [where f = "\<lambda>r ls. Inr (r, ls)", OF _ trydecpoint_ok])
  apply (simp add: lex_ok_def)
  done

lemma skip_sep_loop_ok: "lex_ok (\<lambda>ls. lex_left ls < n) 0 (skip_sep_loop n count) (\<lambda>_ _. True)"
proof (induction n arbitrary: count)
  case (Suc n)
  show ?case
    unfolding skip_sep_loop.simps
    apply (rule lex_ok_lif)
     apply (rule seq_fuel [OF save_and_next_ok _ Suc])
     apply (auto dest: cur_not_EOZ)[1]
    apply (rule lex_ok_lret, simp)
    done
qed (simp add: lex_ok_def)

lemma lex_ok_fueled:
  assumes "\<And>n. lex_ok (\<lambda>ls. lex_left ls < n) 0 (m n) Q"
  shows "lex_ok (\<lambda>_. True) 0 (\<lambda>ls. m (Suc (lex_left ls)) ls) Q"
  using assms [unfolded lex_ok_def] unfolding lex_ok_def by blast

text \<open>A non-negative result says that a second bracket follows.\<close>

lemma skip_sep_ok:
  "(\<And>ls. P ls \<Longrightarrow> current ls \<noteq> EOZ) \<Longrightarrow> lex_ok P 1 skip_sep (\<lambda>x ls. 0 \<le> x \<longrightarrow> current ls \<noteq> EOZ)"
proof -
  assume P: "\<And>ls. P ls \<Longrightarrow> current ls \<noteq> EOZ"
  have l: "lex_ok (\<lambda>ls. lex_left ls < n) 0 (skip_sep_loop n 0) (\<lambda>x _. 0 \<le> x)" for n
  proof -
    have "skip_sep_loop n count ls = Inr (x, ls') \<Longrightarrow> count \<le> x" for n count ls x ls'
    proof (induction n arbitrary: count ls)
      case (Suc n)
      then show ?case by (fastforce simp: lif_def lret_def split: if_splits)
    qed simp
    note ge = this
    show ?thesis
      by (rule lex_okI) (use lex_okD [OF skip_sep_loop_ok [of n 0]] ge [of n 0] in blast)+
  qed
  have "lex_ok (\<lambda>ls. P ls \<and> current ls = s) 1
     (lbind (lseq save_and_next (\<lambda>ls. skip_sep_loop (Suc (lex_left ls)) 0 ls))
      (\<lambda>count ls. Inr (if current ls = s then count else - count - 1, ls)))
      (\<lambda>x ls. 0 \<le> x \<longrightarrow> s \<noteq> EOZ \<longrightarrow> current ls \<noteq> EOZ)" for s
    apply (rule lex_ok_lbind [where Q = "\<lambda>x _. 0 \<le> x"])
     apply (rule lex_ok_lseq [OF save_next_if])
      apply (erule conjE, erule P)
     apply (rule lex_ok_fueled [OF l])
    apply (auto simp add: lex_ok_def)
    done
  note body = this
  show ?thesis
  proof (rule lex_okI)
    fix ls assume a: "lok ls" "P ls"
    show "skip_sep ls \<noteq> Inl LexStuck"
      unfolding skip_sep_def Let_def by (rule lex_okD(1) [OF body a(1)]) (use a(2) in simp)
  next
    fix ls x ls' assume a: "lok ls" "P ls" "skip_sep ls = Inr (x, ls')"
    have "lok ls' \<and> lex_left ls' + 1 \<le> lex_left ls \<and> (0 \<le> x \<longrightarrow> current ls \<noteq> EOZ \<longrightarrow> current ls' \<noteq> EOZ)"
      by (rule lex_okD(2) [OF body [of "current ls"] a(1)])
        (use a(2,3) in \<open>simp_all only: skip_sep_def Let_def simp_thms\<close>)
    with P [OF a(2)] show "lok ls' \<and> lex_left ls' + 1 \<le> lex_left ls \<and> (0 \<le> x \<longrightarrow> current ls' \<noteq> EOZ)" by blast
  qed
qed

lemma long_string_loop_ok:
  "0 \<le> sep \<Longrightarrow> lex_ok (\<lambda>ls. lex_left ls < n) 0 (long_string_loop n keep sep) (\<lambda>_ _. True)"
proof (induction n)
  case (Suc n)
  note IH = Suc.IH [OF Suc.prems]
  have IH': "lex_ok (\<lambda>ls. lex_left ls < n \<and> Q ls) 0 (long_string_loop n keep sep) (\<lambda>_ _. True)" for Q
    by (rule lex_ok_true [OF IH]) simp
  have buf: "lex_ok P 0 (if keep then lret () else lmodify (\<lambda>ls. ls\<lparr>buff := luaZ_resetbuffer (buff ls)\<rparr>)) (\<lambda>_ _. True)" for P
    by (intro lex_ok_if lex_ok_lret lex_ok_lmodify) (simp_all add: lok_def mbuf_ok_def luaZ_resetbuffer_def lex_left_def)
  show ?case
    unfolding long_string_loop.simps
    apply (rule lex_ok_lif, rule lexerror_ok)
    apply (rule lex_ok_lif)
     apply (rule bind_fuel [where n = n, OF skip_sep_ok [of "cur CHR ''[''"]])
       apply (erule cur_not_EOZ)
      apply simp
     apply (rule lex_ok_if)
      apply (rule seq_fuel0 [where n = n, OF lex_ok_weaken [OF save_and_next_ok, where j = 0]])
           apply assumption
          apply simp
         apply assumption
        apply (use Suc.prems in simp)
       apply (rule lex_ok_if, rule lexerror_ok, rule IH')
     apply (rule IH')
    apply (rule lex_ok_lif)
     apply (rule bind_fuel [where n = n, OF skip_sep_ok [of "cur CHR '']''"]])
       apply (erule cur_not_EOZ)
      apply simp
     apply (rule lex_ok_if)
      apply (rule lex_ok_weaken [OF save_and_next_ok])
        apply (use Suc.prems in simp_all)[3]
     apply (rule IH')
    apply (rule lex_ok_lif)
     apply (rule lex_ok_lseq [OF save_ok [where Q = "\<lambda>ls. lex_left ls < Suc n \<and> currIsNewline ls"]])
      apply (simp add: lex_left_def currIsNewline_def cur_def split: if_splits)
     apply (rule seq_fuel [where n = n, OF inclinenumber_ok])
      apply simp
     apply (rule seq_fuel0 [where n = n, OF buf, where P' = "\<lambda>ls. lex_left ls < n"], simp)
     apply (rule IH')
    apply (rule seq_fuel [where n = n and P = "\<lambda>ls. current ls \<noteq> EOZ"])
      apply (rule lex_ok_if, rule save_and_next_ok, rule lnext_ok)
     apply simp
    apply (rule IH)
    done
qed (simp add: lex_ok_def)

lemma read_long_string_ok:
  "lex_ok (\<lambda>ls. current ls \<noteq> EOZ) 1 (read_long_string E keep sep) (\<lambda>_ _. True)"
  unfolding read_long_string_def
  apply (rule lex_ok_lseq [OF save_and_next_ok])
  apply (rule lex_ok_lseq [where Q = "\<lambda>_ _. True"])
   apply (rule lex_ok_lif)
    apply (rule lex_ok_any [OF newline_if [of currIsNewline], THEN lex_ok_true], assumption, simp)
   apply (rule lex_ok_lret, simp)
  apply (rule lex_ok_lseq [where Q = "\<lambda>_ _. True"])
   apply (rule lex_ok_fueled [OF long_string_loop_ok], simp)
  apply (rule lex_ok_if)
   apply (rule lex_ok_reads, rule lex_ok_lbind [OF newstring_ok], rule lex_ok_lret, simp)
  apply (rule lex_ok_lret, simp)
  done

lemma escape_digits_ok:
  "0 < n \<Longrightarrow> lex_ok (\<lambda>ls. current ls \<noteq> EOZ) 1 (escape_digits n c) (\<lambda>_ _. True)"
proof (induction n arbitrary: c)
  case (Suc n)
  have d: "lex_ok (cur_in isdigit) 0 (escape_digits n k) (\<lambda>_ _. True)" for k
  proof (cases n)
    case 0
    then show ?thesis by (simp add: lex_ok_lret)
  next
    case (Suc m)
    then show ?thesis
      by (intro lex_ok_weaken [OF Suc.IH]) (auto dest: cur_in_not_EOZ)
  qed
  show ?case
    unfolding escape_digits.simps Let_def
    apply (rule lex_ok_reads [where m = "\<lambda>a. lseq lnext (lif (cur_in isdigit)
        (escape_digits n (10 * c + (current a - 48))) (lret (10 * c + (current a - 48))))"])
    apply (rule lex_ok_lseq [OF lnext_ok])
    apply (rule lex_ok_lif)
     apply (rule lex_ok_true [OF d], simp)
    apply (rule lex_ok_lret, simp)
    done
qed simp

lemma read_escape_ok: "lex_ok (\<lambda>ls. current ls \<noteq> EOZ) 1 read_escape (\<lambda>_ _. True)"
proof -
  have s: "lex_ok (\<lambda>_. True) 0 (\<lambda>ls. case simple_escape (current ls) of
      Some c \<Rightarrow> lseq (save c) lnext ls
    | None \<Rightarrow>
        lif currIsNewline (lseq (save 10) inclinenumber)
        (lif (\<lambda>ls. current ls = EOZ) (lret ())
        (lif (\<lambda>ls. \<not> cur_in isdigit ls) save_and_next
        (lbind (escape_digits 3 0) (\<lambda>c.
           if c > UCHAR_MAX then luaX_lexerror ''escape sequence too large'' (tk TK_STRING)
           else save c)))) ls) (\<lambda>_ _. True)" (is "lex_ok _ 0 (\<lambda>ls. case _ of Some c \<Rightarrow> _ ls | None \<Rightarrow> ?n ls) _")
  proof -
    have 1: "lex_ok (\<lambda>ls. current ls \<noteq> EOZ) 0 (lseq (save c) lnext) (\<lambda>_ _. True)" for c
      apply (rule lex_ok_lseq [OF save_ok [where Q = "\<lambda>ls. current ls \<noteq> EOZ"]], simp)
      apply (rule lex_ok_any [OF lnext_ok])
      done
    have 2: "lex_ok (\<lambda>_. True) 0 ?n (\<lambda>_ _. True)"
      apply (rule lex_ok_lif)
       apply (rule lex_ok_lseq [OF save_ok [where Q = currIsNewline]])
        apply (simp add: currIsNewline_def cur_def)
       apply (rule lex_ok_any [OF inclinenumber_ok])
      apply (rule lex_ok_lif, rule lex_ok_lret, simp)
      apply (rule lex_ok_lif)
       apply (rule lex_ok_weaken [OF save_and_next_ok], simp_all)[1]
      apply (rule lex_ok_lbind [OF lex_ok_weaken [OF escape_digits_ok, where j = 0]])
          apply simp
         apply (simp add: cur_in_not_EOZ)
        apply simp
       apply assumption
      apply (rule lex_ok_if, rule lexerror_ok, rule save_any)
      done
    have "simple_escape (current ls) = Some c \<Longrightarrow> current ls \<noteq> EOZ" for ls c
      by (auto simp: simple_escape_def EOZ_def split: if_splits)
    note esc = this
    have "lex_ok (\<lambda>l. l = ls \<and> True) 0 (case simple_escape (current ls) of
          Some c \<Rightarrow> lseq (save c) lnext | None \<Rightarrow> ?n) (\<lambda>_ _. True)" for ls
    proof (cases "simple_escape (current ls)")
      case None
      then show ?thesis using lex_ok_true [OF 2, of "\<lambda>l. l = ls \<and> True"] by simp
    next
      case (Some c)
      then show ?thesis using lex_ok_true [OF 1, of "\<lambda>l. l = ls \<and> True"] esc by auto
    qed
    then have "lex_ok (\<lambda>_. True) 0 (\<lambda>ls. (case simple_escape (current ls) of
          Some c \<Rightarrow> lseq (save c) lnext | None \<Rightarrow> ?n) ls) (\<lambda>_ _. True)"
      by (rule lex_ok_state)
    then show ?thesis by (simp only: option.case_distrib [of "\<lambda>f. f _"])
  qed
  show ?thesis unfolding read_escape_def by (rule lex_ok_lseq [OF lnext_ok s])
qed

lemma read_string_ok:
  assumes "del \<noteq> EOZ"
  shows "lex_ok (\<lambda>ls. current ls \<noteq> EOZ) 1 (read_string E del) (\<lambda>_ _. True)"
proof -
  have step: "lex_ok P 1 read_string_step (\<lambda>_ _. True)" for P
    unfolding read_string_step_def
    apply (rule lex_ok_lif, rule lexerror_ok)
    apply (rule lex_ok_lif, rule lexerror_ok)
    apply (rule lex_ok_lif)
     apply (rule lex_ok_true [OF read_escape_ok], simp)
    apply (rule lex_ok_true [OF save_and_next_ok], simp)
    done
  show ?thesis
    unfolding read_string_def
    apply (rule lex_ok_lseq [OF save_and_next_ok])
    apply (rule lex_ok_lseq [OF lex_ok_lwhile [where I = "\<lambda>_. True", OF step]])
    apply (rule lex_ok_lseq [where Q = "\<lambda>_ _. True"])
     apply (rule lex_ok_weaken [OF save_and_next_ok])
       apply (use assms in simp_all)[3]
    apply (rule lex_ok_reads, rule newstring_ok)
    done
qed

section \<open>The scanner\<close>

lemma lret_any: "lex_ok P 0 (lret x) (\<lambda>_ _. True)"
  by (simp add: lex_ok_lret)

lemma tok_any: "lex_ok P 0 (tok_char c) (\<lambda>_ _. True)" "lex_ok P 0 (tok_reserved r) (\<lambda>_ _. True)"
  by (simp_all add: tok_char_def tok_reserved_def lret_any)

lemma lex_equal_ok: "lex_ok (\<lambda>ls. current ls \<noteq> EOZ) 1 (lex_equal c r) (\<lambda>_ _. True)"
  unfolding lex_equal_def
  apply (rule lex_ok_lseq [OF lnext_ok])
  apply (rule lex_ok_lif, rule tok_any(1))
  apply (rule lex_ok_lseq [OF lex_ok_any [OF next_if] tok_any(2)])
  apply (simp add: cur_not_EOZ)
  done

lemma lex_number_ok: "lex_ok (\<lambda>ls. current ls \<noteq> EOZ) 1 (lex_number E) (\<lambda>_ _. True)"
  unfolding lex_number_def by (rule lex_ok_lbind [OF read_numeral_ok lret_any])

lemma lex_dots_ok: "lex_ok (\<lambda>ls. current ls \<noteq> EOZ) 1 (lex_dots E) (\<lambda>_ _. True)"
  unfolding lex_dots_def
  apply (rule lex_ok_lseq [OF save_and_next_ok])
  apply (rule lex_ok_lbind [OF check_next_ok], simp)
  apply (rule lex_ok_if)
   apply (rule lex_ok_lbind [OF check_next_ok], simp)
   apply (rule tok_any)
  apply (rule lex_ok_lif, rule tok_any)
  apply (rule lex_ok_any [OF lex_number_ok, THEN lex_ok_true])
  apply (simp add: cur_in_not_EOZ)
  done

lemma lex_name_ok: "lex_ok (\<lambda>ls. current ls \<noteq> EOZ) 1 (lex_name E) (\<lambda>_ _. True)"
  unfolding lex_name_def Let_def
  apply (rule lex_ok_lseq [OF save_and_next_ok])
  apply (rule lex_ok_lseq [OF while_chars_ok(1)])
   apply (elim disjE, (erule not_EOZ)+)
  apply (rule lex_ok_reads [where m = "\<lambda>ls. lbind (luaX_newstring E (take (bn (buff ls)) (buffer (buff ls)))) f" for f])
  apply (rule lex_ok_lbind [OF newstring_ok])
  apply (simp add: lex_ok_def)
  done

lemma reset_buffer_ok:
  "(\<And>ls b. P ls \<Longrightarrow> Q (ls\<lparr>buff := b\<rparr>)) \<Longrightarrow> lex_ok P 0 reset_buffer (\<lambda>_. Q)"
  unfolding reset_buffer_def
  by (rule lex_ok_lmodify) (simp add: lok_def mbuf_ok_def luaZ_resetbuffer_def lex_left_def)

lemma lex_comment_ok: "lex_ok (\<lambda>_. True) 0 (lex_comment E) (\<lambda>_ _. True)"
proof -
  have long: "lex_ok (\<lambda>ls. current ls \<noteq> EOZ) 0 (lseq (read_long_string E False n)
      (lseq reset_buffer (lret True))) (\<lambda>_ _. True)" for n
    by (rule lex_ok_lseq [OF lex_ok_any [OF read_long_string_ok]])
      (rule lex_ok_lseq [OF reset_buffer_ok lret_any], simp)
  show ?thesis
    unfolding lex_comment_def
    apply (rule lex_ok_lbind [where Q = "\<lambda>_ _. True"])
     apply (rule lex_ok_lif [OF _ lret_any])
     apply (rule lex_ok_lbind [OF lex_ok_weaken [OF skip_sep_ok [of "cur CHR ''[''"], where j = 0]])
         apply (erule cur_not_EOZ)
        apply simp
       apply simp
      apply assumption
     apply (rule lex_ok_lseq [OF reset_buffer_ok [where Q = "\<lambda>ls. 0 \<le> x \<longrightarrow> current ls \<noteq> EOZ" for x]])
      apply simp
     apply (rule lex_ok_if)
      apply (rule lex_ok_true [OF long], simp)
     apply (rule lret_any)
    apply (rule lex_ok_if, rule lret_any)
    apply (rule while_chars_ok(2), simp)
    done
qed

text \<open>
  Each turn of the scanner reads a character, so that the fuel is enough; and so does every
  token, except the end of the stream.
\<close>

abbreviation token_read :: "nat \<Rightarrow> int \<times> SemInfo option \<Rightarrow> LexState \<Rightarrow> bool" where
  "token_read m x ls \<equiv> fst x = tk TK_EOS \<or> lex_left ls < m"

lemma lex_ok_token:
  assumes "lex_ok P 1 a Q" "\<And>ls. P' ls \<Longrightarrow> lex_left ls \<le> m \<and> P ls"
  shows "lex_ok P' 0 a (token_read m)"
proof (rule lex_okI)
  fix ls assume a: "lok ls" "P' ls"
  show "a ls \<noteq> Inl LexStuck" using lex_okD(1) [OF assms(1) a(1)] assms(2) [OF a(2)] by blast
next
  fix ls x ls' assume a: "lok ls" "P' ls" "a ls = Inr (x, ls')"
  have "lok ls' \<and> lex_left ls' + 1 \<le> lex_left ls \<and> Q x ls'"
    by (rule lex_okD(2) [OF assms(1) a(1) _ a(3)]) (use assms(2) [OF a(2)] in blast)
  with assms(2) [OF a(2)]
  show "lok ls' \<and> lex_left ls' + 0 \<le> lex_left ls \<and> token_read m x ls'" by simp
qed

lemma seq_token:
  assumes "lex_ok P 1 a (\<lambda>_ _. True)" "\<And>ls. P' ls \<Longrightarrow> (lex_left ls < Suc n \<and> lex_left ls \<le> m) \<and> P ls"
    "lex_ok (\<lambda>ls. lex_left ls < n \<and> lex_left ls < m) 0 f R"
  shows "lex_ok P' 0 (lseq a f) R"
proof (rule lex_ok_lseq)
  show "lex_ok P' 0 a (\<lambda>_ ls. lex_left ls < n \<and> lex_left ls < m)"
  proof (rule lex_okI)
    fix ls assume a: "lok ls" "P' ls"
    show "a ls \<noteq> Inl LexStuck" using lex_okD(1) [OF assms(1) a(1)] assms(2) [OF a(2)] by blast
  next
    fix ls x ls' assume a: "lok ls" "P' ls" "a ls = Inr (x, ls')"
    have "lok ls' \<and> lex_left ls' + 1 \<le> lex_left ls \<and> True"
      by (rule lex_okD(2) [OF assms(1) a(1) _ a(3)]) (use assms(2) [OF a(2)] in blast)
    with assms(2) [OF a(2)]
    show "lok ls' \<and> lex_left ls' + 0 \<le> lex_left ls \<and> lex_left ls' < n \<and> lex_left ls' < m" by simp
  qed
qed (rule assms(3))

lemma seq_token0:
  assumes "lex_ok P 0 a (\<lambda>_ _. True)" "\<And>ls. P' ls \<Longrightarrow> lex_left ls < n \<and> lex_left ls < m \<and> P ls"
    "lex_ok (\<lambda>ls. lex_left ls < n \<and> lex_left ls < m) 0 f R"
  shows "lex_ok P' 0 (lseq a f) R"
proof (rule lex_ok_lseq)
  have "lex_ok P' 0 a (\<lambda>_ ls. lex_left ls < n \<and> lex_left ls < m \<and> True)"
    by (rule lex_ok_weaken [OF lex_ok_fuel0 [where n = n, OF lex_ok_fuel0 [where n = m, OF assms(1)]]])
      (use assms(2) in auto)
  then show "lex_ok P' 0 a (\<lambda>_ ls. lex_left ls < n \<and> lex_left ls < m)" by simp
qed (rule assms(3))

lemma tok_read: "(\<And>ls. P ls \<Longrightarrow> lex_left ls < m) \<Longrightarrow> lex_ok P 0 (tok_char c) (token_read m)"
  unfolding tok_char_def by (rule lex_ok_lret) simp

lemma read_string_tok: "lex_ok (\<lambda>ls. current ls \<noteq> EOZ) 1
    (\<lambda>ls. lbind (read_string E (current ls)) (\<lambda>p. lret (tk TK_STRING, Some (SemString p))) ls) (\<lambda>_ _. True)"
proof (rule lex_ok_state [where m = "\<lambda>l. lbind (read_string E (current l)) (\<lambda>p. lret (tk TK_STRING, Some (SemString p)))"])
  fix ls :: LexState assume c: "current ls \<noteq> EOZ"
  then have "lex_ok (\<lambda>l. l = ls \<and> current l \<noteq> EOZ) 1 (read_string E (current ls)) (\<lambda>_ _. True)"
    by (intro lex_ok_true [OF read_string_ok]) auto
  from lex_ok_lbind [OF this lret_any]
  show "lex_ok (\<lambda>l. l = ls \<and> current l \<noteq> EOZ) 1 (lbind (read_string E (current ls))
      (\<lambda>p. lret (tk TK_STRING, Some (SemString p)))) (\<lambda>_ _. True)" .
qed

lemma long_bracket_ok:
  "lex_ok (cur CHR ''['') 1 (lbind skip_sep (\<lambda>s.
      if s \<ge> 0 then lbind (read_long_string E True (nat s)) (\<lambda>p. lret (tk TK_STRING, map_option SemString p))
      else if s = -1 then tok_char CHR ''[''
      else luaX_lexerror ''invalid long string delimiter'' (tk TK_STRING))) (\<lambda>_ _. True)"
proof (rule lex_ok_lbind [OF skip_sep_ok])
  fix s
  show "lex_ok (\<lambda>ls. 0 \<le> s \<longrightarrow> current ls \<noteq> EOZ) 0 (if s \<ge> 0
      then lbind (read_long_string E True (nat s)) (\<lambda>p. lret (tk TK_STRING, map_option SemString p))
      else if s = -1 then tok_char CHR ''[''
      else luaX_lexerror ''invalid long string delimiter'' (tk TK_STRING)) (\<lambda>_ _. True)"
    apply (rule lex_ok_if)
     apply (rule lex_ok_lbind [OF lex_ok_weaken [OF read_long_string_ok, where j = 0] lret_any], simp, simp, assumption)
    apply (rule lex_ok_if, rule tok_any, rule lexerror_ok)
    done
qed (erule cur_not_EOZ)

lemma other_char_ok: "lex_ok (\<lambda>ls. current ls \<noteq> EOZ) 1
    (\<lambda>ls. let c = current ls in lseq lnext (lret (c, None)) ls) (\<lambda>_ _. True)"
  unfolding Let_def
  by (rule lex_ok_reads [where m = "\<lambda>l. lseq lnext (lret (current l, None))"],
      rule lex_ok_lseq [OF lnext_ok lret_any])

lemma llex_loop_ok:
  "lex_ok (\<lambda>ls. lex_left ls < n \<and> lex_left ls \<le> m) 0 (llex_loop E n) (token_read m)"
proof (induction n)
  case (Suc n)
  have IH: "lex_ok P 0 (llex_loop E n) (token_read m)" if "\<And>ls. P ls \<Longrightarrow> lex_left ls < n \<and> lex_left ls < m" for P
    using that by (intro lex_ok_weaken [OF Suc.IH]) fastforce+
  have comment: "lex_ok (\<lambda>ls. lex_left ls < n \<and> lex_left ls < m) 0 (lif (\<lambda>ls. \<not> cur CHR ''-'' ls) (tok_char CHR ''-'')
      (lseq lnext (lseq (lex_comment E) (llex_loop E n)))) (token_read m)"
    apply (rule lex_ok_lif, rule tok_read, simp)
    apply (rule seq_token0 [where n = n and m = m, OF lex_ok_any [OF next_if [of "cur CHR ''-''"]]])
      apply (erule cur_not_EOZ)
     apply simp
    apply (rule seq_token0 [where n = n and m = m, OF lex_comment_ok], simp)
    apply (rule IH, simp)
    done
  show ?case
    unfolding llex_loop.simps
    apply (rule lex_ok_lif, rule seq_token [where n = n and m = m, OF inclinenumber_ok], simp, rule IH, simp)
    apply (rule lex_ok_lif, rule seq_token [where n = n and m = m, OF lnext_ok _ comment], blast dest: cur_not_EOZ)
    apply (rule lex_ok_lif, rule lex_ok_token [OF long_bracket_ok], blast)
    apply (rule lex_ok_lif, rule lex_ok_token [OF lex_equal_ok], blast dest: cur_not_EOZ)+
    apply (rule lex_ok_lif, rule lex_ok_token [OF read_string_tok], blast dest: cur_not_EOZ)
    apply (rule lex_ok_lif, rule lex_ok_token [OF lex_dots_ok], blast dest: cur_not_EOZ)
    apply (rule lex_ok_lif, unfold tok_reserved_def, rule lex_ok_lret, simp)
    apply (rule lex_ok_lif, rule seq_token [where n = n and m = m, OF lnext_ok], simp, rule IH, simp)
    apply (rule lex_ok_lif, rule lex_ok_token [OF lex_number_ok], blast)
    apply (rule lex_ok_lif, rule lex_ok_token [OF lex_name_ok], blast)
    apply (rule lex_ok_token [OF other_char_ok], blast)
    done
qed (simp add: lex_ok_def)

lemma lex_left_buff: "lex_left (ls\<lparr>buff := b\<rparr>) = lex_left ls"
  by (simp add: lex_left_def)

lemma llex_ok: "lex_ok (\<lambda>ls. lex_left ls \<le> m) 0 (llex E) (token_read m)"
proof -
  have "lex_ok (\<lambda>ls. lex_left ls \<le> m) 0 (\<lambda>ls. llex_loop E (Suc (lex_left ls)) ls) (token_read m)"
    using llex_loop_ok [of _ m E] unfolding lex_ok_def by blast
  moreover have "lex_ok (\<lambda>ls. lex_left ls \<le> m) 0 reset_buffer (\<lambda>_ ls. lex_left ls \<le> m)"
    by (rule reset_buffer_ok) (simp only: lex_left_buff)
  ultimately show ?thesis unfolding llex_def by (rule lex_ok_lseq [rotated])
qed

text \<open>The fields that are not read do not matter.\<close>

lemma lex_upd:
  "lex_left (ls\<lparr>tok := t\<rparr>) = lex_left ls" "lex_left (ls\<lparr>lookahead := t\<rparr>) = lex_left ls"
  "lex_left (ls\<lparr>lastline := n\<rparr>) = lex_left ls"
  "lok (ls\<lparr>tok := t\<rparr>) = lok ls" "lok (ls\<lparr>lookahead := t\<rparr>) = lok ls" "lok (ls\<lparr>lastline := n\<rparr>) = lok ls"
  by (simp_all add: lex_left_def lok_def)

lemma set_token_token: "token (set_token t k s) = k"
  by (simp add: set_token_def)

text \<open>The state after \<open>luaX_next\<close>, when no token was looked ahead.\<close>

lemma luaX_next_scan:
  "lex_ok (\<lambda>ls. lex_left ls \<le> m \<and> token (lookahead ls) = tk TK_EOS) 0 (luaX_next E)
     (\<lambda>_ ls. token (tok ls) = tk TK_EOS \<or> lex_left ls < m)"
proof -
  have set_tok: "lex_ok (token_read m x) 0 (case x of (k, s) \<Rightarrow> lmodify (\<lambda>ls. ls\<lparr>tok := set_token (tok ls) k s\<rparr>))
      (\<lambda>_ ls. token (tok ls) = tk TK_EOS \<or> lex_left ls < m)" for x
    by (cases x, simp only: prod.case, rule lex_ok_lmodify) (auto simp: lex_upd set_token_token)
  show ?thesis
    unfolding luaX_next_def
    apply (rule lex_ok_lseq [where Q = "\<lambda>_ ls. lex_left ls \<le> m \<and> token (lookahead ls) = tk TK_EOS"])
     apply (rule lex_ok_lmodify, simp add: lex_upd)
    apply (rule lex_ok_lif)
     apply (simp add: lex_ok_def)
    apply (rule lex_ok_lbind [OF lex_ok_weaken [OF llex_ok [of m]] set_tok], simp_all)
    done
qed

lemma llex_any: "lex_ok P 0 (llex E) (\<lambda>_ _. True)"
proof (rule lex_okI)
  fix ls assume "lok ls" "P ls"
  with lex_okD(1) [OF llex_ok [of "lex_left ls" E]] show "llex E ls \<noteq> Inl LexStuck" by blast
next
  fix ls x ls' assume "lok ls" "P ls" "llex E ls = Inr (x, ls')"
  with lex_okD(2) [OF llex_ok [of "lex_left ls" E]]
  show "lok ls' \<and> lex_left ls' + 0 \<le> lex_left ls \<and> True" by blast
qed

lemma luaX_next_any: "lex_ok (\<lambda>_. True) 0 (luaX_next E) (\<lambda>_ _. True)"
  unfolding luaX_next_def
  apply (intro lex_ok_lseq [where Q = "\<lambda>_ _. True"] lex_ok_lif lex_ok_lmodify
      lex_ok_lbind [OF llex_any])
    apply (simp_all add: lex_upd lex_ok_def lmodify_def split_def)
  done

lemma luaX_lookahead_any: "lex_ok P 0 (luaX_lookahead E) (\<lambda>_ _. True)"
  unfolding luaX_lookahead_def
  by (rule lex_ok_lbind [OF llex_any]) (simp add: lex_upd lex_ok_def lmodify_def split_def)

section \<open>The end of the token stream\<close>

text \<open>
  What a reader of tokens does: it takes the next token until \<open>TK_EOS\<close>. \<open>n\<close> is the number of
  tokens that it may take.
\<close>

fun scan_tokens :: "lex_env \<Rightarrow> nat \<Rightarrow> int list lex" where
  "scan_tokens E 0 = (\<lambda>ls. Inl LexStuck)"
| "scan_tokens E (Suc n) =
     lseq (luaX_next E)
       (\<lambda>ls. if token (tok ls) = tk TK_EOS then Inr ([], ls)
             else lbind (scan_tokens E n) (\<lambda>ks. lret (token (tok ls) # ks)) ls)"

text \<open>
  What every action of the scanner keeps: the current token and the one that was looked ahead, the
  strings and which of them are reserved words, and that \<open>current\<close> is a byte or \<open>EOZ\<close>.
\<close>

definition str_grows :: "stringtable \<Rightarrow> stringtable \<Rightarrow> bool" where
  "str_grows g g' \<longleftrightarrow>
     (\<forall>p ts. objs g p = Some ts \<longrightarrow> (\<exists>us. objs g' p = Some us \<and> (reserved us = reserved ts \<or> reserved us = 0)))
   \<and> (\<forall>p us. objs g' p = Some us \<longrightarrow> reserved us \<noteq> 0 \<longrightarrow> (\<exists>ts. objs g p = Some ts \<and> reserved ts = reserved us))"

definition cur_ok :: "LexState \<Rightarrow> bool" where
  "cur_ok ls \<longleftrightarrow> current ls = EOZ \<or> 0 \<le> current ls \<and> current ls < 256"

definition keeps_to :: "LexState \<Rightarrow> LexState \<Rightarrow> bool" where
  "keeps_to ls ls' \<longleftrightarrow> lookahead ls' = lookahead ls \<and> tok ls' = tok ls \<and> str_grows (lstrings ls) (lstrings ls')
     \<and> (cur_ok ls \<longrightarrow> cur_ok ls')"

definition keeps :: "'a lex \<Rightarrow> bool" where
  "keeps m \<longleftrightarrow> (\<forall>ls x ls'. m ls = Inr (x, ls') \<longrightarrow> keeps_to ls ls')"

lemma str_grows_refl [simp]: "str_grows g g" by (simp add: str_grows_def)

lemma str_grows_trans: "str_grows g h \<Longrightarrow> str_grows h k \<Longrightarrow> str_grows g k"
  unfolding str_grows_def by metis

lemma keeps_to_refl [simp]: "keeps_to ls ls" by (simp add: keeps_to_def)

lemma keeps_to_trans: "keeps_to a b \<Longrightarrow> keeps_to b c \<Longrightarrow> keeps_to a c"
  unfolding keeps_to_def using str_grows_trans by simp blast

lemma keeps_toI:
  "lookahead ls' = lookahead ls \<Longrightarrow> tok ls' = tok ls \<Longrightarrow> lstrings ls' = lstrings ls \<Longrightarrow> (cur_ok ls \<Longrightarrow> cur_ok ls')
    \<Longrightarrow> keeps_to ls ls'"
  by (simp add: keeps_to_def)

lemma cur_ok_upd [simp]:
  "cur_ok (ls\<lparr>buff := b\<rparr>) = cur_ok ls" "cur_ok (ls\<lparr>linenumber := n\<rparr>) = cur_ok ls"
  "cur_ok (ls\<lparr>decpoint := d\<rparr>) = cur_ok ls" "cur_ok (ls\<lparr>lstrings := g, fs_h := t\<rparr>) = cur_ok ls"
  by (simp_all add: cur_ok_def)

lemma newlstr_grows:
  assumes "luaS_newlstr al g str = Some (p, g')"
  shows "str_grows g g'"
proof -
  have r: "objs (luaS_resize g n) = objs g" for g n by (simp add: luaS_resize_def)
  show ?thesis
  proof (cases "find_string (objs g) (buckets g ! lmod (luaS_hash str) (strt_size g)) str")
    case None
    then show ?thesis using assms
      by (auto simp: luaS_newlstr_def newlstr_def Let_def r str_grows_def split: if_splits)
  next
    case (Some q)
    then show ?thesis using assms find_string_Some [OF Some]
      by (auto simp: luaS_newlstr_def Let_def str_grows_def changewhite_def split: if_splits)
  qed
qed

lemma zgetc_byte: "fst (zgetc z) = EOZ \<or> 0 \<le> fst (zgetc z) \<and> fst (zgetc z) < 256"
  using uint_lt2p [where 'a = 8] by (auto simp: zgetc_def luaZ_fill_def Let_def split: list.splits)

lemma keeps_rules [lex_rules]:
  "keeps (lret x)"
  "(\<And>ls. keeps_to ls (f ls)) \<Longrightarrow> keeps (lmodify f)"
  "keeps a \<Longrightarrow> keeps b \<Longrightarrow> keeps (lif c a b)"
  "keeps a \<Longrightarrow> keeps b \<Longrightarrow> keeps (if p then a else b)"
  "keeps (luaX_lexerror msg t)" "keeps (luaX_syntaxerror msg)"
  "keeps (\<lambda>ls. Inl LexStuck)"
  by (auto simp: keeps_def lret_def lmodify_def lif_def luaX_lexerror_def luaX_syntaxerror_def split: if_splits sum.splits)

lemma keeps_lbind [lex_rules]: "keeps m \<Longrightarrow> (\<And>x. keeps (f x)) \<Longrightarrow> keeps (lbind m f)"
  unfolding keeps_def lbind_Inr using keeps_to_trans by blast

lemma keeps_lseq [lex_rules]: "keeps m \<Longrightarrow> keeps f \<Longrightarrow> keeps (lseq m f)"
  unfolding lseq_def by (rule keeps_lbind)

lemma keeps_reads: "(\<And>ls. keeps (m ls)) \<Longrightarrow> keeps (\<lambda>ls. m ls ls)"
  unfolding keeps_def by blast

lemma keeps_while: assumes "keeps b" shows "keeps (while_act LexStuck n c b)"
proof (induction n)
  case (Suc n)
  then show ?case unfolding while_act.simps using assms by (intro lex_rules)
qed (simp add: keeps_def)

lemma keeps_lwhile [lex_rules]: "keeps b \<Longrightarrow> keeps (lwhile c b)"
  unfolding lwhile_def using keeps_while [of b] unfolding keeps_def by blast

lemma keeps_fueled: "(\<And>n. keeps (m n)) \<Longrightarrow> keeps (\<lambda>ls. m (Suc (lex_left ls)) ls)"
  unfolding keeps_def by blast

lemma keeps_basic [lex_rules]:
  "keeps lnext" "keeps (save c)" "keeps (buffreplace a d)" "keeps reset_buffer" "keeps (luaX_newstring E str)"
  using zgetc_byte newlstr_grows
  by (auto simp: keeps_def keeps_to_def lnext_def lmodify_def save_def put_byte_def buffreplace_def reset_buffer_def
      luaX_newstring_def Let_def split_def cur_ok_def split: if_splits option.splits sum.splits)

lemma keeps_save_and_next [lex_rules]: "keeps save_and_next"
  unfolding save_and_next_def by (rule keeps_reads) (intro lex_rules)

lemma keeps_inclinenumber [lex_rules]: "keeps inclinenumber"
  unfolding inclinenumber_def Let_def by (rule keeps_reads) (intro lex_rules; simp add: keeps_to_def)

lemma keeps_skip_sep [lex_rules]: "keeps skip_sep"
proof -
  have l: "keeps (skip_sep_loop n count)" for n count
  proof (induction n arbitrary: count)
    case (Suc n)
    then show ?case unfolding skip_sep_loop.simps by (intro lex_rules)
  qed (simp add: keeps_def)
  show ?thesis
    unfolding skip_sep_def Let_def
    apply (rule keeps_reads [where m = "\<lambda>ls. lbind a (b (current ls))" for a b])
    apply (rule keeps_lbind)
     apply (rule keeps_lseq, rule lex_rules, rule keeps_fueled [OF l])
    apply (simp add: keeps_def)
    done
qed

lemma keeps_trydecpoint: "keeps (trydecpoint E)"
proof -
  have r: "keeps (\<lambda>ls. lseq (buffreplace (decpoint ls) (of_char CHR ''.''))
      (luaX_lexerror ''malformed number'' (tk TK_NUMBER) :: lua_Number lex) ls)"
    by (rule keeps_reads) (intro lex_rules)
  have "keeps (lseq (lmodify (\<lambda>ls. ls\<lparr>decpoint := locale_point E\<rparr>))
      (lseq (buffreplace old (locale_point E))
        (\<lambda>ls. case str2d E (c_text (buffer (buff ls))) of
           Some r \<Rightarrow> Inr (r, ls)
         | None \<Rightarrow> lseq (buffreplace (decpoint ls) (of_char CHR ''.''))
             (luaX_lexerror ''malformed number'' (tk TK_NUMBER)) ls)))" for old
    using r by (intro lex_rules) (auto simp: keeps_def intro!: keeps_toI split: option.split simp del: lseq_Inr)
  then show ?thesis unfolding keeps_def trydecpoint_def Let_def by blast
qed

lemma keeps_check_next [lex_rules]: "keeps (check_next cs)"
  unfolding check_next_def by (intro lex_rules)

lemma keeps_read_numeral [lex_rules]: "keeps (read_numeral E)"
  unfolding read_numeral_def
  apply (intro lex_rules)
   apply (rule keeps_reads [where m = "\<lambda>ls. buffreplace (of_char CHR ''.'') (decpoint ls)"], intro lex_rules)
  apply (use keeps_trydecpoint [of E] in \<open>auto simp: keeps_def split: option.splits\<close>)
  done

lemma keeps_long_string_loop: "keeps (long_string_loop n k s)"
  by (induction n) (simp_all only: long_string_loop.simps, (intro lex_rules; (assumption | simp add: keeps_to_def))+)

lemma keeps_read_long_string [lex_rules]: "keeps (read_long_string E k n)"
  unfolding read_long_string_def
  apply (intro lex_rules)
   apply (rule keeps_fueled [OF keeps_long_string_loop])
  apply (rule keeps_reads [where m = "\<lambda>ls. lbind (luaX_newstring E (f ls)) g" for f g], intro lex_rules)
  done

lemma keeps_read_escape: "keeps read_escape"
proof -
  have d: "keeps (escape_digits n c)" for n c
  proof (induction n arbitrary: c)
    case (Suc n)
    have "keeps (lseq lnext (lif (cur_in isdigit) (escape_digits n d) (lret d)))" for d
      by (intro lex_rules Suc)
    then show ?case unfolding escape_digits.simps Let_def keeps_def by blast
  qed (simp add: lex_rules)
  have 1: "keeps (lif currIsNewline (lseq (save 10) inclinenumber)
        (lif (\<lambda>ls. current ls = EOZ) (lret ())
        (lif (\<lambda>ls. \<not> cur_in isdigit ls) save_and_next
        (lbind (escape_digits 3 0) (\<lambda>c.
           if c > UCHAR_MAX then luaX_lexerror ''escape sequence too large'' (tk TK_STRING)
           else save c)))))" (is "keeps ?n")
    by (intro lex_rules d)
  have 2: "keeps (lseq (save c) lnext)" for c by (intro lex_rules)
  have "keeps (\<lambda>ls. case simple_escape (current ls) of Some c \<Rightarrow> lseq (save c) lnext ls | None \<Rightarrow> ?n ls)"
    using 1 2 unfolding keeps_def by (auto split: option.split simp del: lseq_Inr)
  then show ?thesis unfolding read_escape_def by (intro lex_rules)
qed

lemma keeps_read_string_step [lex_rules]: "keeps read_string_step"
  unfolding read_string_step_def by (intro lex_rules keeps_read_escape)

lemma keeps_read_string [lex_rules]: "keeps (read_string E del)"
proof -
  have "keeps (\<lambda>ls. luaX_newstring E (f ls) ls)" for f
    by (rule keeps_reads [where m = "\<lambda>ls. luaX_newstring E (f ls)"]) (intro lex_rules)
  then show ?thesis
    unfolding read_string_def by (intro lex_rules)
qed

lemma keeps_lex_name [lex_rules]: "keeps (lex_name E)"
proof -
  have "keeps (\<lambda>ls. lbind (luaX_newstring E (f ls)) (\<lambda>p ls.
       if g p ls > 0 then Inr ((h p ls, None), ls)
       else Inr ((tk TK_NAME, Some (SemString p)), ls)) ls)" for f and g :: "_ \<Rightarrow> _ \<Rightarrow> u8" and h
    by (rule keeps_reads [where m = "\<lambda>ls. lbind (luaX_newstring E (f ls)) u" for u],
        rule keeps_lbind, rule keeps_basic) (simp add: keeps_def)
  then show ?thesis unfolding lex_name_def Let_def by (intro lex_rules)
qed

lemma keeps_lex_comment: "keeps (lex_comment E)"
  unfolding lex_comment_def by (rule lex_rules)+

lemma keeps_llex: "keeps (llex E)"
proof -
  have t: "keeps (tok_char c)" "keeps (tok_reserved r)" for c r
    unfolding tok_char_def tok_reserved_def by (intro lex_rules)+
  have s: "keeps (\<lambda>ls. lbind (read_string E (current ls)) (\<lambda>p. lret (tk TK_STRING, Some (SemString p))) ls)"
    by (rule keeps_reads [where m = "\<lambda>ls. lbind (read_string E (current ls)) g" for g]) (intro lex_rules)
  have o: "keeps (\<lambda>ls. let c = current ls in lseq lnext (lret (c, None)) ls)"
    unfolding Let_def by (rule keeps_reads [where m = "\<lambda>ls. lseq lnext (lret (current ls, None))"]) (intro lex_rules)
  have n: "keeps (lex_number E)" unfolding lex_number_def by (rule lex_rules)+
  have pieces: "keeps (lex_equal c r)" "keeps (lex_number E)" "keeps (lex_dots E)" "keeps (lex_comment E)" for c r
    unfolding lex_equal_def lex_dots_def lex_comment_def by (rule lex_rules t n)+
  have l: "keeps (llex_loop E n)" for n
  proof (induction n)
    case (Suc n)
    show ?case
      unfolding llex_loop.simps
      by (rule lex_rules t s o pieces Suc)+
  qed (simp add: keeps_def)
  show ?thesis unfolding llex_def by (rule keeps_lseq, rule keeps_basic, rule keeps_fueled [OF l])
qed

lemma luaX_next_lookahead:
  assumes "luaX_next E ls = Inr (x, ls')" "token (lookahead ls) = tk TK_EOS"
  shows "token (lookahead ls') = tk TK_EOS"
  using assms keeps_llex [of E] by (fastforce simp: luaX_next_def lif_def keeps_def keeps_to_def split_def)

lemma scan_tokens_ok:
  assumes "lok ls" "token (lookahead ls) = tk TK_EOS" "lex_left ls < n"
  shows "scan_tokens E n ls \<noteq> Inl LexStuck"
  using assms
proof (induction n arbitrary: ls)
  case (Suc n)
  have p: "lex_left ls \<le> lex_left ls \<and> token (lookahead ls) = tk TK_EOS" using Suc.prems by simp
  note ok = lex_okD [OF luaX_next_scan [of "lex_left ls"] Suc.prems(1) p]
  show ?case
  proof (cases "luaX_next E ls")
    case (Inl e)
    with ok(1) show ?thesis by (auto simp: lseq_def lbind_def)
  next
    case (Inr w)
    then obtain l1 where w: "w = ((), l1)" by (cases w) auto
    note r = Inr [unfolded w]
    from ok(2) [OF r] have 1: "lok l1" "token (tok l1) = tk TK_EOS \<or> lex_left l1 < lex_left ls" by auto
    show ?thesis
    proof (cases "token (tok l1) = tk TK_EOS")
      case True
      with r show ?thesis by (simp add: lseq_def lbind_def)
    next
      case False
      with 1 Suc.prems have "lex_left l1 < n" by simp
      from Suc.IH [OF 1(1) luaX_next_lookahead [OF r Suc.prems(2)] this] False r
      show ?thesis by (auto simp: lseq_def lbind_def lret_def split: sum.split)
    qed
  qed
qed simp

end
