(* ===== verification/Lexer_Props.thy ===== *)
theory Lexer_Props
  imports Lexer_Safe
begin

text \<open>The properties of the lexical analyser.\<close>

section \<open>The end of the token stream\<close>

lemma scan_tokens_length: "scan_tokens E n ls = Inr (ks, ls') \<Longrightarrow> length ks < n"
proof (induction n arbitrary: ls ks ls')
  case (Suc n)
  then obtain u l1 where "luaX_next E ls = Inr (u, l1)"
    "(if token (tok l1) = tk TK_EOS then Inr ([], l1)
      else lbind (scan_tokens E n) (\<lambda>ks. lret (token (tok l1) # ks)) l1) = Inr (ks, ls')"
    by auto
  with Suc.IH show ?case by (auto split: if_splits)
qed simp

lemma scan_tokens_lok:
  assumes "lok ls" "scan_tokens E n ls = Inr (ks, ls')"
  shows "lok ls'"
  using assms
proof (induction n arbitrary: ls ks)
  case (Suc n)
  then obtain u l1 where 1: "luaX_next E ls = Inr (u, l1)"
    "(if token (tok l1) = tk TK_EOS then Inr ([], l1)
      else lbind (scan_tokens E n) (\<lambda>ks. lret (token (tok l1) # ks)) l1) = Inr (ks, ls')"
    by auto
  have "lok l1" using lex_okD(2) [OF luaX_next_any Suc.prems(1) TrueI 1(1)] by simp
  with Suc.IH [of l1] 1(2) show ?case by (auto split: if_splits)
qed simp

text \<open>
  \<open>luaX_setinput\<close> makes a sound state, but for the position in the buffer, which \<open>llex\<close> resets
  before it writes.
\<close>

definition fresh_buffer :: "LexState \<Rightarrow> LexState" where
  "fresh_buffer ls = ls\<lparr>buff := luaZ_resetbuffer (buff ls)\<rparr>"

lemma fresh_fresh: "fresh_buffer (fresh_buffer ls) = fresh_buffer ls"
  by (simp add: fresh_buffer_def luaZ_resetbuffer_def)

lemma llex_eq: "llex E ls = llex_loop E (Suc (lex_left (fresh_buffer ls))) (fresh_buffer ls)"
  by (simp add: llex_def reset_buffer_def fresh_buffer_def lseq_def lbind_def lmodify_def del: llex_loop.simps)

lemma llex_fresh: "llex E (fresh_buffer ls) = llex E ls"
  unfolding llex_eq fresh_fresh ..

lemma luaX_next_fresh:
  assumes "token (lookahead ls) = tk TK_EOS"
  shows "luaX_next E (fresh_buffer ls) = luaX_next E ls"
proof -
  have "fresh_buffer (ls\<lparr>lastline := n\<rparr>) = (fresh_buffer ls)\<lparr>lastline := n\<rparr>"
    "lookahead (fresh_buffer ls) = lookahead ls" "linenumber (fresh_buffer ls) = linenumber ls" for n
    by (simp_all add: fresh_buffer_def)
  with assms llex_fresh [of E "ls\<lparr>lastline := linenumber ls\<rparr>"] show ?thesis
    by (simp add: luaX_next_def lseq_def lbind_def lmodify_def lif_def)
qed

lemma scan_tokens_fresh:
  "token (lookahead ls) = tk TK_EOS \<Longrightarrow> scan_tokens E n (fresh_buffer ls) = scan_tokens E n ls"
  by (cases n) (simp_all add: lseq_def lbind_def luaX_next_fresh)

lemma setinput_state:
  assumes "zio_ok z" "luaX_setinput z src ls = Inr (u, ls')"
  shows "lok (fresh_buffer ls')" "token (lookahead ls') = tk TK_EOS" "lex_left ls' \<le> length (pending z)"
proof -
  obtain c z1 where z: "zgetc z = (c, z1)" by fastforce
  from zgetc_ok [OF assms(1)] consider "pending z = []" "c = EOZ"
    | d cs where "pending z = d # cs" "c = uint d" "zio_ok z1" "pending z1 = cs"
    unfolding z fst_conv snd_conv by blast
  then have "(c = EOZ) \<or> (0 \<le> c \<and> c < 256 \<and> zio_ok z1 \<and> length (pending z) = Suc (length (pending z1)))"
  proof cases
    case 2
    moreover have "uint d < 256" using unsigned_less [of d, where ?'a = int] by simp
    ultimately show ?thesis by simp
  qed simp
  moreover from assms(2) z have ls': "ls' = ls\<lparr>decpoint := of_char CHR ''.'',
      lookahead := (lookahead ls)\<lparr>token := tk TK_EOS\<rparr>, lzio := z1, linenumber := 1, lastline := 1,
      lsource := src, buff := luaZ_resizebuffer (buff ls) LUA_MINBUFFER, current := c\<rparr>"
    by (simp add: luaX_setinput_def lnext_def)
  ultimately show "lok (fresh_buffer ls')" "token (lookahead ls') = tk TK_EOS" "lex_left ls' \<le> length (pending z)"
    by (auto simp: lok_def mbuf_ok_def fresh_buffer_def luaZ_resetbuffer_def luaZ_resizebuffer_def
        LUA_MINBUFFER_def lex_left_def)
qed

text \<open>
  C32: the token stream of every chunk ends: after \<open>luaX_setinput\<close> on a stream of \<open>n\<close> bytes, at most
  \<open>n + 1\<close> calls of \<open>luaX_next\<close> reach \<open>TK_EOS\<close> or an error. On the way no loop of the lexer runs forever and
  no byte is written outside the token buffer (either would end in \<open>LexStuck\<close>), and the buffer is sound in the end:
  its block has \<open>buffsize\<close> bytes, of which the first \<open>n\<close> are in use.
\<close>

theorem token_stream_ends:
  assumes "zio_ok z"
  shows "case lseq (luaX_setinput z src) (scan_tokens E (Suc (length (pending z)))) ls of
      Inl e \<Rightarrow> e \<noteq> LexStuck
    | Inr (ks, ls') \<Rightarrow> length ks \<le> length (pending z) \<and> lok ls'"
proof -
  obtain l1 where i: "luaX_setinput z src ls = Inr ((), l1)"
    by (auto simp: luaX_setinput_def lseq_def lbind_def lmodify_def lnext_def)
  note s = setinput_state [OF assms i]
  let ?r = "scan_tokens E (Suc (length (pending z))) l1"
  have e: "?r = scan_tokens E (Suc (length (pending z))) (fresh_buffer l1)"
    by (rule scan_tokens_fresh [OF s(2), symmetric])
  have "lex_left (fresh_buffer l1) < Suc (length (pending z))" "token (lookahead (fresh_buffer l1)) = tk TK_EOS"
    using s lex_left_buff by (simp_all add: fresh_buffer_def less_Suc_eq_le)
  then have "?r \<noteq> Inl LexStuck" unfolding e by (intro scan_tokens_ok s(1))
  moreover have "length ks \<le> length (pending z) \<and> lok ls'" if "?r = Inr (ks, ls')" for ks ls'
    using scan_tokens_length [OF that] scan_tokens_lok [OF s(1) that [unfolded e]] by simp
  ultimately show ?thesis using i by (auto simp: lseq_def lbind_def split: sum.split)
qed

text \<open>A state of the lexer and its environment, for examples.\<close>

definition lexer_env :: lex_env where
  "lexer_env = \<lparr>alloc = sample_alloc, lex_libc = \<lparr>strtod = \<lambda>s. (0, 0), strtoul = \<lambda>s. (0, 0)\<rparr>, locale_point = 46\<rparr>"

definition sample_lex :: LexState where
  "sample_lex = \<lparr>current = EOZ, linenumber = 1, lastline = 1, tok = \<lparr>token = 0, seminfo = SemNone\<rparr>,
     lookahead = \<lparr>token = 287, seminfo = SemNone\<rparr>, lzio = luaZ_init [], buff = \<lparr>buffer = [], bn = 0, buffsize = 0\<rparr>,
     lsource = ''=sample'', decpoint = 46, lstrings = sample_strt, 
     fs_h = \<lparr>flags = 0, metatable = None, lsizenode = 0, arr = [], node = [dummynode], dummy = True, lastfree = 0\<rparr>\<rparr>"

theorem token_stream_ends_witness:
  "(case lseq (luaX_setinput (luaZ_init [[110], [61, 110]]) ''=s'') (scan_tokens lexer_env 4) sample_lex of
      Inl e \<Rightarrow> e \<noteq> LexStuck
    | Inr (ks, ls') \<Rightarrow> length ks \<le> 3 \<and> lok ls')"
proof -
  have "zio_ok (luaZ_init [[110], [61, 110]])" by (rule luaZ_init_ok) simp
  moreover have pend: "length (pending (luaZ_init [[110], [61, 110]])) = 3" by (simp add: luaZ_init_def pending_def)
  ultimately show ?thesis using token_stream_ends [of "luaZ_init [[110], [61, 110]]" "''=s''" lexer_env sample_lex]
    unfolding pend by (simp add: numeral_eq_Suc del: scan_tokens.simps)
qed

end
