(* ===== verification/Lexer_Words.thy ===== *)
theory Lexer_Words
  imports Lexer_Safe
begin

text \<open>
  Reserved words: \<open>luaX_init\<close> interns them and marks each with its number, so that \<open>llex\<close> tells
  them from names without a comparison of strings.
\<close>

section \<open>The marks\<close>

text \<open>The place of a word in a list, counted from 1; 0 is the place of no word.\<close>

definition word_place :: "string list \<Rightarrow> byte list \<Rightarrow> nat" where
  "word_place ws b = (let i = length (takeWhile (\<lambda>w. bytes w \<noteq> b) ws) in if i < length ws then i + 1 else 0)"

definition words :: "string list" where "words = take NUM_RESERVED luaX_tokens"

text \<open>The words \<open>ws\<close> are interned, and the mark of every string is its place in \<open>ws\<close>.\<close>

definition marked_words :: "string list \<Rightarrow> stringtable \<Rightarrow> bool" where
  "marked_words ws g \<longleftrightarrow> strt_ok g
     \<and> (\<forall>p ts. objs g p = Some ts \<longrightarrow> unat (reserved ts) = word_place ws (chars ts))
     \<and> (\<forall>w \<in> set ws. Some (bytes w) \<in> range (str_bytes g))"

text \<open>\<open>malloc\<close> finds a new address as long as there are fewer than \<open>n\<close> strings.\<close>

definition fresh_alloc :: "nat \<Rightarrow> (str_heap \<Rightarrow> ptr) \<Rightarrow> bool" where
  "fresh_alloc n al \<longleftrightarrow> (\<forall>h. card (dom h) < n \<longrightarrow> al h \<notin> dom h)"

lemma word_place_zero: "word_place ws b = 0 \<longleftrightarrow> b \<notin> bytes ` set ws"
proof -
  have "length (takeWhile P ws) < length ws \<longleftrightarrow> (\<exists>w \<in> set ws. \<not> P w)" for P
  proof -
    have "length (takeWhile P ws) < length ws \<longleftrightarrow> takeWhile P ws \<noteq> ws"
      using length_takeWhile_le [of P ws] by (metis takeWhile_eq_take take_all_iff linorder_not_less nat_less_le)
    then show ?thesis by (metis takeWhile_eq_all_conv)
  qed
  then show ?thesis by (auto simp: word_place_def Let_def)
qed

lemma word_place_snoc:
  "word_place (ws @ [w]) b = (if b \<in> bytes ` set ws then word_place ws b else if b = bytes w then length ws + 1 else 0)"
proof (cases "b \<in> bytes ` set ws")
  case True
  then obtain v where "v \<in> set ws" "bytes v = b" by auto
  then have "takeWhile (\<lambda>w. bytes w \<noteq> b) (ws @ [w]) = takeWhile (\<lambda>w. bytes w \<noteq> b) ws" by (intro takeWhile_append1) auto
  moreover have "word_place ws b \<noteq> 0" using True word_place_zero by simp
  ultimately show ?thesis using True by (auto simp: word_place_def Let_def split: if_splits)
next
  case False
  then have "takeWhile (\<lambda>w. bytes w \<noteq> b) (ws @ [w]) = ws @ takeWhile (\<lambda>w. bytes w \<noteq> b) [w]"
    by (intro takeWhile_append2) auto
  then show ?thesis using False by (simp add: word_place_def Let_def)
qed

text \<open>\<open>luaS_newlstr\<close> changes no mark, and gives a new string none.\<close>

lemma newlstr_marks:
  assumes "newlstr al g s h = Some (p, g')" "objs g' q = Some ts"
  shows "(\<exists>us. objs g q = Some us \<and> chars us = chars ts \<and> reserved us = reserved ts)
    \<or> (q = al (objs g) \<and> chars ts = s \<and> reserved ts = 0)"
  using assms by (auto simp: newlstr_def Let_def luaS_resize_def split: if_splits)

lemma luaS_newlstr_marks:
  assumes "strt_ok g" "luaS_newlstr al g s = Some (p, g')" "objs g' q = Some ts"
  shows "(\<exists>us. objs g q = Some us \<and> chars us = chars ts \<and> reserved us = reserved ts)
    \<or> (q = al (objs g) \<and> chars ts = s \<and> reserved ts = 0)"
proof (cases "find_string (objs g) (buckets g ! lmod (luaS_hash s) (strt_size g)) s")
  case None
  with assms(2) show ?thesis by (intro newlstr_marks [OF _ assms(3)]) (simp add: luaS_newlstr_def)
next
  case (Some r)
  from find_string_Some [OF this] obtain us where "objs g r = Some us" by blast
  with Some assms(2,3) show ?thesis
    by (auto simp: luaS_newlstr_def Let_def changewhite_def split: if_splits)
qed

lemma short_word:
  assumes "length s \<le> 100"
  shows "length s + 1 \<le> MAX_SIZET - sizeof_TString"
  using assms by (simp add: MAX_SIZET_def sizeof_TString_def)

lemma luaS_newlstr_words:
  assumes "marked_words ws g" "al (objs g) \<notin> dom (objs g)" "luaS_newlstr al g s = Some (p, g')"
    "length s + 1 \<le> MAX_SIZET - sizeof_TString"
  shows "marked_words ws g'" "str_bytes g' p = Some s" "card (dom (objs g')) \<le> card (dom (objs g)) + 1"
proof -
  have g: "strt_ok g"
    and m: "\<And>p ts. objs g p = Some ts \<Longrightarrow> unat (reserved ts) = word_place ws (chars ts)"
    and i: "\<And>w. w \<in> set ws \<Longrightarrow> Some (bytes w) \<in> range (str_bytes g)"
    using assms(1) by (auto simp: marked_words_def)
  note f = assms(2)
  note ok = luaS_newlstr_post [OF g(1) f assms(4,3)]
  have "dom (objs g') \<subseteq> insert (al (objs g)) (dom (objs g))"
    using luaS_newlstr_marks [OF g(1) assms(3)] by blast
  then have "card (dom (objs g')) \<le> card (insert (al (objs g)) (dom (objs g)))" by (intro card_mono) auto
  then show "card (dom (objs g')) \<le> card (dom (objs g)) + 1" by (simp add: card_insert_if split: if_splits)
  have "unat (reserved ts) = word_place ws (chars ts)" if q: "objs g' q = Some ts" for q ts
  proof (cases "objs g q")
    case (Some us)
    with luaS_newlstr_marks [OF g(1) assms(3) q] f m [of q us] show ?thesis by auto
  next
    case None
    with luaS_newlstr_marks [OF g(1) assms(3) q] have n: "chars ts = s" "reserved ts = 0" by auto
    have "Some s \<notin> range (str_bytes g)"
    proof
      assume "Some s \<in> range (str_bytes g)"
      then obtain r where r: "str_bytes g r = Some s" by (metis rangeE)
      from luaS_newlstr_found [OF g(1) r, of al] assms(3) have "str_bytes g' = str_bytes g" by auto
      with None q show False by (metis (no_types, lifting) option.distinct(1) option.map_disc_iff str_bytes_def)
    qed
    with i have "s \<notin> bytes ` set ws" by auto
    with n word_place_zero show ?thesis by simp
  qed
  moreover have "Some (bytes w) \<in> range (str_bytes g')" if "w \<in> set ws" for w
    using i [OF that] ok by (metis rangeE rangeI)
  ultimately show "marked_words ws g'" "str_bytes g' p = Some s" using ok by (auto simp: marked_words_def)
qed

lemma fix_reserved_words:
  assumes "marked_words ws g" "str_bytes g p = Some (bytes w)" "w \<notin> set ws" "length ws < 255"
    "inj_on bytes (set (w # ws))"
  shows "marked_words (ws @ [w]) (fix_reserved p (length ws) g)"
    "card (dom (objs (fix_reserved p (length ws) g))) = card (dom (objs g))"
proof -
  obtain ts where ts: "objs g p = Some ts" "chars ts = bytes w" using assms(2) by (auto simp: str_bytes_def)
  define us where "us = ts\<lparr>marked := marked ts OR push_bit FIXEDBIT 1, reserved := word_of_nat (length ws + 1)\<rparr>"
  define g' where "g' = g\<lparr>objs := (objs g)(p \<mapsto> us)\<rparr>"
  have e: "fix_reserved p (length ws) g = g'" using ts by (simp add: fix_reserved_def g'_def us_def)
  have us: "chars us = chars ts" "shash us = shash ts" "len us = len ts"
    "unat (reserved us) = length ws + 1"
    using assms(4) by (simp_all add: us_def unat_of_nat_eq del: of_nat_Suc of_nat_add)
  have g: "strt_ok g"
    and m: "\<And>p ts. objs g p = Some ts \<Longrightarrow> unat (reserved ts) = word_place ws (chars ts)"
    and i: "\<And>w. w \<in> set ws \<Longrightarrow> Some (bytes w) \<in> range (str_bytes g)"
    using assms(1) by (auto simp: marked_words_def)
  have o: "\<exists>ts0. objs g q = Some ts0 \<and> chars ts0 = chars vs \<and> shash ts0 = shash vs \<and> len ts0 = len vs"
    if "objs g' q = Some vs" for q vs using that ts us by (auto simp: g'_def split: if_splits)
  have sz: "strt_size g' = strt_size g" by (simp add: g'_def strt_size_def)
  have sb: "str_bytes g' = str_bytes g" using ts us by (auto simp: str_bytes_def g'_def fun_eq_iff)
  have "strt_ok g'"
    unfolding strt_ok_def sz
  proof (intro conjI allI impI)
    show "\<exists>k \<le> 31. strt_size g = 2 ^ k" using g(1) by (simp add: strt_ok_def)
  next
    fix q vs assume "objs g' q = Some vs"
    then show "shash vs = luaS_hash (chars vs)" "len vs = length (chars vs)"
      using o strt_okD(1) [OF g(1)] by metis+
  next
    fix i q assume i: "i < strt_size g"
    show "q \<in> set (buckets g' ! i) \<longleftrightarrow> (\<exists>vs. objs g' q = Some vs \<and> lmod (shash vs) (strt_size g) = i)"
      using strt_okD(2) [OF g(1) i, of q] ts us by (auto simp: g'_def)
  next
    fix q r vs ws assume "objs g' q = Some vs" "objs g' r = Some ws" "chars vs = chars ws"
    then show "q = r" using o strt_okD(3) [OF g(1)] by metis
  qed
  moreover have new: "bytes w \<notin> bytes ` set ws" using assms(3,5) by (auto simp: inj_on_def)
  have "unat (reserved vs) = word_place (ws @ [w]) (chars vs)" if q: "objs g' q = Some vs" for q vs
  proof (cases "q = p")
    case True
    then have "vs = us" using q by (simp add: g'_def)
    with us ts new show ?thesis by (simp add: word_place_snoc)
  next
    case False
    then have q: "objs g q = Some vs" using q by (simp add: g'_def)
    with False ts strt_okD(3) [OF g(1)] have "chars vs \<noteq> bytes w" by metis
    with m [OF q] word_place_zero show ?thesis by (auto simp: word_place_snoc)
  qed
  moreover have "Some (bytes v) \<in> range (str_bytes g')" if "v \<in> set (ws @ [w])" for v
    using that i assms(2) by (auto simp: sb) (metis rangeI)
  ultimately show "marked_words (ws @ [w]) (fix_reserved p (length ws) g)"
    unfolding e by (auto simp: marked_words_def)
  show "card (dom (objs (fix_reserved p (length ws) g))) = card (dom (objs g))"
    unfolding e using ts by (simp add: g'_def insert_absorb domI)
qed

lemma init_loop_words:
  assumes "marked_words ws g" "fresh_alloc n al" "\<forall>v \<in> set vs. length v \<le> 100"
    "distinct (ws @ vs)" "inj_on bytes (set (ws @ vs))" "length (ws @ vs) < 255"
    "card (dom (objs g)) + length vs \<le> n"
  shows "\<exists>g'. init_loop al (length ws) vs g = Some g' \<and> marked_words (ws @ vs) g'
    \<and> card (dom (objs g')) \<le> card (dom (objs g)) + length vs"
  using assms
proof (induction vs arbitrary: ws g)
  case (Cons v vs)
  have l: "length (bytes v) + 1 \<le> MAX_SIZET - sizeof_TString" using Cons.prems(3) by (intro short_word) (simp add: bytes_def)
  have f: "strt_ok g" "al (objs g) \<notin> dom (objs g)" using Cons.prems(1,2,7) by (auto simp: marked_words_def fresh_alloc_def)
  from luaS_newlstr_ok [of g al "bytes v", OF f l]
  obtain p g1 where 1: "luaS_newlstr al g (bytes v) = Some (p, g1)" by metis
  note w = luaS_newlstr_words [OF Cons.prems(1) f(2) 1 l]
  have "v \<notin> set ws" "length ws < 255" "inj_on bytes (set (v # ws))"
    using Cons.prems by (auto simp: inj_on_def)
  note x = fix_reserved_words [OF w(1,2) this]
  have "\<exists>g'. init_loop al (length (ws @ [v])) vs (fix_reserved p (length ws) g1) = Some g'
    \<and> marked_words ((ws @ [v]) @ vs) g'
    \<and> card (dom (objs g')) \<le> card (dom (objs (fix_reserved p (length ws) g1))) + length vs"
    by (rule Cons.IH [OF x(1)]) (use Cons.prems x(2) w(3) in auto)
  then show ?case using 1 x(2) w(3) by auto
qed simp

lemma bytes_inject: "bytes v = bytes w \<Longrightarrow> v = w"
proof -
  have "inj (of_char :: char \<Rightarrow> byte)"
  proof (rule injI)
    fix c d assume "of_char c = (of_char d :: byte)"
    then have "unat (of_nat (of_char c) :: byte) = unat (of_nat (of_char d) :: byte)" by (simp add: of_nat_of_char)
    then have "(of_char c :: nat) = of_char d" by (simp add: unat_of_nat_eq)
    then show "c = d" by simp
  qed
  then show "bytes v = bytes w \<Longrightarrow> v = w" by (simp add: bytes_def inj_map_eq_map)
qed

lemma words_distinct: "distinct words" "length words = 21" "\<forall>w \<in> set words. length w \<le> 100"
  by code_simp+

section \<open>The scanner tells reserved words from names\<close>

text \<open>
  C34: \<open>luaX_init\<close> marks the reserved words and no other string, and \<open>luaS_newlstr\<close> keeps the
  marks: a string that is interned later has the mark \<open>i + 1\<close> if it is the reserved word \<open>i\<close>,
  also when it was built in the token buffer, and 0 if it is a name.
\<close>

theorem reserved_words_marked:
  assumes "strt_ok g" "\<forall>p ts. objs g p = Some ts \<longrightarrow> reserved ts = 0"
    and "fresh_alloc n al" "card (dom (objs g)) + NUM_RESERVED < n"
    and "length s + 1 \<le> MAX_SIZET - sizeof_TString"
  shows "\<exists>g1 p g2 ts. luaX_init al g = Some g1 \<and> luaS_newlstr al g1 s = Some (p, g2) \<and> objs g2 p = Some ts
    \<and> chars ts = s \<and> unat (reserved ts) = word_place words s \<and> marked_words words g2"
proof -
  have "marked_words [] g" using assms(1,2) by (auto simp: marked_words_def word_place_def)
  moreover have "inj_on bytes (set words)" using bytes_inject by (auto simp: inj_on_def)
  moreover have "card (dom (objs g)) + 21 < n" using assms(4) by (simp add: NUM_RESERVED_def)
  ultimately have "\<exists>g1. init_loop al 0 words g = Some g1 \<and> marked_words words g1 \<and> card (dom (objs g1)) < n"
    using init_loop_words [of "[]" g n al words, OF _ assms(3)] words_distinct by fastforce
  then obtain g1 where 1: "luaX_init al g = Some g1" "marked_words words g1" "card (dom (objs g1)) < n"
    by (auto simp: luaX_init_def words_def)
  then have f: "strt_ok g1" "al (objs g1) \<notin> dom (objs g1)" using assms(3) by (auto simp: marked_words_def fresh_alloc_def)
  from luaS_newlstr_ok [of g1 al s, OF f assms(5)]
  obtain p g2 where 2: "luaS_newlstr al g1 s = Some (p, g2)" by metis
  note w = luaS_newlstr_words [OF 1(2) f(2) 2 assms(5)]
  then obtain ts where "objs g2 p = Some ts" "chars ts = s" by (auto simp: str_bytes_def)
  with w 1 2 show ?thesis by (auto simp: marked_words_def)
qed

text \<open>An allocator that takes the first free address.\<close>

fun scan_free :: "nat \<Rightarrow> ptr \<Rightarrow> str_heap \<Rightarrow> ptr" where
  "scan_free 0 p h = p"
| "scan_free (Suc n) p h = (if h p = None then p else scan_free n (p + 1) h)"

lemma scan_free_full: "h (scan_free n p h) \<noteq> None \<Longrightarrow> i \<le> n \<Longrightarrow> h (p + of_nat i) \<noteq> None"
proof (induction n arbitrary: p i)
  case (Suc n)
  then have "h p \<noteq> None" "h (scan_free n (p + 1) h) \<noteq> None" by (auto split: if_splits)
  with Suc.IH [of "p + 1" "i - 1"] Suc.prems(2) show ?case by (cases i) (auto simp: add_ac)
qed simp

lemma scan_free_fresh:
  assumes "n < 2 ^ 64"
  shows "fresh_alloc n (scan_free n p)"
proof -
  have "n \<le> card (dom h)" if "scan_free n p h \<in> dom h" for h
  proof -
    have "h (scan_free n p h) \<noteq> None" using that by blast
    note full = scan_free_full [where h = h, OF this]
    have s: "(\<lambda>i. p + of_nat i) ` {..<n} \<subseteq> dom h"
    proof (rule image_subsetI)
      fix i assume "i \<in> {..<n}"
      then show "p + of_nat i \<in> dom h" using full [of i] unfolding domIff by simp
    qed
    have "inj_on (\<lambda>i. p + of_nat i :: ptr) {..<n}"
      using assms by (auto simp: inj_on_def word_of_nat_eq_iff take_bit_nat_eq_self)
    from card_image [OF this] card_mono [OF _ s] show ?thesis by simp
  qed
  then show ?thesis unfolding fresh_alloc_def using not_less by blast
qed

definition first_free :: "str_heap \<Rightarrow> ptr" where "first_free = scan_free 1000 64"

lemma first_free_fresh: "fresh_alloc 1000 first_free"
  unfolding first_free_def by (rule scan_free_fresh) simp

theorem reserved_words_marked_witness:
  "word_place words (bytes ''nil'') = 13 \<and> word_place words (bytes ''nill'') = 0
   \<and> (\<exists>g1 p g2 ts. luaX_init first_free sample_strt = Some g1 \<and> luaS_newlstr first_free g1 (bytes ''nil'') = Some (p, g2)
       \<and> objs g2 p = Some ts \<and> chars ts = bytes ''nil'' \<and> unat (reserved ts) = word_place words (bytes ''nil'')
       \<and> marked_words words g2)"
proof -
  have "word_place words (bytes ''nil'') = 13" "word_place words (bytes ''nill'') = 0" by code_simp+
  moreover have "\<forall>p ts. objs sample_strt p = Some ts \<longrightarrow> reserved ts = 0"
    "card (dom (objs sample_strt)) + NUM_RESERVED < 1000"
    by (simp_all add: sample_strt_def NUM_RESERVED_def)
  note reserved_words_marked [OF sample_strt_ok this(1) first_free_fresh this(2), of "bytes ''nil''"]
  moreover have "length (bytes ''nil'') + 1 \<le> MAX_SIZET - sizeof_TString" by (intro short_word) (simp add: bytes_def)
  ultimately show ?thesis by blast
qed

end
