(* ===== verification/Lexer_Quoted.thy ===== *)
theory Lexer_Quoted
  imports Lexer_Props Lexer_Words Strlib_Props
begin

text \<open>
  The two sides of \<open>%q\<close>: \<open>addquoted\<close> of the string library writes a string as a Lua literal, and
  \<open>read_string\<close> of the lexer reads literals. The lexer reads back the string that was written.
\<close>

section \<open>What is read and what is written\<close>

text \<open>
  The bytes in the token buffer, the bytes to read (from the current one on), the line number
  and the parts of the state that \<open>luaX_newstring\<close> uses.
\<close>

record view =
  out :: "byte list"
  inp :: "byte list"
  line :: int

definition inp_of :: "LexState \<Rightarrow> byte list" where
  "inp_of ls = (if current ls = EOZ then [] else word_of_int (current ls) # pending (lzio ls))"

definition sees :: "stringtable \<Rightarrow> Table \<Rightarrow> view \<Rightarrow> LexState \<Rightarrow> bool" where
  "sees g h v ls \<longleftrightarrow> lok ls \<and> take (bn (buff ls)) (buffer (buff ls)) = out v \<and> inp_of ls = inp v
     \<and> linenumber ls = line v \<and> lstrings ls = g \<and> fs_h ls = h \<and> buffsize (buff ls) < MAX_SIZET div 2"

lemma view_comm: "v\<lparr>inp := a, out := b\<rparr> = v\<lparr>out := b, inp := a\<rparr>"
  by simp

lemma inp_of_line: "inp_of (ls\<lparr>linenumber := n\<rparr>) = inp_of ls"
  by (simp add: inp_of_def)

lemma inp_of_buff: "inp_of (ls\<lparr>buff := b\<rparr>) = inp_of ls"
  by (simp add: inp_of_def)

text \<open>The buffer doubles: \<open>room\<close> is what may still be written before it would be too large.\<close>

definition small :: "nat \<Rightarrow> bool" where "small n \<longleftrightarrow> n < MAX_SIZET div 4"

lemma sees_out_length: "sees g h v ls \<Longrightarrow> length (out v) = bn (buff ls)"
proof -
  assume "sees g h v ls"
  then have "out v = take (bn (buff ls)) (buffer (buff ls))" "mbuf_ok (buff ls)" by (simp_all add: sees_def lok_def)
  then show ?thesis by (simp add: mbuf_ok_def)
qed

lemma sees_current:
  assumes "sees g h v ls" "inp v = c # cs"
  shows "current ls = uint c" "pending (lzio ls) = cs" "zio_ok (lzio ls)" "current ls \<noteq> EOZ"
proof -
  have n: "current ls \<noteq> EOZ" using assms by (auto simp: sees_def inp_of_def)
  then have r: "0 \<le> current ls" "current ls < 256" "zio_ok (lzio ls)"
    using assms(1) by (auto simp: sees_def lok_def)
  have c: "word_of_int (current ls) = c" "pending (lzio ls) = cs"
    using assms n by (auto simp: sees_def inp_of_def)
  have "uint (word_of_int (current ls) :: byte) = current ls"
    using r by (simp add: unsigned_of_int take_bit_int_eq_self)
  with c n r(3) show "current ls = uint c" "pending (lzio ls) = cs" "zio_ok (lzio ls)" "current ls \<noteq> EOZ"
    by simp_all
qed

lemma lnext_runs:
  assumes "sees g h v ls" "inp v = c # cs" "\<And>ls'. sees g h (v\<lparr>inp := cs\<rparr>) ls' \<Longrightarrow> Q () ls'"
  shows "runs lnext ls Q"
proof -
  note s = sees_current [OF assms(1,2)]
  obtain d z where z: "zgetc (lzio ls) = (d, z)" by fastforce
  have l: "lok (ls\<lparr>current := d, lzio := z\<rparr>)"
    using lex_okD(2) [OF lnext_ok _ s(4), of "()" "ls\<lparr>current := d, lzio := z\<rparr>"] assms(1) z
    by (simp add: sees_def lnext_def)
  have "inp_of (ls\<lparr>current := d, lzio := z\<rparr>) = cs"
  proof -
    from zgetc_ok [OF s(3)] consider "cs = []" "d = EOZ" | e es where "cs = e # es" "d = uint e" "pending z = es"
      unfolding s(2) z fst_conv snd_conv by auto
    then show ?thesis
    proof cases
      case 2
      then show ?thesis using uint_not_EOZ [of e] by (simp add: inp_of_def)
    qed (simp add: inp_of_def)
  qed
  with l assms(1) have "sees g h (v\<lparr>inp := cs\<rparr>) (ls\<lparr>current := d, lzio := z\<rparr>)" by (simp add: sees_def)
  from assms(3) [OF this] show ?thesis by (simp add: runs_def lnext_def z)
qed

lemma save_runs:
  assumes "sees g h v ls" "small (length (out v))"
    and "\<And>ls'. sees g h (v\<lparr>out := out v @ [word_of_int c]\<rparr>) ls' \<Longrightarrow> current ls' = current ls \<Longrightarrow> Q () ls'"
  shows "runs (save c) ls Q"
proof -
  let ?b = "buff ls"
  have b: "mbuf_ok ?b" "length (out v) = bn ?b" "take (bn ?b) (buffer ?b) = out v" "buffsize ?b < MAX_SIZET div 2"
    using assms(1) sees_out_length [OF assms(1)] by (auto simp: sees_def lok_def)
  define b1 where "b1 = (if bn ?b + 1 > buffsize ?b then luaZ_resizebuffer ?b (buffsize ?b * 2) else ?b)"
  have b1: "bn b1 = bn ?b" "bn ?b < buffsize b1" "length (buffer b1) = buffsize b1" "take (bn ?b) (buffer b1) = out v"
    "buffsize b1 < MAX_SIZET div 2"
    using b assms(2) by (auto simp: b1_def mbuf_ok_def luaZ_resizebuffer_def small_def)
  have "save c ls = put_byte c b1 ls" using b(4) by (simp add: save_def b1_def Let_def)
  also have "\<dots> = Inr ((), ls\<lparr>buff := b1\<lparr>buffer := (buffer b1)[bn b1 := word_of_int c], bn := bn b1 + 1\<rparr>\<rparr>)"
    using b1(1-3) by (simp add: put_byte_def)
  finally have e: "save c ls = Inr ((), ls\<lparr>buff := b1\<lparr>buffer := (buffer b1)[bn b1 := word_of_int c], bn := bn b1 + 1\<rparr>\<rparr>)" .
  have "take (bn ?b + 1) ((buffer b1)[bn ?b := word_of_int c]) = out v @ [word_of_int c]"
    using b1(2-4) by (simp add: take_Suc_conv_app_nth)
  moreover have "lok (ls\<lparr>buff := b1\<lparr>buffer := (buffer b1)[bn b1 := word_of_int c], bn := bn b1 + 1\<rparr>\<rparr>)"
    using assms(1) b1 by (auto simp: sees_def lok_def mbuf_ok_def)
  ultimately have "sees g h (v\<lparr>out := out v @ [word_of_int c]\<rparr>)
      (ls\<lparr>buff := b1\<lparr>buffer := (buffer b1)[bn b1 := word_of_int c], bn := bn b1 + 1\<rparr>\<rparr>)"
    using assms(1) b1 inp_of_buff by (simp add: sees_def)
  from assms(3) [OF this] e show ?thesis by (simp add: runs_def)
qed

lemma save_and_next_runs:
  assumes "sees g h v ls" "inp v = c # cs" "small (length (out v))"
    and "\<And>ls'. sees g h (v\<lparr>out := out v @ [c], inp := cs\<rparr>) ls' \<Longrightarrow> Q () ls'"
  shows "runs save_and_next ls Q"
proof -
  have "runs (save (current ls)) ls (\<lambda>_ s. runs lnext s Q)"
  proof (rule save_runs [OF assms(1,3)])
    fix l1 assume l1: "sees g h (v\<lparr>out := out v @ [word_of_int (current ls)]\<rparr>) l1"
    have "word_of_int (current ls) = c" using sees_current(1) [OF assms(1,2)] by simp
    with l1 assms(2,4) show "runs lnext l1 Q" by (intro lnext_runs [OF l1, of c cs]) simp_all
  qed
  then have "runs (lseq (save (current ls)) lnext) ls Q" by simp
  then show ?thesis unfolding save_and_next_def runs_def .
qed

section \<open>Escapes\<close>

text \<open>How the lexer sees the current byte.\<close>

lemma sees_cur:
  assumes "sees g h v ls" "inp v = c # cs"
  shows "cur k ls \<longleftrightarrow> c = of_char k" "cur_in P ls \<longleftrightarrow> P (unat c)"
proof -
  note s = sees_current(1) [OF assms]
  have "uint c = (of_char k :: int) \<longleftrightarrow> c = of_char k"
  proof
    assume "uint c = (of_char k :: int)"
    then have "word_of_int (uint c) = (word_of_int (of_char k) :: byte)" by simp
    then show "c = of_char k" by (simp add: of_char_def)
  next
    assume c: "c = of_char k"
    have "of_char k = (of_nat (of_char k) :: byte)" "(of_char k :: int) = of_nat (of_char k)"
      by (simp_all add: of_nat_of_char)
    moreover have "of_char k < (256 :: nat)" by simp
    ultimately show "uint c = (of_char k :: int)"
      unfolding c by (simp add: unsigned_of_nat take_bit_nat_eq_self)
  qed
  then show "cur k ls \<longleftrightarrow> c = of_char k" using s by (simp add: cur_def)
  show "cur_in P ls \<longleftrightarrow> P (unat c)" using s by (simp add: cur_in_def)
qed

lemma runs_lif: "runs (lif c a b) s Q \<longleftrightarrow> (if c s then runs a s Q else runs b s Q)"
  by (simp add: runs_def lif_def)

lemma runs_at: "runs (\<lambda>s. m s s) t Q \<longleftrightarrow> runs (m t) t Q"
  by (simp add: runs_def)

lemma runs_lmodify: "runs (lmodify f) s Q \<longleftrightarrow> Q () (f s)"
  by (simp add: runs_def lmodify_def)

lemma sees_newline:
  assumes "sees g h v ls" "inp v = c # cs"
  shows "currIsNewline ls \<longleftrightarrow> c = 10 \<or> c = 13"
  using sees_cur(1) [OF assms] by (simp add: currIsNewline_def)

text \<open>A newline after a backslash: the next byte is not part of a line end.\<close>

lemma inclinenumber_runs:
  assumes "sees g h v ls" "inp v = 10 # k # ks" "k \<noteq> 10" "k \<noteq> 13" "line v + 1 < MAX_INT"
    and "\<And>ls'. sees g h (v\<lparr>inp := k # ks, line := line v + 1\<rparr>) ls' \<Longrightarrow> Q () ls'"
  shows "runs inclinenumber ls Q"
proof -
  have "runs lnext ls (\<lambda>_ s. runs (lseq (lif (\<lambda>l. currIsNewline l \<and> current l \<noteq> current ls) lnext (lret ()))
      (lseq (lmodify (\<lambda>ls. ls\<lparr>linenumber := linenumber ls + 1\<rparr>))
        (lif (\<lambda>ls. linenumber ls \<ge> MAX_INT) (luaX_syntaxerror ''chunk has too many lines'') (lret ())))) s Q)"
  proof (rule lnext_runs [OF assms(1,2)])
    fix l1 assume l1: "sees g h (v\<lparr>inp := k # ks\<rparr>) l1"
    have "\<not> currIsNewline l1" using sees_newline [OF l1, of k ks] assms(3,4) by simp
    moreover have "linenumber l1 = line v" using l1 by (simp add: sees_def)
    moreover have "sees g h (v\<lparr>inp := k # ks, line := line v + 1\<rparr>) (l1\<lparr>linenumber := line v + 1\<rparr>)"
      using l1 inp_of_line by (simp add: sees_def lok_def)
    ultimately show "runs (lseq (lif (\<lambda>l. currIsNewline l \<and> current l \<noteq> current ls) lnext (lret ()))
      (lseq (lmodify (\<lambda>ls. ls\<lparr>linenumber := linenumber ls + 1\<rparr>))
        (lif (\<lambda>ls. linenumber ls \<ge> MAX_INT) (luaX_syntaxerror ''chunk has too many lines'') (lret ())))) l1 Q"
      using assms(5,6) by (simp add: runs_lif runs_lmodify)
  qed
  then have "runs (lseq lnext (lseq (lif (\<lambda>l. currIsNewline l \<and> current l \<noteq> current ls) lnext (lret ()))
      (lseq (lmodify (\<lambda>ls. ls\<lparr>linenumber := linenumber ls + 1\<rparr>))
        (lif (\<lambda>ls. linenumber ls \<ge> MAX_INT) (luaX_syntaxerror ''chunk has too many lines'') (lret ()))))) ls Q"
    by (simp only: runs_lseq)
  then show ?thesis by (simp only: inclinenumber_def Let_def runs_def)
qed

text \<open>A zero digit.\<close>

lemma escape_digit_runs:
  assumes "sees g h v ls" "inp v = 48 # c # cs"
    and "\<And>ls'. sees g h (v\<lparr>inp := c # cs\<rparr>) ls' \<Longrightarrow> runs (if isdigit (unat c) then escape_digits n 0 else lret 0) ls' Q"
  shows "runs (escape_digits (Suc n) 0) ls Q"
proof -
  have "10 * 0 + (current ls - 48) = 0" using sees_current(1) [OF assms(1,2)] by simp
  moreover have "runs lnext ls (\<lambda>_ s. runs (lif (cur_in isdigit) (escape_digits n 0) (lret 0)) s Q)"
  proof (rule lnext_runs [OF assms(1,2)])
    fix l1 assume l1: "sees g h (v\<lparr>inp := c # cs\<rparr>) l1"
    from assms(3) [OF this] sees_cur(2) [OF l1, of c cs isdigit]
    show "runs (lif (cur_in isdigit) (escape_digits n 0) (lret 0)) l1 Q"
      by (simp add: runs_lif split: if_splits)
  qed
  then have "runs (lseq lnext (lif (cur_in isdigit) (escape_digits n 0) (lret 0))) ls Q" by (simp only: runs_lseq)
  ultimately show ?thesis by (simp only: escape_digits.simps Let_def runs_def)
qed

text \<open>The escapes that \<open>addquoted\<close> writes, after the backslash.\<close>

definition escaped :: "byte \<Rightarrow> byte list \<Rightarrow> bool" where
  "escaped c q \<longleftrightarrow> (c \<in> {34, 92, 10} \<and> q = [c]) \<or> (c = 13 \<and> q = [114]) \<or> (c = 0 \<and> q = [48, 48, 48])"

lemma read_escape_runs:
  assumes "sees g h v ls" "inp v = 92 # q @ k # ks" "escaped c q" "k \<noteq> 10" "k \<noteq> 13"
    and "small (length (out v))" "line v + 1 < MAX_INT"
    and "\<And>ls'. sees g h (v\<lparr>out := out v @ [c], inp := k # ks, line := line v + (if c = 10 then 1 else 0)\<rparr>) ls' \<Longrightarrow> Q () ls'"
  shows "runs read_escape ls Q"
  unfolding read_escape_def runs_lseq
proof (rule lnext_runs [OF assms(1,2)])
  fix l1 assume l1: "sees g h (v\<lparr>inp := q @ k # ks\<rparr>) l1"
  let ?rest = "lif currIsNewline (lseq (save 10) inclinenumber)
        (lif (\<lambda>ls. current ls = EOZ) (lret ())
        (lif (\<lambda>ls. \<not> cur_in isdigit ls) save_and_next
        (lbind (escape_digits 3 0) (\<lambda>c.
           if c > UCHAR_MAX then luaX_lexerror ''escape sequence too large'' (tk TK_STRING)
           else save c))))"
  have e: "runs (\<lambda>ls. case simple_escape (current ls) of Some c \<Rightarrow> lseq (save c) lnext ls | None \<Rightarrow> ?rest ls) l1 Q
    \<longleftrightarrow> (case simple_escape (current l1) of Some c \<Rightarrow> runs (lseq (save c) lnext) l1 Q | None \<Rightarrow> runs ?rest l1 Q)"
    by (simp add: runs_def split: option.split)
  consider "c = 34 \<or> c = 92" "q = [c]" | "c = 10" "q = [10]" | "c = 13" "q = [114]" | "c = 0" "q = [48, 48, 48]"
    using assms(3) by (auto simp: escaped_def)
  then show "runs (\<lambda>ls. case simple_escape (current ls) of Some c \<Rightarrow> lseq (save c) lnext ls | None \<Rightarrow> ?rest ls) l1 Q"
    unfolding e
  proof cases
    case 1
    then have i: "inp (v\<lparr>inp := q @ k # ks\<rparr>) = c # k # ks" by simp
    note s = sees_current [OF l1 i] sees_newline [OF l1 i] sees_cur [OF l1 i]
    have "runs save_and_next l1 Q"
      by (rule save_and_next_runs [OF l1 i]) (use assms(6,8) 1(1) in \<open>auto\<close>)
    with 1 s show "case simple_escape (current l1) of Some c \<Rightarrow> runs (lseq (save c) lnext) l1 Q | None \<Rightarrow> runs ?rest l1 Q"
      by (auto simp: simple_escape_def runs_lif isdigit_def)
  next
    case 2
    then have i: "inp (v\<lparr>inp := q @ k # ks\<rparr>) = 10 # k # ks" by simp
    note s = sees_current [OF l1 i] sees_newline [OF l1 i]
    have "runs (save 10) l1 (\<lambda>_ s. runs inclinenumber s Q)"
    proof (rule save_runs [OF l1])
      fix l2 assume "sees g h (v\<lparr>inp := q @ k # ks, out := out (v\<lparr>inp := q @ k # ks\<rparr>) @ [word_of_int 10]\<rparr>) l2"
      then show "runs inclinenumber l2 Q"
        by (rule inclinenumber_runs) (use assms(4,5,7,8) 2 in auto)
    qed (use assms(6) in simp)
    with s show "case simple_escape (current l1) of Some c \<Rightarrow> runs (lseq (save c) lnext) l1 Q | None \<Rightarrow> runs ?rest l1 Q"
      by (simp add: simple_escape_def runs_lif)
  next
    case 3
    then have i: "inp (v\<lparr>inp := q @ k # ks\<rparr>) = 114 # k # ks" by simp
    have "runs (save 13) l1 (\<lambda>_ s. runs lnext s Q)"
    proof (rule save_runs [OF l1])
      fix l2 assume "sees g h (v\<lparr>inp := q @ k # ks, out := out (v\<lparr>inp := q @ k # ks\<rparr>) @ [word_of_int 13]\<rparr>) l2"
      then show "runs lnext l2 Q"
        by (rule lnext_runs) (use assms(8) 3 in auto)
    qed (use assms(6) in simp)
    with sees_current [OF l1 i]
    show "case simple_escape (current l1) of Some c \<Rightarrow> runs (lseq (save c) lnext) l1 Q | None \<Rightarrow> runs ?rest l1 Q"
      by (simp add: simple_escape_def)
  next
    case 4
    then have i: "inp (v\<lparr>inp := q @ k # ks\<rparr>) = 48 # 48 # 48 # k # ks" by simp
    note s = sees_current [OF l1 i] sees_newline [OF l1 i] sees_cur [OF l1 i]
    have "runs (escape_digits 3 0) l1 (\<lambda>d s. d = 0 \<and> sees g h (v\<lparr>inp := k # ks\<rparr>) s)"
      unfolding numeral_3_eq_3
    proof (rule escape_digit_runs [OF l1 i])
      fix l2 assume l2: "sees g h (v\<lparr>inp := q @ k # ks, inp := 48 # 48 # k # ks\<rparr>) l2"
      have "runs (escape_digits (Suc (Suc 0)) 0) l2 (\<lambda>d s. d = 0 \<and> sees g h (v\<lparr>inp := k # ks\<rparr>) s)"
      proof (rule escape_digit_runs [OF l2])
        fix l3 assume l3: "sees g h (v\<lparr>inp := q @ k # ks, inp := 48 # 48 # k # ks, inp := 48 # k # ks\<rparr>) l3"
        have "runs (escape_digits (Suc 0) 0) l3 (\<lambda>d s. d = 0 \<and> sees g h (v\<lparr>inp := k # ks\<rparr>) s)"
          by (rule escape_digit_runs [OF l3, where c = k and cs = ks]) simp_all
        then show "runs (if isdigit (unat (48 :: byte)) then escape_digits (Suc 0) 0 else lret 0) l3
            (\<lambda>d s. d = 0 \<and> sees g h (v\<lparr>inp := k # ks\<rparr>) s)" by (simp add: isdigit_def del: escape_digits.simps)
      qed simp
      then show "runs (if isdigit (unat (48 :: byte)) then escape_digits (Suc (Suc 0)) 0 else lret 0) l2
            (\<lambda>d s. d = 0 \<and> sees g h (v\<lparr>inp := k # ks\<rparr>) s)" by (simp add: isdigit_def del: escape_digits.simps)
    qed
    then have "runs (lbind (escape_digits 3 0) (\<lambda>c.
           if c > UCHAR_MAX then luaX_lexerror ''escape sequence too large'' (tk TK_STRING) else save c)) l1 Q"
      unfolding runs_lbind
    proof (rule runs_mono)
      fix d :: int and l2 assume d: "d = 0 \<and> sees g h (v\<lparr>inp := k # ks\<rparr>) l2"
      then have "runs (save 0) l2 Q"
        by (intro save_runs [OF conjunct2 [OF d]]) (use assms(6,8) 4 in \<open>auto simp: view_comm\<close>)
      with d show "runs (if d > UCHAR_MAX then luaX_lexerror ''escape sequence too large'' (tk TK_STRING) else save d) l2 Q"
        by (simp add: UCHAR_MAX_def)
    qed
    with s show "case simple_escape (current l1) of Some c \<Rightarrow> runs (lseq (save c) lnext) l1 Q | None \<Rightarrow> runs ?rest l1 Q"
      by (simp add: simple_escape_def runs_lif isdigit_def)
  qed
qed

section \<open>The literal\<close>

definition quoted :: "char \<Rightarrow> byte list" where "quoted c = bytes (quote_char c)"

lemma unat_of_char: "unat (of_char c :: byte) = of_char c"
proof -
  have "(of_char c :: byte) = of_nat (of_char c)" by (simp add: of_nat_of_char)
  then show ?thesis by (simp add: unat_of_nat_eq)
qed

lemma byte_of_char_inject: "of_char c = (of_char d :: byte) \<longleftrightarrow> c = d"
proof
  assume "of_char c = (of_char d :: byte)"
  then have "(of_char c :: nat) = of_char d" using unat_of_char by metis
  then show "c = d" by simp
qed simp

lemma byte_chars:
  "of_char c = (34 :: byte) \<longleftrightarrow> c = CHR 0x22" "of_char c = (92 :: byte) \<longleftrightarrow> c = CHR 0x5C"
  "of_char c = (10 :: byte) \<longleftrightarrow> c = CHR 0x0A" "of_char c = (13 :: byte) \<longleftrightarrow> c = CHR 0x0D"
  "of_char c = (0 :: byte) \<longleftrightarrow> c = CHR 0x00"
proof -
  have "of_char (CHR 0x22) = (34 :: byte)" "of_char (CHR 0x5C) = (92 :: byte)" "of_char (CHR 0x0A) = (10 :: byte)"
    "of_char (CHR 0x0D) = (13 :: byte)" "of_char (CHR 0x00) = (0 :: byte)" by code_simp+
  then show "of_char c = (34 :: byte) \<longleftrightarrow> c = CHR 0x22" "of_char c = (92 :: byte) \<longleftrightarrow> c = CHR 0x5C"
    "of_char c = (10 :: byte) \<longleftrightarrow> c = CHR 0x0A" "of_char c = (13 :: byte) \<longleftrightarrow> c = CHR 0x0D"
    "of_char c = (0 :: byte) \<longleftrightarrow> c = CHR 0x00"
    using byte_of_char_inject by metis+
qed

lemma quoted_cases:
  obtains q where "quoted c = 92 # q" "escaped (of_char c) q"
    | "quoted c = [of_char c]" "of_char c \<notin> {34, 92, 10, 13, 0 :: byte}"
proof -
  consider "c \<in> {CHR 0x22, CHR 0x5C, CHR 0x0A}" | "c = CHR 0x0D" | "c = CHR 0x00"
    | "c \<notin> {CHR 0x22, CHR 0x5C, CHR 0x0A, CHR 0x0D, CHR 0x00}" by blast
  then show thesis
  proof cases
    case 4
    then show thesis by (intro that(2)) (simp_all add: quoted_def bytes_def quote_char_def byte_chars)
  next
    case 1
    then show thesis by (intro that(1) [of "[of_char c]"]) (auto simp: quoted_def bytes_def quote_char_def escaped_def byte_chars)
  qed (auto intro!: that(1) simp: quoted_def bytes_def quote_char_def escaped_def)
qed

lemma quoted_not_delimiter: "hd (quoted c) \<noteq> 34"
  by (cases rule: quoted_cases [of c]) auto

lemma read_string_step_runs:
  assumes "sees g h v ls" "inp v = quoted c @ k # ks" "k \<noteq> 10" "k \<noteq> 13"
    and "small (length (out v))" "line v + 1 < MAX_INT"
    and "\<And>ls'. sees g h (v\<lparr>out := out v @ [of_char c], inp := k # ks,
        line := line v + (if c = CHR 0x0A then 1 else 0)\<rparr>) ls' \<Longrightarrow> Q () ls'"
  shows "runs read_string_step ls Q"
proof -
  have n: "c = CHR 0x0A \<longleftrightarrow> of_char c = (10 :: byte)" by (simp add: byte_chars)
  show ?thesis
  proof (cases rule: quoted_cases [of c])
    case (1 q)
    then have i: "inp v = 92 # q @ k # ks" using assms(2) by simp
    note s = sees_current [OF assms(1) i] sees_newline [OF assms(1) i] sees_cur [OF assms(1) i]
    have "runs read_escape ls Q"
      by (rule read_escape_runs [OF assms(1) i 1(2) assms(3-6)]) (use assms(7) n in simp)
    with s show ?thesis by (simp add: read_string_step_def runs_lif)
  next
    case 2
    then have i: "inp v = of_char c # k # ks" using assms(2) by simp
    note s = sees_current [OF assms(1) i] sees_newline [OF assms(1) i] sees_cur [OF assms(1) i]
    have "runs save_and_next ls Q"
      by (rule save_and_next_runs [OF assms(1) i assms(5)]) (use assms(7) n 2(2) in simp)
    with s 2(2) show ?thesis by (simp add: read_string_step_def runs_lif)
  qed
qed

text \<open>What follows a character of the literal does not begin with the end of a line.\<close>

lemma quoted_follows:
  obtains k ks where "concat (map quoted s) @ 34 # rest = k # ks" "k \<noteq> 10" "k \<noteq> 13"
proof (cases s)
  case Nil
  then show thesis by (intro that [of 34 rest]) simp_all
next
  case (Cons c s')
  show thesis
    by (cases rule: quoted_cases [of c]) (use Cons that in auto)
qed

lemma sees_left: "sees g h v ls \<Longrightarrow> lex_left ls = length (inp v)"
proof -
  assume "sees g h v ls"
  then have "inp v = inp_of ls" by (simp add: sees_def)
  then show ?thesis by (simp add: lex_left_def inp_of_def)
qed

lemma quoted_loop_runs:
  assumes "sees g h v ls" "inp v = concat (map quoted s) @ 34 # rest"
    and "small (length (out v) + length s)" "line v + int (length s) < MAX_INT" "length (inp v) < n"
    and "\<And>ls' m. sees g h \<lparr>out = out v @ bytes s, inp = 34 # rest, line = m\<rparr> ls' \<Longrightarrow> Q () ls'"
  shows "runs (while_act LexStuck n (\<lambda>ls. current ls \<noteq> 34) read_string_step) ls Q"
  using assms
proof (induction s arbitrary: v ls n)
  case Nil
  obtain n' where n: "n = Suc n'" using Nil.prems(5) by (cases n) auto
  have "current ls = 34" using sees_current(1) [OF Nil.prems(1), of 34 rest] Nil.prems(2) by simp
  moreover have "Q () ls"
  proof (rule Nil.prems(6) [of "line v"])
    have "\<lparr>out = out v @ bytes [], inp = 34 # rest, line = line v\<rparr> = v"
      using Nil.prems(2) by (simp add: bytes_def)
    then show "sees g h \<lparr>out = out v @ bytes [], inp = 34 # rest, line = line v\<rparr> ls"
      using Nil.prems(1) by (rule ssubst)
  qed
  ultimately show ?case by (simp add: n runs_lif)
next
  case (Cons c s)
  obtain n' where n: "n = Suc n'" using Cons.prems(5) by (cases n) auto
  obtain k ks where k: "concat (map quoted s) @ 34 # rest = k # ks" "k \<noteq> 10" "k \<noteq> 13" by (rule quoted_follows)
  have i: "inp v = quoted c @ k # ks" using Cons.prems(2) k(1) by simp
  obtain b bs where b: "quoted c = b # bs" "b \<noteq> 34" by (cases rule: quoted_cases [of c]) auto
  have "uint b \<noteq> (34 :: int)" using b(2) word_uint_eq_iff [of b 34] by simp
  then have c: "current ls \<noteq> 34" using sees_current(1) [OF Cons.prems(1), of b "bs @ k # ks"] i b(1) by simp
  have "runs read_string_step ls (\<lambda>_ s. runs (while_act LexStuck n' (\<lambda>ls. current ls \<noteq> 34) read_string_step) s Q)"
  proof (rule read_string_step_runs [OF Cons.prems(1) i k(2,3)])
    fix l1 assume l1: "sees g h (v\<lparr>out := out v @ [of_char c], inp := k # ks,
        line := line v + (if c = CHR 0x0A then 1 else 0)\<rparr>) l1"
    show "runs (while_act LexStuck n' (\<lambda>ls. current ls \<noteq> 34) read_string_step) l1 Q"
    proof (rule Cons.IH [OF l1])
      show "inp (v\<lparr>out := out v @ [of_char c], inp := k # ks, line := line v + (if c = CHR 0x0A then 1 else 0)\<rparr>)
          = concat (map quoted s) @ 34 # rest" using k(1) by simp
    next
      fix ls' m assume "sees g h \<lparr>out = out (v\<lparr>out := out v @ [of_char c], inp := k # ks,
          line := line v + (if c = CHR 0x0A then 1 else 0)\<rparr>) @ bytes s, inp = 34 # rest, line = m\<rparr> ls'"
      then show "Q () ls'" by (intro Cons.prems(6) [of m]) (simp add: bytes_def)
    qed (use Cons.prems(3-5) i b n in \<open>auto simp: small_def\<close>)
  qed (use Cons.prems(3,4) in \<open>auto simp: small_def\<close>)
  then show ?case using c by (simp add: n runs_lif)
qed

text \<open>
  C33: the lexer reads back every string that the \<open>%q\<close> format of \<open>string.format\<close> writes: on the
  text of \<open>addquoted\<close> \<open>read_string\<close> interns exactly the bytes of the string, also zero bytes, quotes,
  backslashes and line ends, and reads up to the closing quote and no further.
\<close>

theorem quoted_string_reads_back:
  assumes "lok ls" "bn (buff ls) = 0" "buffsize (buff ls) < MAX_SIZET div 2"
    and "inp_of ls = bytes (addquoted [] s) @ rest"
    and "length s + 2 < MAX_SIZET div 4" "linenumber ls + int (length s) < MAX_INT"
  shows "\<exists>ls'. read_string E 34 ls = luaX_newstring E (bytes s) ls' \<and> lok ls' \<and> inp_of ls' = rest
    \<and> lstrings ls' = lstrings ls \<and> fs_h ls' = fs_h ls"
proof -
  let ?g = "lstrings ls" and ?h = "fs_h ls" and ?q = "concat (map quoted s)"
  have i: "inp_of ls = 34 # ?q @ 34 # rest"
    using assms(4) by (simp add: addquoted_def bytes_def quoted_def [abs_def] map_concat comp_def)
  define v where "v = \<lparr>out = [], inp = 34 # ?q @ 34 # rest, line = linenumber ls\<rparr>"
  have "sees ?g ?h v ls" using assms(1-3) i by (simp add: sees_def v_def)
  then have "runs save_and_next ls (\<lambda>_ s1. runs (lwhile (\<lambda>ls. current ls \<noteq> 34) read_string_step) s1
      (\<lambda>_ s2. runs save_and_next s2 (\<lambda>_ s3. \<exists>m. sees ?g ?h \<lparr>out = 34 # bytes s @ [34], inp = rest, line = m\<rparr> s3)))"
  proof (rule save_and_next_runs [where c = 34 and cs = "?q @ 34 # rest"])
    fix l1 assume l1: "sees ?g ?h (v\<lparr>out := out v @ [34], inp := ?q @ 34 # rest\<rparr>) l1"
    have "runs (while_act LexStuck (Suc (lex_left l1)) (\<lambda>ls. current ls \<noteq> 34) read_string_step) l1
      (\<lambda>_ s2. runs save_and_next s2 (\<lambda>_ s3. \<exists>m. sees ?g ?h \<lparr>out = 34 # bytes s @ [34], inp = rest, line = m\<rparr> s3))"
    proof (rule quoted_loop_runs [OF l1])
      fix l2 m assume l2: "sees ?g ?h \<lparr>out = out (v\<lparr>out := out v @ [34], inp := ?q @ 34 # rest\<rparr>) @ bytes s,
          inp = 34 # rest, line = m\<rparr> l2"
      show "runs save_and_next l2 (\<lambda>_ s3. \<exists>m. sees ?g ?h \<lparr>out = 34 # bytes s @ [34], inp = rest, line = m\<rparr> s3)"
        by (rule save_and_next_runs [OF l2, of 34 rest])
          (use assms(5) in \<open>auto simp: v_def small_def bytes_def\<close>)
    qed (use assms(5,6) sees_left [OF l1] in \<open>auto simp: v_def small_def\<close>)
    then show "runs (lwhile (\<lambda>ls. current ls \<noteq> 34) read_string_step) l1
      (\<lambda>_ s2. runs save_and_next s2 (\<lambda>_ s3. \<exists>m. sees ?g ?h \<lparr>out = 34 # bytes s @ [34], inp = rest, line = m\<rparr> s3))"
      by (simp only: lwhile_def runs_def)
  qed (use assms(5) in \<open>auto simp: v_def small_def\<close>)
  then obtain l1 l2 l3 m where r: "save_and_next ls = Inr ((), l1)"
    "lwhile (\<lambda>ls. current ls \<noteq> 34) read_string_step l1 = Inr ((), l2)" "save_and_next l2 = Inr ((), l3)"
    and l3: "sees ?g ?h \<lparr>out = 34 # bytes s @ [34], inp = rest, line = m\<rparr> l3"
    by (auto simp: runs_def)
  have "length (bytes s) = length s" by (simp add: bytes_def)
  then have n: "bn (buff l3) = length s + 2" using sees_out_length [OF l3] by simp
  then have "take (length s + 2) (buffer (buff l3)) = 34 # bytes s @ [34]" using l3 by (simp add: sees_def)
  then have "drop 1 (take (length s + 2) (buffer (buff l3))) = bytes s @ [34]" by simp
  then have "take (length s) (take (length s + 1) (drop 1 (buffer (buff l3)))) = take (length s) (bytes s @ [34])"
    by (simp add: drop_take)
  then have "take (length s) (drop 1 (buffer (buff l3))) = bytes s"
    using \<open>length (bytes s) = length s\<close> by (simp add: min_def)
  then have "read_string E 34 ls = luaX_newstring E (bytes s) l3"
    using r n by (simp add: read_string_def lseq_def lbind_def buff_slice_def)
  with l3 show ?thesis by (intro exI [of _ l3]) (simp add: sees_def)
qed

text \<open>The state after the first character of a text has been read.\<close>

definition reading :: "byte list \<Rightarrow> LexState" where
  "reading b = sample_lex\<lparr>current := uint (hd b), lzio := \<lparr>zn = word_of_nat (length (tl b)), zp = tl b, zdata = []\<rparr>,
     buff := \<lparr>buffer = replicate 32 0, bn = 0, buffsize = 32\<rparr>\<rparr>"

lemma reading_ok:
  assumes "b \<noteq> []" "length b < 2 ^ 64"
  shows "lok (reading b)" "bn (buff (reading b)) = 0" "buffsize (buff (reading b)) < MAX_SIZET div 2"
    "inp_of (reading b) = b" "linenumber (reading b) = 1"
proof -
  have "uint (hd b) < 256" using unsigned_less [of "hd b", where ?'a = int] by simp
  moreover have "unat (word_of_nat (length (tl b)) :: u64) = length (tl b)" using assms(2) by (intro len64) simp
  ultimately show "lok (reading b)" "bn (buff (reading b)) = 0" "buffsize (buff (reading b)) < MAX_SIZET div 2"
    "linenumber (reading b) = 1"
    using assms(2) by (auto simp: reading_def sample_lex_def lok_def mbuf_ok_def zio_ok_def MAX_SIZET_def)
  show "inp_of (reading b) = b"
    using assms(1) uint_not_EOZ by (simp add: reading_def sample_lex_def inp_of_def pending_def)
qed

theorem quoted_string_reads_back_witness:
  "\<exists>ls'. read_string lexer_env 34 (reading (bytes (addquoted [] [CHR 0x22, NUL, CHR 0x0A]) @ [59]))
      = luaX_newstring lexer_env (bytes [CHR 0x22, NUL, CHR 0x0A]) ls'
    \<and> lok ls' \<and> inp_of ls' = [59]
    \<and> lstrings ls' = lstrings (reading (bytes (addquoted [] [CHR 0x22, NUL, CHR 0x0A]) @ [59]))
    \<and> fs_h ls' = fs_h (reading (bytes (addquoted [] [CHR 0x22, NUL, CHR 0x0A]) @ [59]))"
proof -
  let ?b = "bytes (addquoted [] [CHR 0x22, NUL, CHR 0x0A]) @ [59]"
  have b: "?b \<noteq> []" "length ?b < 2 ^ 64" by (simp_all add: bytes_def addquoted_def quote_char_def)
  show ?thesis
    by (rule quoted_string_reads_back) (use reading_ok [OF b] in \<open>simp_all add: MAX_SIZET_def MAX_INT_def INT_MAX_def\<close>)
qed

section \<open>A zero byte after a dot\<close>


lemma check_next_runs:
  assumes "sees g h v ls" "inp v = c # cs" "small (length (out v))"
    and "\<And>ls'. c \<in> set (bytes s) \<or> c = 0 \<Longrightarrow> sees g h (v\<lparr>out := out v @ [c], inp := cs\<rparr>) ls' \<Longrightarrow> Q True ls'"
    and "\<not> (c \<in> set (bytes s) \<or> c = 0) \<Longrightarrow> Q False ls"
  shows "runs (check_next s) ls Q"
proof -
  note u = sees_current(1) [OF assms(1,2)]
  have k: "uint c = of_char k \<longleftrightarrow> c = of_char k" for k
    using sees_cur(1) [OF assms(1,2), of k] u by (simp add: cur_def)
  have "uint c < 256" using unsigned_less [of c, where ?'a = int] by simp
  then have m: "current ls mod 256 = uint c" using u by simp
  have b: "current ls mod 256 \<in> set (map of_char (s @ [NUL])) \<longleftrightarrow> c \<in> set (bytes s) \<or> c = 0"
    unfolding m using k uint_0_iff [of c] by (auto simp: bytes_def)
  show ?thesis
  proof (cases "c \<in> set (bytes s) \<or> c = 0")
    case True
    have "runs save_and_next ls (\<lambda>_ s. Q True s)"
      by (rule save_and_next_runs [OF assms(1-3)]) (use assms(4) True in blast)
    with True b show ?thesis by (simp add: check_next_def runs_lif runs_lseq del: set_map set_append)
  next
    case False
    with b assms(5) show ?thesis by (simp add: check_next_def runs_lif del: set_map set_append)
  qed
qed

text \<open>
  C35: \<open>check_next\<close> looks for the current character with \<open>strchr\<close>, which finds the terminator of the
  set, so that a zero byte after a dot is read as a second dot: \<open>a.\<close> and a zero byte is the start
  of a concatenation instead of an error.
\<close>

theorem nul_reads_as_dot:
  assumes "lok ls" "bn (buff ls) = 0" "buffsize (buff ls) < MAX_SIZET div 2"
    and "inp_of ls = 46 # 0 # c # cs" "c \<noteq> 46" "c \<noteq> 0"
  shows "\<exists>ls'. lex_dots E ls = Inr ((tk TK_CONCAT, None), ls') \<and> inp_of ls' = c # cs"
proof -
  let ?g = "lstrings ls" and ?h = "fs_h ls" and ?dot = "bytes ''.''"
  define v where "v = \<lparr>out = [], inp = 46 # 0 # c # cs, line = linenumber ls\<rparr>"
  have v: "sees ?g ?h v ls" using assms(1-4) by (simp add: sees_def v_def)
  have d: "set (bytes ''.'') = {46}" by (simp add: bytes_def)
  define R where "R = (\<lambda>r s. r = (tk TK_CONCAT, None :: SemInfo option) \<and> inp_of s = c # cs)"
  have 3: "runs (check_next ''.'') l2 (\<lambda>d s. runs (tok_reserved (if d then TK_DOTS else TK_CONCAT)) s R)"
    if l2: "sees ?g ?h \<lparr>out = [46, 0], inp = c # cs, line = linenumber ls\<rparr> l2" for l2
  proof (rule check_next_runs [OF l2, of c cs])
    have "inp_of l2 = c # cs" using l2 by (simp add: sees_def)
    then show "runs (tok_reserved (if False then TK_DOTS else TK_CONCAT)) l2 R"
      by (simp add: runs_def tok_reserved_def R_def)
  qed (use assms(5,6) d in \<open>simp_all add: small_def MAX_SIZET_def\<close>)
  have 2: "runs (check_next ''.'') l1 (\<lambda>d s. runs (if d then lbind (check_next ''.'')
        (\<lambda>d. tok_reserved (if d then TK_DOTS else TK_CONCAT))
        else lif (\<lambda>ls. \<not> cur_in isdigit ls) (tok_char CHR ''.'') (lex_number E)) s R)"
    if l1: "sees ?g ?h \<lparr>out = [46], inp = 0 # c # cs, line = linenumber ls\<rparr> l1" for l1
    by (rule check_next_runs [OF l1, of 0 "c # cs"]) (use 3 in \<open>simp_all add: runs_lbind small_def MAX_SIZET_def\<close>)
  have "runs (lex_dots E) ls R"
    unfolding lex_dots_def runs_lseq runs_lbind
    by (rule save_and_next_runs [OF v, of 46 "0 # c # cs"]) (use 2 in \<open>simp_all add: v_def small_def MAX_SIZET_def\<close>)
  then show ?thesis by (auto simp: runs_def R_def)
qed

theorem nul_reads_as_dot_witness:
  "\<exists>ls'. lex_dots lexer_env (reading [46, 0, 65]) = Inr ((tk TK_CONCAT, None), ls') \<and> inp_of ls' = [65]"
  by (rule nul_reads_as_dot) (use reading_ok [of "[46, 0, 65]"] in simp_all)

end
