(* ===== verification/Code.thy ===== *)
theory Code
  imports Actions Opcodes Tables
begin

text \<open>
  The code generator (\<open>lcode.c\<close>, \<open>lcode.h\<close>, and the descriptors of \<open>lparser.h\<close>). Its functions are
  actions on the state \<open>FuncState\<close> of the function that is compiled; a descriptor of an expression,
  which the code changes through a pointer, is an argument and a result. The arithmetic of doubles
  (for the folding of constants) and the hash of a string are parameters.
\<close>

section \<open>Data\<close>

datatype expkind =
    VVOID | VNIL | VTRUE | VFALSE | VK | VKNUM | VLOCAL | VUPVAL | VGLOBAL
  | VINDEXED | VJMP | VRELOCABLE | VNONRELOC | VCALL | VVARARG

text \<open>The members of the union \<open>u\<close> are separate fields: no one is read after another was written.\<close>

record expdesc =
  ek :: expkind
  einfo :: int
  eaux :: int
  enval :: lua_Number
  et :: int
  ef :: int

text \<open>
  The first \<open>pc\<close> entries of \<open>f->code\<close> and of \<open>f->lineinfo\<close>, the first \<open>nk\<close> of \<open>f->k\<close>; \<open>fs_ktab\<close> is
  the table \<open>h\<close> of constants, \<open>fs_lastline\<close> is \<open>ls->lastline\<close>.
\<close>

record FuncState =
  fs_code :: "Instruction list"
  fs_lineinfo :: "int list"
  fs_k :: "TValue list"
  fs_maxstack :: int
  fs_ktab :: Table
  fs_lasttarget :: int
  fs_jpc :: int
  fs_freereg :: int
  fs_nactvar :: int
  fs_lastline :: int

text \<open>The address of the table \<open>h\<close>, the hashes of the strings, and the operations on doubles.\<close>

record code_env =
  h_address :: ptr
  khash :: "ptr \<Rightarrow> u32"
  numadd :: "lua_Number \<Rightarrow> lua_Number \<Rightarrow> lua_Number"
  numsub :: "lua_Number \<Rightarrow> lua_Number \<Rightarrow> lua_Number"
  nummul :: "lua_Number \<Rightarrow> lua_Number \<Rightarrow> lua_Number"
  numdiv :: "lua_Number \<Rightarrow> lua_Number \<Rightarrow> lua_Number"
  nummod :: "lua_Number \<Rightarrow> lua_Number \<Rightarrow> lua_Number"
  numpow :: "lua_Number \<Rightarrow> lua_Number \<Rightarrow> lua_Number"
  numunm :: "lua_Number \<Rightarrow> lua_Number"

datatype code_error = CodeSyntax string | CodeRun string | CodeTable terror | CodeDiverge

type_synonym 'a codegen = "(FuncState, code_error, 'a) action"

datatype BinOpr =
    OPR_ADD | OPR_SUB | OPR_MUL | OPR_DIV | OPR_MOD | OPR_POW | OPR_CONCAT | OPR_NE | OPR_EQ
  | OPR_LT | OPR_LE | OPR_GT | OPR_GE | OPR_AND | OPR_OR | OPR_NOBINOPR

datatype UnOpr = OPR_MINUS | OPR_NOT | OPR_LEN | OPR_NOUNOPR

definition NO_JUMP :: int where "NO_JUMP = -1"
definition CODE_MAXSTACK :: int where "CODE_MAXSTACK = 250"
definition CODE_MULTRET :: int where "CODE_MULTRET = -1"

definition pc :: "FuncState \<Rightarrow> int" where "pc fs = int (length (fs_code fs))"

definition code_at :: "FuncState \<Rightarrow> int \<Rightarrow> Instruction" where "code_at fs p = fs_code fs ! nat p"

definition set_code :: "int \<Rightarrow> Instruction \<Rightarrow> FuncState \<Rightarrow> FuncState" where
  "set_code p i fs = fs\<lparr>fs_code := (fs_code fs)[nat p := i]\<rparr>"

definition getcode :: "FuncState \<Rightarrow> expdesc \<Rightarrow> Instruction" where
  "getcode fs e = code_at fs (einfo e)"

text \<open>An assignment to the instruction of an expression.\<close>

definition set_getcode :: "expdesc \<Rightarrow> (Instruction \<Rightarrow> Instruction) \<Rightarrow> unit codegen" where
  "set_getcode e f = lmodify (\<lambda>fs. set_code (einfo e) (f (getcode fs e)) fs)"

definition hasjumps :: "expdesc \<Rightarrow> bool" where "hasjumps e \<longleftrightarrow> et e \<noteq> ef e"

definition isnumeral :: "expdesc \<Rightarrow> bool" where
  "isnumeral e \<longleftrightarrow> ek e = VKNUM \<and> et e = NO_JUMP \<and> ef e = NO_JUMP"

definition lgets :: "(FuncState \<Rightarrow> 'a) \<Rightarrow> 'a codegen" where "lgets f = (\<lambda>fs. Inr (f fs, fs))"

definition lthrow :: "code_error \<Rightarrow> 'a codegen" where "lthrow e = (\<lambda>fs. Inl e)"

section \<open>Jump lists\<close>

text \<open>The jumps of a list are chained through their own offsets; \<open>NO_JUMP\<close> ends the list.\<close>

definition fixjump :: "int \<Rightarrow> int \<Rightarrow> unit codegen" where
  "fixjump p dest =
    (let offset = dest - (p + 1) in
     if \<bar>offset\<bar> > MAXARG_sBx then lthrow (CodeSyntax ''control structure too long'')
     else lmodify (\<lambda>fs. set_code p (SETARG_sBx (code_at fs p) offset) fs))"

definition luaK_getlabel :: "int codegen" where
  "luaK_getlabel = lseq (lmodify (\<lambda>fs. fs\<lparr>fs_lasttarget := pc fs\<rparr>)) (lgets pc)"

definition getjump :: "FuncState \<Rightarrow> int \<Rightarrow> int" where
  "getjump fs p =
    (let offset = GETARG_sBx (code_at fs p) in if offset = NO_JUMP then NO_JUMP else p + 1 + offset)"

text \<open>The position of the instruction that controls a jump.\<close>

definition getjumpcontrol :: "FuncState \<Rightarrow> int \<Rightarrow> int" where
  "getjumpcontrol fs p =
    (if p \<ge> 1 \<and> testTMode (GET_OPCODE (code_at fs (p - 1))) then p - 1 else p)"

fun need_value_loop :: "nat \<Rightarrow> int \<Rightarrow> bool codegen" where
  "need_value_loop 0 list = lthrow CodeDiverge"
| "need_value_loop (Suc n) list =
     (if list = NO_JUMP then lret False
      else lbind (lgets (\<lambda>fs. (code_at fs (getjumpcontrol fs list), getjump fs list))) (\<lambda>(i, next).
        if GET_OPCODE i \<noteq> opnum OP_TESTSET then lret True else need_value_loop n next))"

definition jump_fuel :: "FuncState \<Rightarrow> nat" where "jump_fuel fs = length (fs_code fs) + 1"

definition need_value :: "int \<Rightarrow> bool codegen" where
  "need_value list = (\<lambda>fs. need_value_loop (jump_fuel fs) list fs)"

definition patchtestreg :: "int \<Rightarrow> int \<Rightarrow> bool codegen" where
  "patchtestreg list reg = (\<lambda>fs.
    let p = getjumpcontrol fs list; i = code_at fs p in
    if GET_OPCODE i \<noteq> opnum OP_TESTSET then Inr (False, fs)
    else if reg \<noteq> NO_REG \<and> reg \<noteq> GETARG_B i then Inr (True, set_code p (SETARG_A i reg) fs)
    else Inr (True, set_code p (CREATE_ABC (opnum OP_TEST) (GETARG_B i) 0 (GETARG_C i)) fs))"

fun removevalues_loop :: "nat \<Rightarrow> int \<Rightarrow> unit codegen" where
  "removevalues_loop 0 list = lthrow CodeDiverge"
| "removevalues_loop (Suc n) list =
     (if list = NO_JUMP then lret ()
      else lseq (patchtestreg list NO_REG)
        (lbind (lgets (\<lambda>fs. getjump fs list)) (removevalues_loop n)))"

definition removevalues :: "int \<Rightarrow> unit codegen" where
  "removevalues list = (\<lambda>fs. removevalues_loop (jump_fuel fs) list fs)"

fun patchlist_loop :: "nat \<Rightarrow> int \<Rightarrow> int \<Rightarrow> int \<Rightarrow> int \<Rightarrow> unit codegen" where
  "patchlist_loop 0 list vtarget reg dtarget = lthrow CodeDiverge"
| "patchlist_loop (Suc n) list vtarget reg dtarget =
     (if list = NO_JUMP then lret ()
      else lbind (lgets (\<lambda>fs. getjump fs list)) (\<lambda>next.
        lseq (lbind (patchtestreg list reg) (\<lambda>v. fixjump list (if v then vtarget else dtarget)))
          (patchlist_loop n next vtarget reg dtarget)))"

definition patchlistaux :: "int \<Rightarrow> int \<Rightarrow> int \<Rightarrow> int \<Rightarrow> unit codegen" where
  "patchlistaux list vtarget reg dtarget = (\<lambda>fs. patchlist_loop (jump_fuel fs) list vtarget reg dtarget fs)"

definition dischargejpc :: "unit codegen" where
  "dischargejpc =
    lseq (\<lambda>fs. patchlistaux (fs_jpc fs) (pc fs) NO_REG (pc fs) fs) (lmodify (\<lambda>fs. fs\<lparr>fs_jpc := NO_JUMP\<rparr>))"

text \<open>The search of the last element of the list.\<close>

fun last_jump :: "nat \<Rightarrow> int \<Rightarrow> int codegen" where
  "last_jump 0 list = lthrow CodeDiverge"
| "last_jump (Suc n) list = lbind (lgets (\<lambda>fs. getjump fs list)) (\<lambda>next.
     if next \<noteq> NO_JUMP then last_jump n next else lret list)"

text \<open>The result is the new value of \<open>*l1\<close>.\<close>

definition luaK_concat :: "int \<Rightarrow> int \<Rightarrow> int codegen" where
  "luaK_concat l1 l2 =
    (if l2 = NO_JUMP then lret l1
     else if l1 = NO_JUMP then lret l2
     else lbind (\<lambda>fs. last_jump (jump_fuel fs) l1 fs) (\<lambda>list. lseq (fixjump list l2) (lret l1)))"

definition luaK_patchtohere :: "int \<Rightarrow> unit codegen" where
  "luaK_patchtohere list =
    lseq luaK_getlabel
      (lbind (\<lambda>fs. luaK_concat (fs_jpc fs) list fs) (\<lambda>l. lmodify (\<lambda>fs. fs\<lparr>fs_jpc := l\<rparr>)))"

definition luaK_patchlist :: "int \<Rightarrow> int \<Rightarrow> unit codegen" where
  "luaK_patchlist list target =
    lif (\<lambda>fs. target = pc fs) (luaK_patchtohere list) (patchlistaux list target NO_REG target)"

section \<open>Instructions\<close>

text \<open>The arrays grow up to \<open>MAX_INT\<close> entries.\<close>

definition luaK_code :: "Instruction \<Rightarrow> int \<Rightarrow> int codegen" where
  "luaK_code i line =
    lseq dischargejpc
      (lif (\<lambda>fs. pc fs \<ge> MAX_INT) (lthrow (CodeRun ''code size overflow''))
        (\<lambda>fs. Inr (pc fs, fs\<lparr>fs_code := fs_code fs @ [i], fs_lineinfo := fs_lineinfo fs @ [line]\<rparr>)))"

definition luaK_codeABC :: "OpCode \<Rightarrow> int \<Rightarrow> int \<Rightarrow> int \<Rightarrow> int codegen" where
  "luaK_codeABC op a b c = (\<lambda>fs. luaK_code (CREATE_ABC (opnum op) a b c) (fs_lastline fs) fs)"

definition luaK_codeABx :: "OpCode \<Rightarrow> int \<Rightarrow> int \<Rightarrow> int codegen" where
  "luaK_codeABx op a bc = (\<lambda>fs. luaK_code (CREATE_ABx (opnum op) a bc) (fs_lastline fs) fs)"

definition luaK_codeAsBx :: "OpCode \<Rightarrow> int \<Rightarrow> int \<Rightarrow> int codegen" where
  "luaK_codeAsBx op a sbx = luaK_codeABx op a (sbx + MAXARG_sBx)"

definition luaK_fixline :: "int \<Rightarrow> unit codegen" where
  "luaK_fixline line = lmodify (\<lambda>fs. fs\<lparr>fs_lineinfo := (fs_lineinfo fs)[nat (pc fs - 1) := line]\<rparr>)"

definition emit :: "int codegen \<Rightarrow> unit codegen" where "emit m = lseq m (lret ())"

definition luaK_nil :: "int \<Rightarrow> int \<Rightarrow> unit codegen" where
  "luaK_nil from n = (\<lambda>fs.
    let load = emit (luaK_codeABC OP_LOADNIL from (from + n - 1) 0) in
    if pc fs > fs_lasttarget fs then
      (if pc fs = 0 then (if from \<ge> fs_nactvar fs then Inr ((), fs) else load fs)
       else
         let previous = code_at fs (pc fs - 1);
             pfrom = GETARG_A previous; pto = GETARG_B previous in
         if GET_OPCODE previous = opnum OP_LOADNIL \<and> pfrom \<le> from \<and> from \<le> pto + 1
         then Inr ((), if from + n - 1 > pto
                       then set_code (pc fs - 1) (SETARG_B previous (from + n - 1)) fs else fs)
         else load fs)
    else load fs)"

definition luaK_jump :: "int codegen" where
  "luaK_jump =
    lbind (lgets fs_jpc) (\<lambda>jpc.
    lseq (lmodify (\<lambda>fs. fs\<lparr>fs_jpc := NO_JUMP\<rparr>))
    (lbind (luaK_codeAsBx OP_JMP 0 NO_JUMP) (\<lambda>j. luaK_concat j jpc)))"

definition luaK_ret :: "int \<Rightarrow> int \<Rightarrow> unit codegen" where
  "luaK_ret first nret = emit (luaK_codeABC OP_RETURN first (nret + 1) 0)"

definition condjump :: "OpCode \<Rightarrow> int \<Rightarrow> int \<Rightarrow> int \<Rightarrow> int codegen" where
  "condjump op a b c = lseq (luaK_codeABC op a b c) luaK_jump"

section \<open>Registers\<close>

definition luaK_checkstack :: "int \<Rightarrow> unit codegen" where
  "luaK_checkstack n = (\<lambda>fs.
    let newstack = fs_freereg fs + n in
    if newstack > fs_maxstack fs then
      (if newstack \<ge> CODE_MAXSTACK then Inl (CodeSyntax ''function or expression too complex'')
       else Inr ((), fs\<lparr>fs_maxstack := newstack\<rparr>))
    else Inr ((), fs))"

definition luaK_reserveregs :: "int \<Rightarrow> unit codegen" where
  "luaK_reserveregs n = lseq (luaK_checkstack n) (lmodify (\<lambda>fs. fs\<lparr>fs_freereg := fs_freereg fs + n\<rparr>))"

definition freereg :: "int \<Rightarrow> unit codegen" where
  "freereg reg = lif (\<lambda>fs. \<not> ISK reg \<and> reg \<ge> fs_nactvar fs)
     (lmodify (\<lambda>fs. fs\<lparr>fs_freereg := fs_freereg fs - 1\<rparr>)) (lret ())"

definition freeexp :: "expdesc \<Rightarrow> unit codegen" where
  "freeexp e = (if ek e = VNONRELOC then freereg (einfo e) else lret ())"

section \<open>Constants\<close>

definition addk :: "code_env \<Rightarrow> TValue \<Rightarrow> TValue \<Rightarrow> int codegen" where
  "addk E k v = (\<lambda>fs. case luaH_set (khash E) (fs_ktab fs) k of
     Inl e \<Rightarrow> Inl (CodeTable e)
   | Inr (t, idx) \<Rightarrow>
       (case tv_read t idx of
          LNumber n \<Rightarrow> Inr (lua_number2int n, fs\<lparr>fs_ktab := t\<rparr>)
        | _ \<Rightarrow>
            let nk = int (length (fs_k fs)); t = tv_write t idx (LNumber (cast_num nk)) in
            if nk \<ge> MAXARG_Bx then Inl (CodeRun ''constant table overflow'')
            else Inr (nk, fs\<lparr>fs_ktab := t, fs_k := fs_k fs @ [v]\<rparr>)))"

definition luaK_stringK :: "code_env \<Rightarrow> ptr \<Rightarrow> int codegen" where
  "luaK_stringK E s = addk E (LString s) (LString s)"

definition luaK_numberK :: "code_env \<Rightarrow> lua_Number \<Rightarrow> int codegen" where
  "luaK_numberK E r = addk E (LNumber r) (LNumber r)"

definition boolK :: "code_env \<Rightarrow> bool \<Rightarrow> int codegen" where
  "boolK E b = addk E (LBoolean b) (LBoolean b)"

text \<open>The table itself stands for the key nil.\<close>

definition nilK :: "code_env \<Rightarrow> int codegen" where
  "nilK E = addk E (LTable (h_address E)) LNil"

end
