(* ===== verification/Code_Exp.thy ===== *)
theory Code_Exp
  imports Code "HOL-Library.Signed_Division"
begin

text \<open>
  The code generator: expressions, operators and constructors (the second half of \<open>lcode.c\<close>).
\<close>

section \<open>Values\<close>

text \<open>
  The functions return the descriptor that they change. \<open>luaK_setreturns\<close> of an open call or of
  \<open>...\<close> leaves the descriptor as it is.
\<close>

definition luaK_setreturns :: "expdesc \<Rightarrow> int \<Rightarrow> unit codegen" where
  "luaK_setreturns e nresults =
    (if ek e = VCALL then set_getcode e (\<lambda>i. SETARG_C i (nresults + 1))
     else if ek e = VVARARG then
       lseq (set_getcode e (\<lambda>i. SETARG_B i (nresults + 1)))
         (lseq (\<lambda>fs. set_getcode e (\<lambda>i. SETARG_A i (fs_freereg fs)) fs) (luaK_reserveregs 1))
     else lret ())"

definition luaK_setoneret :: "expdesc \<Rightarrow> expdesc codegen" where
  "luaK_setoneret e =
    (if ek e = VCALL then lgets (\<lambda>fs. e\<lparr>ek := VNONRELOC, einfo := GETARG_A (getcode fs e)\<rparr>)
     else if ek e = VVARARG then
       lseq (set_getcode e (\<lambda>i. SETARG_B i 2)) (lret (e\<lparr>ek := VRELOCABLE\<rparr>))
     else lret e)"

definition relocable :: "expdesc \<Rightarrow> int codegen \<Rightarrow> expdesc codegen" where
  "relocable e m = lbind m (\<lambda>info. lret (e\<lparr>einfo := info, ek := VRELOCABLE\<rparr>))"

definition luaK_dischargevars :: "expdesc \<Rightarrow> expdesc codegen" where
  "luaK_dischargevars e = (case ek e of
     VLOCAL \<Rightarrow> lret (e\<lparr>ek := VNONRELOC\<rparr>)
   | VUPVAL \<Rightarrow> relocable e (luaK_codeABC OP_GETUPVAL 0 (einfo e) 0)
   | VGLOBAL \<Rightarrow> relocable e (luaK_codeABx OP_GETGLOBAL 0 (einfo e))
   | VINDEXED \<Rightarrow>
       lseq (freereg (eaux e)) (lseq (freereg (einfo e))
         (relocable e (luaK_codeABC OP_GETTABLE 0 (einfo e) (eaux e))))
   | VVARARG \<Rightarrow> luaK_setoneret e
   | VCALL \<Rightarrow> luaK_setoneret e
   | _ \<Rightarrow> lret e)"

definition code_label :: "int \<Rightarrow> int \<Rightarrow> int \<Rightarrow> int codegen" where
  "code_label a b jump = lseq luaK_getlabel (luaK_codeABC OP_LOADBOOL a b jump)"

text \<open>The switch of \<open>discharge2reg\<close>: \<^term>\<open>False\<close> if there is nothing to do.\<close>

definition load_value :: "code_env \<Rightarrow> expdesc \<Rightarrow> int \<Rightarrow> bool codegen" where
  "load_value E e reg = (case ek e of
     VNIL \<Rightarrow> lseq (luaK_nil reg 1) (lret True)
   | VFALSE \<Rightarrow> lseq (luaK_codeABC OP_LOADBOOL reg 0 0) (lret True)
   | VTRUE \<Rightarrow> lseq (luaK_codeABC OP_LOADBOOL reg 1 0) (lret True)
   | VK \<Rightarrow> lseq (luaK_codeABx OP_LOADK reg (einfo e)) (lret True)
   | VKNUM \<Rightarrow> lseq (lbind (luaK_numberK E (enval e)) (luaK_codeABx OP_LOADK reg)) (lret True)
   | VRELOCABLE \<Rightarrow> lseq (set_getcode e (\<lambda>i. SETARG_A i reg)) (lret True)
   | VNONRELOC \<Rightarrow>
       lseq (if reg \<noteq> einfo e then emit (luaK_codeABC OP_MOVE reg (einfo e) 0) else lret ()) (lret True)
   | _ \<Rightarrow> lret False)"

definition discharge2reg :: "code_env \<Rightarrow> expdesc \<Rightarrow> int \<Rightarrow> expdesc codegen" where
  "discharge2reg E e reg =
    lbind (luaK_dischargevars e) (\<lambda>e.
    lbind (load_value E e reg) (\<lambda>loaded.
      lret (if loaded then e\<lparr>einfo := reg, ek := VNONRELOC\<rparr> else e)))"

definition discharge2anyreg :: "code_env \<Rightarrow> expdesc \<Rightarrow> expdesc codegen" where
  "discharge2anyreg E e =
    (if ek e \<noteq> VNONRELOC then
       lseq (luaK_reserveregs 1) (\<lambda>fs. discharge2reg E e (fs_freereg fs - 1) fs)
     else lret e)"

text \<open>The loads of true and false for jumps that have no value: their positions.\<close>

definition load_labels :: "expdesc \<Rightarrow> int \<Rightarrow> (int \<times> int) codegen" where
  "load_labels e reg =
    lbind (lbind (need_value (et e)) (\<lambda>b. if b then lret True else need_value (ef e))) (\<lambda>need.
      if need then
        lbind (if ek e = VJMP then lret NO_JUMP else luaK_jump) (\<lambda>fj.
        lbind (code_label reg 0 1) (\<lambda>p_f.
        lbind (code_label reg 1 0) (\<lambda>p_t.
        lseq (luaK_patchtohere fj) (lret (p_f, p_t)))))
      else lret (NO_JUMP, NO_JUMP))"

definition exp2reg :: "code_env \<Rightarrow> expdesc \<Rightarrow> int \<Rightarrow> expdesc codegen" where
  "exp2reg E e reg =
    lbind (discharge2reg E e reg) (\<lambda>e.
    lbind (if ek e = VJMP then luaK_concat (et e) (einfo e) else lret (et e)) (\<lambda>t.
    let e = e\<lparr>et := t\<rparr> in
    lseq (if hasjumps e then
        lbind (load_labels e reg) (\<lambda>(p_f, p_t).
        lbind luaK_getlabel (\<lambda>final.
        lseq (patchlistaux (ef e) final reg p_f) (patchlistaux (et e) final reg p_t)))
      else lret ())
    (lret (e\<lparr>ef := NO_JUMP, et := NO_JUMP, einfo := reg, ek := VNONRELOC\<rparr>))))"

definition luaK_exp2nextreg :: "code_env \<Rightarrow> expdesc \<Rightarrow> expdesc codegen" where
  "luaK_exp2nextreg E e =
    lbind (luaK_dischargevars e) (\<lambda>e.
    lseq (freeexp e) (lseq (luaK_reserveregs 1) (\<lambda>fs. exp2reg E e (fs_freereg fs - 1) fs)))"

definition luaK_exp2anyreg :: "code_env \<Rightarrow> expdesc \<Rightarrow> expdesc codegen" where
  "luaK_exp2anyreg E e =
    lbind (luaK_dischargevars e) (\<lambda>e fs.
      if ek e = VNONRELOC \<and> \<not> hasjumps e then Inr (e, fs)
      else if ek e = VNONRELOC \<and> einfo e \<ge> fs_nactvar fs then exp2reg E e (einfo e) fs
      else luaK_exp2nextreg E e fs)"

definition luaK_exp2val :: "code_env \<Rightarrow> expdesc \<Rightarrow> expdesc codegen" where
  "luaK_exp2val E e = (if hasjumps e then luaK_exp2anyreg E e else luaK_dischargevars e)"

text \<open>The operand and the descriptor.\<close>

definition any_operand :: "code_env \<Rightarrow> expdesc \<Rightarrow> (int \<times> expdesc) codegen" where
  "any_operand E e = lbind (luaK_exp2anyreg E e) (\<lambda>e. lret (einfo e, e))"

definition luaK_exp2RK :: "code_env \<Rightarrow> expdesc \<Rightarrow> (int \<times> expdesc) codegen" where
  "luaK_exp2RK E e =
    lbind (luaK_exp2val E e) (\<lambda>e.
      if ek e \<in> {VKNUM, VTRUE, VFALSE, VNIL} then
        lif (\<lambda>fs. int (length (fs_k fs)) \<le> MAXINDEXRK)
          (lbind (if ek e = VNIL then nilK E else if ek e = VKNUM then luaK_numberK E (enval e)
                  else boolK E (ek e = VTRUE))
            (\<lambda>info. lret (RKASK info, e\<lparr>einfo := info, ek := VK\<rparr>)))
          (any_operand E e)
      else if ek e = VK \<and> einfo e \<le> MAXINDEXRK then lret (RKASK (einfo e), e)
      else any_operand E e)"

section \<open>Variables\<close>

definition luaK_storevar :: "code_env \<Rightarrow> expdesc \<Rightarrow> expdesc \<Rightarrow> expdesc codegen" where
  "luaK_storevar E var ex = (case ek var of
     VLOCAL \<Rightarrow> lseq (freeexp ex) (exp2reg E ex (einfo var))
   | VUPVAL \<Rightarrow>
       lbind (luaK_exp2anyreg E ex) (\<lambda>ex.
       lseq (luaK_codeABC OP_SETUPVAL (einfo ex) (einfo var) 0) (lseq (freeexp ex) (lret ex)))
   | VGLOBAL \<Rightarrow>
       lbind (luaK_exp2anyreg E ex) (\<lambda>ex.
       lseq (luaK_codeABx OP_SETGLOBAL (einfo ex) (einfo var)) (lseq (freeexp ex) (lret ex)))
   | VINDEXED \<Rightarrow>
       lbind (luaK_exp2RK E ex) (\<lambda>(e, ex).
       lseq (luaK_codeABC OP_SETTABLE (einfo var) (eaux var) e) (lseq (freeexp ex) (lret ex)))
   | _ \<Rightarrow> lseq (freeexp ex) (lret ex))"

definition luaK_self :: "code_env \<Rightarrow> expdesc \<Rightarrow> expdesc \<Rightarrow> expdesc codegen" where
  "luaK_self E e key =
    lbind (luaK_exp2anyreg E e) (\<lambda>e.
    lseq (freeexp e)
    (lbind (lgets fs_freereg) (\<lambda>func.
    lseq (luaK_reserveregs 2)
    (lbind (luaK_exp2RK E key) (\<lambda>(k, key).
    lseq (luaK_codeABC OP_SELF func (einfo e) k)
    (lseq (freeexp key)
    (lret (e\<lparr>einfo := func, ek := VNONRELOC\<rparr>))))))))"

definition luaK_indexed :: "code_env \<Rightarrow> expdesc \<Rightarrow> expdesc \<Rightarrow> expdesc codegen" where
  "luaK_indexed E t k = lbind (luaK_exp2RK E k) (\<lambda>(aux, k). lret (t\<lparr>eaux := aux, ek := VINDEXED\<rparr>))"

section \<open>Conditions\<close>

definition invertjump :: "expdesc \<Rightarrow> unit codegen" where
  "invertjump e = lmodify (\<lambda>fs.
    let p = getjumpcontrol fs (einfo e); i = code_at fs p
    in set_code p (SETARG_A i (if GETARG_A i = 0 then 1 else 0)) fs)"

text \<open>The last instruction is dropped.\<close>

definition drop_last :: "FuncState \<Rightarrow> FuncState" where
  "drop_last fs = fs\<lparr>fs_code := butlast (fs_code fs), fs_lineinfo := butlast (fs_lineinfo fs)\<rparr>"

definition jumponcond :: "code_env \<Rightarrow> expdesc \<Rightarrow> int \<Rightarrow> (int \<times> expdesc) codegen" where
  "jumponcond E e cond = (\<lambda>fs.
    let ie = getcode fs e in
    if ek e = VRELOCABLE \<and> GET_OPCODE ie = opnum OP_NOT
    then lbind (condjump OP_TEST (GETARG_B ie) 0 (if cond = 0 then 1 else 0)) (\<lambda>j. lret (j, e)) (drop_last fs)
    else
      lbind (discharge2anyreg E e) (\<lambda>e.
      lseq (freeexp e)
      (lbind (condjump OP_TESTSET NO_REG (einfo e) cond) (\<lambda>j. lret (j, e)))) fs)"

definition luaK_goiftrue :: "code_env \<Rightarrow> expdesc \<Rightarrow> expdesc codegen" where
  "luaK_goiftrue E e =
    lbind (luaK_dischargevars e) (\<lambda>e.
    lbind (case ek e of
        VK \<Rightarrow> lret (NO_JUMP, e)
      | VKNUM \<Rightarrow> lret (NO_JUMP, e)
      | VTRUE \<Rightarrow> lret (NO_JUMP, e)
      | VJMP \<Rightarrow> lseq (invertjump e) (lret (einfo e, e))
      | _ \<Rightarrow> jumponcond E e 0) (\<lambda>(p, e).
    lbind (luaK_concat (ef e) p) (\<lambda>f.
    lseq (luaK_patchtohere (et e)) (lret (e\<lparr>ef := f, et := NO_JUMP\<rparr>)))))"

definition luaK_goiffalse :: "code_env \<Rightarrow> expdesc \<Rightarrow> expdesc codegen" where
  "luaK_goiffalse E e =
    lbind (luaK_dischargevars e) (\<lambda>e.
    lbind (case ek e of
        VNIL \<Rightarrow> lret (NO_JUMP, e)
      | VFALSE \<Rightarrow> lret (NO_JUMP, e)
      | VJMP \<Rightarrow> lret (einfo e, e)
      | _ \<Rightarrow> jumponcond E e 1) (\<lambda>(p, e).
    lbind (luaK_concat (et e) p) (\<lambda>t.
    lseq (luaK_patchtohere (ef e)) (lret (e\<lparr>et := t, ef := NO_JUMP\<rparr>)))))"

definition codenot :: "code_env \<Rightarrow> expdesc \<Rightarrow> expdesc codegen" where
  "codenot E e =
    lbind (luaK_dischargevars e) (\<lambda>e.
    lbind (case ek e of
        VNIL \<Rightarrow> lret (e\<lparr>ek := VTRUE\<rparr>)
      | VFALSE \<Rightarrow> lret (e\<lparr>ek := VTRUE\<rparr>)
      | VK \<Rightarrow> lret (e\<lparr>ek := VFALSE\<rparr>)
      | VKNUM \<Rightarrow> lret (e\<lparr>ek := VFALSE\<rparr>)
      | VTRUE \<Rightarrow> lret (e\<lparr>ek := VFALSE\<rparr>)
      | VJMP \<Rightarrow> lseq (invertjump e) (lret e)
      | VRELOCABLE \<Rightarrow> lbind (discharge2anyreg E e) (\<lambda>e.
          lseq (freeexp e) (relocable e (luaK_codeABC OP_NOT 0 (einfo e) 0)))
      | VNONRELOC \<Rightarrow> lbind (discharge2anyreg E e) (\<lambda>e.
          lseq (freeexp e) (relocable e (luaK_codeABC OP_NOT 0 (einfo e) 0)))
      | _ \<Rightarrow> lret e) (\<lambda>e.
    let e = e\<lparr>ef := et e, et := ef e\<rparr> in
    lseq (removevalues (ef e)) (lseq (removevalues (et e)) (lret e))))"

section \<open>Operators\<close>

text \<open>The folded operand; \<^term>\<open>None\<close> if there is no folding.\<close>

definition constfolding :: "code_env \<Rightarrow> OpCode \<Rightarrow> expdesc \<Rightarrow> expdesc \<Rightarrow> expdesc option" where
  "constfolding E op e1 e2 =
    (if \<not> isnumeral e1 \<or> \<not> isnumeral e2 then None
     else
       let v1 = enval e1; v2 = enval e2;
           r = (case op of
                OP_ADD \<Rightarrow> Some (numadd E v1 v2)
              | OP_SUB \<Rightarrow> Some (numsub E v1 v2)
              | OP_MUL \<Rightarrow> Some (nummul E v1 v2)
              | OP_DIV \<Rightarrow> if luai_numeq v2 0 then None else Some (numdiv E v1 v2)
              | OP_MOD \<Rightarrow> if luai_numeq v2 0 then None else Some (nummod E v1 v2)
              | OP_POW \<Rightarrow> Some (numpow E v1 v2)
              | OP_UNM \<Rightarrow> Some (numunm E v1)
              | OP_LEN \<Rightarrow> None
              | _ \<Rightarrow> Some 0)
       in case r of
            None \<Rightarrow> None
          | Some r \<Rightarrow> if luai_numisnan r then None else Some (e1\<lparr>enval := r\<rparr>))"

definition codearith :: "code_env \<Rightarrow> OpCode \<Rightarrow> expdesc \<Rightarrow> expdesc \<Rightarrow> expdesc codegen" where
  "codearith E op e1 e2 = (case constfolding E op e1 e2 of
     Some e \<Rightarrow> lret e
   | None \<Rightarrow>
       lbind (if op \<noteq> OP_UNM \<and> op \<noteq> OP_LEN then luaK_exp2RK E e2 else lret (0, e2)) (\<lambda>(o2, e2).
       lbind (luaK_exp2RK E e1) (\<lambda>(o1, e1).
       lseq (if o1 > o2 then lseq (freeexp e1) (freeexp e2) else lseq (freeexp e2) (freeexp e1))
         (relocable e1 (luaK_codeABC op 0 o1 o2)))))"

definition codecomp :: "code_env \<Rightarrow> OpCode \<Rightarrow> int \<Rightarrow> expdesc \<Rightarrow> expdesc \<Rightarrow> expdesc codegen" where
  "codecomp E op cond e1 e2 =
    lbind (luaK_exp2RK E e1) (\<lambda>(o1, e1).
    lbind (luaK_exp2RK E e2) (\<lambda>(o2, e2).
    lseq (freeexp e2) (lseq (freeexp e1)
    (lbind (if cond = 0 \<and> op \<noteq> OP_EQ then condjump op 1 o2 o1 else condjump op cond o1 o2)
      (\<lambda>info. lret (e1\<lparr>einfo := info, ek := VJMP\<rparr>))))))"

definition zero_operand :: expdesc where
  "zero_operand = \<lparr>ek = VKNUM, einfo = 0, eaux = 0, enval = 0, et = NO_JUMP, ef = NO_JUMP\<rparr>"

definition luaK_prefix :: "code_env \<Rightarrow> UnOpr \<Rightarrow> expdesc \<Rightarrow> expdesc codegen" where
  "luaK_prefix E op e = (case op of
     OPR_MINUS \<Rightarrow>
       lbind (if \<not> isnumeral e then luaK_exp2anyreg E e else lret e)
         (\<lambda>e. codearith E OP_UNM e zero_operand)
   | OPR_NOT \<Rightarrow> codenot E e
   | OPR_LEN \<Rightarrow> lbind (luaK_exp2anyreg E e) (\<lambda>e. codearith E OP_LEN e zero_operand)
   | OPR_NOUNOPR \<Rightarrow> lret e)"

definition operand_only :: "code_env \<Rightarrow> expdesc \<Rightarrow> expdesc codegen" where
  "operand_only E v = lbind (luaK_exp2RK E v) (\<lambda>(r, v). lret v)"

definition luaK_infix :: "code_env \<Rightarrow> BinOpr \<Rightarrow> expdesc \<Rightarrow> expdesc codegen" where
  "luaK_infix E op v =
    (if op = OPR_AND then luaK_goiftrue E v
     else if op = OPR_OR then luaK_goiffalse E v
     else if op = OPR_CONCAT then luaK_exp2nextreg E v
     else if op \<in> {OPR_ADD, OPR_SUB, OPR_MUL, OPR_DIV, OPR_MOD, OPR_POW}
       then (if \<not> isnumeral v then operand_only E v else lret v)
     else operand_only E v)"

definition code_concat :: "code_env \<Rightarrow> expdesc \<Rightarrow> expdesc \<Rightarrow> expdesc codegen" where
  "code_concat E e1 e2 =
    lbind (luaK_exp2val E e2) (\<lambda>e2 fs.
      if ek e2 = VRELOCABLE \<and> GET_OPCODE (getcode fs e2) = opnum OP_CONCAT then
        lseq (freeexp e1) (lseq (set_getcode e2 (\<lambda>i. SETARG_B i (einfo e1)))
          (lret (e1\<lparr>ek := VRELOCABLE, einfo := einfo e2\<rparr>))) fs
      else lbind (luaK_exp2nextreg E e2) (\<lambda>e2. codearith E OP_CONCAT e1 e2) fs)"

definition luaK_posfix :: "code_env \<Rightarrow> BinOpr \<Rightarrow> expdesc \<Rightarrow> expdesc \<Rightarrow> expdesc codegen" where
  "luaK_posfix E op e1 e2 = (case op of
     OPR_AND \<Rightarrow>
       lbind (luaK_dischargevars e2) (\<lambda>e2. lbind (luaK_concat (ef e2) (ef e1)) (\<lambda>f. lret (e2\<lparr>ef := f\<rparr>)))
   | OPR_OR \<Rightarrow>
       lbind (luaK_dischargevars e2) (\<lambda>e2. lbind (luaK_concat (et e2) (et e1)) (\<lambda>t. lret (e2\<lparr>et := t\<rparr>)))
   | OPR_CONCAT \<Rightarrow> code_concat E e1 e2
   | OPR_ADD \<Rightarrow> codearith E OP_ADD e1 e2
   | OPR_SUB \<Rightarrow> codearith E OP_SUB e1 e2
   | OPR_MUL \<Rightarrow> codearith E OP_MUL e1 e2
   | OPR_DIV \<Rightarrow> codearith E OP_DIV e1 e2
   | OPR_MOD \<Rightarrow> codearith E OP_MOD e1 e2
   | OPR_POW \<Rightarrow> codearith E OP_POW e1 e2
   | OPR_EQ \<Rightarrow> codecomp E OP_EQ 1 e1 e2
   | OPR_NE \<Rightarrow> codecomp E OP_EQ 0 e1 e2
   | OPR_LT \<Rightarrow> codecomp E OP_LT 1 e1 e2
   | OPR_LE \<Rightarrow> codecomp E OP_LE 1 e1 e2
   | OPR_GT \<Rightarrow> codecomp E OP_LT 0 e1 e2
   | OPR_GE \<Rightarrow> codecomp E OP_LE 0 e1 e2
   | OPR_NOBINOPR \<Rightarrow> lret e1)"

section \<open>Constructors\<close>

definition luaK_setlist :: "int \<Rightarrow> int \<Rightarrow> int \<Rightarrow> unit codegen" where
  "luaK_setlist base nelems tostore =
    (let c = (nelems - 1) sdiv LFIELDS_PER_FLUSH + 1;
         b = (if tostore = CODE_MULTRET then 0 else tostore) in
     lseq (if c \<le> MAXARG_C then emit (luaK_codeABC OP_SETLIST base b c)
           else lseq (luaK_codeABC OP_SETLIST base b 0)
             (emit (\<lambda>fs. luaK_code (word_of_int c) (fs_lastline fs) fs)))
       (lmodify (\<lambda>fs. fs\<lparr>fs_freereg := base + 1\<rparr>)))"

end
