(* ===== verification/Code_Consts.thy ===== *)
theory Code_Consts
  imports Code Table_Props "HOL-Library.Sublist"
begin

unbundle bit_operations_syntax

text \<open>
  Constants of the code generator: the table \<open>h\<close> maps a constant to its index in \<open>k\<close>, so that
  equal constants share an entry.
\<close>

section \<open>The invariant\<close>

text \<open>
  A constant is a pair of a key of \<open>h\<close> and a value; the table itself is the key of nil. The lexer
  also has strings in \<open>h\<close>, with a value that is no number.
\<close>

definition const_key :: "code_env \<Rightarrow> TValue \<Rightarrow> TValue \<Rightarrow> bool" where
  "const_key E k v \<longleftrightarrow> proper_key k \<and> (if k = LTable (h_address E) then v = LNil else luaO_rawequalObj v k)"

text \<open>The numbers in \<open>h\<close> are the indices of the constants, and each constant has its index in \<open>h\<close>.\<close>

definition consts_ok :: "code_env \<Rightarrow> FuncState \<Rightarrow> bool" where
  "consts_ok E fs \<longleftrightarrow> tab_ok (khash E) (fs_ktab fs) \<and> int (length (fs_k fs)) \<le> MAXARG_Bx
     \<and> (\<forall>k n. proper_key k \<longrightarrow> lookup (fs_ktab fs) k = LNumber n \<longrightarrow>
          (\<exists>i < length (fs_k fs). n = cast_num (int i) \<and> const_key E k (fs_k fs ! i)))
     \<and> (\<forall>i < length (fs_k fs). \<exists>k. const_key E k (fs_k fs ! i) \<and> lookup (fs_ktab fs) k = LNumber (cast_num (int i)))"

lemma consts_okD:
  assumes "consts_ok E fs"
  shows "tab_ok (khash E) (fs_ktab fs)" "int (length (fs_k fs)) \<le> MAXARG_Bx"
    "\<And>k n. proper_key k \<Longrightarrow> lookup (fs_ktab fs) k = LNumber n \<Longrightarrow>
      \<exists>i < length (fs_k fs). n = cast_num (int i) \<and> const_key E k (fs_k fs ! i)"
    "\<And>i. i < length (fs_k fs) \<Longrightarrow> \<exists>k. const_key E k (fs_k fs ! i) \<and> lookup (fs_ktab fs) k = LNumber (cast_num (int i))"
  using assms unfolding consts_ok_def by blast+

lemma index_back:
  assumes "0 \<le> i" "i \<le> MAXARG_Bx"
  shows "lua_number2int (cast_num i) = i"
proof -
  have "\<bar>i\<bar> < 2 ^ 53" using assms by (simp add: op_limits op_layout)
  then show ?thesis using assms num_trunc_cast_num [of i]
    by (simp add: lua_number2int_def num2int_range_def INT_MIN_def INT_MAX_def op_limits op_layout)
qed

lemma const_key_rawequal:
  assumes "const_key E k v" "luaO_rawequalObj k k'" "proper_key k'"
  shows "const_key E k' v"
proof (cases "k = LTable (h_address E)")
  case True
  then have "k' = k" using assms(2) by (auto simp: rawequal_iff)
  with assms(1) show ?thesis by simp
next
  case False
  then have "k' \<noteq> LTable (h_address E)" using assms(2) by (auto simp: rawequal_iff)
  with False assms show ?thesis using rawequal_trans by (auto simp: const_key_def)
qed

lemma const_key_unique: "const_key E k v \<Longrightarrow> const_key E k' v \<Longrightarrow> luaO_rawequalObj k k'"
  using rawequal_sym rawequal_trans
  by (auto simp: const_key_def proper_key_def rawequal_iff split: if_splits)

text \<open>The index of a constant is found under each of its keys.\<close>

lemma consts_ok_lookup:
  assumes "consts_ok E fs" "i < length (fs_k fs)" "const_key E k (fs_k fs ! i)"
  shows "lookup (fs_ktab fs) k = LNumber (cast_num (int i))"
proof -
  obtain k' where k': "const_key E k' (fs_k fs ! i)" "lookup (fs_ktab fs) k' = LNumber (cast_num (int i))"
    using consts_okD(4) [OF assms(1,2)] by blast
  from lookup_rawequal [OF const_key_unique [OF k'(1) assms(3)]] k'(2) show ?thesis by simp
qed

lemma index_inj: "int i \<le> MAXARG_Bx \<Longrightarrow> int j \<le> MAXARG_Bx \<Longrightarrow> cast_num (int i) = cast_num (int j) \<Longrightarrow> i = j"
  by (metis index_back of_nat_0_le_iff of_nat_eq_iff)

text \<open>No two constants have the same key.\<close>

lemma consts_ok_distinct:
  assumes "consts_ok E fs" "i < length (fs_k fs)" "j < length (fs_k fs)"
    "const_key E k (fs_k fs ! i)" "const_key E k (fs_k fs ! j)"
  shows "i = j"
proof (rule index_inj)
  show "int i \<le> MAXARG_Bx" "int j \<le> MAXARG_Bx" using assms(2,3) consts_okD(2) [OF assms(1)] by linarith+
  show "cast_num (int i) = cast_num (int j)"
    using consts_ok_lookup [OF assms(1,2,4)] consts_ok_lookup [OF assms(1,3,5)] by simp
qed

text \<open>An entry of the table gives the index, without a change of the constants.\<close>

lemma addk_present:
  assumes "consts_ok E fs" "proper_key k" "lookup (fs_ktab fs) k = LNumber (cast_num (int i))" "i < length (fs_k fs)"
  shows "addk E k v fs = Inl (CodeTable TableOverflow)
    \<or> (\<exists>fs'. addk E k v fs = Inr (int i, fs') \<and> fs_k fs' = fs_k fs \<and> consts_ok E fs'
        \<and> lookup (fs_ktab fs') k = LNumber (cast_num (int i)))"
proof -
  note ok = consts_okD [OF assms(1)]
  show ?thesis
    using luaH_set_total [OF ok(1) assms(2)]
  proof (elim disjE exE conjE)
    fix t p assume t: "luaH_set (khash E) (fs_ktab fs) k = Inr (t, p)" "set_post (khash E) (fs_ktab fs) k t p"
    then have s: "tab_ok (khash E) t" "located t k p" "\<And>k'. proper_key k' \<Longrightarrow> lookup t k' = lookup (fs_ktab fs) k'"
      by (simp_all add: set_post_def)
    have "tv_read t p = LNumber (cast_num (int i))"
      using located_read [OF s(1) assms(2) s(2)] s(3) [OF assms(2)] assms(3) by simp
    moreover have "lua_number2int (cast_num (int i)) = int i" using assms(4) ok(2) by (intro index_back) simp_all
    moreover have "consts_ok E (fs\<lparr>fs_ktab := t\<rparr>)"
    proof -
      have "\<exists>k. const_key E k (fs_k fs ! i) \<and> lookup t k = LNumber (cast_num (int i))" if "i < length (fs_k fs)" for i
      proof -
        obtain k' where k': "const_key E k' (fs_k fs ! i)" "lookup (fs_ktab fs) k' = LNumber (cast_num (int i))"
          using ok(4) [OF \<open>i < length (fs_k fs)\<close>] by blast
        then show ?thesis using s(3) [of k'] by (intro exI [of _ k']) (simp add: const_key_def)
      qed
      then show ?thesis unfolding consts_ok_def using s(1,3) ok(2,3) by simp
    qed
    ultimately show ?thesis using s(3) assms(2,3) t(1) by (simp add: addk_def)
  qed (simp add: addk_def)
qed

lemma addk_new:
  assumes "consts_ok E fs" "const_key E k v" "\<And>n. lookup (fs_ktab fs) k \<noteq> LNumber n"
  shows "addk E k v fs \<in> {Inl (CodeTable TableOverflow), Inl (CodeRun ''constant table overflow'')}
    \<or> (\<exists>fs'. addk E k v fs = Inr (int (length (fs_k fs)), fs') \<and> fs_k fs' = fs_k fs @ [v] \<and> consts_ok E fs'
        \<and> lookup (fs_ktab fs') k = LNumber (cast_num (int (length (fs_k fs)))))"
proof -
  note ok = consts_okD [OF assms(1)]
  have k: "proper_key k" using assms(2) by (simp add: const_key_def)
  let ?n = "int (length (fs_k fs))"
  show ?thesis
    using luaH_set_total [OF ok(1) k]
  proof (elim disjE exE conjE)
    fix t p assume t: "luaH_set (khash E) (fs_ktab fs) k = Inr (t, p)" "set_post (khash E) (fs_ktab fs) k t p"
    then have s: "tab_ok (khash E) t" "located t k p" "\<And>k'. proper_key k' \<Longrightarrow> lookup t k' = lookup (fs_ktab fs) k'"
      by (simp_all add: set_post_def)
    have r: "tv_read t p = lookup (fs_ktab fs) k" using located_read [OF s(1) k s(2)] s(3) [OF k] by simp
    let ?t = "tv_write t p (LNumber (cast_num ?n))"
    have a: "addk E k v fs = (if ?n \<ge> MAXARG_Bx then Inl (CodeRun ''constant table overflow'')
        else Inr (?n, fs\<lparr>fs_ktab := ?t, fs_k := fs_k fs @ [v]\<rparr>))"
      using assms(3) t(1) by (auto simp: addk_def r Let_def split: TValue.split)
    note w = write_set_post [OF t(2) k, where v = "LNumber (cast_num ?n)"]
    show ?thesis
    proof (cases "?n \<ge> MAXARG_Bx")
      case False
      let ?fs = "fs\<lparr>fs_ktab := ?t, fs_k := fs_k fs @ [v]\<rparr>"
      have "\<exists>i < length (fs_k ?fs). m = cast_num (int i) \<and> const_key E k' (fs_k ?fs ! i)"
        if k': "proper_key k'" "lookup ?t k' = LNumber m" for k' m
      proof (cases "luaO_rawequalObj k k'")
        case True
        then have "m = cast_num ?n" using w(2) [OF k'(1)] k'(2) by simp
        with const_key_rawequal [OF assms(2) True k'(1)] show ?thesis
          by (intro exI [of _ "length (fs_k fs)"]) simp
      next
        case False
        then have "lookup (fs_ktab fs) k' = LNumber m" using w(2) [OF k'(1)] k'(2) by simp
        from ok(3) [OF k'(1) this] show ?thesis by (auto simp: nth_append intro: less_SucI)
      qed
      note old = this
      from w(2) [OF k] rawequal_refl k have new: "lookup ?t k = LNumber (cast_num ?n)"
        by (simp add: proper_key_def)
      have "\<exists>k'. const_key E k' (fs_k ?fs ! i) \<and> lookup ?t k' = LNumber (cast_num (int i))"
        if "i < length (fs_k ?fs)" for i
      proof (cases "i = length (fs_k fs)")
        case True
        then show ?thesis using assms(2) new by (intro exI [of _ k]) simp
      next
        case False
        then have i: "i < length (fs_k fs)" using that by simp
        from ok(4) [OF i] obtain k' where k': "const_key E k' (fs_k fs ! i)" "lookup (fs_ktab fs) k' = LNumber (cast_num (int i))" by blast
        then have "\<not> luaO_rawequalObj k k'" using assms(3) lookup_rawequal by metis
        then have "lookup ?t k' = LNumber (cast_num (int i))" using w(2) [of k'] k' by (simp add: const_key_def)
        then show ?thesis using k'(1) i by (intro exI [of _ k']) (simp add: nth_append)
      qed
      with old have "consts_ok E ?fs" using w(1) False unfolding consts_ok_def by simp
      with new show ?thesis using a False by auto
    qed (use a in simp)
  qed (simp add: addk_def)
qed

text \<open>What \<open>addk\<close> does: the constant has an entry, or gets one at the end.\<close>

lemma addk_cases:
  assumes "consts_ok E fs" "const_key E k v"
  obtains "addk E k v fs = Inl (CodeTable TableOverflow)" | "addk E k v fs = Inl (CodeRun ''constant table overflow'')"
  | (old) i fs' where "i < length (fs_k fs)" "const_key E k (fs_k fs ! i)"
      "addk E k v fs = Inr (int i, fs')" "fs_k fs' = fs_k fs" "consts_ok E fs'"
  | (new) fs' where "\<forall>i < length (fs_k fs). \<not> const_key E k (fs_k fs ! i)"
      "addk E k v fs = Inr (int (length (fs_k fs)), fs')" "fs_k fs' = fs_k fs @ [v]" "consts_ok E fs'"
proof (cases "\<exists>n. lookup (fs_ktab fs) k = LNumber n")
  case True
  have k: "proper_key k" using assms(2) by (simp add: const_key_def)
  from True obtain n where n: "lookup (fs_ktab fs) k = LNumber n" by blast
  from consts_okD(3) [OF assms(1) k n] obtain i where
    i: "i < length (fs_k fs)" "n = cast_num (int i)" "const_key E k (fs_k fs ! i)" by blast
  show ?thesis using addk_present [OF assms(1) k n [unfolded i(2)] i(1), of v] that(1) old [OF i(1,3)] by blast
next
  case False
  then have n: "\<And>n. lookup (fs_ktab fs) k \<noteq> LNumber n" by blast
  then have "\<forall>i < length (fs_k fs). \<not> const_key E k (fs_k fs ! i)" using consts_ok_lookup [OF assms(1)] by blast
  with addk_new [OF assms n] that(1,2) new show ?thesis by blast
qed

text \<open>
  C39: a function has one entry in \<open>k\<close> per constant: \<open>addk\<close> returns the index of an entry for the constant,
  keeps the entries that were there, and adds one only if there is none for a raw-equal constant; no two
  entries are then for raw-equal constants. At any later time, when more constants may have been
  added, \<open>addk\<close> of a raw-equal constant returns the same index and adds nothing. The only errors are a
  constant table or a hash table that is full.
\<close>

theorem constants_shared:
  assumes "consts_ok E fs" "const_key E k v"
  shows "case addk E k v fs of
      Inl e \<Rightarrow> e \<in> {CodeTable TableOverflow, CodeRun ''constant table overflow''}
    | Inr (i, fs') \<Rightarrow> consts_ok E fs' \<and> 0 \<le> i \<and> nat i < length (fs_k fs') \<and> const_key E k (fs_k fs' ! nat i)
        \<and> fs_k fs' = fs_k fs @ (if \<exists>j < length (fs_k fs). const_key E k (fs_k fs ! j) then [] else [v])
        \<and> (\<forall>k' j j'. j < length (fs_k fs') \<longrightarrow> j' < length (fs_k fs') \<longrightarrow> const_key E k' (fs_k fs' ! j)
             \<longrightarrow> const_key E k' (fs_k fs' ! j') \<longrightarrow> j = j')
        \<and> (\<forall>k' v' j later fs''. luaO_rawequalObj k k' \<longrightarrow> const_key E k' v' \<longrightarrow> consts_ok E later \<longrightarrow> prefix (fs_k fs') (fs_k later)
             \<longrightarrow> addk E k' v' later = Inr (j, fs'') \<longrightarrow> j = i \<and> fs_k fs'' = fs_k later)"
proof -
  have again: "j = int i \<and> fs_k fs'' = fs_k later"
    if i: "i < length (fs_k fs')" "const_key E k (fs_k fs' ! i)" "luaO_rawequalObj k k'" "const_key E k' v'"
      and l: "consts_ok E later" "prefix (fs_k fs') (fs_k later)" "addk E k' v' later = Inr (j, fs'')"
    for i fs' k' v' later j fs''
  proof -
    have "proper_key k'" using i(4) by (simp add: const_key_def)
    with const_key_rawequal [OF i(2,3)] l(2) i(1)
    have e: "i < length (fs_k later)" "const_key E k' (fs_k later ! i)" by (auto simp: prefix_def nth_append)
    show ?thesis
      using l(1) i(4)
    proof (cases rule: addk_cases)
      case (old i' fs1)
      then show ?thesis using l(3) consts_ok_distinct [OF l(1) e(1) old(1) e(2) old(2)] by simp
    next
      case (new fs1)
      with e show ?thesis by blast
    qed (use l(3) in simp_all)
  qed
  have main: "consts_ok E fs' \<and> 0 \<le> int i \<and> nat (int i) < length (fs_k fs') \<and> const_key E k (fs_k fs' ! nat (int i))
        \<and> fs_k fs' = fs_k fs @ (if \<exists>j < length (fs_k fs). const_key E k (fs_k fs ! j) then [] else [v])
        \<and> (\<forall>k' j j'. j < length (fs_k fs') \<longrightarrow> j' < length (fs_k fs') \<longrightarrow> const_key E k' (fs_k fs' ! j)
             \<longrightarrow> const_key E k' (fs_k fs' ! j') \<longrightarrow> j = j')
        \<and> (\<forall>k' v' j later fs''. luaO_rawequalObj k k' \<longrightarrow> const_key E k' v' \<longrightarrow> consts_ok E later \<longrightarrow> prefix (fs_k fs') (fs_k later)
             \<longrightarrow> addk E k' v' later = Inr (j, fs'') \<longrightarrow> j = int i \<and> fs_k fs'' = fs_k later)"
    if m: "consts_ok E fs'" "i < length (fs_k fs')" "const_key E k (fs_k fs' ! i)"
      "fs_k fs' = fs_k fs @ (if \<exists>j < length (fs_k fs). const_key E k (fs_k fs ! j) then [] else [v])" for i fs'
  proof (intro conjI)
    show "\<forall>k' j j'. j < length (fs_k fs') \<longrightarrow> j' < length (fs_k fs') \<longrightarrow> const_key E k' (fs_k fs' ! j)
             \<longrightarrow> const_key E k' (fs_k fs' ! j') \<longrightarrow> j = j'" using consts_ok_distinct [OF m(1)] by blast
    show "\<forall>k' v' j later fs''. luaO_rawequalObj k k' \<longrightarrow> const_key E k' v' \<longrightarrow> consts_ok E later \<longrightarrow> prefix (fs_k fs') (fs_k later)
             \<longrightarrow> addk E k' v' later = Inr (j, fs'') \<longrightarrow> j = int i \<and> fs_k fs'' = fs_k later" using again [OF m(2,3)] by blast
  qed (use m(1-3) in \<open>simp_all only: nat_int of_nat_0_le_iff\<close>, rule m(4))
  show ?thesis
    using assms
  proof (cases rule: addk_cases)
    case (old i fs')
    have "\<exists>j < length (fs_k fs). const_key E k (fs_k fs ! j)" using old(1,2) by blast
    then have "fs_k fs' = fs_k fs @ (if \<exists>j < length (fs_k fs). const_key E k (fs_k fs ! j) then [] else [v])"
      using old(4) by simp
    moreover have "i < length (fs_k fs')" "const_key E k (fs_k fs' ! i)" using old(1,2,4) by simp_all
    ultimately show ?thesis unfolding old(3) sum.case prod.case by (intro main old(5))
  next
    case (new fs')
    then have "\<not> (\<exists>j < length (fs_k fs). const_key E k (fs_k fs ! j))" by blast
    then have "fs_k fs' = fs_k fs @ (if \<exists>j < length (fs_k fs). const_key E k (fs_k fs ! j) then [] else [v])"
      using new(3) by (simp only: if_False)
    moreover have "length (fs_k fs) < length (fs_k fs')" "const_key E k (fs_k fs' ! length (fs_k fs))"
      using new(3) assms(2) by simp_all
    ultimately show ?thesis unfolding new(2) sum.case prod.case by (intro main new(4))
  qed simp_all
qed

text \<open>Zero and minus zero are raw-equal: a function that uses both has one constant for them.\<close>

definition sample_code_env :: code_env where
  "sample_code_env = \<lparr>h_address = 64, khash = no_hash, numadd = (\<lambda>a b. a), numsub = (\<lambda>a b. a), nummul = (\<lambda>a b. a),
     numdiv = (\<lambda>a b. a), nummod = (\<lambda>a b. a), numpow = (\<lambda>a b. a), numunm = (\<lambda>a. a XOR push_bit 63 1)\<rparr>"

definition sample_fs :: FuncState where
  "sample_fs = \<lparr>fs_code = [], fs_lineinfo = [], fs_k = [], fs_maxstack = 2, fs_ktab = sample_table,
     fs_lasttarget = -1, fs_jpc = NO_JUMP, fs_freereg = 0, fs_nactvar = 0, fs_lastline = 1\<rparr>"

lemma sample_consts_ok: "consts_ok sample_code_env sample_fs"
  using sample_ok(2,3) by (simp add: consts_ok_def sample_code_env_def sample_fs_def op_limits)

definition minus_zero :: lua_Number where "minus_zero = push_bit 63 1"

lemma zeros: "luai_numeq 0 0" "luai_numeq minus_zero minus_zero" "luai_numeq 0 minus_zero" "minus_zero \<noteq> 0"
proof -
  have "num_mag 0 = 0" "num_mag minus_zero = 0" by (simp_all add: num_mag_def minus_zero_def)
  then have "num_key 0 = 0" "num_key minus_zero = 0" "\<not> luai_numisnan 0" "\<not> luai_numisnan minus_zero"
    by (simp_all add: num_key_def luai_numisnan_def num_expo_def num_frac_def)
  then show "luai_numeq 0 0" "luai_numeq minus_zero minus_zero" "luai_numeq 0 minus_zero"
    by (simp_all add: luai_numeq_def)
  show "minus_zero \<noteq> 0" by (simp add: minus_zero_def)
qed

lemma zero_keys:
  "const_key E (LNumber 0) (LNumber 0)" "const_key E (LNumber minus_zero) (LNumber minus_zero)"
  "luaO_rawequalObj (LNumber 0) (LNumber minus_zero)"
  using zeros by (auto simp: const_key_def proper_key_def is_nan_value_def rawequal_iff luai_numeq_def)

lemma minus_zero_is_zero:
  assumes "consts_ok E fs" "fs_k fs = []" "luaK_numberK E 0 fs = Inr (i, fs1)" "luaK_numberK E minus_zero fs1 = Inr (j, fs2)"
  shows "fs_k fs2 = [LNumber 0] \<and> j = 0"
proof -
  have k: "proper_key (LNumber 0)" "proper_key (LNumber minus_zero)"
    using zero_keys(1,2) by (simp_all add: const_key_def)
  have "lookup (fs_ktab fs) (LNumber 0) \<noteq> LNumber n" for n
    using consts_okD(3) [OF assms(1) k(1), of n] assms(2) by auto
  from addk_new [OF assms(1) zero_keys(1) this] assms(2,3) have
    1: "fs_k fs1 = [LNumber 0]" "consts_ok E fs1" "lookup (fs_ktab fs1) (LNumber 0) = LNumber (cast_num (int 0))"
    by (auto simp: luaK_numberK_def)
  have "lookup (fs_ktab fs1) (LNumber minus_zero) = LNumber (cast_num (int 0))"
    using 1(3) lookup_rawequal [OF zero_keys(3), of "fs_ktab fs1"] by simp
  from addk_present [OF 1(2) k(2) this, of "LNumber minus_zero"] 1(1) assms(4) show ?thesis
    by (auto simp: luaK_numberK_def)
qed

theorem constants_shared_witness:
  "case addk sample_code_env (LBoolean True) (LBoolean True) sample_fs of
      Inl e \<Rightarrow> e \<in> {CodeTable TableOverflow, CodeRun ''constant table overflow''}
    | Inr (i, fs') \<Rightarrow> consts_ok sample_code_env fs' \<and> 0 \<le> i \<and> nat i < length (fs_k fs')
        \<and> const_key sample_code_env (LBoolean True) (fs_k fs' ! nat i)"
proof -
  have "const_key sample_code_env (LBoolean True) (LBoolean True)" by (simp add: const_key_def)
  from constants_shared [OF sample_consts_ok this] show ?thesis by (auto split: sum.splits)
qed

end
