(* ===== verification/Code_Jumps.thy ===== *)
theory Code_Jumps
  imports Code_Exp Code_Consts
begin

text \<open>
  The jump lists of the code generator: a list is the jumps that are chained through their offsets
  and wait for their target. The theory shows that concatenation joins the lists and that patching
  gives every jump of a list its target.
\<close>

section \<open>Lists\<close>

text \<open>Besides jumps, the two instructions of a numeric loop are patched as jumps.\<close>

definition jump_ops :: "nat set" where "jump_ops = {opnum OP_JMP, opnum OP_FORPREP, opnum OP_FORLOOP}"

definition is_jump :: "FuncState \<Rightarrow> int \<Rightarrow> bool" where
  "is_jump fs p \<longleftrightarrow> 0 \<le> p \<and> p < pc fs \<and> GET_OPCODE (code_at fs p) \<in> jump_ops"

definition dest :: "FuncState \<Rightarrow> int \<Rightarrow> int" where
  "dest fs p = p + 1 + GETARG_sBx (code_at fs p)"

fun jlist :: "FuncState \<Rightarrow> int \<Rightarrow> int list \<Rightarrow> bool" where
  "jlist fs l [] \<longleftrightarrow> l = NO_JUMP"
| "jlist fs l (p # ps) \<longleftrightarrow> l = p \<and> is_jump fs p \<and> jlist fs (getjump fs p) ps"

text \<open>The state may differ in its code only, and there at some of the jumps and at other instructions.\<close>

definition only_code :: "int set \<Rightarrow> FuncState \<Rightarrow> FuncState \<Rightarrow> bool" where
  "only_code P fs fs' \<longleftrightarrow> fs' = fs\<lparr>fs_code := fs_code fs'\<rparr> \<and> length (fs_code fs') = length (fs_code fs)
     \<and> (\<forall>q. is_jump fs' q = is_jump fs q \<and> (is_jump fs q \<longrightarrow> q \<notin> P \<longrightarrow> code_at fs' q = code_at fs q))"

lemma only_codeD:
  assumes "only_code P fs fs'"
  shows "pc fs' = pc fs" "fs_jpc fs' = fs_jpc fs" "is_jump fs' q = is_jump fs q"
    "is_jump fs q \<Longrightarrow> q \<notin> P \<Longrightarrow> code_at fs' q = code_at fs q"
proof -
  have "fs' = fs\<lparr>fs_code := fs_code fs'\<rparr>" using assms by (simp add: only_code_def)
  from arg_cong [OF this, of fs_jpc] show "fs_jpc fs' = fs_jpc fs" by simp
qed (use assms in \<open>auto simp: only_code_def pc_def\<close>)

lemma only_code_refl: "only_code P fs fs"
  by (simp add: only_code_def)

lemma only_code_trans:
  assumes "only_code P fs fs1" "only_code Q fs1 fs2"
  shows "only_code (P \<union> Q) fs fs2"
proof -
  have "fs2 = fs\<lparr>fs_code := fs_code fs2\<rparr>"
    using assms by (cases fs, cases fs1, cases fs2) (simp add: only_code_def)
  then show ?thesis using assms by (auto simp: only_code_def)
qed

lemma only_code_mono: "only_code P fs fs' \<Longrightarrow> P \<subseteq> Q \<Longrightarrow> only_code Q fs fs'"
  by (auto simp: only_code_def)

lemma jlist_cong:
  assumes "jlist fs l ps" "\<And>p. p \<in> set ps \<Longrightarrow> is_jump fs' p \<and> code_at fs' p = code_at fs p"
  shows "jlist fs' l ps"
  using assms by (induction ps arbitrary: l) (auto simp: getjump_def)

lemma jlist_jumps: "jlist fs l ps \<Longrightarrow> p \<in> set ps \<Longrightarrow> is_jump fs p"
  by (induction ps arbitrary: l) auto

lemma jlist_only_code:
  assumes "jlist fs l ps" "only_code P fs fs'" "P \<inter> set ps = {}"
  shows "jlist fs' l ps"
  using assms jlist_jumps [OF assms(1)] by (intro jlist_cong [OF assms(1)]) (auto simp: only_code_def)

lemma jlist_length:
  assumes "jlist fs l ps" "distinct ps"
  shows "length ps < jump_fuel fs"
proof -
  have "set ps \<subseteq> {0..<pc fs}" using jlist_jumps [OF assms(1)] by (auto simp: is_jump_def)
  from card_mono [OF _ this] distinct_card [OF assms(2)] show ?thesis by (simp add: jump_fuel_def pc_def)
qed

lemma jlist_head: "jlist fs l ps \<Longrightarrow> l = NO_JUMP \<longleftrightarrow> ps = []"
  by (cases ps) (auto simp: is_jump_def NO_JUMP_def)

section \<open>Actions that return, or refuse code that is too long\<close>

text \<open>An action that gives a result that satisfies \<open>Q\<close>, or an error, which it may only if \<open>long\<close>.\<close>

definition safely :: "bool \<Rightarrow> 'a codegen \<Rightarrow> FuncState \<Rightarrow> ('a \<Rightarrow> FuncState \<Rightarrow> bool) \<Rightarrow> bool" where
  "safely long m fs Q \<longleftrightarrow> (case m fs of
     Inl e \<Rightarrow> long \<and> e \<in> {CodeSyntax ''control structure too long'', CodeRun ''code size overflow''}
   | Inr (x, fs') \<Rightarrow> Q x fs')"

lemma safely_simps [simp]:
  "safely B (lret x) fs Q \<longleftrightarrow> Q x fs"
  "safely B (lgets f) fs Q \<longleftrightarrow> Q (f fs) fs"
  "safely B (lmodify g) fs R \<longleftrightarrow> R () (g fs)"
  "safely B (lbind m k) fs S \<longleftrightarrow> safely B m fs (\<lambda>x s. safely B (k x) s S)"
  "safely B (lseq m n) fs S \<longleftrightarrow> safely B m fs (\<lambda>x s. safely B n s S)"
  "safely B (lif c a b) fs S \<longleftrightarrow> (if c fs then safely B a fs S else safely B b fs S)"
  by (auto simp: safely_def lret_def lgets_def lmodify_def lbind_def lseq_def lif_def split: sum.splits prod.splits)

text \<open>Actions that depend on the state they start in.\<close>

lemma safely_at:
  "safely B (\<lambda>s. patchlist_loop (jump_fuel s) l vt reg dt s) fs Q' \<longleftrightarrow> safely B (patchlist_loop (jump_fuel fs) l vt reg dt) fs Q'"
  "safely B (\<lambda>s. patchlistaux (fs_jpc s) (pc s) NO_REG (pc s) s) fs Q' \<longleftrightarrow> safely B (patchlistaux (fs_jpc fs) (pc fs) NO_REG (pc fs)) fs Q'"
  "safely B (\<lambda>s. last_jump (jump_fuel s) l s) fs Q \<longleftrightarrow> safely B (last_jump (jump_fuel fs) l) fs Q"
  "safely B (\<lambda>s. luaK_concat (fs_jpc s) l s) fs Q \<longleftrightarrow> safely B (luaK_concat (fs_jpc fs) l) fs Q"
  by (simp_all add: safely_def)

lemma safely_mono: "safely B m fs Q \<Longrightarrow> (\<And>x s. Q x s \<Longrightarrow> R x s) \<Longrightarrow> safely B m fs R"
  by (auto simp: safely_def split: sum.splits)

section \<open>One jump\<close>

lemma code_at_set:
  "0 \<le> p \<Longrightarrow> p < pc fs \<Longrightarrow> 0 \<le> q \<Longrightarrow> code_at (set_code p i fs) q = (if q = p then i else code_at fs q)"
  by (auto simp: code_at_def set_code_def pc_def nth_list_update)

text \<open>The opcode is the lowest field: the operands do not spill into it, even when they do not fit.\<close>

lemma opcode_CREATE [simp]:
  "GET_OPCODE (CREATE_ABC (opnum oc) a b c) = opnum oc"
  "GET_OPCODE (CREATE_ABx (opnum oc) a b) = opnum oc"
proof -
  have t: "take_bit SIZE_OP (word_of_nat (opnum oc) :: u32) = word_of_nat (opnum oc)"
    by (cases oc) (simp_all add: op_layout)
  have w: "unat (word_of_nat (opnum oc) :: u32) = opnum oc" by (cases oc) simp_all
  have le: "POS_OP + SIZE_OP \<le> POS_A" "POS_OP + SIZE_OP \<le> POS_B" "POS_OP + SIZE_OP \<le> POS_C"
    "POS_OP + SIZE_OP \<le> POS_Bx" "POS_OP + SIZE_OP \<le> LENGTH(32)" by (simp_all add: op_layout)
  note above = le(1-4) [THEN bitfield_push_above]
  show "GET_OPCODE (CREATE_ABC (opnum oc) a b c) = opnum oc" "GET_OPCODE (CREATE_ABx (opnum oc) a b) = opnum oc"
    using t w le by (simp_all add: CREATE_ABC_def CREATE_ABx_def op_fields bitfield_or bitfield_push_same above)
qed

lemma only_code_set:
  assumes "0 \<le> p" "p < pc fs" "GET_OPCODE i \<in> jump_ops \<longleftrightarrow> GET_OPCODE (code_at fs p) \<in> jump_ops"
    "p \<in> P \<or> \<not> is_jump fs p"
  shows "only_code P fs (set_code p i fs)"
proof -
  have l: "pc (set_code p i fs) = pc fs" by (simp add: set_code_def pc_def)
  have "is_jump (set_code p i fs) q = is_jump fs q" for q
    using code_at_set [OF assms(1,2), of q i] assms(1-3) l by (cases "0 \<le> q") (auto simp: is_jump_def)
  moreover have "code_at (set_code p i fs) q = code_at fs q" if "is_jump fs q" "q \<notin> P" for q
    using that code_at_set [OF assms(1,2), of q i] assms(4) by (auto simp: is_jump_def)
  ultimately show ?thesis by (simp add: only_code_def set_code_def)
qed

lemma fixjump_safely:
  assumes "is_jump fs p" and long: "B \<or> 0 \<le> d \<and> d \<le> pc fs \<and> pc fs \<le> MAXARG_sBx"
    and Q: "\<And>fs'. only_code {p} fs fs' \<Longrightarrow> dest fs' p = d \<Longrightarrow> (d \<noteq> p \<Longrightarrow> getjump fs' p = d) \<Longrightarrow> Q () fs'"
  shows "safely B (fixjump p d) fs Q"
proof (cases "\<bar>d - (p + 1)\<bar> > MAXARG_sBx")
  case False
  let ?fs = "set_code p (SETARG_sBx (code_at fs p) (d - (p + 1))) fs"
  have b: "- MAXARG_sBx \<le> d - (p + 1)" "d - (p + 1) \<le> MAXARG_sBx + 1" using False by linarith+
  have p: "0 \<le> p" "p < pc fs" "GET_OPCODE (code_at fs p) \<in> jump_ops" using assms(1) by (simp_all add: is_jump_def)
  have s: "GETARG_sBx (code_at ?fs p) = d - (p + 1)"
    using code_at_set [OF p(1,2,1)] GETARG_sBx_SETARG_sBx [OF b] by simp
  have "only_code {p} fs ?fs"
    by (rule only_code_set [OF p(1,2)]) (simp_all add: SETARG_sBx_def opcode_simps)
  moreover have "dest ?fs p = d" "d \<noteq> p \<Longrightarrow> getjump ?fs p = d"
    using s by (simp_all add: dest_def getjump_def NO_JUMP_def Let_def)
  ultimately have "Q () ?fs" by (rule Q)
  with False show ?thesis by (simp add: fixjump_def Let_def)
next
  case True
  then have B using assms(1) long by (auto simp: is_jump_def)
  with True show ?thesis by (simp add: fixjump_def Let_def safely_def lthrow_def)
qed

lemma patchtestreg_safely:
  assumes "is_jump fs p" "\<And>v fs'. only_code {} fs fs' \<Longrightarrow> Q v fs'"
  shows "safely B (patchtestreg p reg) fs Q"
proof -
  let ?c = "getjumpcontrol fs p"
  have c: "0 \<le> ?c" "?c < pc fs" using assms(1) by (auto simp: getjumpcontrol_def is_jump_def)
  have "only_code {} fs (set_code ?c i fs)"
    if "GET_OPCODE (code_at fs ?c) = opnum OP_TESTSET" "GET_OPCODE i \<in> {opnum OP_TESTSET, opnum OP_TEST}" for i
    by (rule only_code_set [OF c]) (use that in \<open>auto simp: is_jump_def jump_ops_def\<close>)
  then show ?thesis using assms(2) only_code_refl
    by (auto simp: patchtestreg_def safely_def Let_def opcode_simps simp del: opnum.simps)
qed

section \<open>Patching a list\<close>

lemma patchlist_loop_safely:
  assumes "jlist fs l ps" "distinct ps" "length ps < n"
    "B \<or> 0 \<le> vt \<and> vt \<le> pc fs \<and> 0 \<le> dt \<and> dt \<le> pc fs \<and> pc fs \<le> MAXARG_sBx"
    and "\<And>fs'. only_code (set ps) fs fs' \<Longrightarrow> \<forall>p \<in> set ps. dest fs' p = vt \<or> dest fs' p = dt \<Longrightarrow> Q () fs'"
  shows "safely B (patchlist_loop n l vt reg dt) fs Q"
  using assms
proof (induction ps arbitrary: n l fs)
  case Nil
  then show ?case using only_code_refl by (cases n) auto
next
  case (Cons p ps)
  obtain m where n: "n = Suc m" using Cons.prems(3) by (cases n) auto
  have l: "l = p" "l \<noteq> NO_JUMP" "is_jump fs p" "jlist fs (getjump fs p) ps"
    using Cons.prems(1) by (auto simp: is_jump_def NO_JUMP_def)
  have p: "p \<notin> set ps" "distinct ps" using Cons.prems(2) by simp_all
  have "safely B (patchtestreg p reg) fs (\<lambda>v s. safely B (fixjump p (if v then vt else dt)) s
      (\<lambda>_ s. safely B (patchlist_loop m (getjump fs p) vt reg dt) s Q))"
  proof (rule patchtestreg_safely [OF l(3)])
    fix v f1 assume f1: "only_code {} fs f1"
    show "safely B (fixjump p (if v then vt else dt)) f1 (\<lambda>_ s. safely B (patchlist_loop m (getjump fs p) vt reg dt) s Q)"
    proof (rule fixjump_safely)
      show "is_jump f1 p" using only_codeD(3) [OF f1] l(3) by simp
      show "B \<or> 0 \<le> (if v then vt else dt) \<and> (if v then vt else dt) \<le> pc f1 \<and> pc f1 \<le> MAXARG_sBx"
        using Cons.prems(4) only_codeD(1) [OF f1] by auto
    next
      fix f2 assume f2: "only_code {p} f1 f2" "dest f2 p = (if v then vt else dt)"
      have f02: "only_code {p} fs f2" using only_code_trans [OF f1 f2(1)] by simp
      show "safely B (patchlist_loop m (getjump fs p) vt reg dt) f2 Q"
      proof (rule Cons.IH)
        show "jlist f2 (getjump fs p) ps" by (rule jlist_only_code [OF l(4) f02]) (simp add: p(1))
      next
        fix f3 assume f3: "only_code (set ps) f2 f3" "\<forall>p \<in> set ps. dest f3 p = vt \<or> dest f3 p = dt"
        have "dest f3 p = dest f2 p"
          using only_codeD(4) [OF f3(1) _ p(1)] only_codeD(3) [OF f02, of p] l(3) by (simp add: dest_def)
        then show "Q () f3" using f2(2) f3 only_code_trans [OF f02 f3(1)] by (intro Cons.prems(5)) auto
      qed (use p(2) Cons.prems(3,4) n only_codeD(1) [OF f02] in simp_all)
    qed
  qed
  then show ?case using l(1,2) by (simp add: n)
qed

lemma patchlistaux_safely:
  assumes "jlist fs l ps" "distinct ps"
    and long: "B \<or> 0 \<le> vt \<and> vt \<le> pc fs \<and> 0 \<le> dt \<and> dt \<le> pc fs \<and> pc fs \<le> MAXARG_sBx"
    and Q: "\<And>fs'. only_code (set ps) fs fs' \<Longrightarrow> \<forall>p \<in> set ps. dest fs' p = vt \<or> dest fs' p = dt \<Longrightarrow> Q () fs'"
  shows "safely B (patchlistaux l vt reg dt) fs Q"
  unfolding patchlistaux_def safely_at
  by (rule patchlist_loop_safely [OF assms(1,2) jlist_length [OF assms(1,2)] long]) (rule Q)

section \<open>Joining lists\<close>

lemma last_jump_safely:
  assumes "jlist fs l ps" "ps \<noteq> []" "length ps \<le> n"
  shows "safely B (last_jump n l) fs Q \<longleftrightarrow> Q (last ps) fs"
  using assms
proof (induction ps arbitrary: n l)
  case (Cons p ps)
  obtain m where n: "n = Suc m" using Cons.prems(3) by (cases n) auto
  have l: "l = p" "jlist fs (getjump fs p) ps" using Cons.prems(1) by auto
  show ?case using Cons.IH [OF l(2), of m] jlist_head [OF l(2)] Cons.prems(3) l(1) by (simp add: n)
qed simp

lemma jlist_append:
  assumes "jlist fs l (ps @ [p])" "is_jump fs' p" "getjump fs' p = l2" "jlist fs' l2 qs"
    and "\<And>q. q \<in> set ps \<Longrightarrow> is_jump fs' q \<and> code_at fs' q = code_at fs q"
  shows "jlist fs' l (ps @ p # qs)"
  using assms(1,5) by (induction ps arbitrary: l) (use assms(2-4) in \<open>auto simp: getjump_def\<close>)

lemma luaK_concat_safely:
  assumes "jlist fs l1 ps" "jlist fs l2 qs" "distinct (ps @ qs)" and long: "B \<or> pc fs \<le> MAXARG_sBx"
    and Q: "\<And>l fs'. only_code (set ps) fs fs' \<Longrightarrow> jlist fs' l (ps @ qs) \<Longrightarrow> Q l fs'"
  shows "safely B (luaK_concat l1 l2) fs Q"
proof -
  note h = jlist_head [OF assms(1)] jlist_head [OF assms(2)]
  consider "qs = []" | "qs \<noteq> []" "ps = []" | "qs \<noteq> []" "ps \<noteq> []" by blast
  then show ?thesis
  proof cases
    case 1
    then show ?thesis using h assms(1) Q only_code_refl by (simp add: luaK_concat_def)
  next
    case 2
    then show ?thesis using h assms(2) Q only_code_refl by (simp add: luaK_concat_def)
  next
    case 3
    define p where "p = last ps"
    define us where "us = butlast ps"
    have ps: "ps = us @ [p]" using 3(2) by (simp add: p_def us_def)
    have l2: "l2 \<in> set qs" using assms(2) 3(1) by (cases qs) auto
    then have n: "l2 \<noteq> p" using assms(3) ps by auto
    have j: "is_jump fs p" using jlist_jumps [OF assms(1), of p] ps by simp
    have b: "0 \<le> l2" "l2 \<le> pc fs" using jlist_jumps [OF assms(2) l2] by (simp_all add: is_jump_def)
    have "safely B (fixjump p l2) fs (\<lambda>_ s. Q l1 s)"
    proof (rule fixjump_safely [OF j])
      show "B \<or> 0 \<le> l2 \<and> l2 \<le> pc fs \<and> pc fs \<le> MAXARG_sBx" using b long by blast
    next
      fix fs' assume fs': "only_code {p} fs fs'" "dest fs' p = l2" "l2 \<noteq> p \<Longrightarrow> getjump fs' p = l2"
      have "jlist fs' l1 (us @ p # qs)"
      proof (rule jlist_append)
        show "jlist fs l1 (us @ [p])" using assms(1) ps by simp
        show "is_jump fs' p" using only_codeD(3) [OF fs'(1)] j by simp
        show "getjump fs' p = l2" using fs'(3) n by simp
        show "jlist fs' l2 qs" by (rule jlist_only_code [OF assms(2) fs'(1)]) (use assms(3) ps in auto)
        fix q assume q: "q \<in> set us"
        then have "is_jump fs q" "q \<noteq> p" using jlist_jumps [OF assms(1), of q] assms(3) ps by auto
        with only_codeD(3,4) [OF fs'(1)] show "is_jump fs' q \<and> code_at fs' q = code_at fs q" by simp
      qed
      then show "Q l1 fs'" using ps only_code_mono [OF fs'(1), of "set ps"] by (intro Q) simp_all
    qed
    moreover have "safely B (\<lambda>fs. last_jump (jump_fuel fs) l1 fs) fs R \<longleftrightarrow> R p fs" for R
      unfolding safely_at p_def
      by (rule last_jump_safely [OF assms(1) 3(2)]) (use jlist_length [OF assms(1)] assms(3) in simp)
    ultimately show ?thesis using h 3 by (simp add: luaK_concat_def)
  qed
qed

section \<open>Pending jumps\<close>

lemma dischargejpc_safely:
  assumes "jlist fs (fs_jpc fs) js" "distinct js" "B \<or> pc fs \<le> MAXARG_sBx"
    and "\<And>fs'. only_code (set js) fs fs' \<Longrightarrow> \<forall>p \<in> set js. dest fs' p = pc fs \<Longrightarrow> Q () (fs'\<lparr>fs_jpc := NO_JUMP\<rparr>)"
  shows "safely B dischargejpc fs Q"
  unfolding dischargejpc_def safely_simps safely_at
  by (rule patchlistaux_safely [OF assms(1,2)]) (use assms(3,4) in \<open>auto simp: pc_def\<close>)

lemma jlist_same_code:
  "fs_code fs' = fs_code fs \<Longrightarrow> jlist fs' l ps \<longleftrightarrow> jlist fs l ps"
proof -
  assume "fs_code fs' = fs_code fs"
  then have "is_jump fs' p = is_jump fs p" "getjump fs' p = getjump fs p" for p
    by (simp_all add: is_jump_def getjump_def code_at_def pc_def)
  then show ?thesis by (induction ps arbitrary: l) auto
qed

lemma luaK_code_safely:
  assumes "jlist fs (fs_jpc fs) js" "distinct js" "B \<or> pc fs \<le> MAXARG_sBx"
    and Q: "\<And>fs'. pc fs' = pc fs + 1 \<Longrightarrow> fs_jpc fs' = NO_JUMP \<Longrightarrow> code_at fs' (pc fs) = i
      \<Longrightarrow> \<forall>q \<in> set js. dest fs' q = pc fs
      \<Longrightarrow> \<forall>q. is_jump fs q \<longrightarrow> q \<notin> set js \<longrightarrow> code_at fs' q = code_at fs q \<Longrightarrow> Q (pc fs) fs'"
  shows "safely B (luaK_code i line) fs Q"
  unfolding luaK_code_def safely_simps
proof (rule dischargejpc_safely [OF assms(1-3)])
  fix f1 assume f1: "only_code (set js) fs f1" "\<forall>p \<in> set js. dest f1 p = pc fs"
  let ?f = "f1\<lparr>fs_jpc := NO_JUMP\<rparr>"
  let ?f2 = "?f\<lparr>fs_code := fs_code ?f @ [i], fs_lineinfo := fs_lineinfo ?f @ [line]\<rparr>"
  have p: "pc f1 = pc fs" using only_codeD(1) [OF f1(1)] .
  have c: "code_at ?f2 q = code_at f1 q" if "0 \<le> q" "q < pc fs" for q
    using that p by (simp add: code_at_def pc_def nth_append nat_less_iff)
  have j: "is_jump fs q" if "q \<in> set js" for q using jlist_jumps [OF assms(1) that] .
  have "Q (pc fs) ?f2"
  proof (rule Q)
    show "pc ?f2 = pc fs + 1" "fs_jpc ?f2 = NO_JUMP" using p by (simp_all add: pc_def)
    show "code_at ?f2 (pc fs) = i" using p by (simp add: code_at_def pc_def nth_append)
    show "\<forall>q \<in> set js. dest ?f2 q = pc fs" using f1(2) c j by (auto simp: dest_def is_jump_def)
    show "\<forall>q. is_jump fs q \<longrightarrow> q \<notin> set js \<longrightarrow> code_at ?f2 q = code_at fs q"
      using only_codeD(4) [OF f1(1)] c by (auto simp: is_jump_def)
  qed
  then show "if pc ?f \<ge> MAX_INT then safely B (lthrow (CodeRun ''code size overflow'')) ?f Q
      else safely B (\<lambda>fs. Inr (pc fs, fs\<lparr>fs_code := fs_code fs @ [i], fs_lineinfo := fs_lineinfo fs @ [line]\<rparr>)) ?f Q"
    using p assms(3) by (auto simp: safely_def lthrow_def pc_def MAX_INT_def INT_MAX_def op_limits op_layout)
qed

lemma patchtohere_safely:
  assumes "jlist fs (fs_jpc fs) js" "jlist fs l ps" "distinct (js @ ps)" "B \<or> pc fs \<le> MAXARG_sBx"
    and Q: "\<And>fs'. pc fs' = pc fs \<Longrightarrow> jlist fs' (fs_jpc fs') (js @ ps)
      \<Longrightarrow> \<forall>q. is_jump fs q \<longrightarrow> is_jump fs' q \<and> (q \<notin> set (js @ ps) \<longrightarrow> code_at fs' q = code_at fs q) \<Longrightarrow> Q () fs'"
  shows "safely B (luaK_patchtohere l) fs Q"
proof -
  let ?f = "fs\<lparr>fs_lasttarget := pc fs\<rparr>"
  have s: "fs_code ?f = fs_code fs" by simp
  have j: "is_jump ?f q = is_jump fs q" "code_at ?f q = code_at fs q" for q
    by (simp_all add: is_jump_def code_at_def pc_def)
  have "safely B (luaK_concat (fs_jpc fs) l) ?f (\<lambda>l s. Q () (s\<lparr>fs_jpc := l\<rparr>))"
  proof (rule luaK_concat_safely)
    show "jlist ?f (fs_jpc fs) js" "jlist ?f l ps" using assms(1,2) jlist_same_code [OF s] by blast+
    fix k f1 assume f1: "only_code (set js) ?f f1" "jlist f1 k (js @ ps)"
    have "is_jump (f1\<lparr>fs_jpc := k\<rparr>) q = is_jump f1 q" "code_at (f1\<lparr>fs_jpc := k\<rparr>) q = code_at f1 q" for q
      by (simp_all add: is_jump_def code_at_def pc_def)
    moreover have "jlist (f1\<lparr>fs_jpc := k\<rparr>) k (js @ ps)" using f1(2) jlist_same_code [of "f1\<lparr>fs_jpc := k\<rparr>" f1] by simp
    moreover have "pc (f1\<lparr>fs_jpc := k\<rparr>) = pc fs" using only_codeD(1) [OF f1(1)] by (simp add: pc_def)
    ultimately show "Q () (f1\<lparr>fs_jpc := k\<rparr>)"
      using only_codeD(3,4) [OF f1(1)] j by (intro Q) auto
  qed (use assms(3,4) in \<open>simp_all add: pc_def\<close>)
  then show ?thesis by (simp add: luaK_patchtohere_def luaK_getlabel_def safely_at)
qed

text \<open>
  C40: every jump of a list reaches its target. If a list of jumps is patched to the current
  position, then the next instruction that is emitted is the target of each of them, and of the
  jumps that were waiting before; no other jump changes. If it is patched to an earlier position,
  then each jumps there. Both return unless the function has more code than an offset can span.
\<close>

theorem jumps_land:
  assumes "jlist fs (fs_jpc fs) js" "jlist fs l ps" "distinct (js @ ps)"
  shows "safely (MAXARG_sBx < pc fs) (lseq (luaK_patchtohere l) (luaK_code i line)) fs (\<lambda>p fs'.
      p = pc fs \<and> pc fs' = p + 1 \<and> code_at fs' p = i \<and> fs_jpc fs' = NO_JUMP
      \<and> (\<forall>q \<in> set (js @ ps). dest fs' q = p)
      \<and> (\<forall>q. is_jump fs q \<longrightarrow> q \<notin> set (js @ ps) \<longrightarrow> code_at fs' q = code_at fs q))
    \<and> (0 \<le> target \<and> target < pc fs \<longrightarrow> safely (MAXARG_sBx < pc fs) (luaK_patchlist l target) fs (\<lambda>u fs'.
      pc fs' = pc fs \<and> (\<forall>q \<in> set ps. dest fs' q = target)
      \<and> (\<forall>q. is_jump fs q \<longrightarrow> q \<notin> set ps \<longrightarrow> code_at fs' q = code_at fs q)))"
proof (intro conjI impI)
  show "safely (MAXARG_sBx < pc fs) (lseq (luaK_patchtohere l) (luaK_code i line)) fs (\<lambda>p fs'.
      p = pc fs \<and> pc fs' = p + 1 \<and> code_at fs' p = i \<and> fs_jpc fs' = NO_JUMP
      \<and> (\<forall>q \<in> set (js @ ps). dest fs' q = p)
      \<and> (\<forall>q. is_jump fs q \<longrightarrow> q \<notin> set (js @ ps) \<longrightarrow> code_at fs' q = code_at fs q))"
    unfolding safely_simps
  proof (rule patchtohere_safely [OF assms])
    fix f1 assume f1: "pc f1 = pc fs" "jlist f1 (fs_jpc f1) (js @ ps)"
      "\<forall>q. is_jump fs q \<longrightarrow> is_jump f1 q \<and> (q \<notin> set (js @ ps) \<longrightarrow> code_at f1 q = code_at fs q)"
    show "safely (MAXARG_sBx < pc fs) (luaK_code i line) f1 (\<lambda>p fs'.
      p = pc fs \<and> pc fs' = p + 1 \<and> code_at fs' p = i \<and> fs_jpc fs' = NO_JUMP
      \<and> (\<forall>q \<in> set (js @ ps). dest fs' q = p)
      \<and> (\<forall>q. is_jump fs q \<longrightarrow> q \<notin> set (js @ ps) \<longrightarrow> code_at fs' q = code_at fs q))"
      by (rule luaK_code_safely [OF f1(2) assms(3)]) (use f1(1,3) in auto)
  qed auto
next
  assume t: "0 \<le> target \<and> target < pc fs"
  have "safely (MAXARG_sBx < pc fs) (patchlistaux l target NO_REG target) fs (\<lambda>u fs'.
      pc fs' = pc fs \<and> (\<forall>q \<in> set ps. dest fs' q = target)
      \<and> (\<forall>q. is_jump fs q \<longrightarrow> q \<notin> set ps \<longrightarrow> code_at fs' q = code_at fs q))"
    by (rule patchlistaux_safely [OF assms(2)]) (use assms(3) only_codeD t in auto)
  with t show "safely (MAXARG_sBx < pc fs) (luaK_patchlist l target) fs (\<lambda>u fs'.
      pc fs' = pc fs \<and> (\<forall>q \<in> set ps. dest fs' q = target)
      \<and> (\<forall>q. is_jump fs q \<longrightarrow> q \<notin> set ps \<longrightarrow> code_at fs' q = code_at fs q))"
    by (simp add: luaK_patchlist_def)
qed

text \<open>Two jumps in a list: the second is chained to the first.\<close>

definition two_jumps :: FuncState where
  "two_jumps = sample_fs\<lparr>fs_code := [CREATE_ABx (opnum OP_JMP) 0 (NO_JUMP + MAXARG_sBx), CREATE_ABx (opnum OP_JMP) 0 (MAXARG_sBx - 2)],
     fs_lineinfo := [1, 1]\<rparr>"

lemma two_jumps_list: "jlist two_jumps 1 [1, 0]"
  by code_simp

theorem jumps_land_witness:
  "safely False (lseq (luaK_patchtohere 1) (luaK_code 7 1)) two_jumps
     (\<lambda>p fs'. p = pc two_jumps \<and> dest fs' 0 = p \<and> dest fs' 1 = p \<and> code_at fs' p = 7)"
proof -
  have "jlist two_jumps (fs_jpc two_jumps) []" by (simp add: two_jumps_def sample_fs_def)
  then have j: "jlist two_jumps (fs_jpc two_jumps) []" "distinct ([] @ [1, 0 :: int])" by simp_all
  have short: "(MAXARG_sBx < pc two_jumps) = False" by (simp add: two_jumps_def pc_def op_limits op_layout)
  show ?thesis
    by (rule safely_mono [OF conjunct1 [OF jumps_land [OF j(1) two_jumps_list j(2), of 7 1 0, unfolded short]]]) simp
qed

end
