(* ===== verification/Lexer_Types.thy ===== *)
theory Lexer_Types
  imports Lexer_Props
begin

text \<open>
  The tokens are well typed: the semantic information that the parser reads from a token is the
  one that goes with its kind, and its strings are in the string table.
\<close>

section \<open>Types\<close>

text \<open>The mark of a reserved word is its position in the list of tokens.\<close>

definition words_ok :: "stringtable \<Rightarrow> bool" where
  "words_ok g \<longleftrightarrow> (\<forall>p ts. objs g p = Some ts \<longrightarrow> uint (reserved ts) \<le> int NUM_RESERVED)"

definition is_string :: "stringtable \<Rightarrow> bool \<Rightarrow> SemInfo \<Rightarrow> bool" where
  "is_string g name s \<longleftrightarrow> (\<exists>p ts. s = SemString p \<and> objs g p = Some ts \<and> (name \<longrightarrow> reserved ts = 0))"

text \<open>A token is a character, or a reserved word or other terminal symbol.\<close>

definition tok_typed :: "stringtable \<Rightarrow> Token \<Rightarrow> bool" where
  "tok_typed g t \<longleftrightarrow>
     (0 \<le> token t \<and> token t < 256 \<or> FIRST_RESERVED \<le> token t \<and> token t \<le> tk TK_EOS)
   \<and> (token t = tk TK_NUMBER \<longrightarrow> (\<exists>r. seminfo t = SemNumber r))
   \<and> (token t = tk TK_NAME \<longrightarrow> is_string g True (seminfo t))
   \<and> (token t = tk TK_STRING \<longrightarrow> is_string g False (seminfo t))"

text \<open>A result of the scanner, whatever the token held before.\<close>

definition res_typed :: "stringtable \<Rightarrow> int \<times> SemInfo option \<Rightarrow> bool" where
  "res_typed g r \<longleftrightarrow> (\<forall>t. tok_typed g (set_token t (fst r) (snd r)))"

definition gives :: "'a lex \<Rightarrow> (stringtable \<Rightarrow> 'a \<Rightarrow> bool) \<Rightarrow> bool" where
  "gives m T \<longleftrightarrow> (\<forall>ls x ls'. cur_ok ls \<longrightarrow> words_ok (lstrings ls) \<longrightarrow> m ls = Inr (x, ls') \<longrightarrow> T (lstrings ls') x)"

section \<open>Rules\<close>

lemma words_ok_grows: 
  assumes "words_ok g" "str_grows g g'"
  shows "words_ok g'"
  unfolding words_ok_def
proof (intro allI impI)
  fix p us assume "objs g' p = Some us"
  then have "reserved us = 0 \<or> (\<exists>ts. objs g p = Some ts \<and> reserved ts = reserved us)"
    using assms(2) by (auto simp: str_grows_def)
  then show "uint (reserved us) \<le> int NUM_RESERVED" using assms(1) unfolding words_ok_def by (metis unsigned_0 of_nat_0_le_iff)
qed

lemma keepsD:
  assumes "keeps m" "m ls = Inr (x, ls')" "cur_ok ls" "words_ok (lstrings ls)"
  shows "cur_ok ls'" "words_ok (lstrings ls')"
  using assms words_ok_grows by (auto simp: keeps_def keeps_to_def)

lemma givesI:
  "(\<And>ls x ls'. cur_ok ls \<Longrightarrow> words_ok (lstrings ls) \<Longrightarrow> m ls = Inr (x, ls') \<Longrightarrow> T (lstrings ls') x) \<Longrightarrow> gives m T"
  unfolding gives_def by blast

lemma givesD:
  "gives m T \<Longrightarrow> cur_ok ls \<Longrightarrow> words_ok (lstrings ls) \<Longrightarrow> m ls = Inr (x, ls') \<Longrightarrow> T (lstrings ls') x"
  unfolding gives_def by blast

lemma gives_lret: "(\<And>g. T g x) \<Longrightarrow> gives (lret x) T"
  by (rule givesI) (simp add: lret_def)

lemma gives_lif: assumes "gives a T" "gives b T" shows "gives (lif c a b) T"
proof (rule givesI)
  fix ls x ls' assume s: "cur_ok ls" "words_ok (lstrings ls)" and r: "lif c a b ls = Inr (x, ls')"
  from r have "a ls = Inr (x, ls') \<or> b ls = Inr (x, ls')" by (simp add: lif_def split: if_splits)
  then show "T (lstrings ls') x" using givesD [OF assms(1) s] givesD [OF assms(2) s] by blast
qed

lemma gives_if: "gives a T \<Longrightarrow> gives b T \<Longrightarrow> gives (if p then a else b) T"
  by (cases p) (simp_all only: if_True if_False)

lemma gives_error: "gives (luaX_lexerror msg t :: 'a lex) T"
proof (rule givesI)
  fix ls ls' and x :: 'a assume "luaX_lexerror msg t ls = Inr (x, ls')"
  then have False by (auto simp: luaX_lexerror_def split: if_splits sum.splits)
  then show "T (lstrings ls') x" ..
qed

lemmas gives_rules = gives_lret gives_lif gives_if gives_error

lemma gives_lbind:
  assumes "keeps m" "\<And>x. gives (f x) T"
  shows "gives (lbind m f) T"
proof (rule givesI)
  fix ls x ls' assume s: "cur_ok ls" "words_ok (lstrings ls)" and "lbind m f ls = Inr (x, ls')"
  then obtain y l where r: "m ls = Inr (y, l)" "f y l = Inr (x, ls')" by auto
  show "T (lstrings ls') x" by (rule givesD [OF assms(2) keepsD [OF assms(1) r(1) s] r(2)])
qed

lemma gives_lseq: "keeps m \<Longrightarrow> gives f T \<Longrightarrow> gives (lseq m f) T"
  unfolding lseq_def by (rule gives_lbind)

lemma gives_result:
  assumes "gives m S" "\<And>g x. S g x \<Longrightarrow> T g (f x)"
  shows "gives (lbind m (\<lambda>x. lret (f x))) T"
proof (rule givesI)
  fix ls x ls' assume s: "cur_ok ls" "words_ok (lstrings ls)" and "lbind m (\<lambda>x. lret (f x)) ls = Inr (x, ls')"
  then obtain y where "m ls = Inr (y, ls')" "x = f y" by (auto simp: lret_def)
  then show "T (lstrings ls') x" using assms(2) givesD [OF assms(1) s] by blast
qed

lemma gives_reads: assumes "\<And>s. cur_ok s \<Longrightarrow> gives (m s) T" shows "gives (\<lambda>ls. m ls ls) T"
  by (rule givesI) (rule givesD [OF assms])

lemma typed_rules:
  "0 \<le> k \<and> k < 256 \<or> FIRST_RESERVED \<le> k \<and> k \<le> tk TK_EOS \<Longrightarrow> k \<notin> {tk TK_NUMBER, tk TK_NAME, tk TK_STRING}
    \<Longrightarrow> res_typed g (k, None)"
  "res_typed g (tk TK_NUMBER, Some (SemNumber r))"
  "is_string g True (SemString p) \<Longrightarrow> res_typed g (tk TK_NAME, Some (SemString p))"
  "is_string g False (SemString p) \<Longrightarrow> res_typed g (tk TK_STRING, Some (SemString p))"
  by (auto simp: res_typed_def tok_typed_def set_token_def FIRST_RESERVED_def)

section \<open>The scanner\<close>

lemma newstring_gives: "gives (luaX_newstring E str) (\<lambda>g p. is_string g False (SemString p))"
proof -
  have "objs g' p \<noteq> None" if "luaS_newlstr al g s = Some (p, g')" for al g s p g'
    using that by (auto simp: luaS_newlstr_def newlstr_def luaS_resize_def Let_def split: option.splits if_splits)
  then show ?thesis
    by (fastforce simp: gives_def luaX_newstring_def is_string_def Let_def split: option.splits sum.splits)
qed

lemma char_typed: "res_typed g (of_char c, None)"
proof -
  have "(of_char c :: nat) < 256" by (rule nat_of_char_less_256)
  then have "(of_char c :: int) < 256" "0 \<le> (of_char c :: int)" by (metis of_nat_less_numeral_iff of_nat_of_char, metis of_nat_0_le_iff of_nat_of_char)
  then show ?thesis by (intro typed_rules) (auto simp: FIRST_RESERVED_def)
qed

lemma tok_char_gives: "gives (tok_char c) res_typed"
  unfolding tok_char_def by (intro gives_rules char_typed)

lemma tok_reserved_gives: "r \<notin> {TK_NUMBER, TK_NAME, TK_STRING} \<Longrightarrow> gives (tok_reserved r) res_typed"
  unfolding tok_reserved_def by (cases r) (intro gives_rules typed_rules; simp add: FIRST_RESERVED_def)+

lemma lex_equal_gives: "r \<notin> {TK_NUMBER, TK_NAME, TK_STRING} \<Longrightarrow> gives (lex_equal c r) res_typed"
  unfolding lex_equal_def by (intro gives_rules gives_lseq tok_char_gives tok_reserved_gives keeps_basic)

lemma lex_number_gives: "gives (lex_number E) res_typed"
  unfolding lex_number_def by (intro gives_lbind gives_rules keeps_read_numeral typed_rules)

lemma lex_dots_gives: "gives (lex_dots E) res_typed"
  unfolding lex_dots_def
  by (intro gives_lseq gives_lbind gives_rules keeps_save_and_next keeps_check_next tok_char_gives lex_number_gives
      tok_reserved_gives) simp_all

lemma lex_name_gives: "gives (lex_name E) res_typed"
proof -
  have name: "gives (\<lambda>ls. lbind (luaX_newstring E (f ls)) (\<lambda>p ls.
       let r = (case objs (lstrings ls) p of Some ts \<Rightarrow> reserved ts | None \<Rightarrow> 0) in
       if r > 0 then Inr ((uint r - 1 + FIRST_RESERVED, None), ls)
       else Inr ((tk TK_NAME, Some (SemString p)), ls)) ls) res_typed" for f
  proof (rule givesI)
    fix ls x ls' assume s: "cur_ok ls" "words_ok (lstrings ls)" and "lbind (luaX_newstring E (f ls)) (\<lambda>p ls.
       let r = (case objs (lstrings ls) p of Some ts \<Rightarrow> reserved ts | None \<Rightarrow> 0) in
       if r > 0 then Inr ((uint r - 1 + FIRST_RESERVED, None), ls)
       else Inr ((tk TK_NAME, Some (SemString p)), ls)) ls = Inr (x, ls')"
    then obtain p where r: "luaX_newstring E (f ls) ls = Inr (p, ls')"
      and x: "x = (let r = (case objs (lstrings ls') p of Some ts \<Rightarrow> reserved ts | None \<Rightarrow> 0) in
         if r > 0 then (uint r - 1 + FIRST_RESERVED, None) else (tk TK_NAME, Some (SemString p)))"
      by (auto simp: Let_def split: if_splits)
    from givesD [OF newstring_gives s r] obtain ts where ts: "objs (lstrings ls') p = Some ts" by (auto simp: is_string_def)
    have "uint (reserved ts) \<le> 21" 
      using keepsD(2) [OF keeps_basic(5) r s] ts by (simp add: words_ok_def NUM_RESERVED_def)
    moreover have "0 \<le> uint (reserved ts)" by simp
    ultimately have "res_typed (lstrings ls') (uint (reserved ts) - 1 + FIRST_RESERVED, None)" if "reserved ts \<noteq> 0"
      using that by (intro typed_rules) (auto simp: FIRST_RESERVED_def uint_0_iff [symmetric] order_le_less)
    then show "res_typed (lstrings ls') x"
      using ts x by (auto simp: Let_def is_string_def word_gt_0 intro!: typed_rules [simplified])
  qed
  show ?thesis unfolding lex_name_def
    by (rule gives_lseq, rule keeps_save_and_next, rule gives_lseq, rule keeps_lwhile, rule keeps_save_and_next, rule name)
qed

lemma long_string_gives: "gives (lbind (read_long_string E True n) (\<lambda>p. lret (tk TK_STRING, map_option SemString p))) res_typed"
proof -
  have "gives (read_long_string E True n) (\<lambda>g p. \<exists>q. p = Some q \<and> is_string g False (SemString q))"
    unfolding read_long_string_def if_True
    apply (rule gives_lseq, rule keeps_save_and_next)
    apply (rule gives_lseq, intro lex_rules)
    apply (rule gives_lseq, rule keeps_fueled [OF keeps_long_string_loop])
    apply (rule gives_reads [where m = "\<lambda>ls. lbind (luaX_newstring E (f ls)) g" for f g])
    apply (rule gives_result, rule newstring_gives, simp)
    done
  then show ?thesis by (rule gives_result) (auto intro: typed_rules [simplified])
qed

lemma quoted_gives: "gives (\<lambda>ls. lbind (read_string E (current ls)) (\<lambda>p. lret (tk TK_STRING, Some (SemString p))) ls) res_typed"
proof -
  have "gives (read_string E d) (\<lambda>g p. is_string g False (SemString p))" for d
    unfolding read_string_def
    by (rule gives_lseq, rule keeps_save_and_next, rule gives_lseq, rule keeps_lwhile, rule keeps_read_string_step,
        rule gives_lseq, rule keeps_save_and_next, rule gives_reads, rule newstring_gives)
  then have "gives (lbind (read_string E d) (\<lambda>p. lret (tk TK_STRING, Some (SemString p)))) res_typed" for d
    by (rule gives_result) (rule typed_rules)
  then show ?thesis by (rule gives_reads)
qed

lemma other_gives:
  assumes "gives x res_typed" "gives y res_typed" "gives z res_typed"
  shows "gives (lif (\<lambda>ls. current ls = EOZ) (tok_reserved TK_EOS)
     (lif a x (lif b y (lif c z (\<lambda>ls. let c = current ls in lseq lnext (lret (c, None)) ls))))) res_typed"
proof (rule givesI)
  fix ls r ls' assume s: "cur_ok ls" "words_ok (lstrings ls)" and e: "lif (\<lambda>ls. current ls = EOZ) (tok_reserved TK_EOS)
     (lif a x (lif b y (lif c z (\<lambda>ls. let c = current ls in lseq lnext (lret (c, None)) ls)))) ls = Inr (r, ls')"
  then consider "tok_reserved TK_EOS ls = Inr (r, ls')" | "x ls = Inr (r, ls')" | "y ls = Inr (r, ls')" | "z ls = Inr (r, ls')"
    | "current ls \<noteq> EOZ" "r = (current ls, None)"
    by (auto simp: lif_def Let_def lret_def split: if_splits)
  then show "res_typed (lstrings ls') r"
  proof cases
    case 1
    show ?thesis by (rule givesD [OF tok_reserved_gives s 1]) simp
  next
    case 5
    then show ?thesis using s(1) by (auto simp: cur_ok_def intro!: typed_rules)
  qed (rule givesD [OF assms(1) s] givesD [OF assms(2) s] givesD [OF assms(3) s], assumption)+
qed

lemma llex_loop_gives: "gives (llex_loop E n) res_typed"
proof (induction n)
  case (Suc n)
  have nl: "gives (lseq inclinenumber (llex_loop E n)) res_typed" "gives (lseq lnext (llex_loop E n)) res_typed"
    "gives (lseq lnext (lif c (tok_char d) (lseq lnext (lseq (lex_comment E) (llex_loop E n))))) res_typed" for c d
    by (intro gives_lseq gives_lif tok_char_gives Suc keeps_inclinenumber keeps_basic keeps_lex_comment)+
  show ?case
    unfolding llex_loop.simps
    by (rule gives_lif nl other_gives gives_lbind gives_if keeps_skip_sep long_string_gives tok_char_gives gives_error
        lex_equal_gives quoted_gives lex_dots_gives lex_number_gives lex_name_gives | simp only: insert_iff; simp)+
qed (simp add: gives_def)

section \<open>The property\<close>

lemma llex_gives: "gives (llex E) res_typed"
proof -
  have "gives (\<lambda>ls. llex_loop E (Suc (lex_left ls)) ls) res_typed"
    by (rule gives_reads [where m = "\<lambda>ls. llex_loop E (Suc (lex_left ls))"]) (rule llex_loop_gives)
  then show ?thesis unfolding llex_def by (rule gives_lseq [OF keeps_basic(4)])
qed

lemma is_string_grows: "is_string g b s \<Longrightarrow> str_grows g g' \<Longrightarrow> is_string g' b s"
  by (fastforce simp: is_string_def str_grows_def)

lemma tok_typed_grows: "tok_typed g t \<Longrightarrow> str_grows g g' \<Longrightarrow> tok_typed g' t"
  using is_string_grows unfolding tok_typed_def by blast

text \<open>
  C11: the tokens are well typed. From a state in which \<open>current\<close> is a character or \<open>EOZ\<close>, the marks of
  strings are positions of reserved words and the token that was looked ahead is well typed, \<open>luaX_next\<close>
  leaves a current token that is well typed: a character, a reserved word or another terminal symbol; a number
  for \<open>TK_NUMBER\<close>; for \<open>TK_STRING\<close> and \<open>TK_NAME\<close> a string of the string table, which for a name is not a
  reserved word. \<open>luaX_lookahead\<close> does the same for the token ahead, and both keep these conditions.
\<close>

theorem tokens_typed:
  assumes "cur_ok ls" "words_ok (lstrings ls)" "tok_typed (lstrings ls) (lookahead ls)"
  shows "(case luaX_next E ls of Inl e \<Rightarrow> True
    | Inr (u, ls') \<Rightarrow> cur_ok ls' \<and> words_ok (lstrings ls') \<and> tok_typed (lstrings ls') (lookahead ls')
        \<and> tok_typed (lstrings ls') (tok ls'))
    \<and> (case luaX_lookahead E ls of Inl e \<Rightarrow> True
    | Inr (u, ls') \<Rightarrow> cur_ok ls' \<and> words_ok (lstrings ls') \<and> tok_typed (lstrings ls') (lookahead ls')
        \<and> tok ls' = tok ls \<and> (tok_typed (lstrings ls) (tok ls) \<longrightarrow> tok_typed (lstrings ls') (tok ls')))"
proof
  have scan: "cur_ok l' \<and> words_ok (lstrings l') \<and> str_grows (lstrings l) (lstrings l') \<and> lookahead l' = lookahead l
      \<and> tok l' = tok l \<and> tok_typed (lstrings l') (set_token t k s)"
    if "llex E l = Inr ((k, s), l')" "cur_ok l" "words_ok (lstrings l)" for l l' k s t
    using givesD [OF llex_gives that(2,3,1)] keepsD [OF keeps_llex that] keeps_llex [of E] that(1)
    by (auto simp: res_typed_def keeps_def keeps_to_def)
  have eos: "tok_typed g (t\<lparr>token := tk TK_EOS\<rparr>)" for g t by (simp add: tok_typed_def FIRST_RESERVED_def)
  let ?l = "ls\<lparr>lastline := linenumber ls\<rparr>"
  have l: "cur_ok ?l" using assms(1) by (simp add: cur_ok_def)
  show "case luaX_next E ls of Inl e \<Rightarrow> True
    | Inr (u, ls') \<Rightarrow> cur_ok ls' \<and> words_ok (lstrings ls') \<and> tok_typed (lstrings ls') (lookahead ls')
        \<and> tok_typed (lstrings ls') (tok ls')"
  proof (cases "token (lookahead ls) = tk TK_EOS")
    case False
    then show ?thesis using assms eos by (simp add: luaX_next_def lif_def lseq_def lbind_def lmodify_def cur_ok_def)
  next
    case True
    show ?thesis
    proof (cases "llex E ?l")
      case (Inl e)
      with True show ?thesis by (simp add: luaX_next_def lif_def lseq_def lbind_def lmodify_def)
    next
      case (Inr r)
      obtain k s l' where r: "r = ((k, s), l')" by (metis prod.exhaust)
      note c = scan [OF Inr [unfolded r] l, of "tok ls"]
      have "tok_typed (lstrings l') (lookahead l')" using tok_typed_grows [OF assms(3)] c assms(2) by simp
      with True Inr r c assms(2) show ?thesis
        by (simp add: luaX_next_def lif_def lseq_def lbind_def lmodify_def cur_ok_def)
    qed
  qed
  show "case luaX_lookahead E ls of Inl e \<Rightarrow> True
    | Inr (u, ls') \<Rightarrow> cur_ok ls' \<and> words_ok (lstrings ls') \<and> tok_typed (lstrings ls') (lookahead ls')
        \<and> tok ls' = tok ls \<and> (tok_typed (lstrings ls) (tok ls) \<longrightarrow> tok_typed (lstrings ls') (tok ls'))"
  proof (cases "llex E ls")
    case (Inl e)
    then show ?thesis by (simp add: luaX_lookahead_def lbind_def)
  next
    case (Inr r)
    obtain k s l' where r: "r = ((k, s), l')" by (metis prod.exhaust)
    note c = scan [OF Inr [unfolded r] assms(1,2), of "lookahead ls"]
    have "tok_typed (lstrings ls) (tok ls) \<Longrightarrow> tok_typed (lstrings l') (tok ls)" using tok_typed_grows c by blast
    with Inr r c show ?thesis
      by (simp add: luaX_lookahead_def lbind_def lmodify_def cur_ok_def)
  qed
qed

theorem tokens_typed_witness:
  "(case luaX_next lexer_env sample_lex of Inl e \<Rightarrow> True
    | Inr (u, ls') \<Rightarrow> cur_ok ls' \<and> words_ok (lstrings ls') \<and> tok_typed (lstrings ls') (lookahead ls')
        \<and> tok_typed (lstrings ls') (tok ls'))
    \<and> (case luaX_lookahead lexer_env sample_lex of Inl e \<Rightarrow> True
    | Inr (u, ls') \<Rightarrow> cur_ok ls' \<and> words_ok (lstrings ls') \<and> tok_typed (lstrings ls') (lookahead ls')
        \<and> tok ls' = tok sample_lex
        \<and> (tok_typed (lstrings sample_lex) (tok sample_lex) \<longrightarrow> tok_typed (lstrings ls') (tok ls')))"
  by (rule tokens_typed)
    (simp_all add: sample_lex_def cur_ok_def words_ok_def tok_typed_def FIRST_RESERVED_def sample_strt_def NUM_RESERVED_def)

end
