(* ===== verification/Parser.thy ===== *)
theory Parser
  imports Lexer Code_Exp Undump
begin

text \<open>
  The parser (\<open>lparser.c\<close>): states, tokens, variables, blocks and functions. Its functions are
  actions on the state of the lexer and the functions that are being compiled, innermost first
  (the chain \<open>fs->prev\<close>). The actions of the lexer and of the code generator are lifted to it:
  both work on the table \<open>h\<close> of the current function.
\<close>

unbundle bit_operations_syntax

section \<open>State\<close>

record BlockCnt =
  breaklist :: int
  bl_nactvar :: int
  bl_upval :: bool
  isbreakable :: bool

text \<open>
  A function under compilation: the part that the code generator uses (\<open>gen\<close>), the address of its
  table \<open>h\<close>, the variables, the active blocks, and the other fields of its prototype.
\<close>

record FuncParse =
  gen :: FuncState
  pf_h :: ptr
  pf_locvars :: "LocVar list"
  pf_actvar :: "int list"
  pf_upvalues :: "(expkind \<times> int) list"
  pf_upnames :: "ptr list"
  pf_bl :: "BlockCnt list"
  pf_p :: "Proto list"
  pf_is_vararg :: u8
  pf_numparams :: u8
  pf_linedefined :: int
  pf_lastlinedefined :: int

text \<open>\<open>nCcalls\<close> is the field of the Lua state, \<open>ps_source\<close> is \<open>ls->source\<close>.\<close>

record PState =
  ps_ls :: LexState
  ps_source :: ptr
  ps_fs :: "FuncParse list"
  nCcalls :: int

text \<open>The environments of the lexer and the code generator, and the address of a new table.\<close>

record parse_env =
  p_lex :: lex_env
  p_code :: code_env
  p_newtable :: "PState \<Rightarrow> ptr"

text \<open>
  The errors: those of the lexer (among them all syntax errors) and of the code generator; too many
  nested calls and a loop without end, which the model needs for its fuel; and the use of \<open>ls->fs\<close>
  when there is no function.
\<close>

datatype parse_error = PLex lex_error | PCode code_error | PDepth | PLoop | PNull

type_synonym 'a parse = "(PState, parse_error, 'a) action"

definition pget :: "(PState \<Rightarrow> 'a) \<Rightarrow> 'a parse" where "pget f = (\<lambda>ps. Inr (f ps, ps))"

definition pthrow :: "parse_error \<Rightarrow> 'a parse" where "pthrow e = (\<lambda>ps. Inl e)"

definition cur_fs :: "PState \<Rightarrow> FuncParse" where "cur_fs ps = hd (ps_fs ps)"

definition cur_gen :: "PState \<Rightarrow> FuncState" where "cur_gen ps = gen (cur_fs ps)"

definition set_fs :: "(FuncParse \<Rightarrow> FuncParse) \<Rightarrow> unit parse" where
  "set_fs f = lmodify (\<lambda>ps. ps\<lparr>ps_fs := f (cur_fs ps) # tl (ps_fs ps)\<rparr>)"

definition set_gen :: "(FuncState \<Rightarrow> FuncState) \<Rightarrow> unit parse" where
  "set_gen f = set_fs (\<lambda>fs. fs\<lparr>gen := f (gen fs)\<rparr>)"

definition lexer :: "'a lex \<Rightarrow> 'a parse" where
  "lexer m = (\<lambda>ps. case ps_fs ps of
     [] \<Rightarrow> Inl PNull
   | fs # prev \<Rightarrow>
       (case m ((ps_ls ps)\<lparr>fs_h := fs_ktab (gen fs)\<rparr>) of
          Inl e \<Rightarrow> Inl (PLex e)
        | Inr (x, ls) \<Rightarrow> Inr (x, ps\<lparr>ps_ls := ls, ps_fs := fs\<lparr>gen := (gen fs)\<lparr>fs_ktab := fs_h ls\<rparr>\<rparr> # prev\<rparr>)))"

text \<open>The code generator reads \<open>ls->lastline\<close>, and reports its syntax errors through the lexer.\<close>

definition code :: "'a codegen \<Rightarrow> 'a parse" where
  "code m = (\<lambda>ps. case ps_fs ps of
     [] \<Rightarrow> Inl PNull
   | fs # prev \<Rightarrow>
       (case m ((gen fs)\<lparr>fs_lastline := lastline (ps_ls ps)\<rparr>) of
          Inl (CodeSyntax msg) \<Rightarrow> lexer (luaX_syntaxerror msg) ps
        | Inl e \<Rightarrow> Inl (PCode e)
        | Inr (x, g) \<Rightarrow> Inr (x, ps\<lparr>ps_fs := fs\<lparr>gen := g\<rparr> # prev\<rparr>)))"

definition code_env_at :: "parse_env \<Rightarrow> PState \<Rightarrow> code_env" where
  "code_env_at P ps = (p_code P)\<lparr>khash := str_hash (lstrings (ps_ls ps)), h_address := pf_h (cur_fs ps)\<rparr>"

definition codeE :: "parse_env \<Rightarrow> (code_env \<Rightarrow> 'a codegen) \<Rightarrow> 'a parse" where
  "codeE P m = (\<lambda>ps. code (m (code_env_at P ps)) ps)"

section \<open>Tokens\<close>

definition ptok :: "PState \<Rightarrow> int" where "ptok ps = token (tok (ps_ls ps))"

definition is_tok :: "int \<Rightarrow> PState \<Rightarrow> bool" where "is_tok c ps \<longleftrightarrow> ptok ps = c"

definition char_tok :: "char \<Rightarrow> int" where "char_tok c = of_char c"

definition sem_string :: "SemInfo \<Rightarrow> ptr" where
  "sem_string s = (case s of SemString p \<Rightarrow> p | _ \<Rightarrow> 0)"

definition sem_number :: "SemInfo \<Rightarrow> lua_Number" where
  "sem_number s = (case s of SemNumber r \<Rightarrow> r | _ \<Rightarrow> 0)"

definition pnext :: "parse_env \<Rightarrow> unit parse" where "pnext P = lexer (luaX_next (p_lex P))"

definition syntax_error :: "string \<Rightarrow> 'a parse" where "syntax_error msg = lexer (luaX_syntaxerror msg)"

definition pline :: "PState \<Rightarrow> int" where "pline ps = linenumber (ps_ls ps)"

text \<open>The text of a string object.\<close>

definition getstr :: "stringtable \<Rightarrow> ptr \<Rightarrow> byte list" where
  "getstr g p = (case objs g p of Some ts \<Rightarrow> chars ts | None \<Rightarrow> [])"

definition anchor_token :: "parse_env \<Rightarrow> unit parse" where
  "anchor_token P = lif (\<lambda>ps. ptok ps \<in> {tk TK_NAME, tk TK_STRING})
     (\<lambda>ps. lseq (lexer (luaX_newstring (p_lex P)
        (getstr (lstrings (ps_ls ps)) (sem_string (seminfo (tok (ps_ls ps))))))) (lret ()) ps) (lret ())"

definition token_text :: "int \<Rightarrow> string" where "token_text t = map (\<lambda>b. char_of (unat b)) (luaX_token2str t)"

definition quote :: "string \<Rightarrow> string" where "quote s = [CHR 0x27] @ s @ [CHR 0x27]"

definition error_expected :: "int \<Rightarrow> 'a parse" where
  "error_expected t = syntax_error (quote (token_text t) @ '' expected'')"

definition errorlimit :: "int \<Rightarrow> int \<Rightarrow> string \<Rightarrow> 'a parse" where
  "errorlimit line limit what = lexer (luaX_lexerror
     ((if line = 0 then ''main function has more than '' @ dec_text (nat limit) @ '' '' @ what
       else ''function at line '' @ dec_text (nat line) @ '' has more than '' @ dec_text (nat limit) @ '' '' @ what)) 0)"

text \<open>\<open>luaY_checklimit\<close> in the current function.\<close>

definition checklimit :: "int \<Rightarrow> int \<Rightarrow> string \<Rightarrow> unit parse" where
  "checklimit v l m = (\<lambda>ps. if v > l then errorlimit (pf_linedefined (cur_fs ps)) l m ps else Inr ((), ps))"

definition testnext :: "parse_env \<Rightarrow> int \<Rightarrow> bool parse" where
  "testnext P c = lif (is_tok c) (lseq (pnext P) (lret True)) (lret False)"

definition check_tok :: "int \<Rightarrow> unit parse" where
  "check_tok c = lif (\<lambda>ps. \<not> is_tok c ps) (error_expected c) (lret ())"

definition checknext :: "parse_env \<Rightarrow> int \<Rightarrow> unit parse" where
  "checknext P c = lseq (check_tok c) (pnext P)"

definition check_match :: "parse_env \<Rightarrow> int \<Rightarrow> int \<Rightarrow> int \<Rightarrow> unit parse" where
  "check_match P what who where' = lbind (testnext P what) (\<lambda>b.
     if b then lret ()
     else lif (\<lambda>ps. where' = pline ps) (error_expected what)
       (syntax_error (quote (token_text what) @ '' expected (to close '' @ quote (token_text who)
          @ '' at line '' @ dec_text (nat where') @ '')'')))"

definition str_checkname :: "parse_env \<Rightarrow> ptr parse" where
  "str_checkname P = lseq (check_tok (tk TK_NAME))
     (lbind (pget (\<lambda>ps. sem_string (seminfo (tok (ps_ls ps))))) (\<lambda>ts. lseq (pnext P) (lret ts)))"

text \<open>The fields that \<open>init_exp\<close> does not set are not read before they are set.\<close>

definition init_exp :: "expkind \<Rightarrow> int \<Rightarrow> expdesc" where
  "init_exp k i = \<lparr>ek = k, einfo = i, eaux = 0, enval = 0, et = NO_JUMP, ef = NO_JUMP\<rparr>"

definition codestring :: "parse_env \<Rightarrow> ptr \<Rightarrow> expdesc parse" where
  "codestring P s = lbind (codeE P (\<lambda>E. luaK_stringK E s)) (\<lambda>i. lret (init_exp VK i))"

definition checkname :: "parse_env \<Rightarrow> expdesc parse" where
  "checkname P = lbind (str_checkname P) (codestring P)"

section \<open>Variables\<close>

definition SHRT_MAX :: int where "SHRT_MAX = 32767"
definition LUAI_MAXVARS :: int where "LUAI_MAXVARS = 200"
definition LUAI_MAXUPVALUES :: int where "LUAI_MAXUPVALUES = 60"

text \<open>The local variable \<open>i\<close>, as an index of \<open>locvars\<close>.\<close>

definition locvar_index :: "FuncParse \<Rightarrow> int \<Rightarrow> nat" where
  "locvar_index fs i = nat (pf_actvar fs ! nat i)"

definition getlocvar :: "FuncParse \<Rightarrow> int \<Rightarrow> LocVar" where
  "getlocvar fs i = pf_locvars fs ! locvar_index fs i"

definition set_locvar :: "int \<Rightarrow> (LocVar \<Rightarrow> LocVar) \<Rightarrow> FuncParse \<Rightarrow> FuncParse" where
  "set_locvar i f fs = fs\<lparr>pf_locvars := (pf_locvars fs)[locvar_index fs i := f (getlocvar fs i)]\<rparr>"

definition registerlocalvar :: "ptr \<Rightarrow> int parse" where
  "registerlocalvar name = (\<lambda>ps.
    let n = int (length (pf_locvars (cur_fs ps))) in
    if n \<ge> SHRT_MAX then Inl (PCode (CodeRun ''too many local variables''))
    else lseq (set_fs (\<lambda>fs. fs\<lparr>pf_locvars := pf_locvars fs @ [\<lparr>varname = Some name, startpc = 0, endpc = 0\<rparr>]\<rparr>))
      (lret n) ps)"

definition new_localvar :: "ptr \<Rightarrow> int \<Rightarrow> unit parse" where
  "new_localvar name n = (\<lambda>ps.
    let nactvar = fs_nactvar (cur_gen ps) in
    lseq (checklimit (nactvar + n + 1) LUAI_MAXVARS ''local variables'')
      (lbind (registerlocalvar name) (\<lambda>r.
        set_fs (\<lambda>fs. fs\<lparr>pf_actvar := (pf_actvar fs)[nat (nactvar + n) := r]\<rparr>))) ps)"

definition new_localvarliteral :: "parse_env \<Rightarrow> string \<Rightarrow> int \<Rightarrow> unit parse" where
  "new_localvarliteral P v n = lbind (lexer (luaX_newstring (p_lex P) (bytes v))) (\<lambda>s. new_localvar s n)"

text \<open>The last \<open>nvars\<close> active variables start at the current position.\<close>

fun start_vars :: "nat \<Rightarrow> FuncParse \<Rightarrow> FuncParse" where
  "start_vars 0 fs = fs"
| "start_vars (Suc n) fs =
     start_vars n (set_locvar (fs_nactvar (gen fs) - int (Suc n)) (\<lambda>v. v\<lparr>startpc := pc (gen fs)\<rparr>) fs)"

definition adjustlocalvars :: "int \<Rightarrow> unit parse" where
  "adjustlocalvars nvars = set_fs (\<lambda>fs. start_vars (nat nvars)
     (fs\<lparr>gen := (gen fs)\<lparr>fs_nactvar := (fs_nactvar (gen fs) + nvars) mod 256\<rparr>\<rparr>))"

fun end_vars :: "nat \<Rightarrow> FuncParse \<Rightarrow> FuncParse" where
  "end_vars 0 fs = fs"
| "end_vars (Suc n) fs =
     (let i = fs_nactvar (gen fs) - 1; fs = fs\<lparr>gen := (gen fs)\<lparr>fs_nactvar := i\<rparr>\<rparr>
      in end_vars n (set_locvar i (\<lambda>v. v\<lparr>endpc := pc (gen fs)\<rparr>) fs))"

definition removevars :: "int \<Rightarrow> unit parse" where
  "removevars tolevel = set_fs (\<lambda>fs. end_vars (nat (fs_nactvar (gen fs) - tolevel)) fs)"

fun find_upvalue :: "(expkind \<times> int) list \<Rightarrow> expdesc \<Rightarrow> int \<Rightarrow> int option" where
  "find_upvalue [] v i = None"
| "find_upvalue ((k, info) # us) v i = (if k = ek v \<and> info = einfo v then Some i else find_upvalue us v (i + 1))"

text \<open>The index, and the function with the new upvalue; or the line for the error of the limit.\<close>

definition indexupvalue :: "FuncParse \<Rightarrow> ptr \<Rightarrow> expdesc \<Rightarrow> int + int \<times> FuncParse" where
  "indexupvalue fs name v =
    (case find_upvalue (pf_upvalues fs) v 0 of
       Some i \<Rightarrow> Inr (i, fs)
     | None \<Rightarrow>
         let nups = int (length (pf_upvalues fs)) in
         if nups + 1 > LUAI_MAXUPVALUES then Inl (pf_linedefined fs)
         else Inr (nups, fs\<lparr>pf_upnames := pf_upnames fs @ [name],
                pf_upvalues := pf_upvalues fs @ [(ek v, einfo v mod 256)]\<rparr>))"

fun search_loop :: "FuncParse \<Rightarrow> ptr \<Rightarrow> nat \<Rightarrow> int" where
  "search_loop fs n 0 = -1"
| "search_loop fs n (Suc i) = (if varname (getlocvar fs (int i)) = Some n then int i else search_loop fs n i)"

definition searchvar :: "FuncParse \<Rightarrow> ptr \<Rightarrow> int" where
  "searchvar fs n = search_loop fs n (nat (fs_nactvar (gen fs)))"

fun mark_block :: "int \<Rightarrow> BlockCnt list \<Rightarrow> BlockCnt list" where
  "mark_block lv [] = []"
| "mark_block lv (b # bs) =
     (if bl_nactvar b > lv then b # mark_block lv bs else b\<lparr>bl_upval := True\<rparr> # bs)"

definition markupval :: "int \<Rightarrow> FuncParse \<Rightarrow> FuncParse" where
  "markupval lv fs = fs\<lparr>pf_bl := mark_block lv (pf_bl fs)\<rparr>"

fun singlevaraux :: "FuncParse list \<Rightarrow> ptr \<Rightarrow> bool \<Rightarrow> int + expdesc \<times> FuncParse list" where
  "singlevaraux [] n base = Inr (init_exp VGLOBAL NO_REG, [])"
| "singlevaraux (fs # prev) n base =
     (let v = searchvar fs n in
      if v \<ge> 0 then Inr (init_exp VLOCAL v, (if base then fs else markupval v fs) # prev)
      else case singlevaraux prev n False of
        Inl e \<Rightarrow> Inl e
      | Inr (var, prev) \<Rightarrow>
          if ek var = VGLOBAL then Inr (var, fs # prev)
          else case indexupvalue fs n var of
            Inl e \<Rightarrow> Inl e
          | Inr (i, fs) \<Rightarrow> Inr (var\<lparr>einfo := i, ek := VUPVAL\<rparr>, fs # prev))"

definition singlevar :: "parse_env \<Rightarrow> expdesc parse" where
  "singlevar P =
    lbind (str_checkname P) (\<lambda>name.
    lbind (\<lambda>ps. case singlevaraux (ps_fs ps) name True of
        Inl line \<Rightarrow> errorlimit line LUAI_MAXUPVALUES ''upvalues'' ps
      | Inr (var, fss) \<Rightarrow> Inr (var, ps\<lparr>ps_fs := fss\<rparr>)) (\<lambda>var.
    if ek var = VGLOBAL
    then lbind (codeE P (\<lambda>E. luaK_stringK E name)) (\<lambda>i. lret (var\<lparr>einfo := i\<rparr>))
    else lret var))"

definition hasmultret :: "expkind \<Rightarrow> bool" where "hasmultret k \<longleftrightarrow> k = VCALL \<or> k = VVARARG"

definition adjust_assign :: "parse_env \<Rightarrow> int \<Rightarrow> int \<Rightarrow> expdesc \<Rightarrow> unit parse" where
  "adjust_assign P nvars nexps e =
    (let extra = nvars - nexps in
     if hasmultret (ek e) then
       let extra = max 0 (extra + 1) in
       lseq (code (luaK_setreturns e extra))
         (if extra > 1 then code (luaK_reserveregs (extra - 1)) else lret ())
     else
       lseq (if ek e \<noteq> VVOID then lseq (codeE P (\<lambda>E. luaK_exp2nextreg E e)) (lret ()) else lret ())
         (if extra > 0 then
            lbind (pget (\<lambda>ps. fs_freereg (cur_gen ps))) (\<lambda>reg.
              lseq (code (luaK_reserveregs extra)) (code (luaK_nil reg extra)))
          else lret ()))"

section \<open>Levels and blocks\<close>

definition enterlevel :: "unit parse" where
  "enterlevel = lseq (lmodify (\<lambda>ps. ps\<lparr>nCcalls := nCcalls ps + 1\<rparr>))
     (lif (\<lambda>ps. nCcalls ps > int LUAI_MAXCCALLS) (lexer (luaX_lexerror ''chunk has too many syntax levels'' 0)) (lret ()))"

definition leavelevel :: "unit parse" where
  "leavelevel = lmodify (\<lambda>ps. ps\<lparr>nCcalls := nCcalls ps - 1\<rparr>)"

definition enterblock :: "bool \<Rightarrow> unit parse" where
  "enterblock loop = set_fs (\<lambda>fs. fs\<lparr>pf_bl :=
     \<lparr>breaklist = NO_JUMP, bl_nactvar = fs_nactvar (gen fs), bl_upval = False, isbreakable = loop\<rparr> # pf_bl fs\<rparr>)"

definition leaveblock :: "unit parse" where
  "leaveblock =
    lbind (pget (\<lambda>ps. hd (pf_bl (cur_fs ps)))) (\<lambda>bl.
    lseq (set_fs (\<lambda>fs. fs\<lparr>pf_bl := tl (pf_bl fs)\<rparr>))
    (lseq (removevars (bl_nactvar bl))
    (lseq (if bl_upval bl then code (emit (luaK_codeABC OP_CLOSE (bl_nactvar bl) 0 0)) else lret ())
    (lseq (set_gen (\<lambda>g. g\<lparr>fs_freereg := fs_nactvar g\<rparr>))
    (code (luaK_patchtohere (breaklist bl)))))))"

section \<open>Functions\<close>

definition new_gen :: "Table \<Rightarrow> FuncState" where
  "new_gen h = \<lparr>fs_code = [], fs_lineinfo = [], fs_k = [], fs_maxstack = 2, fs_ktab = h, fs_lasttarget = -1,
     fs_jpc = NO_JUMP, fs_freereg = 0, fs_nactvar = 0, fs_lastline = 0\<rparr>"

definition new_func :: "ptr \<Rightarrow> Table \<Rightarrow> FuncParse" where
  "new_func a h = \<lparr>gen = new_gen h, pf_h = a, pf_locvars = [], pf_actvar = replicate (nat LUAI_MAXVARS) 0,
     pf_upvalues = [], pf_upnames = [], pf_bl = [], pf_p = [], pf_is_vararg = 0, pf_numparams = 0,
     pf_linedefined = 0, pf_lastlinedefined = 0\<rparr>"

definition open_func :: "parse_env \<Rightarrow> unit parse" where
  "open_func P = (\<lambda>ps. case luaH_new 0 0 of
     Inl e \<Rightarrow> Inl (PLex (LexTable e))
   | Inr h \<Rightarrow> Inr ((), ps\<lparr>ps_fs := new_func (p_newtable P ps) h # ps_fs ps\<rparr>))"

definition to_proto :: "ptr \<Rightarrow> FuncParse \<Rightarrow> Proto" where
  "to_proto src fs = Proto (fs_k (gen fs)) (fs_code (gen fs)) (pf_p fs) (fs_lineinfo (gen fs))
     (pf_locvars fs) (map Some (pf_upnames fs)) (Some src) (pf_linedefined fs) (pf_lastlinedefined fs)
     (word_of_nat (length (pf_upvalues fs))) (pf_numparams fs) (pf_is_vararg fs) (word_of_int (fs_maxstack (gen fs)))"

text \<open>The result is the function state that is closed. \<open>fs\<close> is never \<open>NULL\<close> in \<open>if (fs)\<close>.\<close>

definition close_func :: "parse_env \<Rightarrow> FuncParse parse" where
  "close_func P =
    lseq (removevars 0)
    (lseq (code (luaK_ret 0 0))
    (lbind (pget cur_fs) (\<lambda>fs.
    lseq (lmodify (\<lambda>ps. ps\<lparr>ps_fs := tl (ps_fs ps)\<rparr>))
    (lseq (anchor_token P) (lret fs)))))"

fun close_upvalues :: "(expkind \<times> int) list \<Rightarrow> unit codegen" where
  "close_upvalues [] = lret ()"
| "close_upvalues ((k, info) # us) =
     lseq (luaK_codeABC (if k = VLOCAL then OP_MOVE else OP_GETUPVAL) 0 info 0) (close_upvalues us)"

definition pushclosure :: "FuncParse \<Rightarrow> expdesc parse" where
  "pushclosure func = (\<lambda>ps.
    let np = int (length (pf_p (cur_fs ps))) in
    if np \<ge> MAXARG_Bx then Inl (PCode (CodeRun ''constant table overflow''))
    else
      lseq (set_fs (\<lambda>fs. fs\<lparr>pf_p := pf_p fs @ [to_proto (ps_source ps) func]\<rparr>))
      (lbind (code (luaK_codeABx OP_CLOSURE 0 np)) (\<lambda>i.
      lseq (code (close_upvalues (pf_upvalues func))) (lret (init_exp VRELOCABLE i)))) ps)"

end
