(* ===== verification/Parser_Rules.thy ===== *)
theory Parser_Rules
  imports Parser
begin

unbundle bit_operations_syntax

text \<open>
  The grammar rules of the parser (the second half of \<open>lparser.c\<close>). As in the C file, all rules are
  written with two of them known in advance: \<open>chunk\<close> and \<open>expr\<close>, here with the priority limit of
  \<open>subexpr\<close>. The recursion is closed at the end, where each level of \<open>enterlevel\<close> takes one unit of
  fuel; a loop over the tokens gets \<open>loops\<close> units.
\<close>

record rules =
  r_chunk :: "unit parse"
  r_subexpr :: "int \<Rightarrow> (BinOpr \<times> expdesc) parse"
  loops :: nat

definition expr :: "rules \<Rightarrow> expdesc parse" where
  "expr R = lbind (r_subexpr R 0) (\<lambda>(op, v). lret v)"

section \<open>Fields and constructors\<close>

definition field :: "parse_env \<Rightarrow> expdesc \<Rightarrow> expdesc parse" where
  "field P v =
    lbind (codeE P (\<lambda>E. luaK_exp2anyreg E v)) (\<lambda>v.
    lseq (pnext P)
    (lbind (checkname P) (\<lambda>key. codeE P (\<lambda>E. luaK_indexed E v key))))"

definition yindex :: "parse_env \<Rightarrow> rules \<Rightarrow> expdesc parse" where
  "yindex P R =
    lseq (pnext P)
    (lbind (expr R) (\<lambda>v.
    lbind (codeE P (\<lambda>E. luaK_exp2val E v)) (\<lambda>v.
    lseq (checknext P (char_tok CHR '']'')) (lret v))))"

record ConsControl =
  cv :: expdesc
  ct :: expdesc
  cnh :: int
  cna :: int
  tostore :: int

definition recfield :: "parse_env \<Rightarrow> rules \<Rightarrow> ConsControl \<Rightarrow> ConsControl parse" where
  "recfield P R cc =
    lbind (pget (\<lambda>ps. fs_freereg (cur_gen ps))) (\<lambda>reg.
    lbind (lif (is_tok (tk TK_NAME))
        (lseq (checklimit (cnh cc) MAX_INT ''items in a constructor'') (checkname P))
        (yindex P R)) (\<lambda>key.
    let cc = cc\<lparr>cnh := cnh cc + 1\<rparr> in
    lseq (checknext P (char_tok CHR ''=''))
    (lbind (codeE P (\<lambda>E. luaK_exp2RK E key)) (\<lambda>(rkkey, key).
    lbind (expr R) (\<lambda>val.
    lbind (codeE P (\<lambda>E. luaK_exp2RK E val)) (\<lambda>(rkval, val).
    lseq (code (luaK_codeABC OP_SETTABLE (einfo (ct cc)) rkkey rkval))
    (lseq (set_gen (\<lambda>g. g\<lparr>fs_freereg := reg\<rparr>))
    (lret cc))))))))"

definition closelistfield :: "parse_env \<Rightarrow> ConsControl \<Rightarrow> ConsControl parse" where
  "closelistfield P cc =
    (if ek (cv cc) = VVOID then lret cc
     else
       lbind (codeE P (\<lambda>E. luaK_exp2nextreg E (cv cc))) (\<lambda>v.
       let cc = cc\<lparr>cv := v\<lparr>ek := VVOID\<rparr>\<rparr> in
       if tostore cc = LFIELDS_PER_FLUSH then
         lseq (code (luaK_setlist (einfo (ct cc)) (cna cc) (tostore cc))) (lret (cc\<lparr>tostore := 0\<rparr>))
       else lret cc))"

definition lastlistfield :: "parse_env \<Rightarrow> ConsControl \<Rightarrow> ConsControl parse" where
  "lastlistfield P cc =
    (if tostore cc = 0 then lret cc
     else if hasmultret (ek (cv cc)) then
       lseq (code (luaK_setreturns (cv cc) LUA_MULTRET))
       (lseq (code (luaK_setlist (einfo (ct cc)) (cna cc) LUA_MULTRET))
       (lret (cc\<lparr>cna := cna cc - 1\<rparr>)))
     else
       lbind (if ek (cv cc) \<noteq> VVOID then codeE P (\<lambda>E. luaK_exp2nextreg E (cv cc)) else lret (cv cc)) (\<lambda>v.
       lseq (code (luaK_setlist (einfo (ct cc)) (cna cc) (tostore cc))) (lret (cc\<lparr>cv := v\<rparr>))))"

definition listfield :: "rules \<Rightarrow> ConsControl \<Rightarrow> ConsControl parse" where
  "listfield R cc =
    lbind (expr R) (\<lambda>v.
    lseq (checklimit (cna cc) MAX_INT ''items in a constructor'')
    (lret (cc\<lparr>cv := v, cna := cna cc + 1, tostore := tostore cc + 1\<rparr>)))"

definition cons_item :: "parse_env \<Rightarrow> rules \<Rightarrow> ConsControl \<Rightarrow> ConsControl parse" where
  "cons_item P R cc =
    lif (is_tok (tk TK_NAME))
      (lseq (lexer (luaX_lookahead (p_lex P)))
        (lif (\<lambda>ps. token (lookahead (ps_ls ps)) \<noteq> char_tok CHR ''='') (listfield R cc) (recfield P R cc)))
    (lif (is_tok (char_tok CHR ''['')) (recfield P R cc) (listfield R cc))"

definition test_sep :: "parse_env \<Rightarrow> bool parse" where
  "test_sep P = lbind (testnext P (char_tok CHR '','')) (\<lambda>b.
     if b then lret True else testnext P (char_tok CHR '';''))"

fun cons_loop :: "parse_env \<Rightarrow> rules \<Rightarrow> nat \<Rightarrow> ConsControl \<Rightarrow> ConsControl parse" where
  "cons_loop P R 0 cc = pthrow PLoop"
| "cons_loop P R (Suc n) cc =
    lif (is_tok (char_tok CHR ''}'')) (lret cc)
      (lbind (closelistfield P cc) (\<lambda>cc.
      lbind (cons_item P R cc) (\<lambda>cc.
      lbind (test_sep P) (\<lambda>b. if b then cons_loop P R n cc else lret cc))))"

definition int2fb :: "int \<Rightarrow> int" where "int2fb n = int (luaO_int2fb (nat n))"

definition constructor :: "parse_env \<Rightarrow> rules \<Rightarrow> expdesc parse" where
  "constructor P R =
    lbind (pget pline) (\<lambda>line.
    lbind (code (luaK_codeABC OP_NEWTABLE 0 0 0)) (\<lambda>pc.
    lbind (codeE P (\<lambda>E. luaK_exp2nextreg E (init_exp VRELOCABLE pc))) (\<lambda>t.
    lseq (checknext P (char_tok CHR ''{''))
    (lbind (cons_loop P R (loops R) \<lparr>cv = init_exp VVOID 0, ct = t, cnh = 0, cna = 0, tostore = 0\<rparr>) (\<lambda>cc.
    lseq (check_match P (char_tok CHR ''}'') (char_tok CHR ''{'') line)
    (lbind (lastlistfield P cc) (\<lambda>cc.
    lseq (set_gen (\<lambda>g. set_code pc (SETARG_B (code_at g pc) (int2fb (cna cc))) g))
    (lseq (set_gen (\<lambda>g. set_code pc (SETARG_C (code_at g pc) (int2fb (cnh cc))) g))
    (lret t)))))))))"

section \<open>Functions and calls\<close>

text \<open>\<open>LUA_COMPAT_VARARG\<close> is defined: a function with \<open>...\<close> gets the hidden parameter \<open>arg\<close>.\<close>

definition or_vararg :: "u8 \<Rightarrow> unit parse" where
  "or_vararg b = set_fs (\<lambda>fs. fs\<lparr>pf_is_vararg := pf_is_vararg fs OR b\<rparr>)"

fun par_loop :: "parse_env \<Rightarrow> nat \<Rightarrow> int \<Rightarrow> int parse" where
  "par_loop P 0 nparams = pthrow PLoop"
| "par_loop P (Suc n) nparams =
    lseq (lif (is_tok (tk TK_NAME))
        (lbind (str_checkname P) (\<lambda>name. new_localvar name nparams))
      (lif (is_tok (tk TK_DOTS))
        (lseq (pnext P)
        (lseq (new_localvarliteral P ''arg'' nparams)
        (lseq (set_fs (\<lambda>fs. fs\<lparr>pf_is_vararg := VARARG_HASARG OR VARARG_NEEDSARG\<rparr>))
        (or_vararg VARARG_ISVARARG))))
      (syntax_error ''<name> or '...' expected'')))
    (let nparams = nparams + 1 in
     lbind (pget (\<lambda>ps. pf_is_vararg (cur_fs ps))) (\<lambda>va.
     lbind (if va = 0 then testnext P (char_tok CHR '','') else lret False) (\<lambda>b.
       if b then par_loop P n nparams else lret nparams)))"

definition parlist :: "parse_env \<Rightarrow> rules \<Rightarrow> unit parse" where
  "parlist P R =
    lseq (set_fs (\<lambda>fs. fs\<lparr>pf_is_vararg := 0\<rparr>))
    (lbind (lif (\<lambda>ps. \<not> is_tok (char_tok CHR '')'') ps) (par_loop P (loops R) 0) (lret 0)) (\<lambda>nparams.
    lseq (adjustlocalvars nparams)
    (lseq (set_fs (\<lambda>fs. fs\<lparr>pf_numparams :=
        word_of_int (fs_nactvar (gen fs) - uint (pf_is_vararg fs AND VARARG_HASARG))\<rparr>))
    (lbind (pget (\<lambda>ps. fs_nactvar (cur_gen ps))) (\<lambda>n. code (luaK_reserveregs n))))))"

definition body :: "parse_env \<Rightarrow> rules \<Rightarrow> bool \<Rightarrow> int \<Rightarrow> expdesc parse" where
  "body P R needself line =
    lseq (open_func P)
    (lseq (set_fs (\<lambda>fs. fs\<lparr>pf_linedefined := line\<rparr>))
    (lseq (checknext P (char_tok CHR ''(''))
    (lseq (if needself then lseq (new_localvarliteral P ''self'' 0) (adjustlocalvars 1) else lret ())
    (lseq (parlist P R)
    (lseq (checknext P (char_tok CHR '')''))
    (lseq (r_chunk R)
    (lseq (\<lambda>ps. set_fs (\<lambda>fs. fs\<lparr>pf_lastlinedefined := pline ps\<rparr>) ps)
    (lseq (check_match P (tk TK_END) (tk TK_FUNCTION) line)
    (lbind (close_func P) pushclosure)))))))))"

text \<open>The number of expressions, and the descriptor of the last one.\<close>

fun explist_loop :: "parse_env \<Rightarrow> rules \<Rightarrow> nat \<Rightarrow> int \<Rightarrow> expdesc \<Rightarrow> (int \<times> expdesc) parse" where
  "explist_loop P R 0 k v = pthrow PLoop"
| "explist_loop P R (Suc n) k v =
    lbind (testnext P (char_tok CHR '','')) (\<lambda>b.
      if b then lseq (codeE P (\<lambda>E. luaK_exp2nextreg E v)) (lbind (expr R) (explist_loop P R n (k + 1)))
      else lret (k, v))"

definition explist1 :: "parse_env \<Rightarrow> rules \<Rightarrow> (int \<times> expdesc) parse" where
  "explist1 P R = lbind (expr R) (explist_loop P R (loops R) 1)"

definition call_args :: "parse_env \<Rightarrow> rules \<Rightarrow> int \<Rightarrow> expdesc parse" where
  "call_args P R line =
    lif (is_tok (char_tok CHR ''(''))
      (lseq (lif (\<lambda>ps. line \<noteq> lastline (ps_ls ps))
          (syntax_error ''ambiguous syntax (function call x new statement)'') (lret ()))
      (lseq (pnext P)
      (lbind (lif (is_tok (char_tok CHR '')'')) (lret (init_exp VVOID 0))
          (lbind (explist1 P R) (\<lambda>(n, args). lseq (code (luaK_setreturns args LUA_MULTRET)) (lret args)))) (\<lambda>args.
      lseq (check_match P (char_tok CHR '')'') (char_tok CHR ''('') line) (lret args)))))
    (lif (is_tok (char_tok CHR ''{'')) (constructor P R)
    (lif (is_tok (tk TK_STRING))
      (lbind (pget (\<lambda>ps. sem_string (seminfo (tok (ps_ls ps))))) (\<lambda>s.
        lbind (codestring P s) (\<lambda>args. lseq (pnext P) (lret args))))
    (syntax_error ''function arguments expected'')))"

definition funcargs :: "parse_env \<Rightarrow> rules \<Rightarrow> expdesc \<Rightarrow> expdesc parse" where
  "funcargs P R f =
    lbind (pget pline) (\<lambda>line.
    lbind (call_args P R line) (\<lambda>args.
    let base = einfo f in
    lbind (if hasmultret (ek args) then lret LUA_MULTRET
           else lseq (if ek args \<noteq> VVOID then lseq (codeE P (\<lambda>E. luaK_exp2nextreg E args)) (lret ()) else lret ())
             (pget (\<lambda>ps. fs_freereg (cur_gen ps) - (base + 1)))) (\<lambda>nparams.
    lbind (code (luaK_codeABC OP_CALL base (nparams + 1) 2)) (\<lambda>i.
    lseq (code (luaK_fixline line))
    (lseq (set_gen (\<lambda>g. g\<lparr>fs_freereg := base + 1\<rparr>))
    (lret (init_exp VCALL i)))))))"

section \<open>Expressions\<close>

definition prefixexp :: "parse_env \<Rightarrow> rules \<Rightarrow> expdesc parse" where
  "prefixexp P R =
    lif (is_tok (char_tok CHR ''(''))
      (lbind (pget pline) (\<lambda>line.
      lseq (pnext P)
      (lbind (expr R) (\<lambda>v.
      lseq (check_match P (char_tok CHR '')'') (char_tok CHR ''('') line)
      (code (luaK_dischargevars v))))))
    (lif (is_tok (tk TK_NAME)) (singlevar P)
    (syntax_error ''unexpected symbol''))"

fun primary_loop :: "parse_env \<Rightarrow> rules \<Rightarrow> nat \<Rightarrow> expdesc \<Rightarrow> expdesc parse" where
  "primary_loop P R 0 v = pthrow PLoop"
| "primary_loop P R (Suc n) v =
    lif (is_tok (char_tok CHR ''.'')) (lbind (field P v) (primary_loop P R n))
    (lif (is_tok (char_tok CHR ''[''))
      (lbind (codeE P (\<lambda>E. luaK_exp2anyreg E v)) (\<lambda>v.
      lbind (yindex P R) (\<lambda>key.
      lbind (codeE P (\<lambda>E. luaK_indexed E v key)) (primary_loop P R n))))
    (lif (is_tok (char_tok CHR '':''))
      (lseq (pnext P)
      (lbind (checkname P) (\<lambda>key.
      lbind (codeE P (\<lambda>E. luaK_self E v key)) (\<lambda>v.
      lbind (funcargs P R v) (primary_loop P R n)))))
    (lif (\<lambda>ps. ptok ps \<in> {char_tok CHR ''('', tk TK_STRING, char_tok CHR ''{''})
      (lbind (codeE P (\<lambda>E. luaK_exp2nextreg E v)) (\<lambda>v.
      lbind (funcargs P R v) (primary_loop P R n)))
    (lret v))))"

definition primaryexp :: "parse_env \<Rightarrow> rules \<Rightarrow> expdesc parse" where
  "primaryexp P R = lbind (prefixexp P R) (primary_loop P R (loops R))"

text \<open>The cases of a single token, which the last statement skips.\<close>

definition token_exp :: "parse_env \<Rightarrow> expdesc parse \<Rightarrow> expdesc parse" where
  "token_exp P m = lbind m (\<lambda>v. lseq (pnext P) (lret v))"

definition vararg_exp :: "expdesc parse" where
  "vararg_exp =
    lseq (lif (\<lambda>ps. pf_is_vararg (cur_fs ps) = 0)
        (syntax_error ''cannot use '...' outside a vararg function'') (lret ()))
    (lseq (set_fs (\<lambda>fs. fs\<lparr>pf_is_vararg := pf_is_vararg fs AND NOT VARARG_NEEDSARG\<rparr>))
    (lbind (code (luaK_codeABC OP_VARARG 0 1 0)) (\<lambda>i. lret (init_exp VVARARG i))))"

definition simpleexp :: "parse_env \<Rightarrow> rules \<Rightarrow> expdesc parse" where
  "simpleexp P R =
    lif (is_tok (tk TK_NUMBER)) (token_exp P
      (lbind (pget (\<lambda>ps. sem_number (seminfo (tok (ps_ls ps))))) (\<lambda>r. lret ((init_exp VKNUM 0)\<lparr>enval := r\<rparr>))))
    (lif (is_tok (tk TK_STRING)) (token_exp P
      (lbind (pget (\<lambda>ps. sem_string (seminfo (tok (ps_ls ps))))) (codestring P)))
    (lif (is_tok (tk TK_NIL)) (token_exp P (lret (init_exp VNIL 0)))
    (lif (is_tok (tk TK_TRUE)) (token_exp P (lret (init_exp VTRUE 0)))
    (lif (is_tok (tk TK_FALSE)) (token_exp P (lret (init_exp VFALSE 0)))
    (lif (is_tok (tk TK_DOTS)) (token_exp P vararg_exp)
    (lif (is_tok (char_tok CHR ''{'')) (constructor P R)
    (lif (is_tok (tk TK_FUNCTION))
      (lseq (pnext P) (lbind (pget pline) (body P R False)))
    (primaryexp P R))))))))"

definition getunopr :: "int \<Rightarrow> UnOpr" where
  "getunopr t =
    (if t = tk TK_NOT then OPR_NOT else if t = char_tok CHR ''-'' then OPR_MINUS
     else if t = char_tok CHR ''#'' then OPR_LEN else OPR_NOUNOPR)"

definition getbinopr :: "int \<Rightarrow> BinOpr" where
  "getbinopr t =
    (if t = char_tok CHR ''+'' then OPR_ADD else if t = char_tok CHR ''-'' then OPR_SUB
     else if t = char_tok CHR ''*'' then OPR_MUL else if t = char_tok CHR ''/'' then OPR_DIV
     else if t = char_tok CHR ''%'' then OPR_MOD else if t = char_tok CHR ''^'' then OPR_POW
     else if t = tk TK_CONCAT then OPR_CONCAT else if t = tk TK_NE then OPR_NE
     else if t = tk TK_EQ then OPR_EQ else if t = char_tok CHR ''<'' then OPR_LT
     else if t = tk TK_LE then OPR_LE else if t = char_tok CHR ''>'' then OPR_GT
     else if t = tk TK_GE then OPR_GE else if t = tk TK_AND then OPR_AND
     else if t = tk TK_OR then OPR_OR else OPR_NOBINOPR)"

text \<open>The left and the right priority of an operator.\<close>

fun priority :: "BinOpr \<Rightarrow> int \<times> int" where
  "priority OPR_ADD = (6, 6)" | "priority OPR_SUB = (6, 6)"
| "priority OPR_MUL = (7, 7)" | "priority OPR_DIV = (7, 7)" | "priority OPR_MOD = (7, 7)"
| "priority OPR_POW = (10, 9)" | "priority OPR_CONCAT = (5, 4)"
| "priority OPR_NE = (3, 3)" | "priority OPR_EQ = (3, 3)"
| "priority OPR_LT = (3, 3)" | "priority OPR_LE = (3, 3)" | "priority OPR_GT = (3, 3)" | "priority OPR_GE = (3, 3)"
| "priority OPR_AND = (2, 2)" | "priority OPR_OR = (1, 1)"
| "priority OPR_NOBINOPR = (0, 0)"

definition UNARY_PRIORITY :: int where "UNARY_PRIORITY = 8"

fun binop_loop :: "parse_env \<Rightarrow> rules \<Rightarrow> nat \<Rightarrow> int \<Rightarrow> BinOpr \<Rightarrow> expdesc \<Rightarrow> (BinOpr \<times> expdesc) parse" where
  "binop_loop P R 0 limit op v = pthrow PLoop"
| "binop_loop P R (Suc n) limit op v =
    (if op \<noteq> OPR_NOBINOPR \<and> fst (priority op) > limit then
       lseq (pnext P)
       (lbind (codeE P (\<lambda>E. luaK_infix E op v)) (\<lambda>v.
       lbind (r_subexpr R (snd (priority op))) (\<lambda>(nextop, v2).
       lbind (codeE P (\<lambda>E. luaK_posfix E op v v2)) (\<lambda>v.
       binop_loop P R n limit nextop v))))
     else lret (op, v))"

definition subexpr :: "parse_env \<Rightarrow> rules \<Rightarrow> int \<Rightarrow> (BinOpr \<times> expdesc) parse" where
  "subexpr P R limit =
    lseq enterlevel
    (lbind (pget (\<lambda>ps. getunopr (ptok ps))) (\<lambda>uop.
    lbind (if uop \<noteq> OPR_NOUNOPR then
        lseq (pnext P)
        (lbind (r_subexpr R UNARY_PRIORITY) (\<lambda>(op, v). codeE P (\<lambda>E. luaK_prefix E uop v)))
      else simpleexp P R) (\<lambda>v.
    lbind (\<lambda>ps. binop_loop P R (loops R) limit (getbinopr (ptok ps)) v ps) (\<lambda>r.
    lseq leavelevel (lret r)))))"

end
