(* ===== verification/Parser_Stat.thy ===== *)
theory Parser_Stat
  imports Parser_Rules
begin

text \<open>
  The statements of the parser, the closing of the recursion, and \<open>luaY_parser\<close> (the end of
  \<open>lparser.c\<close>).
\<close>

section \<open>Blocks and conditions\<close>

definition block_follow :: "int \<Rightarrow> bool" where
  "block_follow t \<longleftrightarrow> t \<in> {tk TK_ELSE, tk TK_ELSEIF, tk TK_END, tk TK_UNTIL, tk TK_EOS}"

definition block :: "rules \<Rightarrow> unit parse" where
  "block R = lseq (enterblock False) (lseq (r_chunk R) leaveblock)"

text \<open>The list of jumps that leave when the condition is false.\<close>

definition cond_exp :: "parse_env \<Rightarrow> rules \<Rightarrow> int parse" where
  "cond_exp P R =
    lbind (expr R) (\<lambda>v.
    lbind (codeE P (\<lambda>E. luaK_goiftrue E (if ek v = VNIL then v\<lparr>ek := VFALSE\<rparr> else v))) (\<lambda>v. lret (ef v)))"

section \<open>Assignments\<close>

text \<open>The variables on the left-hand side, the last one first.\<close>

definition conflicts :: "expdesc \<Rightarrow> expdesc \<Rightarrow> bool" where
  "conflicts v l \<longleftrightarrow> ek l = VINDEXED \<and> (einfo l = einfo v \<or> eaux l = einfo v)"

definition safe_copy :: "expdesc \<Rightarrow> int \<Rightarrow> expdesc \<Rightarrow> expdesc" where
  "safe_copy v extra l =
    (if ek l = VINDEXED then
       let l = (if einfo l = einfo v then l\<lparr>einfo := extra\<rparr> else l)
       in if eaux l = einfo v then l\<lparr>eaux := extra\<rparr> else l
     else l)"

definition check_conflict :: "expdesc list \<Rightarrow> expdesc \<Rightarrow> expdesc list parse" where
  "check_conflict lh v =
    lbind (pget (\<lambda>ps. fs_freereg (cur_gen ps))) (\<lambda>extra.
    lseq (if \<exists>l \<in> set lh. conflicts v l
        then lseq (code (luaK_codeABC OP_MOVE extra (einfo v) 0)) (code (luaK_reserveregs 1)) else lret ())
    (lret (map (safe_copy v extra) lh)))"

text \<open>The assignment of the value on the top of the stack.\<close>

definition default_assign :: "parse_env \<Rightarrow> expdesc \<Rightarrow> unit parse" where
  "default_assign P v = (\<lambda>ps.
     lseq (codeE P (\<lambda>E. luaK_storevar E v (init_exp VNONRELOC (fs_freereg (cur_gen ps) - 1)))) (lret ()) ps)"

definition assign_values :: "parse_env \<Rightarrow> rules \<Rightarrow> expdesc \<Rightarrow> int \<Rightarrow> unit parse" where
  "assign_values P R v nvars =
    lseq (checknext P (char_tok CHR ''=''))
    (lbind (explist1 P R) (\<lambda>(nexps, e).
      if nexps \<noteq> nvars then
        lseq (adjust_assign P nvars nexps e)
        (lseq (set_gen (\<lambda>g. if nexps > nvars then g\<lparr>fs_freereg := fs_freereg g - (nexps - nvars)\<rparr> else g))
        (default_assign P v))
      else
        lbind (code (luaK_setoneret e)) (\<lambda>e. lseq (codeE P (\<lambda>E. luaK_storevar E v e)) (lret ()))))"

text \<open>
  The variables of the chain are stored from the last one to the first one, as the recursion of C
  unwinds. The argument is the chain, \<open>lh\<close> first; the result is the chain after the last conflict.
\<close>

fun assignment_loop :: "parse_env \<Rightarrow> rules \<Rightarrow> nat \<Rightarrow> expdesc list \<Rightarrow> int \<Rightarrow> expdesc list parse" where
  "assignment_loop P R 0 lh nvars = pthrow PLoop"
| "assignment_loop P R (Suc n) lh nvars =
    lseq (if ek (hd lh) \<in> {VLOCAL, VUPVAL, VGLOBAL, VINDEXED} then lret () else syntax_error ''syntax error'')
    (lbind (testnext P (char_tok CHR '','')) (\<lambda>b.
      if b then
        lbind (primaryexp P R) (\<lambda>nv.
        lbind (if ek nv = VLOCAL then check_conflict lh nv else lret lh) (\<lambda>lh.
        lseq (\<lambda>ps. checklimit nvars (int LUAI_MAXCCALLS - nCcalls ps) ''variables in assignment'' ps)
        (lbind (assignment_loop P R n (nv # lh) (nvars + 1)) (\<lambda>lh.
        lseq (default_assign P (hd lh)) (lret (tl lh))))))
      else lseq (assign_values P R (hd lh) nvars) (lret (tl lh))))"

definition assignment :: "parse_env \<Rightarrow> rules \<Rightarrow> expdesc \<Rightarrow> unit parse" where
  "assignment P R v = lseq (assignment_loop P R (loops R) [v] 1) (lret ())"

section \<open>Loops and jumps\<close>

text \<open>The innermost loop block: whether a block inside it has an upvalue, and how many there are.\<close>

fun loop_block :: "BlockCnt list \<Rightarrow> (bool \<times> nat) option" where
  "loop_block [] = None"
| "loop_block (b # bs) =
     (if isbreakable b then Some (False, 0)
      else map_option (\<lambda>(u, n). (bl_upval b \<or> u, Suc n)) (loop_block bs))"

definition set_breaklist :: "nat \<Rightarrow> int \<Rightarrow> FuncParse \<Rightarrow> FuncParse" where
  "set_breaklist i l fs = fs\<lparr>pf_bl := (pf_bl fs)[i := (pf_bl fs ! i)\<lparr>breaklist := l\<rparr>]\<rparr>"

definition breakstat :: "unit parse" where
  "breakstat = (\<lambda>ps. let bl = pf_bl (cur_fs ps) in
    case loop_block bl of
      None \<Rightarrow> syntax_error ''no loop to break'' ps
    | Some (upval, i) \<Rightarrow>
        lseq (if upval then code (emit (luaK_codeABC OP_CLOSE (bl_nactvar (bl ! i)) 0 0)) else lret ())
        (lbind (code luaK_jump) (\<lambda>j.
         lbind (code (luaK_concat (breaklist (bl ! i)) j)) (\<lambda>l. set_fs (set_breaklist i l)))) ps)"

definition whilestat :: "parse_env \<Rightarrow> rules \<Rightarrow> int \<Rightarrow> unit parse" where
  "whilestat P R line =
    lseq (pnext P)
    (lbind (code luaK_getlabel) (\<lambda>whileinit.
    lbind (cond_exp P R) (\<lambda>condexit.
    lseq (enterblock True)
    (lseq (checknext P (tk TK_DO))
    (lseq (block R)
    (lbind (code luaK_jump) (\<lambda>j.
    lseq (code (luaK_patchlist j whileinit))
    (lseq (check_match P (tk TK_END) (tk TK_WHILE) line)
    (lseq leaveblock
    (code (luaK_patchtohere condexit)))))))))))"

definition repeatstat :: "parse_env \<Rightarrow> rules \<Rightarrow> int \<Rightarrow> unit parse" where
  "repeatstat P R line =
    lbind (code luaK_getlabel) (\<lambda>repeat_init.
    lseq (enterblock True)
    (lseq (enterblock False)
    (lseq (pnext P)
    (lseq (r_chunk R)
    (lseq (check_match P (tk TK_UNTIL) (tk TK_REPEAT) line)
    (lbind (cond_exp P R) (\<lambda>condexit.
    lbind (pget (\<lambda>ps. bl_upval (hd (pf_bl (cur_fs ps))))) (\<lambda>upval.
    lseq (if \<not> upval then
        lseq leaveblock (code (luaK_patchlist condexit repeat_init))
      else
        lseq breakstat
        (lseq (code (luaK_patchtohere condexit))
        (lseq leaveblock
        (lbind (code luaK_jump) (\<lambda>j. code (luaK_patchlist j repeat_init))))))
    leaveblock))))))))"

definition exp1 :: "parse_env \<Rightarrow> rules \<Rightarrow> unit parse" where
  "exp1 P R = lbind (expr R) (\<lambda>e. lseq (codeE P (\<lambda>E. luaK_exp2nextreg E e)) (lret ()))"

definition forbody :: "parse_env \<Rightarrow> rules \<Rightarrow> int \<Rightarrow> int \<Rightarrow> int \<Rightarrow> bool \<Rightarrow> unit parse" where
  "forbody P R base line nvars isnum =
    lseq (adjustlocalvars 3)
    (lseq (checknext P (tk TK_DO))
    (lbind (if isnum then code (luaK_codeAsBx OP_FORPREP base NO_JUMP) else code luaK_jump) (\<lambda>prep.
    lseq (enterblock False)
    (lseq (adjustlocalvars nvars)
    (lseq (code (luaK_reserveregs nvars))
    (lseq (block R)
    (lseq leaveblock
    (lseq (code (luaK_patchtohere prep))
    (lbind (if isnum then code (luaK_codeAsBx OP_FORLOOP base NO_JUMP)
            else code (luaK_codeABC OP_TFORLOOP base 0 nvars)) (\<lambda>endfor.
    lseq (code (luaK_fixline line))
    (lbind (if isnum then lret endfor else code luaK_jump) (\<lambda>j.
    code (luaK_patchlist j (prep + 1))))))))))))))"

definition fornum :: "parse_env \<Rightarrow> rules \<Rightarrow> ptr \<Rightarrow> int \<Rightarrow> unit parse" where
  "fornum P R name line =
    lbind (pget (\<lambda>ps. fs_freereg (cur_gen ps))) (\<lambda>base.
    lseq (new_localvarliteral P ''(for index)'' 0)
    (lseq (new_localvarliteral P ''(for limit)'' 1)
    (lseq (new_localvarliteral P ''(for step)'' 2)
    (lseq (new_localvar name 3)
    (lseq (checknext P (char_tok CHR ''=''))
    (lseq (exp1 P R)
    (lseq (checknext P (char_tok CHR '',''))
    (lseq (exp1 P R)
    (lseq (lbind (testnext P (char_tok CHR '','')) (\<lambda>b.
        if b then exp1 P R
        else
          lbind (pget (\<lambda>ps. fs_freereg (cur_gen ps))) (\<lambda>reg.
          lbind (codeE P (\<lambda>E. luaK_numberK E (cast_num 1))) (\<lambda>k.
          lseq (code (luaK_codeABx OP_LOADK reg k))
          (code (luaK_reserveregs 1))))))
    (forbody P R base line 1 True))))))))))"

fun names_loop :: "parse_env \<Rightarrow> nat \<Rightarrow> int \<Rightarrow> int parse" where
  "names_loop P 0 nvars = pthrow PLoop"
| "names_loop P (Suc n) nvars =
    lbind (testnext P (char_tok CHR '','')) (\<lambda>b.
      if b then lseq (lbind (str_checkname P) (\<lambda>name. new_localvar name nvars)) (names_loop P n (nvars + 1))
      else lret nvars)"

definition forlist :: "parse_env \<Rightarrow> rules \<Rightarrow> ptr \<Rightarrow> unit parse" where
  "forlist P R indexname =
    lbind (pget (\<lambda>ps. fs_freereg (cur_gen ps))) (\<lambda>base.
    lseq (new_localvarliteral P ''(for generator)'' 0)
    (lseq (new_localvarliteral P ''(for state)'' 1)
    (lseq (new_localvarliteral P ''(for control)'' 2)
    (lseq (new_localvar indexname 3)
    (lbind (names_loop P (loops R) 4) (\<lambda>nvars.
    lseq (checknext P (tk TK_IN))
    (lbind (pget pline) (\<lambda>line.
    lseq (lbind (explist1 P R) (\<lambda>(n, e). adjust_assign P 3 n e))
    (lseq (code (luaK_checkstack 3))
    (forbody P R base line (nvars - 3) False))))))))))"

definition forstat :: "parse_env \<Rightarrow> rules \<Rightarrow> int \<Rightarrow> unit parse" where
  "forstat P R line =
    lseq (enterblock True)
    (lseq (pnext P)
    (lbind (str_checkname P) (\<lambda>name.
    lseq (lif (is_tok (char_tok CHR ''='')) (fornum P R name line)
      (lif (\<lambda>ps. ptok ps \<in> {char_tok CHR '','', tk TK_IN}) (forlist P R name)
      (syntax_error (quote ''='' @ '' or '' @ quote ''in'' @ '' expected''))))
    (lseq (check_match P (tk TK_END) (tk TK_FOR) line)
    leaveblock))))"

section \<open>Conditionals\<close>

definition test_then_block :: "parse_env \<Rightarrow> rules \<Rightarrow> int parse" where
  "test_then_block P R =
    lseq (pnext P)
    (lbind (cond_exp P R) (\<lambda>condexit.
    lseq (checknext P (tk TK_THEN))
    (lseq (block R) (lret condexit))))"

text \<open>A jump to the end, and the next branch.\<close>

definition escape_branch :: "int \<Rightarrow> int \<Rightarrow> int parse" where
  "escape_branch escapelist flist =
    lbind (code luaK_jump) (\<lambda>j.
    lbind (code (luaK_concat escapelist j)) (\<lambda>escapelist.
    lseq (code (luaK_patchtohere flist)) (lret escapelist)))"

fun elseif_loop :: "parse_env \<Rightarrow> rules \<Rightarrow> nat \<Rightarrow> int \<Rightarrow> int \<Rightarrow> (int \<times> int) parse" where
  "elseif_loop P R 0 escapelist flist = pthrow PLoop"
| "elseif_loop P R (Suc n) escapelist flist =
    lif (is_tok (tk TK_ELSEIF))
      (lbind (escape_branch escapelist flist) (\<lambda>escapelist.
      lbind (test_then_block P R) (elseif_loop P R n escapelist)))
    (lret (escapelist, flist))"

definition ifstat :: "parse_env \<Rightarrow> rules \<Rightarrow> int \<Rightarrow> unit parse" where
  "ifstat P R line =
    lbind (test_then_block P R) (\<lambda>flist.
    lbind (elseif_loop P R (loops R) NO_JUMP flist) (\<lambda>(escapelist, flist).
    lbind (lif (is_tok (tk TK_ELSE))
        (lbind (escape_branch escapelist flist) (\<lambda>escapelist.
          lseq (pnext P) (lseq (block R) (lret escapelist))))
        (code (luaK_concat escapelist flist))) (\<lambda>escapelist.
    lseq (code (luaK_patchtohere escapelist))
    (check_match P (tk TK_END) (tk TK_IF) line))))"

section \<open>Declarations and the other statements\<close>

definition localfunc :: "parse_env \<Rightarrow> rules \<Rightarrow> unit parse" where
  "localfunc P R =
    lseq (lbind (str_checkname P) (\<lambda>name. new_localvar name 0))
    (lbind (pget (\<lambda>ps. init_exp VLOCAL (fs_freereg (cur_gen ps)))) (\<lambda>v.
    lseq (code (luaK_reserveregs 1))
    (lseq (adjustlocalvars 1)
    (lbind (lbind (pget pline) (body P R False)) (\<lambda>b.
    lseq (codeE P (\<lambda>E. luaK_storevar E v b))
    (set_fs (\<lambda>fs. set_locvar (fs_nactvar (gen fs) - 1) (\<lambda>lv. lv\<lparr>startpc := pc (gen fs)\<rparr>) fs)))))))"

definition localstat :: "parse_env \<Rightarrow> rules \<Rightarrow> unit parse" where
  "localstat P R =
    lseq (lbind (str_checkname P) (\<lambda>name. new_localvar name 0))
    (lbind (names_loop P (loops R) 1) (\<lambda>nvars.
    lbind (testnext P (char_tok CHR ''='')) (\<lambda>b.
    lbind (if b then explist1 P R else lret (0, init_exp VVOID 0)) (\<lambda>(nexps, e).
    lseq (adjust_assign P nvars nexps e)
    (adjustlocalvars nvars)))))"

fun fields_loop :: "parse_env \<Rightarrow> nat \<Rightarrow> expdesc \<Rightarrow> expdesc parse" where
  "fields_loop P 0 v = pthrow PLoop"
| "fields_loop P (Suc n) v =
    lif (is_tok (char_tok CHR ''.'')) (lbind (field P v) (fields_loop P n)) (lret v)"

text \<open>The descriptor, and whether the function needs \<open>self\<close>.\<close>

definition funcname :: "parse_env \<Rightarrow> rules \<Rightarrow> (bool \<times> expdesc) parse" where
  "funcname P R =
    lbind (singlevar P) (\<lambda>v.
    lbind (fields_loop P (loops R) v) (\<lambda>v.
    lif (is_tok (char_tok CHR '':'')) (lbind (field P v) (\<lambda>v. lret (True, v))) (lret (False, v))))"

definition funcstat :: "parse_env \<Rightarrow> rules \<Rightarrow> int \<Rightarrow> unit parse" where
  "funcstat P R line =
    lseq (pnext P)
    (lbind (funcname P R) (\<lambda>(needself, v).
    lbind (body P R needself line) (\<lambda>b.
    lseq (codeE P (\<lambda>E. luaK_storevar E v b))
    (code (luaK_fixline line)))))"

definition exprstat :: "parse_env \<Rightarrow> rules \<Rightarrow> unit parse" where
  "exprstat P R =
    lbind (primaryexp P R) (\<lambda>v.
      if ek v = VCALL then code (set_getcode v (\<lambda>i. SETARG_C i 1))
      else assignment P R v)"

text \<open>The first register and the number of the returned values.\<close>

definition ret_values :: "parse_env \<Rightarrow> rules \<Rightarrow> (int \<times> int) parse" where
  "ret_values P R =
    lbind (explist1 P R) (\<lambda>(nret, e).
    if hasmultret (ek e) then
      lseq (code (luaK_setreturns e LUA_MULTRET))
      (lseq (if ek e = VCALL \<and> nret = 1
          then code (set_getcode e (\<lambda>i. SET_OPCODE i (opnum OP_TAILCALL))) else lret ())
      (pget (\<lambda>ps. (fs_nactvar (cur_gen ps), LUA_MULTRET))))
    else if nret = 1 then lbind (codeE P (\<lambda>E. luaK_exp2anyreg E e)) (\<lambda>e. lret (einfo e, nret))
    else lseq (codeE P (\<lambda>E. luaK_exp2nextreg E e)) (pget (\<lambda>ps. (fs_nactvar (cur_gen ps), nret))))"

definition retstat :: "parse_env \<Rightarrow> rules \<Rightarrow> unit parse" where
  "retstat P R =
    lseq (pnext P)
    (lbind (lif (\<lambda>ps. block_follow (ptok ps) \<or> is_tok (char_tok CHR '';'') ps) (lret (0, 0)) (ret_values P R))
      (\<lambda>(first, nret). code (luaK_ret first nret)))"

text \<open>Whether the statement must be the last one.\<close>

definition statement :: "parse_env \<Rightarrow> rules \<Rightarrow> bool parse" where
  "statement P R =
    lbind (pget pline) (\<lambda>line.
    lif (is_tok (tk TK_IF)) (lseq (ifstat P R line) (lret False))
    (lif (is_tok (tk TK_WHILE)) (lseq (whilestat P R line) (lret False))
    (lif (is_tok (tk TK_DO))
      (lseq (pnext P) (lseq (block R) (lseq (check_match P (tk TK_END) (tk TK_DO) line) (lret False))))
    (lif (is_tok (tk TK_FOR)) (lseq (forstat P R line) (lret False))
    (lif (is_tok (tk TK_REPEAT)) (lseq (repeatstat P R line) (lret False))
    (lif (is_tok (tk TK_FUNCTION)) (lseq (funcstat P R line) (lret False))
    (lif (is_tok (tk TK_LOCAL))
      (lseq (pnext P) (lseq (lbind (testnext P (tk TK_FUNCTION)) (\<lambda>b.
        if b then localfunc P R else localstat P R)) (lret False)))
    (lif (is_tok (tk TK_RETURN)) (lseq (retstat P R) (lret True))
    (lif (is_tok (tk TK_BREAK)) (lseq (pnext P) (lseq breakstat (lret True)))
    (lseq (exprstat P R) (lret False)))))))))))"

fun chunk_loop :: "parse_env \<Rightarrow> rules \<Rightarrow> nat \<Rightarrow> bool \<Rightarrow> unit parse" where
  "chunk_loop P R 0 islast = pthrow PLoop"
| "chunk_loop P R (Suc n) islast =
    lif (\<lambda>ps. \<not> islast \<and> \<not> block_follow (ptok ps))
      (lbind (statement P R) (\<lambda>islast.
      lseq (testnext P (char_tok CHR '';''))
      (lseq (set_gen (\<lambda>g. g\<lparr>fs_freereg := fs_nactvar g\<rparr>))
      (chunk_loop P R n islast))))
    (lret ())"

definition chunk :: "parse_env \<Rightarrow> rules \<Rightarrow> unit parse" where
  "chunk P R = lseq enterlevel (lseq (chunk_loop P R (loops R) False) leavelevel)"

section \<open>The parser\<close>

primrec rules_at :: "parse_env \<Rightarrow> nat \<Rightarrow> nat \<Rightarrow> rules" where
  "rules_at P n 0 = \<lparr>r_chunk = pthrow PDepth, r_subexpr = \<lambda>limit. pthrow PDepth, loops = n\<rparr>"
| "rules_at P n (Suc d) =
    \<lparr>r_chunk = chunk P (rules_at P n d), r_subexpr = subexpr P (rules_at P n d), loops = n\<rparr>"

text \<open>
  The nesting is limited by \<open>LUAI_MAXCCALLS\<close>, and a loop reads at least one character in each round.
  \<open>name\<close> is the name of the chunk and its string object.
\<close>

definition luaY_parser :: "parse_env \<Rightarrow> ZIO \<Rightarrow> string \<times> ptr \<Rightarrow> Proto parse" where
  "luaY_parser P z name = (\<lambda>ps.
    case luaX_setinput z (fst name) (ps_ls ps) of
      Inl e \<Rightarrow> Inl (PLex e)
    | Inr (u, ls) \<Rightarrow>
        lseq (open_func P)
        (lseq (set_fs (\<lambda>fs. fs\<lparr>pf_is_vararg := VARARG_ISVARARG\<rparr>))
        (lseq (pnext P)
        (lseq (r_chunk (rules_at P (length (pending z) + 2) (LUAI_MAXCCALLS + 1)))
        (lseq (check_tok (tk TK_EOS))
        (lbind (close_func P) (\<lambda>fs ps. Inr (to_proto (ps_source ps) fs, ps)))))))
          (ps\<lparr>ps_ls := ls, ps_source := snd name, ps_fs := []\<rparr>))"

end
