(* ===== verification/Grammar.thy ===== *)
theory Grammar
  imports Parser_Stat
begin

text \<open>
  The grammar of Lua 5.1, as the reference manual gives it, on sequences of token numbers. It is the
  specification of the parser.
\<close>

section \<open>Names, operators\<close>

text \<open>\<open>namelist\<close>\<close>

inductive g_names :: "int list \<Rightarrow> bool" where
  "g_names [tk TK_NAME]"
| "g_names ns \<Longrightarrow> g_names (ns @ [char_tok CHR '','', tk TK_NAME])"

text \<open>\<open>{'.' Name}\<close>, and \<open>funcname\<close> with the optional method name\<close>

inductive g_fields :: "int list \<Rightarrow> bool" where
  "g_fields [tk TK_NAME]"
| "g_fields ns \<Longrightarrow> g_fields (ns @ [char_tok CHR ''.'', tk TK_NAME])"

inductive g_funcname :: "int list \<Rightarrow> bool" where
  "g_fields ns \<Longrightarrow> g_funcname ns"
| "g_fields ns \<Longrightarrow> g_funcname (ns @ [char_tok CHR '':'', tk TK_NAME])"

text \<open>\<open>[parlist]\<close>\<close>

inductive g_pars :: "int list \<Rightarrow> bool" where
  "g_pars []"
| "g_names ns \<Longrightarrow> g_pars ns"
| "g_names ns \<Longrightarrow> g_pars (ns @ [char_tok CHR '','', tk TK_DOTS])"
| "g_pars [tk TK_DOTS]"

definition unops :: "int set" where
  "unops = {char_tok CHR ''-'', tk TK_NOT, char_tok CHR ''#''}"

definition binops :: "int set" where
  "binops = {char_tok CHR ''+'', char_tok CHR ''-'', char_tok CHR ''*'', char_tok CHR ''/'', char_tok CHR ''^'',
     char_tok CHR ''%'', tk TK_CONCAT, char_tok CHR ''<'', tk TK_LE, char_tok CHR ''>'', tk TK_GE, tk TK_EQ, tk TK_NE,
     tk TK_AND, tk TK_OR}"

section \<open>Expressions and statements\<close>

text \<open>The three forms of \<open>prefixexp\<close>: a variable, a call, an expression in parentheses.\<close>

datatype form = Variable | Call | Parens

inductive g_exp :: "int list \<Rightarrow> bool"
  and g_prefix :: "form \<Rightarrow> int list \<Rightarrow> bool"
  and g_args :: "int list \<Rightarrow> bool"
  and g_explist :: "int list \<Rightarrow> bool"
  and g_table :: "int list \<Rightarrow> bool"
  and g_items :: "int list \<Rightarrow> bool"
  and g_item :: "int list \<Rightarrow> bool"
  and g_body :: "int list \<Rightarrow> bool"
  and g_vars :: "int list \<Rightarrow> bool"
  and g_stat :: "int list \<Rightarrow> bool"
  and g_else :: "int list \<Rightarrow> bool"
  and g_last :: "int list \<Rightarrow> bool"
  and g_chunk :: "int list \<Rightarrow> bool"
where
  exp_token: "t \<in> {tk TK_NIL, tk TK_FALSE, tk TK_TRUE, tk TK_NUMBER, tk TK_STRING, tk TK_DOTS} \<Longrightarrow> g_exp [t]"
| exp_function: "g_body b \<Longrightarrow> g_exp (tk TK_FUNCTION # b)"
| exp_prefix: "g_prefix f p \<Longrightarrow> g_exp p"
| exp_table: "g_table t \<Longrightarrow> g_exp t"
| exp_binop: "g_exp a \<Longrightarrow> t \<in> binops \<Longrightarrow> g_exp b \<Longrightarrow> g_exp (a @ t # b)"
| exp_unop: "t \<in> unops \<Longrightarrow> g_exp a \<Longrightarrow> g_exp (t # a)"

| prefix_name: "g_prefix Variable [tk TK_NAME]"
| prefix_parens: "g_exp e \<Longrightarrow> g_prefix Parens (char_tok CHR ''('' # e @ [char_tok CHR '')''])"
| prefix_index: "g_prefix f p \<Longrightarrow> g_exp e \<Longrightarrow> g_prefix Variable (p @ char_tok CHR ''['' # e @ [char_tok CHR '']''])"
| prefix_field: "g_prefix f p \<Longrightarrow> g_prefix Variable (p @ [char_tok CHR ''.'', tk TK_NAME])"
| prefix_call: "g_prefix f p \<Longrightarrow> g_args a \<Longrightarrow> g_prefix Call (p @ a)"
| prefix_method: "g_prefix f p \<Longrightarrow> g_args a \<Longrightarrow> g_prefix Call (p @ char_tok CHR '':'' # tk TK_NAME # a)"

| args_empty: "g_args [char_tok CHR ''('', char_tok CHR '')'']"
| args_list: "g_explist es \<Longrightarrow> g_args (char_tok CHR ''('' # es @ [char_tok CHR '')''])"
| args_table: "g_table t \<Longrightarrow> g_args t"
| args_string: "g_args [tk TK_STRING]"

| explist_one: "g_exp e \<Longrightarrow> g_explist e"
| explist_more: "g_explist es \<Longrightarrow> g_exp e \<Longrightarrow> g_explist (es @ char_tok CHR '','' # e)"

| table_items: "g_items is \<Longrightarrow> g_table (char_tok CHR ''{'' # is @ [char_tok CHR ''}''])"
| items_none: "g_items []"
| items_one: "g_item i \<Longrightarrow> g_items i"
| items_more: "g_item i \<Longrightarrow> t \<in> {char_tok CHR '','', char_tok CHR '';''} \<Longrightarrow> g_items is \<Longrightarrow> g_items (i @ t # is)"
| item_key: "g_exp k \<Longrightarrow> g_exp e \<Longrightarrow>
    g_item (char_tok CHR ''['' # k @ char_tok CHR '']'' # char_tok CHR ''='' # e)"
| item_name: "g_exp e \<Longrightarrow> g_item (tk TK_NAME # char_tok CHR ''='' # e)"
| item_exp: "g_exp e \<Longrightarrow> g_item e"

| body: "g_pars ps \<Longrightarrow> g_chunk b \<Longrightarrow>
    g_body (char_tok CHR ''('' # ps @ char_tok CHR '')'' # b @ [tk TK_END])"

| vars_one: "g_prefix Variable v \<Longrightarrow> g_vars v"
| vars_more: "g_vars vs \<Longrightarrow> g_prefix Variable v \<Longrightarrow> g_vars (vs @ char_tok CHR '','' # v)"

| stat_assign: "g_vars vs \<Longrightarrow> g_explist es \<Longrightarrow> g_stat (vs @ char_tok CHR ''='' # es)"
| stat_call: "g_prefix Call c \<Longrightarrow> g_stat c"
| stat_do: "g_chunk b \<Longrightarrow> g_stat (tk TK_DO # b @ [tk TK_END])"
| stat_while: "g_exp e \<Longrightarrow> g_chunk b \<Longrightarrow> g_stat (tk TK_WHILE # e @ tk TK_DO # b @ [tk TK_END])"
| stat_repeat: "g_chunk b \<Longrightarrow> g_exp e \<Longrightarrow> g_stat (tk TK_REPEAT # b @ tk TK_UNTIL # e)"
| stat_if: "g_exp e \<Longrightarrow> g_chunk b \<Longrightarrow> g_else el \<Longrightarrow> g_stat (tk TK_IF # e @ tk TK_THEN # b @ el)"
| stat_for: "g_exp e1 \<Longrightarrow> g_exp e2 \<Longrightarrow> g_chunk b \<Longrightarrow>
    g_stat (tk TK_FOR # tk TK_NAME # char_tok CHR ''='' # e1 @ char_tok CHR '','' # e2 @ tk TK_DO # b @ [tk TK_END])"
| stat_for_step: "g_exp e1 \<Longrightarrow> g_exp e2 \<Longrightarrow> g_exp e3 \<Longrightarrow> g_chunk b \<Longrightarrow>
    g_stat (tk TK_FOR # tk TK_NAME # char_tok CHR ''='' # e1 @ char_tok CHR '','' # e2 @ char_tok CHR '','' # e3
      @ tk TK_DO # b @ [tk TK_END])"
| stat_for_in: "g_names ns \<Longrightarrow> g_explist es \<Longrightarrow> g_chunk b \<Longrightarrow>
    g_stat (tk TK_FOR # ns @ tk TK_IN # es @ tk TK_DO # b @ [tk TK_END])"
| stat_function: "g_funcname f \<Longrightarrow> g_body b \<Longrightarrow> g_stat (tk TK_FUNCTION # f @ b)"
| stat_local_function: "g_body b \<Longrightarrow> g_stat (tk TK_LOCAL # tk TK_FUNCTION # tk TK_NAME # b)"
| stat_local: "g_names ns \<Longrightarrow> g_stat (tk TK_LOCAL # ns)"
| stat_local_assign: "g_names ns \<Longrightarrow> g_explist es \<Longrightarrow> g_stat (tk TK_LOCAL # ns @ char_tok CHR ''='' # es)"

| else_end: "g_else [tk TK_END]"
| else_else: "g_chunk b \<Longrightarrow> g_else (tk TK_ELSE # b @ [tk TK_END])"
| else_if: "g_exp e \<Longrightarrow> g_chunk b \<Longrightarrow> g_else el \<Longrightarrow> g_else (tk TK_ELSEIF # e @ tk TK_THEN # b @ el)"

| last_break: "g_last [tk TK_BREAK]"
| last_return: "g_last [tk TK_RETURN]"
| last_values: "g_explist es \<Longrightarrow> g_last (tk TK_RETURN # es)"

| chunk_empty: "g_chunk []"
| chunk_stat: "g_stat s \<Longrightarrow> g_chunk c \<Longrightarrow> g_chunk (s @ c)"
| chunk_stat_sep: "g_stat s \<Longrightarrow> g_chunk c \<Longrightarrow> g_chunk (s @ char_tok CHR '';'' # c)"
| chunk_last: "g_last s \<Longrightarrow> g_chunk s"
| chunk_last_sep: "g_last s \<Longrightarrow> g_chunk (s @ [char_tok CHR '';''])"

lemmas g_rules = exp_token exp_function exp_prefix exp_table exp_binop exp_unop prefix_name prefix_parens
  prefix_index prefix_field prefix_call prefix_method args_empty args_list args_table args_string
  explist_one explist_more table_items items_none items_one items_more item_key item_name item_exp body
  vars_one vars_more stat_assign stat_call stat_do stat_while stat_repeat stat_if stat_for stat_for_step
  stat_for_in stat_function stat_local_function stat_local stat_local_assign else_end else_else else_if
  last_break last_return last_values chunk_empty chunk_stat chunk_stat_sep chunk_last chunk_last_sep

text \<open>No expression and no statement is empty.\<close>

lemma g_not_empty:
  "g_exp ts \<Longrightarrow> ts \<noteq> []" "g_prefix f ts \<Longrightarrow> ts \<noteq> []" "g_args ts \<Longrightarrow> ts \<noteq> []" "g_explist ts \<Longrightarrow> ts \<noteq> []"
  "g_table ts \<Longrightarrow> ts \<noteq> []" "g_items ts \<Longrightarrow> True" "g_item ts \<Longrightarrow> ts \<noteq> []" "g_body ts \<Longrightarrow> ts \<noteq> []"
  "g_vars ts \<Longrightarrow> ts \<noteq> []" "g_stat ts \<Longrightarrow> ts \<noteq> []" "g_else ts \<Longrightarrow> ts \<noteq> []" "g_last ts \<Longrightarrow> ts \<noteq> []" "g_chunk ts \<Longrightarrow> True"
  by (induction rule: g_exp_g_prefix_g_args_g_explist_g_table_g_items_g_item_g_body_g_vars_g_stat_g_else_g_last_g_chunk.inducts) auto

end
