(* ===== verification/Parser_Tokens.thy ===== *)
theory Parser_Tokens
  imports Grammar Lexer_Props
begin

text \<open>
  What the parser does with tokens. The judgement \<open>here\<close> says which tokens have been consumed since a
  state of the lexer; it has a rule for each action. The errors that only the fuel of the model could
  raise are excluded.
\<close>

section \<open>Consumed tokens\<close>

text \<open>
  The changes that the parser makes to the state of the lexer: to consume the current token, to look
  ahead, to enter a string, and to go to the table \<open>h\<close> of another function or change it.
\<close>

inductive reads :: "lex_env \<Rightarrow> LexState \<Rightarrow> int list \<Rightarrow> LexState \<Rightarrow> bool" for E where
  start: "reads E ls [] ls"
| consume: "reads E ls ts l1 \<Longrightarrow> luaX_next E l1 = Inr (u, l2) \<Longrightarrow> reads E ls (ts @ [token (tok l1)]) l2"
| look: "reads E ls ts l1 \<Longrightarrow> token (lookahead l1) = tk TK_EOS \<Longrightarrow> luaX_lookahead E l1 = Inr (u, l2) \<Longrightarrow> reads E ls ts l2"
| enter: "reads E ls ts l1 \<Longrightarrow> luaX_newstring E s l1 = Inr (p, l2) \<Longrightarrow> reads E ls ts l2"
| table: "reads E ls ts l1 \<Longrightarrow> reads E ls ts (l1\<lparr>fs_h := t\<rparr>)"

text \<open>States from which the lexer may read a token, and the number of tokens that may come.\<close>

definition sound :: "LexState \<Rightarrow> bool" where "sound ls \<longleftrightarrow> lok (fresh_buffer ls)"

abbreviation EOS :: int where "EOS \<equiv> tk TK_EOS"

definition tokens_left :: "LexState \<Rightarrow> nat" where
  "tokens_left ls = lex_left ls + (if token (lookahead ls) \<noteq> EOS then 1 else 0) + (if token (tok ls) \<noteq> EOS then 1 else 0)"

lemma sound_upd:
  "sound (ls\<lparr>fs_h := t\<rparr>) = sound ls" "sound (ls\<lparr>lastline := n\<rparr>) = sound ls"
  "sound (ls\<lparr>tok := k\<rparr>) = sound ls" "sound (ls\<lparr>lookahead := k\<rparr>) = sound ls"
  "tokens_left (ls\<lparr>fs_h := t\<rparr>) = tokens_left ls"
  "lok (ls\<lparr>fs_h := t\<rparr>) = lok ls" "lok (ls\<lparr>lastline := n\<rparr>) = lok ls" "lok (ls\<lparr>tok := k\<rparr>) = lok ls" "lok (ls\<lparr>lookahead := k\<rparr>) = lok ls"
  by (simp_all add: sound_def lok_def fresh_buffer_def tokens_left_def lex_left_def)

lemma sound_lok: "lok ls \<Longrightarrow> sound ls"
  by (simp add: sound_def lok_def mbuf_ok_def fresh_buffer_def luaZ_resetbuffer_def)

lemma llex_sound:
  assumes "sound ls"
  shows "llex E ls \<noteq> Inl LexStuck"
    "llex E ls = Inr (x, ls') \<Longrightarrow> lok ls' \<and> lex_left ls' + (if fst x = EOS then 0 else 1) \<le> lex_left ls
      \<and> lookahead ls' = lookahead ls \<and> tok ls' = tok ls"
proof -
  have s: "lok (fresh_buffer ls)" "lex_left (fresh_buffer ls) = lex_left ls" "lookahead (fresh_buffer ls) = lookahead ls" "tok (fresh_buffer ls) = tok ls"
    using assms by (simp_all add: sound_def fresh_buffer_def lex_left_buff)
  have e: "llex E ls = llex E (fresh_buffer ls)" by (simp add: llex_fresh)
  note ok = lex_okD [OF llex_ok [of "lex_left ls" E] s(1)]
  show "llex E ls \<noteq> Inl LexStuck" unfolding e by (rule ok(1)) (simp add: s(2))
  assume r: "llex E ls = Inr (x, ls')"
  have "lok ls' \<and> lex_left ls' + 0 \<le> lex_left (fresh_buffer ls) \<and> token_read (lex_left ls) x ls'"
    by (rule ok(2) [OF _ r [unfolded e]]) (simp add: s(2))
  moreover have "lookahead ls' = lookahead ls \<and> tok ls' = tok ls"
    using keeps_llex [of E] r [unfolded e] s(3,4) unfolding keeps_def keeps_to_def by metis
  ultimately show "lok ls' \<and> lex_left ls' + (if fst x = EOS then 0 else 1) \<le> lex_left ls
      \<and> lookahead ls' = lookahead ls \<and> tok ls' = tok ls" using s(2) by auto
qed

lemma next_sound:
  assumes "sound ls"
  shows "luaX_next E ls \<noteq> Inl LexStuck"
    "luaX_next E ls = Inr (u, ls') \<Longrightarrow> (token (lookahead ls) = EOS \<or> lok ls \<longrightarrow> lok ls') \<and> token (lookahead ls') = EOS \<and> tokens_left ls' \<le> lex_left ls + (if token (lookahead ls) \<noteq> EOS then 1 else 0)"
proof -
  let ?l = "ls\<lparr>lastline := linenumber ls\<rparr>"
  have l: "sound ?l" "lex_left ?l = lex_left ls" using assms by (simp_all add: sound_upd lex_left_def)
  note ok = llex_sound [OF l(1), where E = E]
  show "luaX_next E ls \<noteq> Inl LexStuck"
    using ok(1) by (auto simp: luaX_next_def lseq_def lbind_def lmodify_def lif_def split: sum.split)
  assume r: "luaX_next E ls = Inr (u, ls')"
  show "(token (lookahead ls) = EOS \<or> lok ls \<longrightarrow> lok ls') \<and> token (lookahead ls') = EOS \<and> tokens_left ls' \<le> lex_left ls + (if token (lookahead ls) \<noteq> EOS then 1 else 0)"
  proof (cases "token (lookahead ls) = EOS")
    case False
    with r l show ?thesis
      by (auto simp: luaX_next_def lif_def tokens_left_def sound_upd lex_left_def)
  next
    case True
    with r obtain k s l1 where "llex E ?l = Inr ((k, s), l1)" "ls' = l1\<lparr>tok := set_token (tok l1) k s\<rparr>"
      by (auto simp: luaX_next_def lif_def)
    with ok(2) [of "(k, s)" l1] l(2) True show ?thesis
      by (auto simp: sound_upd tokens_left_def lex_left_def set_token_token split: if_splits)
  qed
qed

lemma lookahead_sound:
  assumes "sound ls"
  shows "luaX_lookahead E ls \<noteq> Inl LexStuck"
    "luaX_lookahead E ls = Inr (u, ls') \<Longrightarrow> lok ls' \<and> tokens_left ls' \<le> tokens_left ls \<and> tok ls' = tok ls"
proof -
  note ok = llex_sound [OF assms, where E = E]
  show "luaX_lookahead E ls \<noteq> Inl LexStuck"
    using ok(1) by (auto simp: luaX_lookahead_def lbind_def lmodify_def split: sum.split)
  assume "luaX_lookahead E ls = Inr (u, ls')"
  then obtain k s l1 where "llex E ls = Inr ((k, s), l1)" "ls' = l1\<lparr>lookahead := set_token (lookahead l1) k s\<rparr>"
    by (auto simp: luaX_lookahead_def)
  with ok(2) [of "(k, s)" l1] show "lok ls' \<and> tokens_left ls' \<le> tokens_left ls \<and> tok ls' = tok ls"
    by (auto simp: sound_upd tokens_left_def lex_left_def set_token_token split: if_splits)
qed

lemma newstring_sound:
  assumes "lok ls"
  shows "luaX_newstring E s ls \<noteq> Inl LexStuck"
    "luaX_newstring E s ls = Inr (p, ls') \<Longrightarrow> lok ls' \<and> tokens_left ls' = tokens_left ls \<and> tok ls' = tok ls
      \<and> lookahead ls' = lookahead ls"
  using assms
  by (auto simp: luaX_newstring_def lok_def tokens_left_def lex_left_def Let_def
      split: option.splits sum.splits prod.splits)

lemma lexerror_throws: "lok ls \<Longrightarrow> \<exists>e. luaX_lexerror msg t ls = Inl e \<and> e \<noteq> LexStuck"
proof -
  assume "lok ls"
  then have "save 0 ls \<noteq> Inl LexStuck" using lex_okD(1) [OF save_any] by blast
  then show ?thesis
    by (auto simp: luaX_lexerror_def txtToken_def lexerror_plain_def lseq_def lbind_def lret_def split: sum.split)
qed


section \<open>Actions that raise only errors of the program\<close>

definition bad_errors :: "parse_error set" where
  "bad_errors = {PDepth, PLoop, PNull, PLex LexStuck}"

definition psafe :: "'a parse \<Rightarrow> PState \<Rightarrow> ('a \<Rightarrow> PState \<Rightarrow> bool) \<Rightarrow> bool" where
  "psafe m ps Q \<longleftrightarrow> (case m ps of Inl e \<Rightarrow> e \<notin> bad_errors | Inr (x, ps') \<Rightarrow> Q x ps')"

lemma psafe_simps:
  "psafe (lret x) ps Q \<longleftrightarrow> Q x ps"
  "psafe (pget f) ps Q \<longleftrightarrow> Q (f ps) ps"
  "psafe (lbind m k) ps S \<longleftrightarrow> psafe m ps (\<lambda>x s. psafe (k x) s S)"
  "psafe (lseq m n) ps S \<longleftrightarrow> psafe m ps (\<lambda>x s. psafe n s S)"
  "psafe (lif c a b) ps S \<longleftrightarrow> (if c ps then psafe a ps S else psafe b ps S)"
  "psafe (if d then a else b) ps S \<longleftrightarrow> (if d then psafe a ps S else psafe b ps S)"
  "psafe (case z of (x, y) \<Rightarrow> g x y) ps S \<longleftrightarrow> psafe (g (fst z) (snd z)) ps S"
  by (auto simp: psafe_def lret_def pget_def lbind_def lseq_def lif_def split: sum.splits prod.splits)

lemma psafe_lmodify: "psafe (lmodify f) ps Q \<longleftrightarrow> Q () (f ps)"
  by (simp add: psafe_def lmodify_def)

lemma psafe_mono: "psafe m ps Q \<Longrightarrow> (\<And>x s. Q x s \<Longrightarrow> R x s) \<Longrightarrow> psafe m ps R"
  by (auto simp: psafe_def split: sum.splits)

text \<open>An action that is chosen by its state.\<close>

lemma psafe_at: "psafe (m ps) ps Q \<Longrightarrow> psafe (\<lambda>s. m s s) ps Q"
  by (simp add: psafe_def)

text \<open>
  \<open>here P m c l k ts t ps\<close>: since \<open>l\<close>, the tokens \<open>ts\<close> have been consumed, the current token is \<open>t\<close>, and at
  most \<open>m - length ts\<close> more may come; \<open>nCcalls\<close> is \<open>c\<close>, and \<open>k\<close> functions are open. The mark of \<open>l\<close>
  says that no token ahead has been read.
\<close>

definition here :: "parse_env \<Rightarrow> nat \<Rightarrow> int \<Rightarrow> LexState \<times> bool \<Rightarrow> nat \<Rightarrow> int list \<Rightarrow> int \<Rightarrow> PState \<Rightarrow> bool" where
  "here P m c l k ts t ps \<longleftrightarrow> reads (p_lex P) (fst l) ts (ps_ls ps) \<and> lok (ps_ls ps)
     \<and> (snd l \<longrightarrow> token (lookahead (ps_ls ps)) = EOS)
     \<and> tokens_left (ps_ls ps) + length ts \<le> m \<and> nCcalls ps = c \<and> c \<le> int LUAI_MAXCCALLS
     \<and> length (ps_fs ps) = k \<and> 0 < k \<and> ptok ps = t"

named_theorems here_rules \<open>the rules of the judgement\<close>

text \<open>A result of the code generator.\<close>

definition produced :: "'a codegen \<Rightarrow> 'a \<Rightarrow> bool" where
  "produced m x \<longleftrightarrow> (\<exists>g g'. m g = Inr (x, g'))"

lemma lexer_eq:
  assumes "ps_fs ps = fs # prev"
  shows "lexer m ps = (case m ((ps_ls ps)\<lparr>fs_h := fs_ktab (gen fs)\<rparr>) of
     Inl e \<Rightarrow> Inl (PLex e)
   | Inr (x, ls) \<Rightarrow> Inr (x, ps\<lparr>ps_ls := ls, ps_fs := fs\<lparr>gen := (gen fs)\<lparr>fs_ktab := fs_h ls\<rparr>\<rparr> # prev\<rparr>))"
  using assms by (simp add: lexer_def)

lemma lexer_safe:
  assumes "ps_fs ps \<noteq> []" "\<And>h. m ((ps_ls ps)\<lparr>fs_h := h\<rparr>) \<noteq> Inl LexStuck"
    and "\<And>h x ls fss. m ((ps_ls ps)\<lparr>fs_h := h\<rparr>) = Inr (x, ls) \<Longrightarrow> length fss = length (ps_fs ps)
      \<Longrightarrow> Q x (ps\<lparr>ps_ls := ls, ps_fs := fss\<rparr>)"
  shows "psafe (lexer m) ps Q"
proof -
  obtain fs prev where f: "ps_fs ps = fs # prev" using assms(1) by (cases "ps_fs ps") auto
  show ?thesis using assms(2,3) f
    by (auto simp: psafe_def bad_errors_def lexer_eq [OF f] split: sum.split)
qed

lemma lexerror_psafe:
  fixes Q :: "'a \<Rightarrow> PState \<Rightarrow> bool"
  assumes "ps_fs ps \<noteq> []" "lok (ps_ls ps)"
  shows "psafe (lexer (luaX_lexerror msg x)) ps Q"
proof (rule lexer_safe [OF assms(1)])
  fix h
  have l: "lok ((ps_ls ps)\<lparr>fs_h := h\<rparr>)" for h using assms(2) by (simp add: sound_upd)
  obtain e where "(luaX_lexerror msg x :: 'a lex) ((ps_ls ps)\<lparr>fs_h := h\<rparr>) = Inl e" "e \<noteq> LexStuck"
    using lexerror_throws [OF l, of msg x h] by blast
  then show "(luaX_lexerror msg x :: 'a lex) ((ps_ls ps)\<lparr>fs_h := h\<rparr>) \<noteq> Inl LexStuck" by simp
next
  fix h y ls and fss :: "FuncParse list" assume "(luaX_lexerror msg x :: 'a lex) ((ps_ls ps)\<lparr>fs_h := h\<rparr>) = Inr (y, ls)"
  moreover have "lok ((ps_ls ps)\<lparr>fs_h := h\<rparr>)" using assms(2) by (simp add: sound_upd)
  ultimately show "Q y (ps\<lparr>ps_ls := ls, ps_fs := fss\<rparr>)" using lexerror_throws [where 'a = 'a, of _ msg x] by fastforce
qed

lemma syntaxerror_eq: "lexer (luaX_syntaxerror msg) ps = lexer (luaX_lexerror msg (ptok ps)) ps"
  by (cases "ps_fs ps") (simp_all add: lexer_def luaX_syntaxerror_def ptok_def)

lemma syntaxerror_psafe: "ps_fs ps \<noteq> [] \<Longrightarrow> lok (ps_ls ps) \<Longrightarrow> psafe (lexer (luaX_syntaxerror msg)) ps Q"
  using lexerror_psafe [of ps msg "ptok ps" Q] by (simp add: psafe_def syntaxerror_eq)

lemma here_open: "here P m c l k ts t ps \<Longrightarrow> ps_fs ps \<noteq> []" "here P m c l k ts t ps \<Longrightarrow> lok (ps_ls ps)"
  by (auto simp: here_def)

text \<open>The mark may be dropped, or set when the slot is empty.\<close>

lemma here_mark:
  "here P m c l k ts t ps \<Longrightarrow> here P m c (fst l, False) k ts t ps"
  "here P m c (l', True) k ts t ps \<Longrightarrow> fst l = l' \<Longrightarrow> here P m c l k ts t ps"
  by (auto simp: here_def)

lemma here_error [here_rules]:
  "here P m c l k ts t ps \<Longrightarrow> psafe (syntax_error msg) ps Q"
  "here P m c l k ts t ps \<Longrightarrow> psafe (error_expected x) ps Q"
  "here P m c l k ts t ps \<Longrightarrow> psafe (errorlimit a b w) ps Q"
  unfolding syntax_error_def error_expected_def errorlimit_def
  by (rule syntaxerror_psafe lexerror_psafe; erule here_open)+

lemma here_code [here_rules]:
  assumes "here P m c l k ts t ps"
    and "\<And>x ps'. here P m c l k ts t ps' \<Longrightarrow> produced a x \<Longrightarrow> Q x ps'"
  shows "psafe (code a) ps Q"
proof -
  obtain fs prev where f: "ps_fs ps = fs # prev" using here_open(1) [OF assms(1)] by (cases "ps_fs ps") auto
  let ?g = "(gen fs)\<lparr>fs_lastline := lastline (ps_ls ps)\<rparr>"
  show ?thesis
  proof (cases "a ?g")
    case (Inl e)
    have "psafe (lexer (luaX_syntaxerror msg) :: 'a parse) ps Q" for msg
      using here_error(1) [OF assms(1)] by (simp add: syntax_error_def)
    with Inl f show ?thesis by (cases e) (auto simp: psafe_def code_def bad_errors_def)
  next
    case (Inr w)
    obtain x g where w: "w = (x, g)" by (cases w)
    have "produced a x" using Inr w by (auto simp: produced_def)
    moreover have "here P m c l k ts t (ps\<lparr>ps_fs := fs\<lparr>gen := g\<rparr> # prev\<rparr>)"
      using assms(1) f by (simp add: here_def ptok_def)
    ultimately show ?thesis using Inr w f assms(2) by (simp add: psafe_def code_def)
  qed
qed

lemma here_codeE [here_rules]:
  assumes "here P m c l k ts t ps"
    and "\<And>x ps' E. here P m c l k ts t ps' \<Longrightarrow> produced (a E) x \<Longrightarrow> Q x ps'"
  shows "psafe (codeE P' a) ps Q"
  using here_code [OF assms(1), of "a (code_env_at P' ps)" Q] assms(2) by (simp add: psafe_def codeE_def)

text \<open>After a token has been consumed, the slot of the token ahead is empty.\<close>

lemma here_next_mark:
  assumes "here P m c l k ts t ps" "t \<noteq> EOS"
    and "\<And>ps' t'. here P m c (fst l, True) k (ts @ [t]) t' ps' \<Longrightarrow> Q () ps'"
  shows "psafe (pnext P) ps Q"
  unfolding pnext_def
proof (rule lexer_safe [OF here_open(1) [OF assms(1)]])
  fix h
  let ?l = "(ps_ls ps)\<lparr>fs_h := h\<rparr>"
  have s: "lok ?l" "token (tok ?l) = t" "tokens_left ?l + length ts \<le> m" "reads (p_lex P) (fst l) ts ?l"
    using assms(1) by (auto simp: here_def sound_upd ptok_def intro: reads.table)
  note n = next_sound [OF sound_lok [OF s(1)]]
  show "luaX_next (p_lex P) ?l \<noteq> Inl LexStuck" using n(1) .
  fix x ls and fss :: "FuncParse list"
  assume r: "luaX_next (p_lex P) ?l = Inr (x, ls)" "length fss = length (ps_fs ps)"
  have "reads (p_lex P) (fst l) (ts @ [t]) ls" using reads.consume [OF s(4) r(1)] s(2) by simp
  moreover have "lok ls \<and> token (lookahead ls) = EOS \<and> tokens_left ls < tokens_left ?l"
    using n(2) [OF r(1)] s(1,2) assms(2) by (auto simp: tokens_left_def)
  ultimately have "here P m c (fst l, True) k (ts @ [t]) (token (tok ls)) (ps\<lparr>ps_ls := ls, ps_fs := fss\<rparr>)"
    using assms(1) r(2) s(3) by (simp add: here_def ptok_def)
  from assms(3) [OF this] show "Q x (ps\<lparr>ps_ls := ls, ps_fs := fss\<rparr>)" by simp
qed

lemma here_next [here_rules]:
  assumes "here P m c l k ts t ps" "t \<noteq> EOS"
    and "\<And>ps' t'. here P m c l k (ts @ [t]) t' ps' \<Longrightarrow> Q () ps'"
  shows "psafe (pnext P) ps Q"
  using here_mark(2) [of P m c "fst l" k "ts @ [t]" _ _ l] by (intro here_next_mark [OF assms(1,2)] assms(3)) simp

lemma here_lookahead [here_rules]:
  assumes "here P m c (l, True) k ts t ps" "\<And>ps'. here P m c (l, False) k ts t ps' \<Longrightarrow> Q () ps'"
  shows "psafe (lexer (luaX_lookahead (p_lex P))) ps Q"
proof (rule lexer_safe [OF here_open(1) [OF assms(1)]])
  fix h
  let ?l = "(ps_ls ps)\<lparr>fs_h := h\<rparr>"
  have s: "lok ?l" "token (tok ?l) = t" "tokens_left ?l + length ts \<le> m" "reads (p_lex P) l ts ?l" "token (lookahead ?l) = EOS"
    using assms(1) by (auto simp: here_def sound_upd ptok_def intro: reads.table)
  note n = lookahead_sound [OF sound_lok [OF s(1)]]
  show "luaX_lookahead (p_lex P) ?l \<noteq> Inl LexStuck" using n(1) .
  fix x ls and fss :: "FuncParse list"
  assume r: "luaX_lookahead (p_lex P) ?l = Inr (x, ls)" "length fss = length (ps_fs ps)"
  have "here P m c (l, False) k ts t (ps\<lparr>ps_ls := ls, ps_fs := fss\<rparr>)"
    using assms(1) r(2) s n(2) [OF r(1)] reads.look [OF s(4,5) r(1)] by (simp add: here_def ptok_def)
  from assms(2) [OF this] show "Q x (ps\<lparr>ps_ls := ls, ps_fs := fss\<rparr>)" by simp
qed

lemma here_newstring [here_rules]:
  assumes "here P m c l k ts t ps" "\<And>s ps'. here P m c l k ts t ps' \<Longrightarrow> Q s ps'"
  shows "psafe (lexer (luaX_newstring (p_lex P) str)) ps Q"
proof (rule lexer_safe [OF here_open(1) [OF assms(1)]])
  fix h
  let ?l = "(ps_ls ps)\<lparr>fs_h := h\<rparr>"
  have s: "lok ?l" "token (tok ?l) = t" "tokens_left ?l + length ts \<le> m" "reads (p_lex P) (fst l) ts ?l"
    "snd l \<longrightarrow> token (lookahead ?l) = EOS"
    using assms(1) by (auto simp: here_def sound_upd ptok_def intro: reads.table)
  show "luaX_newstring (p_lex P) str ?l \<noteq> Inl LexStuck" using newstring_sound(1) [OF s(1)] .
  fix x ls and fss :: "FuncParse list"
  assume r: "luaX_newstring (p_lex P) str ?l = Inr (x, ls)" "length fss = length (ps_fs ps)"
  have "here P m c l k ts t (ps\<lparr>ps_ls := ls, ps_fs := fss\<rparr>)"
    using assms(1) r(2) s newstring_sound(2) [OF s(1) r(1)] reads.enter [OF s(4) r(1)] by (simp add: here_def ptok_def)
  from assms(2) [OF this] show "Q x (ps\<lparr>ps_ls := ls, ps_fs := fss\<rparr>)" .
qed

end
