(* ===== verification/Parser_Sound.thy ===== *)
theory Parser_Sound
  imports Parser_Tokens
begin

text \<open>
  The parser accepts only chunks of the grammar, and never runs out of fuel: each rule of the parser
  has a lemma that says which tokens it consumes.
\<close>

section \<open>Tokens and variables\<close>

lemma char_tok_range: "0 \<le> char_tok c \<and> char_tok c < 256"
  by (cases c) (simp add: char_tok_def of_char_def split: if_splits)

lemma char_tok_neq [simp]: "char_tok c \<noteq> tk r" "tk r \<noteq> char_tok c"
  using char_tok_range [of c] by (cases r; simp)+

lemma char_tok_eq [simp]: "char_tok c = char_tok d \<longleftrightarrow> c = d"
  by (simp add: char_tok_def)

lemma tk_eq [simp]: "tk r = tk s \<longleftrightarrow> r = s"
  by (cases r; cases s; simp)

declare tk.simps [simp del]

text \<open>Changes of the state that leave the tokens alone.\<close>

lemma here_same:
  assumes "here P m c l k ts t ps" "ps_ls ps' = ps_ls ps" "nCcalls ps' = nCcalls ps" "length (ps_fs ps') = length (ps_fs ps)"
  shows "here P m c l k ts t ps'"
  using assms by (simp add: here_def ptok_def)

lemma here_set_fs [here_rules]:
  assumes "here P m c l k ts t ps" "\<And>ps'. here P m c l k ts t ps' \<Longrightarrow> Q () ps'"
  shows "psafe (set_fs f) ps Q" "psafe (set_gen g) ps Q"
proof -
  have "here P m c l k ts t (ps\<lparr>ps_fs := f (cur_fs ps) # tl (ps_fs ps)\<rparr>)" for f
    using assms(1) by (cases "ps_fs ps") (auto simp: here_def ptok_def)
  then show "psafe (set_fs f) ps Q" for f
    using assms(2) by (simp add: psafe_def set_fs_def lmodify_def)
  then show "psafe (set_gen g) ps Q" by (simp add: set_gen_def)
qed

lemma here_lif [here_rules]:
  assumes "here P m c l k ts t ps"
    and "t = x \<Longrightarrow> here P m c l k ts t ps \<Longrightarrow> psafe a ps Q" "t \<noteq> x \<Longrightarrow> here P m c l k ts t ps \<Longrightarrow> psafe b ps Q"
  shows "psafe (lif (is_tok x) a b) ps Q"
  using assms by (auto simp: psafe_simps is_tok_def here_def)

lemma here_testnext_mark:
  assumes "here P m c l k ts t ps" "x \<noteq> EOS"
    and "\<And>ps' t'. t = x \<Longrightarrow> here P m c (fst l, True) k (ts @ [x]) t' ps' \<Longrightarrow> Q True ps'"
    and "t \<noteq> x \<Longrightarrow> here P m c l k ts t ps \<Longrightarrow> Q False ps"
  shows "psafe (testnext P x) ps Q"
  unfolding testnext_def
  by (rule here_lif [OF assms(1)]) (use assms(2-4) in \<open>auto simp: psafe_simps intro!: here_next_mark\<close>)

lemma here_testnext [here_rules]:
  assumes "here P m c l k ts t ps" "x \<noteq> EOS"
    and "\<And>ps' t'. t = x \<Longrightarrow> here P m c l k (ts @ [x]) t' ps' \<Longrightarrow> Q True ps'"
    and "t \<noteq> x \<Longrightarrow> here P m c l k ts t ps \<Longrightarrow> Q False ps"
  shows "psafe (testnext P x) ps Q"
  unfolding testnext_def
  by (rule here_lif [OF assms(1)]) (use assms(2-4) in \<open>auto simp: psafe_simps intro!: here_next\<close>)

lemma here_check [here_rules]:
  assumes "here P m c l k ts t ps" "t = x \<Longrightarrow> here P m c l k ts t ps \<Longrightarrow> Q () ps"
  shows "psafe (check_tok x) ps Q"
proof -
  have "\<not> is_tok x ps \<longleftrightarrow> t \<noteq> x" using assms(1) by (auto simp: is_tok_def here_def)
  then show ?thesis unfolding check_tok_def psafe_simps using here_error [OF assms(1)] assms by auto
qed

lemma here_checknext_mark:
  assumes "here P m c l k ts t ps" "x \<noteq> EOS" "\<And>ps' t'. here P m c (fst l, True) k (ts @ [x]) t' ps' \<Longrightarrow> Q () ps'"
  shows "psafe (checknext P x) ps Q"
  unfolding checknext_def psafe_simps
  by (rule here_check [OF assms(1)]) (use assms(2,3) in \<open>auto intro: here_next_mark\<close>)

lemma here_checknext [here_rules]:
  assumes "here P m c l k ts t ps" "x \<noteq> EOS" "\<And>ps' t'. here P m c l k (ts @ [x]) t' ps' \<Longrightarrow> Q () ps'"
  shows "psafe (checknext P x) ps Q"
  unfolding checknext_def psafe_simps
  by (rule here_check [OF assms(1)]) (use assms(2,3) in \<open>auto intro: here_next\<close>)

lemma here_check_match_mark:
  assumes "here P m c l k ts t ps" "x \<noteq> EOS" "\<And>ps' t'. here P m c (fst l, True) k (ts @ [x]) t' ps' \<Longrightarrow> Q () ps'"
  shows "psafe (check_match P x y z) ps Q"
  unfolding check_match_def psafe_simps
  by (rule here_testnext_mark [OF assms(1,2)]) (use assms(3) here_error [OF assms(1)] in \<open>auto simp: psafe_simps\<close>)

lemma here_check_match [here_rules]:
  assumes "here P m c l k ts t ps" "x \<noteq> EOS" "\<And>ps' t'. here P m c l k (ts @ [x]) t' ps' \<Longrightarrow> Q () ps'"
  shows "psafe (check_match P x y z) ps Q"
  unfolding check_match_def psafe_simps
  by (rule here_testnext [OF assms(1,2)]) (use assms(3) here_error [OF assms(1)] in \<open>auto simp: psafe_simps\<close>)

lemma here_checkname [here_rules]:
  assumes "here P m c l k ts t ps" "\<And>x ps' t'. here P m c l k (ts @ [tk TK_NAME]) t' ps' \<Longrightarrow> Q x ps'"
  shows "psafe (str_checkname P) ps Q"
  unfolding str_checkname_def psafe_simps
  by (rule here_check [OF assms(1)]) (use assms(2) in \<open>auto simp: psafe_simps intro: here_next\<close>)

lemma here_codestring [here_rules]:
  assumes "here P m c l k ts t ps" "\<And>x ps'. here P m c l k ts t ps' \<Longrightarrow> Q x ps'"
  shows "psafe (codestring P s) ps Q"
  unfolding codestring_def psafe_simps by (rule here_codeE [OF assms(1)]) (rule assms(2))

lemma here_checkname_exp [here_rules]:
  assumes "here P m c l k ts t ps" "\<And>x ps' t'. here P m c l k (ts @ [tk TK_NAME]) t' ps' \<Longrightarrow> Q x ps'"
  shows "psafe (checkname P) ps Q"
  unfolding checkname_def psafe_simps by (rule here_checkname [OF assms(1)], erule here_codestring, rule assms(2))

lemma here_run [here_rules]:
  "here P m c l k ts t ps \<Longrightarrow> psafe (pthrow (PCode e)) ps Q"
  by (simp add: psafe_def pthrow_def bad_errors_def)

lemma here_checklimit [here_rules]:
  assumes "here P m c l k ts t ps" "here P m c l k ts t ps \<Longrightarrow> Q () ps"
  shows "psafe (checklimit v n w) ps Q"
  using here_error(3) [OF assms(1), of _ n w Q] assms by (auto simp: checklimit_def psafe_def)

lemma here_registerlocalvar:
  assumes "here P m c l k ts t ps" "\<And>x ps'. here P m c l k ts t ps' \<Longrightarrow> Q x ps'"
  shows "psafe (registerlocalvar name) ps Q"
proof -
  have "psafe (lseq (set_fs f) (lret n)) ps Q" for f n
    unfolding psafe_simps by (rule here_set_fs [OF assms(1)], rule assms(2))
  then show ?thesis by (simp add: registerlocalvar_def psafe_def bad_errors_def Let_def)
qed

lemma here_new_localvar [here_rules]:
  assumes "here P m c l k ts t ps" "\<And>ps'. here P m c l k ts t ps' \<Longrightarrow> Q () ps'"
  shows "psafe (new_localvar name n) ps Q"
proof -
  have "psafe (lseq (checklimit v w s) (lbind (registerlocalvar name) (\<lambda>r. set_fs (f r)))) ps Q" for f v w s
    unfolding psafe_simps
    apply (rule here_checklimit [OF assms(1)])
    apply (erule here_registerlocalvar)
    apply (erule here_set_fs)
    apply (erule assms(2))
    done
  then show ?thesis by (simp add: new_localvar_def psafe_def Let_def)
qed

lemma here_new_literal [here_rules]:
  assumes "here P m c l k ts t ps" "\<And>ps'. here P m c l k ts t ps' \<Longrightarrow> Q () ps'"
  shows "psafe (new_localvarliteral P v n) ps Q"
  unfolding new_localvarliteral_def psafe_simps
  by (rule here_newstring [OF assms(1)], erule here_new_localvar, rule assms(2))

lemma here_adjust [here_rules]:
  assumes "here P m c l k ts t ps" "\<And>ps'. here P m c l k ts t ps' \<Longrightarrow> Q () ps'"
  shows "psafe (adjustlocalvars n) ps Q" "psafe (removevars n) ps Q" "psafe (enterblock b) ps Q" "psafe (or_vararg w) ps Q"
  unfolding adjustlocalvars_def removevars_def enterblock_def or_vararg_def
  by (rule here_set_fs [OF assms(1)], erule assms(2))+

lemma singlevaraux_length: "singlevaraux fss n b = Inr (v, fss') \<Longrightarrow> length fss' = length fss"
  by (induction fss arbitrary: b v fss') (auto simp: Let_def split: if_splits sum.splits)

definition var_kinds :: "expkind set" where "var_kinds = {VLOCAL, VUPVAL, VGLOBAL, VINDEXED}"

lemma singlevaraux_kind: "singlevaraux fss n b = Inr (v, fss') \<Longrightarrow> ek v \<in> {VLOCAL, VUPVAL, VGLOBAL}"
  by (induction fss arbitrary: b v fss') (auto simp: Let_def init_exp_def split: if_splits sum.splits)

lemma here_singlevar [here_rules]:
  assumes "here P m c l k ts t ps"
    and "\<And>v ps' t'. here P m c l k (ts @ [tk TK_NAME]) t' ps' \<Longrightarrow> ek v \<in> var_kinds \<Longrightarrow> Q v ps'"
  shows "psafe (singlevar P) ps Q"
  unfolding singlevar_def psafe_simps
proof (rule here_checkname [OF assms(1)])
  fix name ps1 t1 assume 1: "here P m c l k (ts @ [tk TK_NAME]) t1 ps1"
  show "psafe (\<lambda>ps. case singlevaraux (ps_fs ps) name True of
        Inl line \<Rightarrow> errorlimit line LUAI_MAXUPVALUES ''upvalues'' ps
      | Inr (var, fss) \<Rightarrow> Inr (var, ps\<lparr>ps_fs := fss\<rparr>)) ps1
     (\<lambda>x s. if ek x = VGLOBAL
        then psafe (codeE P (\<lambda>E. luaK_stringK E name)) s (\<lambda>xa s. Q (x\<lparr>einfo := xa\<rparr>) s) else Q x s)"
  proof (cases "singlevaraux (ps_fs ps1) name True")
    case (Inl line)
    with here_error(3) [OF 1] show ?thesis by (simp add: psafe_def)
  next
    case (Inr w)
    obtain v fss where w: "w = (v, fss)" by (cases w)
    let ?ps = "ps1\<lparr>ps_fs := fss\<rparr>"
    have h: "here P m c l k (ts @ [tk TK_NAME]) t1 ?ps"
      by (rule here_same [OF 1]) (use singlevaraux_length [OF Inr [unfolded w]] in simp_all)
    have v: "ek v \<in> var_kinds" using singlevaraux_kind [OF Inr [unfolded w]] by (auto simp: var_kinds_def)
    have "psafe (codeE P (\<lambda>E. luaK_stringK E name)) ?ps (\<lambda>xa s. Q (v\<lparr>einfo := xa\<rparr>) s)"
      by (rule here_codeE [OF h], erule assms(2)) (simp add: v)
    with assms(2) [OF h v] show ?thesis by (simp add: psafe_def Inr w)
  qed
qed

lemma here_adjust_assign [here_rules]:
  assumes "here P m c l k ts t ps" "\<And>ps'. here P m c l k ts t ps' \<Longrightarrow> Q () ps'"
  shows "psafe (adjust_assign P nv ne e) ps Q"
  unfolding adjust_assign_def Let_def psafe_simps
  using assms by (auto intro!: here_code [OF assms(1)] here_codeE [OF assms(1)] elim!: here_code)

lemma here_leaveblock [here_rules]:
  assumes "here P m c l k ts t ps" "\<And>ps'. here P m c l k ts t ps' \<Longrightarrow> Q () ps'"
  shows "psafe leaveblock ps Q"
  unfolding leaveblock_def psafe_simps
  apply (rule here_set_fs [OF assms(1)])
  apply (erule here_adjust)
  apply (rule if_split [THEN iffD2])
  apply (intro conjI impI)
   apply (erule here_code)
   apply (erule here_set_fs)
   apply (erule here_code)
   apply (simp add: assms(2))
  apply (erule here_set_fs)
  apply (erule here_code)
  apply (simp add: assms(2))
  done

end
