(* ===== verification/Parser_Exp.thy ===== *)
theory Parser_Exp
  imports Parser_Sound
begin

text \<open>The expressions of the parser: what it consumes for them belongs to the grammar.\<close>

section \<open>The kinds of the results\<close>

lemma producedE:
  assumes "produced a x" obtains g g' where "a g = Inr (x, g')"
  using assms by (auto simp: produced_def)

lemma indexed_kind: "produced (luaK_indexed E t k) x \<Longrightarrow> ek x = VINDEXED"
  by (auto simp: luaK_indexed_def elim!: producedE)

text \<open>What the kind of a descriptor says about the form of the expression.\<close>

definition form_ok :: "form \<Rightarrow> expdesc \<Rightarrow> bool" where
  "form_ok f e \<longleftrightarrow> (ek e \<in> var_kinds \<longrightarrow> f = Variable) \<and> (ek e = VCALL \<longrightarrow> f = Call)"

lemma discharged_kind: "produced (luaK_dischargevars e) x \<Longrightarrow> form_ok f x"
  by (auto simp: luaK_dischargevars_def luaK_setoneret_def relocable_def form_ok_def var_kinds_def lgets_def
      elim!: producedE split: expkind.splits if_splits)

section \<open>The rules\<close>

text \<open>The two rules that are known in advance, with \<open>nCcalls = c\<close>.\<close>

definition rules_ok :: "parse_env \<Rightarrow> nat \<Rightarrow> int \<Rightarrow> rules \<Rightarrow> bool" where
  "rules_ok P m c R \<longleftrightarrow> m < loops R
     \<and> (\<forall>l k ts t ps Q. here P m c l k ts t ps
          \<longrightarrow> (\<forall>b t' ps'. g_chunk b \<longrightarrow> here P m c l k (ts @ b) t' ps' \<longrightarrow> Q () ps') \<longrightarrow> psafe (r_chunk R) ps Q)
     \<and> (\<forall>l k ts t ps lim Q. here P m c l k ts t ps
          \<longrightarrow> (\<forall>op v e t' ps'. g_exp e \<longrightarrow> op = getbinopr t' \<longrightarrow> here P m c l k (ts @ e) t' ps' \<longrightarrow> Q (op, v) ps')
          \<longrightarrow> psafe (r_subexpr R lim) ps Q)"

lemma rules_okD:
  assumes "rules_ok P m c R"
  shows "m < loops R"
    "\<lbrakk>here P m c l k ts t ps; \<And>b t' ps'. g_chunk b \<Longrightarrow> here P m c l k (ts @ b) t' ps' \<Longrightarrow> Q () ps'\<rbrakk>
      \<Longrightarrow> psafe (r_chunk R) ps Q"
    "\<lbrakk>here P m c l k ts t ps; \<And>op v e t' ps'. g_exp e \<Longrightarrow> op = getbinopr t' \<Longrightarrow> here P m c l k (ts @ e) t' ps' \<Longrightarrow> Q' (op, v) ps'\<rbrakk>
      \<Longrightarrow> psafe (r_subexpr R lim) ps Q'"
  using assms unfolding rules_ok_def by blast+

lemma here_expr:
  assumes "rules_ok P m c R" "here P m c l k ts t ps"
    "\<And>v e t' ps'. g_exp e \<Longrightarrow> here P m c l k (ts @ e) t' ps' \<Longrightarrow> Q v ps'"
  shows "psafe (expr R) ps Q"
  unfolding expr_def psafe_simps by (rule rules_okD(3) [OF assms(1,2)]) (simp add: assms(3))

lemma here_field:
  assumes "here P m c l k ts t ps" "t \<noteq> EOS"
    "\<And>v t' ps'. ek v = VINDEXED \<Longrightarrow> here P m c l k (ts @ [t, tk TK_NAME]) t' ps' \<Longrightarrow> Q v ps'"
  shows "psafe (field P v) ps Q"
  unfolding field_def psafe_simps
  apply (rule here_codeE [OF assms(1)])
  apply (erule here_next [OF _ assms(2)])
  apply (erule here_checkname_exp)
  apply (erule here_codeE)
  apply (rule assms(3) [OF indexed_kind])
  apply simp_all
  done

lemma here_yindex:
  assumes "rules_ok P m c R" "here P m c l k ts (char_tok CHR ''['') ps"
    "\<And>v e t' ps'. g_exp e \<Longrightarrow> here P m c l k (ts @ char_tok CHR ''['' # e @ [char_tok CHR '']'']) t' ps' \<Longrightarrow> Q v ps'"
  shows "psafe (yindex P R) ps Q"
  unfolding yindex_def psafe_simps
  apply (rule here_next [OF assms(2)], simp)
  apply (erule here_expr [OF assms(1)])
  apply (erule here_codeE)
  apply (erule here_checknext, simp)
  apply (rule assms(3))
  apply simp_all
  done

section \<open>Constructors\<close>

lemma here_recfield:
  assumes "rules_ok P m c R" "here P m c l k ts t ps" "t = tk TK_NAME \<or> t = char_tok CHR ''[''"
    "\<And>cc i t' ps'. g_item i \<Longrightarrow> here P m c l k (ts @ i) t' ps' \<Longrightarrow> Q cc ps'"
  shows "psafe (recfield P R cc) ps Q"
proof -
  have rest: "psafe (lseq (checknext P (char_tok CHR ''=''))
      (lbind (codeE P (\<lambda>E. luaK_exp2RK E key)) (\<lambda>(rkkey, key).
      lbind (expr R) (\<lambda>val.
      lbind (codeE P (\<lambda>E. luaK_exp2RK E val)) (\<lambda>(rkval, val).
      lseq (code (luaK_codeABC OP_SETTABLE a rkkey rkval))
      (lseq (set_gen f) (lret cc'))))))) s Q"
    if "here P m c l k (ts @ i) u s" "\<And>e. g_exp e \<Longrightarrow> g_item (i @ char_tok CHR ''='' # e)" for s u i key f cc' a
    unfolding psafe_simps
    apply (rule here_checknext [OF that(1)], simp)
    apply (erule here_codeE)
    apply (erule here_expr [OF assms(1)])
    apply (erule here_codeE)
    apply (erule here_code)
    apply (erule here_set_fs)
    apply (rule assms(4) [OF that(2)], assumption, simp)
    done
  show ?thesis
    unfolding recfield_def Let_def
    apply (subst psafe_simps, subst psafe_simps, subst psafe_simps)
    apply (rule here_lif [OF assms(2)])
     apply (subst psafe_simps, erule here_checklimit, erule here_checkname_exp, erule rest)
     apply (simp add: item_name)
    apply (rule here_yindex [OF assms(1)], use assms(3) in simp)
    apply (erule rest)
    apply (simp add: item_key)
    done
qed

lemma here_closelistfield:
  assumes "here P m c l k ts t ps" "\<And>cc ps'. here P m c l k ts t ps' \<Longrightarrow> Q cc ps'"
  shows "psafe (closelistfield P cc) ps Q"
  unfolding closelistfield_def Let_def psafe_simps
  using assms by (auto intro!: here_codeE [OF assms(1)] elim!: here_code)

lemma here_lastlistfield:
  assumes "here P m c l k ts t ps" "\<And>cc ps'. here P m c l k ts t ps' \<Longrightarrow> Q cc ps'"
  shows "psafe (lastlistfield P cc) ps Q"
  unfolding lastlistfield_def Let_def psafe_simps
  using assms by (auto intro!: here_codeE [OF assms(1)] here_code [OF assms(1)] elim!: here_code)

lemma here_listfield:
  assumes "rules_ok P m c R" "here P m c l k ts t ps"
    "\<And>cc i t' ps'. g_item i \<Longrightarrow> here P m c l k (ts @ i) t' ps' \<Longrightarrow> Q cc ps'"
  shows "psafe (listfield R cc) ps Q"
  unfolding listfield_def psafe_simps
  apply (rule here_expr [OF assms(1,2)])
  apply (erule here_checklimit)
  apply (rule assms(3) [OF item_exp])
  apply simp_all
  done

text \<open>The token ahead is read only when its slot is empty: at the start of an item.\<close>

lemma here_cons_item:
  assumes "rules_ok P m c R" "here P m c (l, True) k ts t ps"
    "\<And>cc i t' ps'. g_item i \<Longrightarrow> here P m c (l, False) k (ts @ i) t' ps' \<Longrightarrow> Q cc ps'"
  shows "psafe (cons_item P R cc) ps Q"
  unfolding cons_item_def
  apply (rule here_lif [OF assms(2)])
   apply (unfold psafe_simps(4))
   apply (erule here_lookahead)
   apply (simp only: psafe_simps(5) split: if_split)
   apply (intro conjI impI)
    apply (erule here_listfield [OF assms(1)], erule assms(3), assumption)
   apply (erule here_recfield [OF assms(1)], simp, erule assms(3), assumption)
  apply (drule here_mark(1), simp only: fst_conv)
  apply (erule here_lif)
   apply (erule here_recfield [OF assms(1)], simp, erule assms(3), assumption)
  apply (erule here_listfield [OF assms(1)], erule assms(3), assumption)
  done

lemma here_test_sep:
  assumes "here P m c l k ts t ps"
    "\<And>x t' ps'. x \<in> {char_tok CHR '','', char_tok CHR '';''} \<Longrightarrow> here P m c (fst l, True) k (ts @ [x]) t' ps' \<Longrightarrow> Q True ps'"
    "here P m c l k ts t ps \<Longrightarrow> Q False ps"
  shows "psafe (test_sep P) ps Q"
  unfolding test_sep_def psafe_simps
  apply (rule here_testnext_mark [OF assms(1)], simp)
   apply (simp, erule assms(2) [rotated], simp)
  apply simp
  apply (erule here_testnext_mark, simp, erule assms(2) [rotated], simp, erule assms(3))
  done

lemma here_cons_loop:
  assumes "rules_ok P m c R" "here P m c (l, True) k ts t ps" "m < n + length ts"
    "\<And>cc is t' ps'. g_items is \<Longrightarrow> here P m c (l, False) k (ts @ is) t' ps' \<Longrightarrow> Q cc ps'"
  shows "psafe (cons_loop P R n cc) ps Q"
  using assms(2-4)
proof (induction n arbitrary: ts t ps cc Q)
  case 0
  then show ?case by (simp add: here_def)
next
  case (Suc n)
  note K = Suc.prems(3)
  have more: "psafe (cons_loop P R n cc') s Q"
    if "here P m c (l, True) k ((ts @ i) @ [x]) u s" "g_item i" "x \<in> {char_tok CHR '','', char_tok CHR '';''}" for i x u s cc'
  proof (rule Suc.IH [OF that(1)])
    show "m < n + length ((ts @ i) @ [x])" using Suc.prems(2) by simp
    fix cc'' "is" t' ps' assume "g_items is" "here P m c (l, False) k (((ts @ i) @ [x]) @ is) t' ps'"
    then show "Q cc'' ps'" using K [OF items_more [OF that(2,3)]] by simp
  qed
  show ?case
    unfolding cons_loop.simps
    apply (rule here_lif [OF Suc.prems(1)])
     apply (subst psafe_simps, rule K [OF items_none], simp, drule here_mark(1), simp)
    apply (unfold psafe_simps)
    apply (erule here_closelistfield)
    apply (erule here_cons_item [OF assms(1)])
    apply (erule here_test_sep)
     apply (simp only: if_True fst_conv, erule more, assumption+)
    apply (simp only: if_False, erule K [OF items_one], assumption)
    done
qed

lemma here_constructor:
  assumes "rules_ok P m c R" "here P m c l k ts t ps"
    "\<And>v e t' ps'. g_table e \<Longrightarrow> here P m c l k (ts @ e) t' ps' \<Longrightarrow> Q v ps'"
  shows "psafe (constructor P R) ps Q"
  unfolding constructor_def psafe_simps
  apply (rule here_code [OF assms(2)])
  apply (erule here_codeE)
  apply (erule here_checknext_mark, simp)
  apply (erule here_cons_loop [OF assms(1)], use rules_okD(1) [OF assms(1)] in simp)
  apply (erule here_check_match_mark, simp)
  apply (drule here_mark(2), simp)
  apply (erule here_lastlistfield)
  apply (erule here_set_fs)
  apply (erule here_set_fs)
  apply (rule assms(3) [OF table_items], assumption, simp)
  done


section \<open>Functions\<close>

lemma here_open_func:
  assumes "here P m c l k ts t ps" "\<And>ps'. here P m c l (Suc k) ts t ps' \<Longrightarrow> Q () ps'"
  shows "psafe (open_func P) ps Q"
proof -
  have "here P m c l (Suc k) ts t (ps\<lparr>ps_fs := f # ps_fs ps\<rparr>)" for f
    using assms(1) by (simp add: here_def ptok_def)
  then show ?thesis using assms(2) by (auto simp: open_func_def psafe_def bad_errors_def split: sum.split)
qed

lemma here_anchor:
  assumes "here P m c l k ts t ps" "\<And>ps'. here P m c l k ts t ps' \<Longrightarrow> Q () ps'"
  shows "psafe (anchor_token P) ps Q"
proof -
  have "psafe (lseq (lexer (luaX_newstring (p_lex P) s)) (lret ())) ps Q" for s
    unfolding psafe_simps by (rule here_newstring [OF assms(1)], erule assms(2))
  then show ?thesis using assms by (simp add: anchor_token_def psafe_def lif_def lret_def)
qed

lemma here_close_func:
  assumes "here P m c l (Suc k) ts t ps" "0 < k" "\<And>fs ps'. here P m c l k ts t ps' \<Longrightarrow> Q fs ps'"
  shows "psafe (close_func P) ps Q"
proof -
  have pop: "psafe (lmodify (\<lambda>ps. ps\<lparr>ps_fs := tl (ps_fs ps)\<rparr>)) s (\<lambda>x s. psafe (anchor_token P) s (\<lambda>x. Q fs))"
    if "here P m c l (Suc k) ts t s" for s fs
  proof -
    have "here P m c l k ts t (s\<lparr>ps_fs := tl (ps_fs s)\<rparr>)" using that assms(2) by (simp add: here_def ptok_def)
    from here_anchor [OF this, of "\<lambda>x. Q fs"] assms(3) show ?thesis by (simp add: psafe_lmodify)
  qed
  show ?thesis
    unfolding close_func_def psafe_simps
    apply (rule here_adjust [OF assms(1)])
    apply (erule here_code)
    apply (erule pop)
    done
qed

lemma here_pushclosure:
  assumes "here P m c l k ts t ps" "\<And>v ps'. here P m c l k ts t ps' \<Longrightarrow> Q v ps'"
  shows "psafe (pushclosure f) ps Q"
proof -
  have "psafe (lseq (set_fs g) (lbind (code a) (\<lambda>i. lseq (code b) (lret (init_exp VRELOCABLE i))))) ps Q" for g a and b :: "unit codegen"
    unfolding psafe_simps
    apply (rule here_set_fs [OF assms(1)])
    apply (erule here_code)
    apply (erule here_code)
    apply (erule assms(2))
    done
  then show ?thesis by (simp add: pushclosure_def psafe_def bad_errors_def Let_def)
qed

text \<open>The loop over the parameters: after the first one, a comma comes before each.\<close>

lemma here_par_loop:
  assumes "here P m c l k (ts @ us) t ps" "m < n + length (ts @ us)" "us = [] \<or> (\<exists>ns. g_names ns \<and> us = ns @ [char_tok CHR '',''])"
    "\<And>i pars t' ps'. g_pars pars \<Longrightarrow> here P m c l k (ts @ pars) t' ps' \<Longrightarrow> Q i ps'"
  shows "psafe (par_loop P n i) ps Q"
  using assms
proof (induction n arbitrary: us t ps i Q)
  case 0
  then show ?case by (simp add: here_def)
next
  case (Suc n)
  note K = Suc.prems(4)
  have name: "g_names (us @ [tk TK_NAME])" using Suc.prems(3) g_names.intros by force
  have dots: "g_pars (us @ [tk TK_DOTS])" using Suc.prems(3) g_pars.intros by force
  have names: "psafe (let nparams = i + 1 in
     lbind (pget (\<lambda>ps. pf_is_vararg (cur_fs ps))) (\<lambda>va.
     lbind (if va = 0 then testnext P (char_tok CHR '','') else lret False) (\<lambda>b.
       if b then par_loop P n nparams else lret nparams))) s Q"
    if h: "here P m c l k (ts @ us @ [tk TK_NAME]) u s" for s u
  proof -
    have next': "psafe (par_loop P n (i + 1)) s' Q"
      if h: "here P m c l k ((ts @ us @ [tk TK_NAME]) @ [char_tok CHR '','']) u' s'" for s' u'
    proof (rule Suc.IH)
      show "here P m c l k (ts @ (us @ [tk TK_NAME]) @ [char_tok CHR '','']) u' s'" using h by simp
      show "m < n + length (ts @ (us @ [tk TK_NAME]) @ [char_tok CHR '',''])" using Suc.prems(2) by simp
      show "(us @ [tk TK_NAME]) @ [char_tok CHR '',''] = []
        \<or> (\<exists>ns. g_names ns \<and> (us @ [tk TK_NAME]) @ [char_tok CHR '',''] = ns @ [char_tok CHR '',''])" using name by blast
    qed (rule K)
    have fin: "Q (i + 1) s'" if "here P m c l k (ts @ us @ [tk TK_NAME]) u' s'" for u' s'
      using K [OF g_pars.intros(2) [OF name]] that by simp
    show ?thesis
      unfolding Let_def psafe_simps
      using fin [OF h] by (auto intro!: here_testnext [OF h] elim!: next' fin)
  qed
  have varargs: "psafe (let nparams = i + 1 in
     lbind (pget (\<lambda>ps. pf_is_vararg (cur_fs ps))) (\<lambda>va.
     lbind (if va = 0 then testnext P (char_tok CHR '','') else lret False) (\<lambda>b.
       if b then par_loop P n nparams else lret nparams))) s Q"
    if h: "here P m c l k (ts @ us @ [tk TK_DOTS]) u s" and v: "pf_is_vararg (cur_fs s) \<noteq> 0" for s u
    unfolding Let_def psafe_simps using v K [OF dots] h by (simp add: psafe_simps)
  have setva: "psafe (set_fs (\<lambda>fs. fs\<lparr>pf_is_vararg := VARARG_HASARG OR VARARG_NEEDSARG\<rparr>)) s
     (\<lambda>x s. psafe (or_vararg VARARG_ISVARARG) s (\<lambda>x s. here P m c l k ts' u s \<and> pf_is_vararg (cur_fs s) \<noteq> 0))"
    if "here P m c l k ts' u s" for ts' u s
  proof -
    have n: "(VARARG_HASARG OR VARARG_NEEDSARG) OR VARARG_ISVARARG \<noteq> 0"
      by (simp add: VARARG_HASARG_def VARARG_NEEDSARG_def VARARG_ISVARARG_def)
    show ?thesis using that n
      by (auto simp: psafe_def set_fs_def or_vararg_def lmodify_def here_def ptok_def cur_fs_def)
  qed
  have dotcase: "psafe (set_fs (\<lambda>fs. fs\<lparr>pf_is_vararg := VARARG_HASARG OR VARARG_NEEDSARG\<rparr>)) s
     (\<lambda>x s. psafe (or_vararg VARARG_ISVARARG) s (\<lambda>x s. psafe (let nparams = i + 1 in
     lbind (pget (\<lambda>ps. pf_is_vararg (cur_fs ps))) (\<lambda>va.
     lbind (if va = 0 then testnext P (char_tok CHR '','') else lret False) (\<lambda>b.
       if b then par_loop P n nparams else lret nparams))) s Q))"
    if "here P m c l k ((ts @ us) @ [t]) u s" "t = tk TK_DOTS" for s u
    by (rule psafe_mono [OF setva [OF that(1)]], erule psafe_mono, elim conjE, rule varargs) (use that(2) in simp_all)
  show ?case
    unfolding par_loop.simps
    apply (subst psafe_simps)
    apply (rule here_lif [OF Suc.prems(1)])
     apply (subst psafe_simps, erule here_checkname, erule here_new_localvar, rule names, simp)
    apply (erule here_lif)
     apply (unfold psafe_simps(4))
     apply (erule here_next, simp)
     apply (erule here_new_literal)
     apply (erule dotcase, assumption)
    apply (erule here_error)
    done
qed

lemma here_parlist:
  assumes "rules_ok P m c R" "here P m c l k ts t ps"
    "\<And>pars t' ps'. g_pars pars \<Longrightarrow> here P m c l k (ts @ pars) t' ps' \<Longrightarrow> Q () ps'"
  shows "psafe (parlist P R) ps Q"
proof -
  have rest: "psafe (lseq (adjustlocalvars n) (lseq (set_fs f) (lbind (pget g) (\<lambda>n. code (luaK_reserveregs n))))) s Q"
    if "g_pars pars" "here P m c l k (ts @ pars) u s" for n pars s u f g
    unfolding psafe_simps
    apply (rule here_adjust [OF that(2)])
    apply (erule here_set_fs)
    apply (erule here_code)
    apply (simp add: assms(3) [OF that(1)])
    done
  have h: "here P m c l k (ts @ []) t ps" using assms(2) by simp
  show ?thesis
    unfolding parlist_def psafe_simps(2-4)
    apply (rule here_set_fs [OF h])
    apply (subst psafe_simps(5), rule if_split [THEN iffD2], intro conjI impI)
     apply (erule here_par_loop, use rules_okD(1) [OF assms(1)] in simp, simp)
     apply (erule rest [unfolded psafe_simps(2-4)], assumption)
    apply (subst psafe_simps(1))
    apply (rule rest [OF g_pars.intros(1), unfolded psafe_simps(2-4)], assumption)
    done
qed

lemma here_body:
  assumes "rules_ok P m c R" "here P m c l k ts t ps"
    "\<And>v b t' ps'. g_body b \<Longrightarrow> here P m c l k (ts @ b) t' ps' \<Longrightarrow> Q v ps'"
  shows "psafe (body P R s line) ps Q"
proof -
  have k: "0 < k" using assms(2) by (simp add: here_def)
  have self: "psafe (if s then lseq (new_localvarliteral P ''self'' 0) (adjustlocalvars 1) else lret ()) ps1 S"
    if "here P m c l k' us u ps1" "\<And>ps'. here P m c l k' us u ps' \<Longrightarrow> S () ps'" for k' us u ps1 S
    unfolding psafe_simps using that by (auto intro!: here_new_literal [OF that(1)] here_adjust)
  have last: "psafe (\<lambda>ps. set_fs (\<lambda>fs. fs\<lparr>pf_lastlinedefined := pline ps\<rparr>) ps) ps1 S"
    if "here P m c l k' us u ps1" "\<And>ps'. here P m c l k' us u ps' \<Longrightarrow> S () ps'" for k' us u ps1 S
    using here_set_fs(1) [OF that(1), of S "\<lambda>fs. fs\<lparr>pf_lastlinedefined := pline ps1\<rparr>"] that(2) by (simp add: psafe_def)
  show ?thesis
    unfolding body_def
    apply (simp only: psafe_simps(3,4))
    apply (rule here_open_func [OF assms(2)])
    apply (erule here_set_fs)
    apply (erule here_checknext, simp)
    apply (erule self)
    apply (erule here_parlist [OF assms(1)])
    apply (erule here_checknext, simp)
    apply (erule rules_okD(2) [OF assms(1)])
    apply (erule last)
    apply (erule here_check_match, simp)
    apply (erule here_close_func [OF _ k])
    apply (erule here_pushclosure)
    apply (rule assms(3) [OF g_exp_g_prefix_g_args_g_explist_g_table_g_items_g_item_g_body_g_vars_g_stat_g_else_g_last_g_chunk.body])
      apply assumption
     apply assumption
    apply simp
    done
qed

end
