(* ===== verification/Parser_Sub.thy ===== *)
theory Parser_Sub
  imports Parser_Exp
begin

text \<open>Calls, prefix expressions and operators of the parser.\<close>

section \<open>Lists of expressions and calls\<close>

lemma here_explist_loop:
  assumes "rules_ok P m c R" "here P m c l k (ts @ es) t ps" "g_explist es" "m < n + length (ts @ es)"
    "\<And>x es t' ps'. g_explist es \<Longrightarrow> t' \<noteq> char_tok CHR '','' \<Longrightarrow> here P m c l k (ts @ es) t' ps' \<Longrightarrow> Q x ps'"
  shows "psafe (explist_loop P R n i v) ps Q"
  using assms(2-5)
proof (induction n arbitrary: es t ps i v Q)
  case 0
  then show ?case by (simp add: here_def)
next
  case (Suc n)
  note K = Suc.prems(4)
  have more: "psafe (explist_loop P R n (i + 1) v') s Q"
    if "g_exp e" "here P m c l k (((ts @ es) @ [char_tok CHR '','']) @ e) u s" for e s u v'
  proof (rule Suc.IH)
    show "here P m c l k (ts @ es @ char_tok CHR '','' # e) u s" using that(2) by simp
    show "g_explist (es @ char_tok CHR '','' # e)" using Suc.prems(2) that(1) by (rule explist_more)
    show "m < n + length (ts @ es @ char_tok CHR '','' # e)" using Suc.prems(3) by simp
  qed (rule K)
  show ?case
    unfolding explist_loop.simps psafe_simps(3)
    apply (rule here_testnext [OF Suc.prems(1)], simp)
     apply (simp only: if_True psafe_simps)
     apply (erule here_codeE)
     apply (erule here_expr [OF assms(1)])
     apply (erule more, assumption)
    apply (simp only: if_False psafe_simps)
    apply (rule K [OF Suc.prems(2)], assumption+)
    done
qed

lemma here_explist1:
  assumes "rules_ok P m c R" "here P m c l k ts t ps"
    "\<And>x es t' ps'. g_explist es \<Longrightarrow> here P m c l k (ts @ es) t' ps' \<Longrightarrow> Q x ps'"
  shows "psafe (explist1 P R) ps Q"
  unfolding explist1_def psafe_simps
  apply (rule here_expr [OF assms(1,2)])
  apply (erule here_explist_loop [OF assms(1)], erule explist_one)
   apply (use rules_okD(1) [OF assms(1)] in simp)
  apply (erule assms(3), assumption)
  done

lemma here_call_args:
  assumes "rules_ok P m c R" "here P m c l k ts t ps"
    "\<And>x a t' ps'. g_args a \<Longrightarrow> here P m c l k (ts @ a) t' ps' \<Longrightarrow> Q x ps'"
  shows "psafe (call_args P R line) ps Q"
proof -
  have paren: "psafe (check_match P (char_tok CHR '')'') (char_tok CHR ''('') line) s (\<lambda>x. Q v)"
    if "here P m c l k ((ts @ [t]) @ es) u s" "t = char_tok CHR ''(''" "es = [] \<or> g_explist es" for v es u s
    using that(2,3) by (intro here_check_match [OF that(1)]) (auto intro: assms(3) args_empty args_list)
  have args: "psafe (lseq (pnext P) (lbind (lif (is_tok (char_tok CHR '')'')) (lret (init_exp VVOID 0))
          (lbind (explist1 P R) (\<lambda>(n, args). lseq (code (luaK_setreturns args LUA_MULTRET)) (lret args)))) (\<lambda>args.
      lseq (check_match P (char_tok CHR '')'') (char_tok CHR ''('') line) (lret args)))) ps Q"
    if t: "t = char_tok CHR ''(''"
    unfolding psafe_simps(3,4)
    apply (rule here_next [OF assms(2)], use t in simp)
    apply (erule here_lif)
     apply (unfold psafe_simps(1-4,7))
     apply (rule paren [OF _ t, of "[]"], simp, simp)
    apply (erule here_explist1 [OF assms(1)])
    apply (erule here_code)
    apply (erule paren [OF _ t], simp)
    done
  show ?thesis
    unfolding call_args_def
    apply (rule here_lif [OF assms(2)])
     apply (unfold psafe_simps(1-4,7))
     apply (subst psafe_simps(5), rule if_split [THEN iffD2], intro conjI impI)
      apply (erule here_error)
     apply (subst psafe_simps(1), erule args [unfolded psafe_simps(1-4,7)])
    apply (erule here_lif, rule here_constructor [OF assms(1)], assumption, erule assms(3) [OF args_table], assumption)
    apply (erule here_lif)
     apply (unfold psafe_simps(1-4,7))
     apply (erule here_codestring, erule here_next, simp)
     apply (rule assms(3) [OF args_string], simp)
    apply (erule here_error)
    done
qed

lemma here_funcargs:
  assumes "rules_ok P m c R" "here P m c l k ts t ps"
    "\<And>x a t' ps'. g_args a \<Longrightarrow> ek x = VCALL \<Longrightarrow> here P m c l k (ts @ a) t' ps' \<Longrightarrow> Q x ps'"
  shows "psafe (funcargs P R f) ps Q"
proof -
  have call: "psafe (code (luaK_codeABC OP_CALL (einfo f) (n + 1) 2)) s
      (\<lambda>i s. psafe (code (luaK_fixline line)) s (\<lambda>x s. psafe (set_gen g) s (\<lambda>x. Q (init_exp VCALL i))))"
    if "here P m c l k (ts @ a) u s" "g_args a" for n s a u line g
    apply (rule here_code [OF that(1)])
    apply (erule here_code)
    apply (erule here_set_fs)
    apply (rule assms(3) [OF that(2)])
     apply (simp_all add: init_exp_def)
    done
  show ?thesis
    unfolding funcargs_def Let_def psafe_simps
    apply (rule here_call_args [OF assms(1,2)])
    apply (rule if_split [THEN iffD2], intro conjI impI)
     apply (erule call, assumption)
    apply (rule if_split [THEN iffD2], intro conjI impI)
     apply (erule here_codeE, erule call, assumption)
    apply (erule call, assumption)
    done
qed

section \<open>Prefix expressions\<close>

lemma here_prefixexp:
  assumes "rules_ok P m c R" "here P m c l k ts t ps"
    "\<And>f v p t' ps'. g_prefix f p \<Longrightarrow> form_ok f v \<Longrightarrow> here P m c l k (ts @ p) t' ps' \<Longrightarrow> Q v ps'"
  shows "psafe (prefixexp P R) ps Q"
proof -
  have paren: "Q v s" if "here P m c l k (((ts @ [t]) @ e) @ [char_tok CHR '')'']) u s" "g_exp e" "t = char_tok CHR ''(''"
      "produced (luaK_dischargevars w) v" for v w s e u
    using that(1,3) by (intro assms(3) [OF prefix_parens [OF that(2)] discharged_kind [OF that(4)]]) simp
  show ?thesis
    unfolding prefixexp_def
    apply (rule here_lif [OF assms(2)])
     apply (unfold psafe_simps(1-4,7))
     apply (erule here_next, simp)
     apply (erule here_expr [OF assms(1)])
     apply (erule here_check_match, simp)
     apply (erule here_code)
     apply (erule paren, assumption+)
    apply (erule here_lif)
     apply (erule here_singlevar)
     apply (rule assms(3) [OF prefix_name])
      apply (auto simp: form_ok_def var_kinds_def)[2]
    apply (erule here_error)
    done
qed

lemma here_primary_loop:
  assumes "rules_ok P m c R" "here P m c l k (ts @ p) t ps" "g_prefix f p" "form_ok f v" "m < n + length (ts @ p)"
    "\<And>f v p t' ps'. g_prefix f p \<Longrightarrow> form_ok f v \<Longrightarrow> here P m c l k (ts @ p) t' ps' \<Longrightarrow> Q v ps'"
  shows "psafe (primary_loop P R n v) ps Q"
  using assms(2-6)
proof (induction n arbitrary: p t ps f v Q)
  case 0
  then show ?case by (simp add: here_def)
next
  case (Suc n)
  note K = Suc.prems(5)
  have more: "psafe (primary_loop P R n v') s Q"
    if "here P m c l k us u s" "us = ts @ p @ q" "g_prefix f' (p @ q)" "q \<noteq> []" "form_ok f' v'" for q s u v' f' us
  proof (rule Suc.IH [OF that(1) [unfolded that(2)] that(3,5)])
    show "m < n + length (ts @ p @ q)" using Suc.prems(4) that(4) by (cases q) simp_all
  qed (rule K)
  have ind: "form_ok Variable v'" if "ek v' = VINDEXED" for v' using that by (simp add: form_ok_def)
  have call: "form_ok Call v'" if "ek v' = VCALL" for v' using that by (simp add: form_ok_def var_kinds_def)
  show ?case
    unfolding primary_loop.simps
    apply (rule here_lif [OF Suc.prems(1)])
     apply (unfold psafe_simps(3))
     apply (erule here_field, simp)
     apply (erule more [where q = "[char_tok CHR ''.'', tk TK_NAME]"], simp, rule prefix_field [OF Suc.prems(2)], simp, erule ind)
    apply (erule here_lif)
     apply (unfold psafe_simps(3))
     apply (erule here_codeE)
     apply (simp only:)
     apply (erule here_yindex [OF assms(1)])
     apply (erule here_codeE)
     apply (erule more, simp, erule prefix_index [OF Suc.prems(2)], simp, rule ind, erule indexed_kind)
    apply (erule here_lif)
     apply (unfold psafe_simps(3,4))
     apply (erule here_next, simp)
     apply (erule here_checkname_exp)
     apply (erule here_codeE)
     apply (erule here_funcargs [OF assms(1)])
     apply (erule more [where q = "char_tok CHR '':'' # tk TK_NAME # a" for a], simp, erule prefix_method [OF Suc.prems(2)], simp, erule call)
    apply (subst psafe_simps(5))
    apply (rule if_split [THEN iffD2], intro conjI impI)
     apply (unfold psafe_simps(3))
     apply (erule here_codeE)
     apply (erule here_funcargs [OF assms(1)])
     apply (erule more, simp, erule prefix_call [OF Suc.prems(2)], simp add: g_not_empty, erule call)
    apply (subst psafe_simps)
    apply (rule K [OF Suc.prems(2,3)], assumption)
    done
qed

lemma here_primaryexp:
  assumes "rules_ok P m c R" "here P m c l k ts t ps"
    "\<And>f v p t' ps'. g_prefix f p \<Longrightarrow> form_ok f v \<Longrightarrow> here P m c l k (ts @ p) t' ps' \<Longrightarrow> Q v ps'"
  shows "psafe (primaryexp P R) ps Q"
  unfolding primaryexp_def psafe_simps
  apply (rule here_prefixexp [OF assms(1,2)])
  apply (erule here_primary_loop [OF assms(1)], assumption, assumption)
   apply (use rules_okD(1) [OF assms(1)] in simp)
  apply (erule assms(3), assumption+)
  done

section \<open>Simple expressions and operators\<close>

lemma here_simpleexp:
  assumes "rules_ok P m c R" "here P m c l k ts t ps"
    "\<And>v e t' ps'. g_exp e \<Longrightarrow> here P m c l k (ts @ e) t' ps' \<Longrightarrow> Q v ps'"
  shows "psafe (simpleexp P R) ps Q"
proof -
  have one: "psafe (pnext P) s (\<lambda>x. Q v)" if "here P m c l k ts t s"
      "t \<in> {tk TK_NIL, tk TK_FALSE, tk TK_TRUE, tk TK_NUMBER, tk TK_STRING, tk TK_DOTS}" for s v
    using that(2) by (intro here_next [OF that(1)]) (auto intro!: assms(3) exp_token)
  have vararg: "psafe vararg_exp s (\<lambda>v s. psafe (pnext P) s (\<lambda>x. Q v))"
    if "here P m c l k ts t s" "t = tk TK_DOTS" for s
    unfolding vararg_exp_def psafe_simps
    apply (rule if_split [THEN iffD2], intro conjI impI)
     apply (rule here_error [OF that(1)])
    apply (rule here_set_fs [OF that(1)])
    apply (erule here_code)
    apply (erule one)
    apply (simp add: that(2))
    done
  show ?thesis
    unfolding simpleexp_def token_exp_def
    apply (rule here_lif [OF assms(2)], unfold psafe_simps(1-4,7), erule one, simp)
    apply (erule here_lif, unfold psafe_simps(1-4,7), erule here_codestring, erule one, simp)
    apply (erule here_lif, unfold psafe_simps(1-4,7), erule one, simp)
    apply (erule here_lif, unfold psafe_simps(1-4,7), erule one, simp)
    apply (erule here_lif, unfold psafe_simps(1-4,7), erule one, simp)
    apply (erule here_lif, unfold psafe_simps(1-4,7), erule vararg, assumption)
    apply (erule here_lif, rule here_constructor [OF assms(1)], assumption, erule assms(3) [OF exp_table], assumption)
    apply (erule here_lif, unfold psafe_simps)
     apply (erule here_next, simp)
     apply (erule here_body [OF assms(1)])
     apply (rule assms(3) [OF exp_function], assumption, simp)
    apply (erule here_primaryexp [OF assms(1)])
    apply (erule assms(3) [OF exp_prefix], assumption)
    done
qed

lemma getunopr_tok: "getunopr t \<noteq> OPR_NOUNOPR \<Longrightarrow> t \<in> unops"
  by (auto simp: getunopr_def unops_def split: if_splits)

lemma getbinopr_tok: "getbinopr t \<noteq> OPR_NOBINOPR \<Longrightarrow> t \<in> binops"
  by (auto simp: getbinopr_def binops_def split: if_splits)

lemma ops_not_EOS: "EOS \<notin> unops" "EOS \<notin> binops"
  by (auto simp: unops_def binops_def)

lemma here_binop_loop:
  assumes "rules_ok P m c R" "here P m c l k (ts @ e) t ps" "g_exp e" "op = getbinopr t" "m < n + length (ts @ e)"
    "\<And>op v e t' ps'. g_exp e \<Longrightarrow> op = getbinopr t' \<Longrightarrow> here P m c l k (ts @ e) t' ps' \<Longrightarrow> Q (op, v) ps'"
  shows "psafe (binop_loop P R n lim op v) ps Q"
  using assms(2-6)
proof (induction n arbitrary: e t ps op v Q)
  case 0
  then show ?case by (simp add: here_def)
next
  case (Suc n)
  note K = Suc.prems(5)
  have more: "psafe (binop_loop P R n lim op' v') s Q"
    if "here P m c l k (((ts @ e) @ [t]) @ e') u s" "g_exp e'" "op' = getbinopr u" "t \<in> binops" for s u e' v' op'
  proof (rule Suc.IH)
    show "here P m c l k (ts @ e @ t # e') u s" using that(1) by simp
    show "g_exp (e @ t # e')" using Suc.prems(2) that(4,2) by (rule exp_binop)
    show "m < n + length (ts @ e @ t # e')" using Suc.prems(4) by simp
  qed (rule that(3), rule K)
  have go: "psafe (lseq (pnext P)
       (lbind (codeE P (\<lambda>E. luaK_infix E op v)) (\<lambda>v.
       lbind (r_subexpr R w) (\<lambda>(nextop, v2).
       lbind (codeE P (\<lambda>E. luaK_posfix E op v v2)) (\<lambda>v.
       binop_loop P R n lim nextop v))))) ps Q" if "op \<noteq> OPR_NOBINOPR" for w
  proof -
    have t: "t \<in> binops" "t \<noteq> EOS" using getbinopr_tok that Suc.prems(3) ops_not_EOS by auto
    show ?thesis
      unfolding psafe_simps
      apply (rule here_next [OF Suc.prems(1) t(2)])
      apply (erule here_codeE)
      apply (erule rules_okD(3) [OF assms(1)])
      apply (erule here_codeE)
      apply (simp only: fst_conv)
      apply (rule more [OF _ _ _ t(1)], assumption+, rule refl)
      done
  qed
  show ?case
    using go K [OF Suc.prems(2,3,1)] by (simp add: psafe_simps(1))
qed

text \<open>One more level: \<open>enterlevel\<close> leaves the state with a larger \<open>nCcalls\<close>, or refuses.\<close>

lemma here_enterlevel:
  assumes "here P m c l k ts t ps" "\<And>ps'. here P m (c + 1) l k ts t ps' \<Longrightarrow> Q () ps'"
  shows "psafe enterlevel ps Q"
proof -
  let ?s = "ps\<lparr>nCcalls := nCcalls ps + 1\<rparr>"
  have "ps_fs ?s \<noteq> []" "lok (ps_ls ?s)" using here_open [OF assms(1)] by simp_all
  note err = lexerror_psafe [OF this]
  have "here P m (c + 1) l k ts t ?s" if "nCcalls ?s \<le> int LUAI_MAXCCALLS"
    using assms(1) that by (simp add: here_def ptok_def)
  then show ?thesis
    unfolding enterlevel_def psafe_simps psafe_lmodify using err assms(2) by auto
qed

lemma here_leavelevel:
  assumes "here P m (c + 1) l k ts t ps" "\<And>ps'. here P m c l k ts t ps' \<Longrightarrow> Q () ps'"
  shows "psafe leavelevel ps Q"
  unfolding leavelevel_def psafe_lmodify by (rule assms(2)) (use assms(1) in \<open>simp add: here_def ptok_def\<close>)

lemma here_subexpr:
  assumes "rules_ok P m (c + 1) R" "here P m c l k ts t ps"
    "\<And>op v e t' ps'. g_exp e \<Longrightarrow> op = getbinopr t' \<Longrightarrow> here P m c l k (ts @ e) t' ps' \<Longrightarrow> Q (op, v) ps'"
  shows "psafe (subexpr P R lim) ps Q"
proof -
  have tail: "psafe (\<lambda>ps. binop_loop P R (loops R) lim (getbinopr (ptok ps)) v ps) s (\<lambda>x s. psafe leavelevel s (\<lambda>_. Q x))"
    if "g_exp e" "here P m (c + 1) l k (ts @ e) u s" for e u s v
  proof (rule psafe_at [where m = "\<lambda>ps. binop_loop P R (loops R) lim (getbinopr (ptok ps)) v"])
    have "ptok s = u" using that(2) by (simp add: here_def)
    then show "psafe (binop_loop P R (loops R) lim (getbinopr (ptok s)) v) s (\<lambda>x s. psafe leavelevel s (\<lambda>_. Q x))"
      using rules_okD(1) [OF assms(1)]
      by (intro here_binop_loop [OF assms(1) that(2,1)]) (auto intro!: here_leavelevel assms(3))
  qed
  have unop: "psafe (lseq (pnext P) (lbind (r_subexpr R UNARY_PRIORITY) (\<lambda>(op, v). codeE P (\<lambda>E. luaK_prefix E uop v)))) s
      (\<lambda>v s. psafe (\<lambda>ps. binop_loop P R (loops R) lim (getbinopr (ptok ps)) v ps) s (\<lambda>x s. psafe leavelevel s (\<lambda>_. Q x)))"
    if "here P m (c + 1) l k ts t s" "t \<in> unops" for s uop
    unfolding psafe_simps
    apply (rule here_next [OF that(1)], use that(2) ops_not_EOS in blast)
    apply (erule rules_okD(3) [OF assms(1)])
    apply (erule here_codeE)
    apply (rule tail [OF exp_unop [OF that(2)]], assumption, simp)
    done
  show ?thesis
    unfolding subexpr_def
    apply (simp only: psafe_simps(1-4) split: if_split)
    apply (rule here_enterlevel [OF assms(2)])
    apply (intro conjI impI)
     apply (rule unop [unfolded psafe_simps(1-4)], assumption, rule getunopr_tok, simp add: here_def)
    apply (erule here_simpleexp [OF assms(1)])
    apply (erule tail, assumption)
    done
qed

end
