(* ===== verification/Parser_Block.thy ===== *)
theory Parser_Block
  imports Parser_Sub
begin

text \<open>The statements of the parser.\<close>

section \<open>Blocks, conditions and names\<close>

lemma here_block:
  assumes "rules_ok P m c R" "here P m c l k ts t ps"
    "\<And>b t' ps'. g_chunk b \<Longrightarrow> here P m c l k (ts @ b) t' ps' \<Longrightarrow> Q () ps'"
  shows "psafe (block R) ps Q"
  unfolding block_def psafe_simps
  apply (rule here_adjust(3) [OF assms(2)])
  apply (erule rules_okD(2) [OF assms(1)])
  apply (erule here_leaveblock)
  apply (erule assms(3), assumption)
  done

lemma here_cond:
  assumes "rules_ok P m c R" "here P m c l k ts t ps"
    "\<And>x e t' ps'. g_exp e \<Longrightarrow> here P m c l k (ts @ e) t' ps' \<Longrightarrow> Q x ps'"
  shows "psafe (cond_exp P R) ps Q"
  unfolding cond_exp_def psafe_simps
  apply (rule here_expr [OF assms(1,2)])
  apply (erule here_codeE)
  apply (erule assms(3), assumption)
  done

lemma here_names_loop:
  assumes "here P m c l k (ts @ ns) t ps" "g_names ns" "m < n + length (ts @ ns)"
    "\<And>x ns t' ps'. g_names ns \<Longrightarrow> here P m c l k (ts @ ns) t' ps' \<Longrightarrow> Q x ps'"
  shows "psafe (names_loop P n i) ps Q"
  using assms
proof (induction n arbitrary: ns t ps i Q)
  case 0
  then show ?case by (simp add: here_def)
next
  case (Suc n)
  note K = Suc.prems(4)
  have more: "psafe (names_loop P n (i + 1)) s Q"
    if "here P m c l k (((ts @ ns) @ [char_tok CHR '','']) @ [tk TK_NAME]) u s" for s u
  proof (rule Suc.IH)
    show "here P m c l k (ts @ ns @ [char_tok CHR '','', tk TK_NAME]) u s" using that by simp
    show "g_names (ns @ [char_tok CHR '','', tk TK_NAME])" using Suc.prems(2) by (rule g_names.intros)
    show "m < n + length (ts @ ns @ [char_tok CHR '','', tk TK_NAME])" using Suc.prems(3) by simp
  qed (rule K)
  show ?case
    unfolding names_loop.simps psafe_simps(3)
    apply (rule here_testnext [OF Suc.prems(1)], simp)
     apply (simp only: if_True psafe_simps)
     apply (erule here_checkname)
     apply (erule here_new_localvar)
     apply (erule more)
    apply (simp only: if_False psafe_simps)
    apply (rule K [OF Suc.prems(2)], assumption)
    done
qed

section \<open>Assignments\<close>

lemma here_default_assign:
  assumes "here P m c l k ts t ps" "\<And>ps'. here P m c l k ts t ps' \<Longrightarrow> Q () ps'"
  shows "psafe (default_assign P v) ps Q"
proof -
  have "psafe (lseq (codeE P a) (lret ())) ps Q" for a :: "code_env \<Rightarrow> expdesc codegen"
    unfolding psafe_simps by (rule here_codeE [OF assms(1)], erule assms(2))
  then show ?thesis by (simp add: default_assign_def psafe_def)
qed

lemma here_assign_values:
  assumes "rules_ok P m c R" "here P m c l k ts t ps"
    "\<And>es t' ps'. g_explist es \<Longrightarrow> here P m c l k (ts @ char_tok CHR ''='' # es) t' ps' \<Longrightarrow> Q () ps'"
  shows "psafe (assign_values P R v nvars) ps Q"
proof -
  have K: "Q () s" if "here P m c l k ((ts @ [char_tok CHR ''='']) @ es) u s" "g_explist es" for es u s
    using assms(3) [OF that(2)] that(1) by simp
  show ?thesis
    unfolding assign_values_def psafe_simps
    apply (rule here_checknext [OF assms(2)], simp)
    apply (erule here_explist1 [OF assms(1)])
    apply (rule if_split [THEN iffD2], intro conjI impI)
     apply (erule here_adjust_assign)
     apply (erule here_set_fs)
     apply (erule here_default_assign)
     apply (erule K, assumption)
    apply (erule here_code)
    apply (erule here_codeE)
    apply (erule K, assumption)
    done
qed

lemma here_check_conflict:
  assumes "here P m c l k ts t ps" "\<And>x ps'. here P m c l k ts t ps' \<Longrightarrow> Q x ps'"
  shows "psafe (check_conflict lh v) ps Q"
  unfolding check_conflict_def psafe_simps
  apply (rule if_split [THEN iffD2], intro conjI impI)
   apply (rule here_code [OF assms(1)])
   apply (erule here_code)
   apply (erule assms(2))
  apply (rule assms(2) [OF assms(1)])
  done

lemma here_assignment_loop:
  assumes "rules_ok P m c R" "here P m c l k (ts @ q @ p) t ps" "q = [] \<or> (\<exists>ws. g_vars ws \<and> q = ws @ [char_tok CHR '',''])"
    "g_prefix f p" "form_ok f (hd lh)" "m < n + length (ts @ q @ p)"
    "\<And>x s t' ps'. g_stat s \<Longrightarrow> here P m c l k (ts @ s) t' ps' \<Longrightarrow> Q x ps'"
  shows "psafe (assignment_loop P R n lh i) ps Q"
  using assms(2-7)
proof (induction n arbitrary: q p t f ps lh i Q)
  case 0
  then show ?case by (simp add: here_def)
next
  case (Suc n)
  note K = Suc.prems(6)
  have vars: "g_vars (q @ p)" if "ek (hd lh) \<in> {VLOCAL, VUPVAL, VGLOBAL, VINDEXED}"
  proof -
    have "g_prefix Variable p" using that Suc.prems(3,4) by (auto simp: form_ok_def var_kinds_def)
    with Suc.prems(2) show ?thesis using vars_one vars_more [of _ p] by auto
  qed
  have limit: "psafe (\<lambda>ps. checklimit i (int LUAI_MAXCCALLS - nCcalls ps) w ps) s S"
    if "here P m c l k us u s" "here P m c l k us u s \<Longrightarrow> S () s" for us u s S w
    using here_checklimit [where Q = S, OF that] by (simp add: psafe_def)
  have more: "psafe (assignment_loop P R n (nv # lh') (i + 1)) s
      (\<lambda>lh s. psafe (default_assign P (hd lh)) s (\<lambda>x. Q (tl lh)))"
    if "here P m c l k (((ts @ q @ p) @ [char_tok CHR '','']) @ p') u s" "g_vars (q @ p)" "g_prefix f' p'" "form_ok f' nv"
    for p' u s nv lh' f'
  proof (rule Suc.IH [where q = "q @ p @ [char_tok CHR '','']" and p = p' and f = f'])
    show "here P m c l k (ts @ (q @ p @ [char_tok CHR '','']) @ p') u s" using that(1) by simp
    show "q @ p @ [char_tok CHR '',''] = [] \<or> (\<exists>ws. g_vars ws \<and> q @ p @ [char_tok CHR '',''] = ws @ [char_tok CHR '',''])"
      using that(2) by (intro disjI2 exI [of _ "q @ p"]) simp
    show "m < n + length (ts @ (q @ p @ [char_tok CHR '','']) @ p')" using Suc.prems(5) by simp
    fix x t' ps' and st :: "int list" assume "g_stat st" "here P m c l k (ts @ st) t' ps'"
    then show "psafe (default_assign P (hd x)) ps' (\<lambda>xa. Q (tl x))" by (intro here_default_assign) (auto intro: K)
  qed (use that(3,4) in simp_all)
  have next_var: "psafe (primaryexp P R) s (\<lambda>nv s. psafe (if ek nv = VLOCAL then check_conflict lh nv else lret lh) s
      (\<lambda>lh' s. psafe (\<lambda>ps. checklimit i (int LUAI_MAXCCALLS - nCcalls ps) w ps) s
      (\<lambda>x s. psafe (assignment_loop P R n (nv # lh') (i + 1)) s (\<lambda>lh s. psafe (default_assign P (hd lh)) s (\<lambda>x. Q (tl lh))))))"
    if h: "here P m c l k ((ts @ q @ p) @ [char_tok CHR '','']) u s" and v: "g_vars (q @ p)" for s u w
    apply (rule here_primaryexp [OF assms(1) h])
    apply (subst psafe_simps(6), rule if_split [THEN iffD2], intro conjI impI)
     apply (erule here_check_conflict)
     apply (erule limit)
     apply (erule more [OF _ v], assumption+)
    apply (subst psafe_simps(1))
    apply (erule limit)
    apply (erule more [OF _ v], assumption+)
    done
  show ?case
    unfolding assignment_loop.simps psafe_simps(3,4)
    apply (subst psafe_simps(6), rule if_split [THEN iffD2], intro conjI impI)
     apply (subst psafe_simps(1))
     apply (rule here_testnext [OF Suc.prems(1)], simp)
      apply (simp only: if_True psafe_simps(1,3,4))
      apply (erule next_var, erule vars)
     apply (simp only: if_False psafe_simps(1,3,4))
     apply (erule here_assign_values [OF assms(1)])
     apply (rule K [OF stat_assign [OF vars]], assumption, assumption, simp)
    apply (rule here_error [OF Suc.prems(1)])
    done
qed

lemma here_exprstat:
  assumes "rules_ok P m c R" "here P m c l k ts t ps"
    "\<And>s t' ps'. g_stat s \<Longrightarrow> here P m c l k (ts @ s) t' ps' \<Longrightarrow> Q () ps'"
  shows "psafe (exprstat P R) ps Q"
proof -
  have assign: "psafe (assignment P R v) s Q" if "g_prefix f p" "form_ok f v" "here P m c l k (ts @ p) u s" for f p v u s
    unfolding assignment_def psafe_simps
    using that rules_okD(1) [OF assms(1)]
    by (intro here_assignment_loop [OF assms(1), where q = "[]" and p = p and f = f]) (auto intro: assms(3))
  have call: "g_stat p" if "g_prefix f p" "form_ok f v" "ek v = VCALL" for f p v
    using that stat_call by (auto simp: form_ok_def)
  show ?thesis
    unfolding exprstat_def psafe_simps(3)
    apply (rule here_primaryexp [OF assms(1,2)])
    apply (subst psafe_simps(6), rule if_split [THEN iffD2], intro conjI impI)
     apply (erule here_code)
     apply (simp, rule assms(3), rule call, assumption+)
    apply (erule assign, assumption+)
    done
qed

section \<open>Loops\<close>

lemma here_breakstat:
  assumes "here P m c l k ts t ps" "\<And>ps'. here P m c l k ts t ps' \<Longrightarrow> Q () ps'"
  shows "psafe breakstat ps Q"
proof -
  have "psafe (lseq (if u then code (emit (luaK_codeABC OP_CLOSE a 0 0)) else lret ())
        (lbind (code luaK_jump) (\<lambda>j. lbind (code (luaK_concat b j)) (\<lambda>l. set_fs (f l))))) ps Q" for u a b f
    unfolding psafe_simps
    apply (rule if_split [THEN iffD2], intro conjI impI)
     apply (rule here_code [OF assms(1)], erule here_code, erule here_code, erule here_set_fs, erule assms(2))
    apply (rule here_code [OF assms(1)], erule here_code, erule here_set_fs, erule assms(2))
    done
  with here_error(1) [OF assms(1)] show ?thesis
    by (auto simp: breakstat_def psafe_def Let_def split: option.split)
qed

lemma here_whilestat:
  assumes "rules_ok P m c R" "here P m c l k ts (tk TK_WHILE) ps"
    "\<And>s t' ps'. g_stat s \<Longrightarrow> here P m c l k (ts @ s) t' ps' \<Longrightarrow> Q () ps'"
  shows "psafe (whilestat P R line) ps Q"
  unfolding whilestat_def psafe_simps
  apply (rule here_next [OF assms(2)], simp)
  apply (erule here_code)
  apply (erule here_cond [OF assms(1)])
  apply (erule here_adjust)
  apply (erule here_checknext, simp)
  apply (erule here_block [OF assms(1)])
  apply (erule here_code)
  apply (erule here_code)
  apply (erule here_check_match, simp)
  apply (erule here_leaveblock)
  apply (erule here_code)
  apply (simp, rule assms(3) [OF stat_while], assumption, assumption, simp)
  done

lemma here_repeatstat:
  assumes "rules_ok P m c R" "here P m c l k ts (tk TK_REPEAT) ps"
    "\<And>s t' ps'. g_stat s \<Longrightarrow> here P m c l k (ts @ s) t' ps' \<Longrightarrow> Q () ps'"
  shows "psafe (repeatstat P R line) ps Q"
proof -
  have stat: "psafe leaveblock s Q"
    if "here P m c l k ((((ts @ [tk TK_REPEAT]) @ b) @ [tk TK_UNTIL]) @ e) u s" "g_chunk b" "g_exp e" for b e u s
    using that(1) by (rule here_leaveblock) (use assms(3) [OF stat_repeat [OF that(2,3)]] in simp)
  show ?thesis
    unfolding repeatstat_def psafe_simps(1-4,7)
    apply (rule here_code [OF assms(2)])
    apply (erule here_adjust)
    apply (erule here_adjust)
    apply (erule here_next, simp)
    apply (erule rules_okD(2) [OF assms(1)])
    apply (erule here_check_match, simp)
    apply (erule here_cond [OF assms(1)])
    apply (subst psafe_simps(6), rule if_split [THEN iffD2], intro conjI impI)
     apply (unfold psafe_simps(1-4))
     apply (erule here_leaveblock)
     apply (erule here_code)
     apply (erule stat, assumption, assumption)
    apply (erule here_breakstat)
    apply (erule here_code)
    apply (erule here_leaveblock)
    apply (erule here_code)
    apply (erule here_code)
    apply (erule stat, assumption, assumption)
    done
qed

lemma here_exp1:
  assumes "rules_ok P m c R" "here P m c l k ts t ps"
    "\<And>e t' ps'. g_exp e \<Longrightarrow> here P m c l k (ts @ e) t' ps' \<Longrightarrow> Q () ps'"
  shows "psafe (exp1 P R) ps Q"
  unfolding exp1_def psafe_simps
  by (rule here_expr [OF assms(1,2)], erule here_codeE, erule assms(3), assumption)

lemma here_forbody:
  assumes "rules_ok P m c R" "here P m c l k ts t ps"
    "\<And>b t' ps'. g_chunk b \<Longrightarrow> here P m c l k (ts @ tk TK_DO # b) t' ps' \<Longrightarrow> Q () ps'"
  shows "psafe (forbody P R base line nvars isnum) ps Q"
proof -
  have code_if: "psafe (if d then code a else code b) s S" if "here P m c l k us u s"
    "\<And>x ps'. here P m c l k us u ps' \<Longrightarrow> S x ps'" for d and a b :: "int codegen" and us u s S
    using that by (auto simp: psafe_simps intro: here_code)
  have jump_if: "psafe (if d then lret x else code a) s S" if "here P m c l k us u s"
    "\<And>x ps'. here P m c l k us u ps' \<Longrightarrow> S x ps'" for d and a :: "int codegen" and us u s S x
    using that by (auto simp: psafe_simps intro: here_code)
  show ?thesis
    unfolding forbody_def psafe_simps(1-4)
    apply (rule here_adjust [OF assms(2)])
    apply (erule here_checknext, simp)
    apply (erule code_if)
    apply (erule here_adjust)
    apply (erule here_adjust)
    apply (erule here_code)
    apply (erule here_block [OF assms(1)])
    apply (erule here_leaveblock)
    apply (erule here_code)
    apply (erule code_if)
    apply (erule here_code)
    apply (erule jump_if)
    apply (erule here_code)
    apply (simp, rule assms(3), assumption, simp)
    done
qed

lemma here_fornum:
  assumes "rules_ok P m c R" "here P m c l k ts t ps"
    "\<And>u t' ps'. g_stat (tk TK_FOR # tk TK_NAME # u @ [tk TK_END]) \<Longrightarrow> here P m c l k (ts @ u) t' ps' \<Longrightarrow> Q () ps'"
  shows "psafe (fornum P R name line) ps Q"
proof -
  let ?head = "\<lambda>e1 e2. ((((ts @ [char_tok CHR ''='']) @ e1) @ [char_tok CHR '','']) @ e2)"
  have two: "psafe (forbody P R base line 1 True) s Q" if "here P m c l k (?head e1 e2) u s" "g_exp e1" "g_exp e2" for e1 e2 u s base
    using that(1)
  proof (rule here_forbody [OF assms(1)])
    fix b t' ps' assume b: "g_chunk b" "here P m c l k (?head e1 e2 @ tk TK_DO # b) t' ps'"
    show "Q () ps'"
      by (rule assms(3) [where u = "char_tok CHR ''='' # e1 @ char_tok CHR '','' # e2 @ tk TK_DO # b" and t' = t']) (use stat_for [OF that(2,3) b(1)] b(2) in simp_all)
  qed
  have three: "psafe (forbody P R base line 1 True) s Q"
    if "here P m c l k ((?head e1 e2 @ [char_tok CHR '','']) @ e3) u s" "g_exp e1" "g_exp e2" "g_exp e3" for e1 e2 e3 u s base
    using that(1)
  proof (rule here_forbody [OF assms(1)])
    fix b t' ps' assume b: "g_chunk b" "here P m c l k (((?head e1 e2 @ [char_tok CHR '','']) @ e3) @ tk TK_DO # b) t' ps'"
    show "Q () ps'"
      by (rule assms(3) [where u = "char_tok CHR ''='' # e1 @ char_tok CHR '','' # e2 @ char_tok CHR '','' # e3 @ tk TK_DO # b" and t' = t']) (use stat_for_step [OF that(2-4) b(1)] b(2) in simp_all)
  qed
  show ?thesis
    unfolding fornum_def psafe_simps(1-4)
    apply (rule here_new_literal [OF assms(2)])
    apply (erule here_new_literal)
    apply (erule here_new_literal)
    apply (erule here_new_localvar)
    apply (erule here_checknext, simp)
    apply (erule here_exp1 [OF assms(1)])
    apply (erule here_checknext, simp)
    apply (erule here_exp1 [OF assms(1)])
    apply (erule here_testnext, simp)
     apply (simp only: if_True)
     apply (erule here_exp1 [OF assms(1)])
     apply (erule three, assumption+)
    apply (simp only: if_False psafe_simps(1-4))
    apply (erule here_codeE)
    apply (erule here_code)
    apply (erule here_code)
    apply (erule two, assumption+)
    done
qed

lemma here_forlist:
  assumes "rules_ok P m c R" "here P m c l k (ts @ [tk TK_NAME]) t ps"
    "\<And>u t' ps'. g_stat (tk TK_FOR # u @ [tk TK_END]) \<Longrightarrow> here P m c l k (ts @ u) t' ps' \<Longrightarrow> Q () ps'"
  shows "psafe (forlist P R name) ps Q"
proof -
  have body: "psafe (forbody P R base line n False) s Q"
    if "here P m c l k (((ts @ ns) @ [tk TK_IN]) @ es) u s" "g_names ns" "g_explist es" for ns es u s base line n
    using that(1)
  proof (rule here_forbody [OF assms(1)])
    fix b t' ps' assume b: "g_chunk b" "here P m c l k ((((ts @ ns) @ [tk TK_IN]) @ es) @ tk TK_DO # b) t' ps'"
    show "Q () ps'"
      by (rule assms(3) [where u = "ns @ tk TK_IN # es @ tk TK_DO # b" and t' = t']) (use stat_for_in [OF that(2,3) b(1)] b(2) in simp_all)
  qed
  show ?thesis
    unfolding forlist_def psafe_simps(1-4,7)
    apply (rule here_new_literal [OF assms(2)])
    apply (erule here_new_literal)
    apply (erule here_new_literal)
    apply (erule here_new_localvar)
    apply (erule here_names_loop, rule g_names.intros, use rules_okD(1) [OF assms(1)] in simp)
    apply (erule here_checknext, simp)
    apply (erule here_explist1 [OF assms(1)])
    apply (erule here_adjust_assign)
    apply (erule here_code)
    apply (erule body, assumption+)
    done
qed

lemma here_forstat:
  assumes "rules_ok P m c R" "here P m c l k ts (tk TK_FOR) ps"
    "\<And>s t' ps'. g_stat s \<Longrightarrow> here P m c l k (ts @ s) t' ps' \<Longrightarrow> Q () ps'"
  shows "psafe (forstat P R line) ps Q"
proof -
  have fin: "psafe (check_match P (tk TK_END) (tk TK_FOR) line) s (\<lambda>x s. psafe leaveblock s Q)"
    if "here P m c l k us u s" "g_stat v" "us @ [tk TK_END] = ts @ v" for us u s v
    apply (rule here_check_match [OF that(1)], simp)
    apply (erule here_leaveblock)
    apply (rule assms(3) [OF that(2)])
    apply (simp add: that(3))
    done
  have num: "psafe (fornum P R name line) s (\<lambda>x s. psafe (check_match P (tk TK_END) (tk TK_FOR) line) s (\<lambda>x s. psafe leaveblock s Q))"
    if "here P m c l k ((ts @ [tk TK_FOR]) @ [tk TK_NAME]) u s" for u s name
    by (rule here_fornum [OF assms(1) that], erule fin, assumption, simp)
  have list: "psafe (forlist P R name) s (\<lambda>x s. psafe (check_match P (tk TK_END) (tk TK_FOR) line) s (\<lambda>x s. psafe leaveblock s Q))"
    if "here P m c l k ((ts @ [tk TK_FOR]) @ [tk TK_NAME]) u s" for u s name
    by (rule here_forlist [OF assms(1) that], erule fin, assumption, simp)
  show ?thesis
    unfolding forstat_def psafe_simps(1-4)
    apply (rule here_adjust [OF assms(2)])
    apply (erule here_next, simp)
    apply (erule here_checkname)
    apply (erule here_lif)
     apply (erule num)
    apply (subst psafe_simps(5), rule if_split [THEN iffD2], intro conjI impI)
     apply (erule list)
    apply (erule here_error)
    done
qed

end
