(* ===== verification/Parser_Accepts.thy ===== *)
theory Parser_Accepts
  imports Parser_Block Lexer_Props Code_Consts
begin

text \<open>The other statements, chunks, and the properties of the parser.\<close>

section \<open>Conditionals\<close>

lemma here_test_then:
  assumes "rules_ok P m c R" "here P m c l k ts t ps" "t \<noteq> EOS"
    "\<And>x e b t' ps'. g_exp e \<Longrightarrow> g_chunk b \<Longrightarrow> here P m c l k (ts @ t # e @ tk TK_THEN # b) t' ps' \<Longrightarrow> Q x ps'"
  shows "psafe (test_then_block P R) ps Q"
proof -
  have K: "Q x s" if "here P m c l k ((((ts @ [t]) @ e) @ [tk TK_THEN]) @ b) u s" "g_exp e" "g_chunk b" for x s e b u
    using assms(4) [OF that(2,3)] that(1) by simp
  show ?thesis
    unfolding test_then_block_def psafe_simps
    apply (rule here_next [OF assms(2,3)])
    apply (erule here_cond [OF assms(1)])
    apply (erule here_checknext, simp)
    apply (erule here_block [OF assms(1)])
    apply (erule K, assumption+)
    done
qed

lemma here_escape:
  assumes "here P m c l k ts t ps" "\<And>x ps'. here P m c l k ts t ps' \<Longrightarrow> Q x ps'"
  shows "psafe (escape_branch a b) ps Q"
  unfolding escape_branch_def psafe_simps
  by (rule here_code [OF assms(1)], erule here_code, erule here_code, erule assms(2))

text \<open>The branches before the end of the statement.\<close>

definition branches :: "int list \<Rightarrow> bool" where
  "branches bs \<longleftrightarrow> (\<forall>el. g_else el \<longrightarrow> g_else (bs @ el))"

lemma branches_more: "branches bs \<Longrightarrow> g_exp e \<Longrightarrow> g_chunk b \<Longrightarrow> branches (bs @ tk TK_ELSEIF # e @ tk TK_THEN # b)"
  using else_if by (auto simp: branches_def)

lemma here_elseif_loop:
  assumes "rules_ok P m c R" "here P m c l k (ts @ bs) t ps" "branches bs" "m < n + length (ts @ bs)"
    "\<And>x bs t' ps'. branches bs \<Longrightarrow> here P m c l k (ts @ bs) t' ps' \<Longrightarrow> Q x ps'"
  shows "psafe (elseif_loop P R n es fl) ps Q"
  using assms(2-5)
proof (induction n arbitrary: bs t ps es fl Q)
  case 0
  then show ?case by (simp add: here_def)
next
  case (Suc n)
  note K = Suc.prems(4)
  have more: "psafe (elseif_loop P R n es' fl') s Q"
    if "g_exp e" "g_chunk b" "here P m c l k ((ts @ bs) @ tk TK_ELSEIF # e @ tk TK_THEN # b) u s" for e b u s es' fl'
  proof (rule Suc.IH)
    show "here P m c l k (ts @ bs @ tk TK_ELSEIF # e @ tk TK_THEN # b) u s" using that(3) by simp
    show "branches (bs @ tk TK_ELSEIF # e @ tk TK_THEN # b)" using Suc.prems(2) that(1,2) by (rule branches_more)
    show "m < n + length (ts @ bs @ tk TK_ELSEIF # e @ tk TK_THEN # b)" using Suc.prems(3) by simp
  qed (rule K)
  show ?case
    unfolding elseif_loop.simps
    apply (rule here_lif [OF Suc.prems(1)])
     apply (unfold psafe_simps(1,3))
     apply (erule here_escape)
     apply (simp only:)
     apply (erule here_test_then [OF assms(1)], simp)
     apply (erule more, assumption+)
    apply (rule K [OF Suc.prems(2)], assumption)
    done
qed

lemma here_ifstat:
  assumes "rules_ok P m c R" "here P m c l k ts (tk TK_IF) ps"
    "\<And>s t' ps'. g_stat s \<Longrightarrow> here P m c l k (ts @ s) t' ps' \<Longrightarrow> Q () ps'"
  shows "psafe (ifstat P R line) ps Q"
proof -
  have fin: "psafe (check_match P (tk TK_END) (tk TK_IF) line) s Q"
    if "here P m c l k us u s" "us @ [tk TK_END] = ts @ tk TK_IF # e @ tk TK_THEN # b @ el" "g_exp e" "g_chunk b" "g_else el"
    for us u s e b el
    apply (rule here_check_match [OF that(1)], simp)
    apply (rule assms(3) [OF stat_if [OF that(3-5)]])
    apply (simp add: that(2))
    done
  have tail: "psafe (lif (is_tok (tk TK_ELSE))
        (lbind (escape_branch es fl) (\<lambda>escapelist. lseq (pnext P) (lseq (block R) (lret escapelist))))
        (code (luaK_concat es fl))) s
      (\<lambda>escapelist s. psafe (code (luaK_patchtohere escapelist)) s (\<lambda>x s. psafe (check_match P (tk TK_END) (tk TK_IF) line) s Q))"
    if h: "here P m c l k ((ts @ tk TK_IF # e @ tk TK_THEN # b) @ bs) u s" and g: "g_exp e" "g_chunk b" "branches bs"
    for e b bs u s es fl
  proof -
    have el: "g_else (bs @ tk TK_ELSE # b' @ [tk TK_END])" if "g_chunk b'" for b'
      using g(3) else_else [OF that] by (simp add: branches_def)
    have en: "g_else (bs @ [tk TK_END])" using g(3) else_end by (simp add: branches_def)
    show ?thesis
      apply (rule here_lif [OF h])
       apply (unfold psafe_simps(1,3,4))
       apply (erule here_escape)
       apply (erule here_next, simp)
       apply (erule here_block [OF assms(1)])
       apply (erule here_code)
       apply (erule fin [OF _ _ g(1,2) el], simp, assumption)
      apply (erule here_code)
      apply (erule here_code)
      apply (erule fin [OF _ _ g(1,2) en], simp)
      done
  qed
  show ?thesis
    unfolding ifstat_def psafe_simps(1-4,7)
    apply (rule here_test_then [OF assms(1,2)], simp)
    apply (rule here_elseif_loop [OF assms(1), where bs = "[]"])
       apply simp
      apply (simp add: branches_def)
     apply (use rules_okD(1) [OF assms(1)] in simp)
    apply (erule tail, assumption+)
    done
qed

section \<open>Declarations, functions, return\<close>

lemma here_localfunc:
  assumes "rules_ok P m c R" "here P m c l k (ts @ [tk TK_LOCAL, tk TK_FUNCTION]) t ps"
    "\<And>s t' ps'. g_stat s \<Longrightarrow> here P m c l k (ts @ s) t' ps' \<Longrightarrow> Q () ps'"
  shows "psafe (localfunc P R) ps Q"
  unfolding localfunc_def psafe_simps
  apply (rule here_checkname [OF assms(2)])
  apply (erule here_new_localvar)
  apply (erule here_code)
  apply (erule here_adjust)
  apply (erule here_body [OF assms(1)])
  apply (erule here_codeE)
  apply (erule here_set_fs)
  apply (rule assms(3) [OF stat_local_function], assumption, simp)
  done

lemma here_localstat:
  assumes "rules_ok P m c R" "here P m c l k (ts @ [tk TK_LOCAL]) t ps"
    "\<And>s t' ps'. g_stat s \<Longrightarrow> here P m c l k (ts @ s) t' ps' \<Longrightarrow> Q () ps'"
  shows "psafe (localstat P R) ps Q"
proof -
  have K: "psafe (adjust_assign P nv ne e) s (\<lambda>x s. psafe (adjustlocalvars nv) s Q)"
    if "here P m c l k us u s" "us = ts @ st" "g_stat st" for us u s st nv ne e
    apply (rule here_adjust_assign [OF that(1)])
    apply (erule here_adjust)
    apply (rule assms(3) [OF that(3)])
    apply (simp add: that(2))
    done
  show ?thesis
    unfolding localstat_def psafe_simps(1-4,7)
    apply (rule here_checkname [OF assms(2)])
    apply (erule here_new_localvar)
    apply (erule here_names_loop, rule g_names.intros, use rules_okD(1) [OF assms(1)] in simp)
    apply (erule here_testnext, simp)
     apply (simp only: if_True)
     apply (erule here_explist1 [OF assms(1)])
     apply (erule K [OF _ _ stat_local_assign], simp, assumption, assumption)
    apply (simp only: if_False psafe_simps(1))
    apply (erule K [OF _ _ stat_local], simp, assumption)
    done
qed

lemma here_fields_loop:
  assumes "here P m c l k (ts @ ns) t ps" "g_fields ns" "m < n + length (ts @ ns)"
    "\<And>x ns t' ps'. g_fields ns \<Longrightarrow> here P m c l k (ts @ ns) t' ps' \<Longrightarrow> Q x ps'"
  shows "psafe (fields_loop P n v) ps Q"
  using assms
proof (induction n arbitrary: ns t ps v Q)
  case 0
  then show ?case by (simp add: here_def)
next
  case (Suc n)
  note K = Suc.prems(4)
  have more: "psafe (fields_loop P n v') s Q"
    if "here P m c l k ((ts @ ns) @ [char_tok CHR ''.'', tk TK_NAME]) u s" for s u v'
  proof (rule Suc.IH)
    show "here P m c l k (ts @ ns @ [char_tok CHR ''.'', tk TK_NAME]) u s" using that by simp
    show "g_fields (ns @ [char_tok CHR ''.'', tk TK_NAME])" using Suc.prems(2) by (rule g_fields.intros)
    show "m < n + length (ts @ ns @ [char_tok CHR ''.'', tk TK_NAME])" using Suc.prems(3) by simp
  qed (rule K)
  show ?case
    unfolding fields_loop.simps
    apply (rule here_lif [OF Suc.prems(1)])
     apply (unfold psafe_simps(1,3))
     apply (simp only:)
     apply (erule here_field, simp)
     apply (erule more)
    apply (rule K [OF Suc.prems(2)], assumption)
    done
qed

lemma here_funcname:
  assumes "rules_ok P m c R" "here P m c l k ts t ps"
    "\<And>x f t' ps'. g_funcname f \<Longrightarrow> here P m c l k (ts @ f) t' ps' \<Longrightarrow> Q x ps'"
  shows "psafe (funcname P R) ps Q"
  unfolding funcname_def psafe_simps(1-4)
  apply (rule here_singlevar [OF assms(2)])
  apply (erule here_fields_loop, rule g_fields.intros, use rules_okD(1) [OF assms(1)] in simp)
  apply (erule here_lif)
   apply (unfold psafe_simps(1,3))
   apply (simp only:)
   apply (erule here_field, simp)
   apply (rule assms(3) [OF g_funcname.intros(2)], assumption, simp)
  apply (erule assms(3) [OF g_funcname.intros(1)], assumption)
  done

lemma here_funcstat:
  assumes "rules_ok P m c R" "here P m c l k ts (tk TK_FUNCTION) ps"
    "\<And>s t' ps'. g_stat s \<Longrightarrow> here P m c l k (ts @ s) t' ps' \<Longrightarrow> Q () ps'"
  shows "psafe (funcstat P R line) ps Q"
  unfolding funcstat_def psafe_simps
  apply (rule here_next [OF assms(2)], simp)
  apply (erule here_funcname [OF assms(1)])
  apply (erule here_body [OF assms(1)])
  apply (erule here_codeE)
  apply (erule here_code)
  apply (simp, rule assms(3) [OF stat_function], assumption, assumption, simp)
  done

lemma here_ret_values:
  assumes "rules_ok P m c R" "here P m c l k ts t ps"
    "\<And>x es t' ps'. g_explist es \<Longrightarrow> here P m c l k (ts @ es) t' ps' \<Longrightarrow> Q x ps'"
  shows "psafe (ret_values P R) ps Q"
  unfolding ret_values_def psafe_simps
  apply (rule here_explist1 [OF assms(1,2)])
  apply (rule if_split [THEN iffD2], intro conjI impI)
   apply (erule here_code)
   apply (rule if_split [THEN iffD2], intro conjI impI)
    apply (erule here_code, erule assms(3), assumption)
   apply (erule assms(3), assumption)
  apply (rule if_split [THEN iffD2], intro conjI impI)
   apply (erule here_codeE, erule assms(3), assumption)
  apply (erule here_codeE, erule assms(3), assumption)
  done

lemma here_retstat:
  assumes "rules_ok P m c R" "here P m c l k ts (tk TK_RETURN) ps"
    "\<And>s t' ps'. g_last s \<Longrightarrow> here P m c l k (ts @ s) t' ps' \<Longrightarrow> Q () ps'"
  shows "psafe (retstat P R) ps Q"
  unfolding retstat_def psafe_simps(1-4,7)
  apply (rule here_next [OF assms(2)], simp)
  apply (subst psafe_simps(5), rule if_split [THEN iffD2], intro conjI impI)
   apply (subst psafe_simps(1))
   apply (erule here_code)
   apply (simp, rule assms(3) [OF last_return], assumption)
  apply (erule here_ret_values [OF assms(1)])
  apply (erule here_code)
  apply (simp, rule assms(3) [OF last_values], assumption, simp)
  done

section \<open>Statements and chunks\<close>

lemma here_statement:
  assumes "rules_ok P m c R" "here P m c l k ts t ps"
    "\<And>last s t' ps'. (if last then g_last s else g_stat s) \<Longrightarrow> here P m c l k (ts @ s) t' ps' \<Longrightarrow> Q last ps'"
  shows "psafe (statement P R) ps Q"
proof -
  have S: "Q False ps'" if "g_stat s" "here P m c l k (ts @ s) t' ps'" for s t' ps'
    using assms(3) [of False s] that by simp
  have L: "Q True ps'" if "g_last s" "here P m c l k (ts @ s) t' ps'" for s t' ps'
    using assms(3) [of True s] that by simp
  have local_: "psafe (if b then localfunc P R else localstat P R) s (\<lambda>x. Q False)"
    if "here P m c l k ((ts @ [tk TK_LOCAL]) @ (if b then [tk TK_FUNCTION] else [])) u s" for b u s
    using that by (cases b) (auto simp: psafe_simps intro: S here_localfunc [OF assms(1)] here_localstat [OF assms(1)])
  show ?thesis
    unfolding statement_def psafe_simps(2,3)
    apply (rule here_lif [OF assms(2)], unfold psafe_simps(1,3,4), simp only:, erule here_ifstat [OF assms(1)], erule S, assumption)
    apply (erule here_lif, unfold psafe_simps(1,3,4), simp only:, erule here_whilestat [OF assms(1)], erule S, assumption)
    apply (erule here_lif, unfold psafe_simps(1,3,4))
     apply (erule here_next, simp)
     apply (erule here_block [OF assms(1)])
     apply (erule here_check_match, simp)
     apply (rule S [OF stat_do], assumption, simp)
    apply (erule here_lif, unfold psafe_simps(1,3,4), simp only:, erule here_forstat [OF assms(1)], erule S, assumption)
    apply (erule here_lif, unfold psafe_simps(1,3,4), simp only:, erule here_repeatstat [OF assms(1)], erule S, assumption)
    apply (erule here_lif, unfold psafe_simps(1,3,4), simp only:, erule here_funcstat [OF assms(1)], erule S, assumption)
    apply (erule here_lif, unfold psafe_simps(1,3,4))
     apply (simp only:)
     apply (erule here_next, simp)
     apply (erule here_testnext, simp)
      apply (rule local_, simp)
     apply (rule local_, simp)
    apply (erule here_lif, unfold psafe_simps(1,3,4), simp only:, erule here_retstat [OF assms(1)], erule L, assumption)
    apply (erule here_lif, unfold psafe_simps(1,3,4), simp only:)
     apply (erule here_next, simp)
     apply (erule here_breakstat)
     apply (rule L [OF last_break], assumption)
    apply (erule here_exprstat [OF assms(1)])
    apply (erule S, assumption)
    done
qed

lemma here_chunk_loop:
  assumes "rules_ok P m c R" "here P m c l k ts t ps" "m < n + length ts"
    "\<And>b t' ps'. (if islast then b = [] else g_chunk b) \<Longrightarrow> here P m c l k (ts @ b) t' ps' \<Longrightarrow> Q () ps'"
  shows "psafe (chunk_loop P R n islast) ps Q"
  using assms(2-4)
proof (induction n arbitrary: ts t ps islast Q)
  case 0
  then show ?case by (simp add: here_def)
next
  case (Suc n)
  note K = Suc.prems(3)
  have join: "g_chunk (s @ b)" "g_chunk (s @ char_tok CHR '';'' # b)"
    if "if last then g_last s else g_stat s" "if last then b = [] else g_chunk b" for last s b
    using that by (cases last; auto intro: chunk_stat chunk_stat_sep chunk_last chunk_last_sep)+
  have rest: "psafe (set_gen f) s (\<lambda>x s. psafe (chunk_loop P R n last) s Q)"
    if "\<not> islast" "if last then g_last st else g_stat st" "here P m c l k us u s" "us = ts @ st @ sep"
      "sep \<in> {[], [char_tok CHR '';'']}" for last st us sep u s f
  proof (rule here_set_fs [OF that(3)])
    have ne: "st \<noteq> []" using that(2) g_not_empty by (auto split: if_splits)
    fix s' assume h: "here P m c l k us u s'"
    show "psafe (chunk_loop P R n last) s' Q"
    proof (rule Suc.IH [OF h])
      show "m < n + length us" using Suc.prems(2) that(4) ne by (cases st) simp_all
      fix b t' ps' assume "if last then b = [] else g_chunk b" "here P m c l k (us @ b) t' ps'"
      with join [OF that(2)] that(1,4,5) K [of "st @ sep @ b"] show "Q () ps'" by auto
    qed
  qed
  have stat: "psafe (statement P R) ps (\<lambda>last s. psafe (testnext P (char_tok CHR '';'')) s
      (\<lambda>x s. psafe (set_gen f) s (\<lambda>x s. psafe (chunk_loop P R n last) s Q)))" if "\<not> islast" for f
    apply (rule here_statement [OF assms(1) Suc.prems(1)])
    apply (erule here_testnext, simp)
     apply (erule rest [OF that, where sep = "[char_tok CHR '';'']"], assumption, simp, simp)
    apply (erule rest [OF that, where sep = "[]"], assumption, simp, simp)
    done
  have done': "Q () ps" using K [of "[]"] Suc.prems(1) chunk_empty by simp
  show ?case
    unfolding chunk_loop.simps psafe_simps(1,3-5) using stat done' by auto
qed

lemma here_chunk:
  assumes "rules_ok P m (c + 1) R" "here P m c l k ts t ps"
    "\<And>b t' ps'. g_chunk b \<Longrightarrow> here P m c l k (ts @ b) t' ps' \<Longrightarrow> Q () ps'"
  shows "psafe (chunk P R) ps Q"
  unfolding chunk_def psafe_simps
  apply (rule here_enterlevel [OF assms(2)])
  apply (erule here_chunk_loop [OF assms(1)], use rules_okD(1) [OF assms(1)] in simp)
  apply (erule here_leavelevel)
  apply (rule assms(3), simp, assumption)
  done

text \<open>The recursion ends: \<open>d\<close> levels are enough when \<open>nCcalls\<close> is at least \<open>LUAI_MAXCCALLS + 1 - d\<close>.\<close>

lemma rules_at_ok:
  assumes "m < n" "int LUAI_MAXCCALLS < c + int d"
  shows "rules_ok P m c (rules_at P n d)"
  using assms(2)
proof (induction d arbitrary: c)
  case 0
  then show ?case using assms(1) by (auto simp: rules_ok_def here_def)
next
  case (Suc d)
  have IH: "rules_ok P m (c + 1) (rules_at P n d)" by (rule Suc.IH) (use Suc.prems in simp)
  show ?case
    unfolding rules_ok_def
    using assms(1) here_chunk [OF IH] here_subexpr [OF IH] by (auto simp: rules_ok_def)
qed

section \<open>The parser\<close>

text \<open>The state in which the first token is read.\<close>

definition first_state :: "parse_env \<Rightarrow> ZIO \<Rightarrow> string \<Rightarrow> LexState \<Rightarrow> LexState \<Rightarrow> bool" where
  "first_state P z name ls l \<longleftrightarrow> (\<exists>u h l0. luaX_setinput z name ls = Inr (u, l0) \<and> luaX_next (p_lex P) (l0\<lparr>fs_h := h\<rparr>) = Inr (u, l))"

lemma first_next:
  assumes "zio_ok z" "luaX_setinput z name ls = Inr (u, l0)" "length (ps_fs ps) = 1" "ps_ls ps = l0"
    "0 \<le> nCcalls ps" "nCcalls ps \<le> int LUAI_MAXCCALLS"
    "\<And>l t ps'. first_state P z name ls l \<Longrightarrow> here P (length (pending z) + 1) (nCcalls ps) (l, True) 1 [] t ps' \<Longrightarrow> Q () ps'"
  shows "psafe (pnext P) ps Q"
  unfolding pnext_def
proof (rule lexer_safe)
  show "ps_fs ps \<noteq> []" using assms(3) by auto
  fix h
  let ?l = "l0\<lparr>fs_h := h\<rparr>"
  note i = setinput_state [OF assms(1,2)]
  have "lex_left ?l = lex_left l0" by (simp add: lex_left_def)
  moreover have "sound ?l" unfolding sound_upd using i(1) by (simp add: sound_def)
  ultimately have s: "sound ?l" "token (lookahead ?l) = EOS" "lex_left ?l \<le> length (pending z)"
    using i(2,3) by simp_all
  show "luaX_next (p_lex P) ((ps_ls ps)\<lparr>fs_h := h\<rparr>) \<noteq> Inl LexStuck" using next_sound(1) [OF s(1)] assms(4) by simp
  fix x l and fss :: "FuncParse list"
  assume r: "luaX_next (p_lex P) ((ps_ls ps)\<lparr>fs_h := h\<rparr>) = Inr (x, l)" "length fss = length (ps_fs ps)"
  then have r': "luaX_next (p_lex P) ?l = Inr (x, l)" using assms(4) by simp
  have "tokens_left l \<le> length (pending z)" "lok l" "token (lookahead l) = EOS" using next_sound(2) [OF s(1) r'] s(2,3) by auto
  moreover have "first_state P z name ls l" using assms(2) r' by (auto simp: first_state_def)
  ultimately have "Q () (ps\<lparr>ps_ls := l, ps_fs := fss\<rparr>)"
    using assms(3,5,6) r(2)
    by (intro assms(7) [of l "token (tok l)"]) (simp_all add: here_def reads.start ptok_def)
  then show "Q x (ps\<lparr>ps_ls := l, ps_fs := fss\<rparr>)" by simp
qed

text \<open>The last function is closed at the end of the chunk, when there is no token to anchor.\<close>

lemma here_close_main:
  assumes "here P m c l 1 ts EOS ps" "\<And>fs ps'. ps_fs ps' = [] \<Longrightarrow> nCcalls ps' = c
      \<Longrightarrow> reads (p_lex P) (fst l) ts (ps_ls ps') \<Longrightarrow> ptok ps' = EOS \<Longrightarrow> Q fs ps'"
  shows "psafe (close_func P) ps Q"
proof -
  have pop: "psafe (lmodify (\<lambda>ps. ps\<lparr>ps_fs := tl (ps_fs ps)\<rparr>)) s (\<lambda>x s. psafe (anchor_token P) s (\<lambda>x. Q fs))"
    if "here P m c l 1 ts EOS s" for s fs
  proof -
    have "ps_fs (s\<lparr>ps_fs := tl (ps_fs s)\<rparr>) = []" "ptok (s\<lparr>ps_fs := tl (ps_fs s)\<rparr>) = EOS"
      using that by (cases "ps_fs s"; simp add: here_def ptok_def)+
    moreover from this have "anchor_token P (s\<lparr>ps_fs := tl (ps_fs s)\<rparr>) = Inr ((), s\<lparr>ps_fs := tl (ps_fs s)\<rparr>)"
      by (simp add: anchor_token_def lif_def lret_def)
    ultimately show ?thesis unfolding psafe_lmodify using that assms(2) by (simp add: psafe_def here_def)
  qed
  show ?thesis
    unfolding close_func_def psafe_simps
    apply (rule here_adjust [OF assms(1)])
    apply (erule here_code)
    apply (erule pop)
    done
qed

text \<open>
  C2: the parser accepts only chunks of the grammar of the reference manual: if \<open>luaY_parser\<close> returns a
  function, then the tokens that it has read up to the end of the stream form a chunk. Its
  recursion is never deeper than \<open>LUAI_MAXCCALLS\<close> levels, its loops end, and it leaves \<open>nCcalls\<close> as it
  was and no function open; it fails only with an error of the lexer or of the code generator.
\<close>

theorem parser_accepts_grammar:
  assumes "zio_ok z" "0 \<le> nCcalls ps" "nCcalls ps \<le> int LUAI_MAXCCALLS"
  shows "case luaY_parser P z name ps of
      Inl e \<Rightarrow> e \<notin> {PDepth, PLoop, PNull, PLex LexStuck}
    | Inr (f, ps') \<Rightarrow> ps_fs ps' = [] \<and> nCcalls ps' = nCcalls ps
        \<and> (\<exists>l ts. first_state P z (fst name) (ps_ls ps) l \<and> reads (p_lex P) l ts (ps_ls ps')
             \<and> token (tok (ps_ls ps')) = tk TK_EOS \<and> g_chunk ts)"
proof -
  let ?Q = "\<lambda>f ps'. ps_fs ps' = [] \<and> nCcalls ps' = nCcalls ps
      \<and> (\<exists>l ts. first_state P z (fst name) (ps_ls ps) l \<and> reads (p_lex P) l ts (ps_ls ps')
             \<and> token (tok (ps_ls ps')) = tk TK_EOS \<and> g_chunk ts)"
  obtain u l0 where i: "luaX_setinput z (fst name) (ps_ls ps) = Inr (u, l0)"
    by (auto simp: luaX_setinput_def lseq_def lbind_def lmodify_def lnext_def)
  let ?ps = "ps\<lparr>ps_ls := l0, ps_source := snd name, ps_fs := []\<rparr>"
  let ?m = "length (pending z) + 1" and ?R = "rules_at P (length (pending z) + 2) (LUAI_MAXCCALLS + 1)"
  have R: "rules_ok P ?m (nCcalls ps) ?R" by (rule rules_at_ok) (use assms(2) in simp_all)
  have rest: "psafe (r_chunk ?R) s (\<lambda>x s. psafe (check_tok (tk TK_EOS)) s
      (\<lambda>x s. psafe (close_func P) s (\<lambda>fs s. psafe (\<lambda>ps. Inr (to_proto (ps_source ps) fs, ps)) s ?Q)))"
    if f: "first_state P z (fst name) (ps_ls ps) l" and h: "here P ?m (nCcalls ps) (l, True) 1 [] t s" for l t s
  proof (rule rules_okD(2) [OF R h])
    fix b t' s1 assume b: "g_chunk b" "here P ?m (nCcalls ps) (l, True) 1 ([] @ b) t' s1"
    show "psafe (check_tok (tk TK_EOS)) s1
      (\<lambda>x s. psafe (close_func P) s (\<lambda>fs s. psafe (\<lambda>ps. Inr (to_proto (ps_source ps) fs, ps)) s ?Q))"
      apply (rule here_check [OF b(2)])
      apply (simp only:)
      apply (erule here_close_main)
      apply (use b(1) f in \<open>auto simp: psafe_def ptok_def\<close>)
      done
  qed
  have open_main: "psafe (open_func P) ?ps S"
    if "\<And>s. length (ps_fs s) = 1 \<Longrightarrow> ps_ls s = l0 \<Longrightarrow> nCcalls s = nCcalls ps \<Longrightarrow> S () s" for S
    using that by (auto simp: open_func_def psafe_def bad_errors_def split: sum.split)
  have main: "psafe (set_fs f) s S"
    if "length (ps_fs s) = 1 \<and> ps_ls s = l0 \<and> nCcalls s = nCcalls ps"
      "\<And>s. length (ps_fs s) = 1 \<Longrightarrow> ps_ls s = l0 \<Longrightarrow> nCcalls s = nCcalls ps \<Longrightarrow> S () s" for f s S
    using that by (simp add: set_fs_def psafe_lmodify)
  let ?main = "lseq (open_func P)
        (lseq (set_fs (\<lambda>fs. fs\<lparr>pf_is_vararg := VARARG_ISVARARG\<rparr>))
        (lseq (pnext P)
        (lseq (r_chunk ?R)
        (lseq (check_tok (tk TK_EOS))
        (lbind (close_func P) (\<lambda>fs ps. Inr (to_proto (ps_source ps) fs, ps)))))))"
  have "psafe ?main ?ps ?Q"
    unfolding psafe_simps(3,4)
    apply (rule open_main)
    apply (rule main, simp)
    apply (rule first_next [OF assms(1) i], assumption, assumption)
      apply (use assms(2,3) in simp_all)[2]
    apply (rule rest, assumption, simp)
    done
  moreover have "luaY_parser P z name ps = ?main ?ps" unfolding luaY_parser_def i sum.case prod.case ..
  ultimately show ?thesis unfolding psafe_def bad_errors_def by (cases "?main ?ps") (simp_all only: sum.case prod.case insert_iff empty_iff simp_thms)
qed

text \<open>An environment and a state of the parser, for examples.\<close>

definition sample_parse_env :: parse_env where
  "sample_parse_env = \<lparr>p_lex = lexer_env, p_code = sample_code_env, p_newtable = (\<lambda>ps. 64)\<rparr>"

definition sample_parse :: PState where
  "sample_parse = \<lparr>ps_ls = sample_lex, ps_source = 0, ps_fs = [], nCcalls = 3\<rparr>"

theorem parser_accepts_grammar_witness:
  "case luaY_parser sample_parse_env (luaZ_init [[110], [61, 110]]) (''=s'', 8) sample_parse of
      Inl e \<Rightarrow> e \<notin> {PDepth, PLoop, PNull, PLex LexStuck}
    | Inr (f, ps') \<Rightarrow> ps_fs ps' = [] \<and> nCcalls ps' = 3
        \<and> (\<exists>l ts. first_state sample_parse_env (luaZ_init [[110], [61, 110]]) ''=s'' sample_lex l
             \<and> reads lexer_env l ts (ps_ls ps') \<and> token (tok (ps_ls ps')) = tk TK_EOS \<and> g_chunk ts)"
proof -
  have "zio_ok (luaZ_init [[110], [61, 110]])" by (rule luaZ_init_ok) simp
  moreover have "nCcalls sample_parse = 3" "ps_ls sample_parse = sample_lex" "p_lex sample_parse_env = lexer_env"
    by (simp_all add: sample_parse_def sample_parse_env_def)
  moreover have "3 \<le> LUAI_MAXCCALLS" by (simp add: LUAI_MAXCCALLS_def)
  ultimately show ?thesis
    using parser_accepts_grammar [of "luaZ_init [[110], [61, 110]]" sample_parse sample_parse_env "(''=s'', 8)"]
    by (simp split: sum.splits prod.splits)
qed

end
