(* ===== verification/Parser_Scopes.thy ===== *)
theory Parser_Scopes
  imports Parser Lexer_Props
begin

text \<open>
  Names are resolved by lexical scoping: what \<open>singlevaraux\<close> returns denotes the variable that
  the scope rules of the reference manual give (sections 2.3 and 2.6).
\<close>

section \<open>Specification\<close>

text \<open>The last declared active local variable of the name \<open>n\<close>.\<close>

definition latest :: "FuncParse \<Rightarrow> ptr \<Rightarrow> int option" where
  "latest fs n = (case filter (\<lambda>i. varname (getlocvar fs (int i)) = Some n) [0..<nat (fs_nactvar (gen fs))] of
     [] \<Rightarrow> None
   | is \<Rightarrow> Some (int (last is)))"

text \<open>The innermost function that has one, by the number of functions around it, and the variable.\<close>

fun scope :: "FuncParse list \<Rightarrow> ptr \<Rightarrow> (nat \<times> int) option" where
  "scope [] n = None"
| "scope (fs # prev) n = (case latest fs n of Some i \<Rightarrow> Some (length prev, i) | None \<Rightarrow> scope prev n)"

text \<open>The variable that a local or an upvalue stands for, along the upvalues of the functions around.\<close>

fun denotes :: "FuncParse list \<Rightarrow> expkind \<Rightarrow> int \<Rightarrow> (nat \<times> int) option" where
  "denotes [] k i = None"
| "denotes (fs # prev) k i =
     (if k = VLOCAL then Some (length prev, i)
      else if k = VUPVAL \<and> 0 \<le> i \<and> nat i < length (pf_upvalues fs)
      then denotes prev (fst (pf_upvalues fs ! nat i)) (snd (pf_upvalues fs ! nat i))
      else None)"

definition keeps_upvalues :: "FuncParse list \<Rightarrow> FuncParse list \<Rightarrow> bool" where
  "keeps_upvalues fss fss' \<longleftrightarrow> length fss' = length fss
     \<and> (\<forall>k i d. denotes fss k i = Some d \<longrightarrow> denotes fss' k i = Some d)"

text \<open>The block of a variable closes it when it is left.\<close>

definition closed_by_block :: "FuncParse list \<Rightarrow> nat \<times> int \<Rightarrow> bool" where
  "closed_by_block fss d = (case filter (\<lambda>b. bl_nactvar b \<le> snd d) (pf_bl (fss ! (length fss - 1 - fst d))) of
     [] \<Rightarrow> True
   | b # bs \<Rightarrow> bl_upval b)"

definition scopes_ok :: "FuncParse list \<Rightarrow> bool" where
  "scopes_ok fss \<longleftrightarrow> (\<forall>fs\<in>set fss. fs_nactvar (gen fs) \<le> LUAI_MAXVARS \<and> length (pf_upvalues fs) \<le> nat LUAI_MAXUPVALUES)"

section \<open>Lemmas\<close>

lemma latest_search:
  "latest fs n = (let v = searchvar fs n in if v \<ge> 0 then Some v else None)"
proof -
  have "(case filter (\<lambda>i. varname (getlocvar fs (int i)) = Some n) [0..<m] of [] \<Rightarrow> None | is \<Rightarrow> Some (int (last is)))
      = (let v = search_loop fs n m in if v \<ge> 0 then Some v else None)" for m
    by (induction m) (auto simp: Let_def split: list.splits)
  then show ?thesis by (simp add: latest_def searchvar_def)
qed

lemma latest_bound: "latest fs n = Some i \<Longrightarrow> 0 \<le> i \<and> i < fs_nactvar (gen fs)"
proof -
  have "search_loop fs n m < int m" for m by (induction m) auto
  from this [of "nat (fs_nactvar (gen fs))"] show "latest fs n = Some i \<Longrightarrow> 0 \<le> i \<and> i < fs_nactvar (gen fs)"
    by (auto simp: latest_search searchvar_def Let_def split: if_splits)
qed

text \<open>An upvalue is found where it was, or appended.\<close>

lemma find_upvalue_Some:
  "find_upvalue us v i = Some j \<Longrightarrow> i \<le> j \<and> nat (j - i) < length us \<and> us ! nat (j - i) = (ek v, einfo v)"
proof (induction us v i rule: find_upvalue.induct)
  case (2 k info us v i)
  show ?case
  proof (cases "k = ek v \<and> info = einfo v")
    case False
    then have "i + 1 \<le> j \<and> nat (j - (i + 1)) < length us \<and> us ! nat (j - (i + 1)) = (ek v, einfo v)" using 2 by auto
    moreover from this have "nat (j - i) = Suc (nat (j - (i + 1)))" by arith
    ultimately show ?thesis by simp
  qed (use 2 in auto)
qed simp

lemma indexupvalue_spec:
  assumes "0 \<le> einfo v" "einfo v < 256" "length (pf_upvalues fs) \<le> nat LUAI_MAXUPVALUES"
  shows "case indexupvalue fs n v of
      Inl line \<Rightarrow> line = pf_linedefined fs \<and> length (pf_upvalues fs) = nat LUAI_MAXUPVALUES
    | Inr (i, fs') \<Rightarrow> 0 \<le> i \<and> i < LUAI_MAXUPVALUES \<and> nat i < length (pf_upvalues fs') \<and> pf_upvalues fs' ! nat i = (ek v, einfo v)
        \<and> (\<exists>us. pf_upvalues fs' = pf_upvalues fs @ us) \<and> pf_bl fs' = pf_bl fs"
proof (cases "find_upvalue (pf_upvalues fs) v 0")
  case None
  then show ?thesis using assms by (auto simp: indexupvalue_def Let_def LUAI_MAXUPVALUES_def nth_append)
next
  case (Some j)
  then show ?thesis using find_upvalue_Some [OF Some] assms(3) by (auto simp: indexupvalue_def LUAI_MAXUPVALUES_def)
qed

lemma mark_block_closes:
  "case filter (\<lambda>b. bl_nactvar b \<le> i) (mark_block i bs) of [] \<Rightarrow> True | b # bs \<Rightarrow> bl_upval b"
  by (induction i bs rule: mark_block.induct) auto

lemma denotes_app:
  assumes "keeps_upvalues prev prev'" "pf_upvalues fs' = pf_upvalues fs @ us"
  shows "keeps_upvalues (fs # prev) (fs' # prev')"
  using assms by (auto simp: keeps_upvalues_def nth_append)

lemma keeps_refl: "keeps_upvalues fss fss" by (simp add: keeps_upvalues_def)

section \<open>The property\<close>

lemma closed_by_block_tl: "fst d < length prev \<Longrightarrow> closed_by_block (fs # prev) d = closed_by_block prev d"
proof -
  assume "fst d < length prev"
  then have "length prev - fst d = Suc (length prev - Suc (fst d))" by simp
  then show ?thesis by (simp add: closed_by_block_def)
qed

lemma scope_depth: "scope fss n = Some d \<Longrightarrow> fst d < length fss"
  by (induction fss) (fastforce split: option.splits)+

text \<open>
  C7: names are lexically scoped. \<open>singlevaraux\<close>, called for a name in the innermost of the functions that
  are being compiled, returns a global exactly if no function has an active local variable of that name, and
  else a local or an upvalue that denotes, through the upvalues of the functions between, the last
  declared active local of the innermost function that has one. A local that an inner function uses
  is marked in its block, which closes it; the upvalues that exist keep what they denote; the only error
  is a function that has \<open>LUAI_MAXUPVALUES\<close> already.
\<close>

theorem singlevaraux_scope:
  assumes "scopes_ok fss"
  shows "case singlevaraux fss n base of
      Inl line \<Rightarrow> \<exists>fs\<in>set fss. line = pf_linedefined fs \<and> length (pf_upvalues fs) = nat LUAI_MAXUPVALUES
    | Inr (var, fss') \<Rightarrow> keeps_upvalues fss fss'
        \<and> (case scope fss n of
             None \<Rightarrow> ek var = VGLOBAL \<and> fss' = fss
           | Some d \<Rightarrow> ek var \<noteq> VGLOBAL \<and> 0 \<le> einfo var \<and> einfo var < 256 \<and> denotes fss' (ek var) (einfo var) = Some d
               \<and> (base \<and> Suc (fst d) = length fss \<or> closed_by_block fss' d))"
  using assms
proof (induction fss n base rule: singlevaraux.induct)
  case (1 n base)
  then show ?case by (simp add: init_exp_def keeps_refl)
next
  case (2 fs prev n base)
  have ok: "fs_nactvar (gen fs) \<le> LUAI_MAXVARS" "length (pf_upvalues fs) \<le> nat LUAI_MAXUPVALUES" "scopes_ok prev"
    using "2.prems" by (auto simp: scopes_ok_def)
  show ?case
  proof (cases "latest fs n")
    case (Some i)
    have "searchvar fs n = i" "0 \<le> i" using Some by (auto simp: latest_search Let_def split: if_splits)
    moreover have "i < 256" using latest_bound [OF Some] ok(1) by (simp add: LUAI_MAXVARS_def)
    moreover have "keeps_upvalues (fs # prev) (markupval i fs # prev)"
      by (rule denotes_app [of _ _ _ _ "[]"]) (simp_all add: keeps_refl markupval_def)
    moreover have "closed_by_block (markupval i fs # prev) (length prev, i)"
      using mark_block_closes [of i "pf_bl fs"] by (simp add: closed_by_block_def markupval_def)
    ultimately show ?thesis using Some by (simp add: init_exp_def keeps_refl)
  next
    case None
    have s: "\<not> searchvar fs n \<ge> 0" using None by (auto simp: latest_search Let_def split: if_splits)
    note IH = "2.IH" [OF refl s ok(3)]
    show ?thesis
    proof (cases "singlevaraux prev n False")
      case (Inl line)
      then show ?thesis using IH s by auto
    next
      case (Inr r)
      obtain var prev' where r: "r = (var, prev')" by fastforce
      note e = Inr [unfolded r]
      show ?thesis
      proof (cases "scope prev n")
        case none: None
        then show ?thesis using IH e s None by (simp add: keeps_refl)
      next
        case (Some d)
        have v: "keeps_upvalues prev prev'" "ek var \<noteq> VGLOBAL" "0 \<le> einfo var" "einfo var < 256"
          "denotes prev' (ek var) (einfo var) = Some d" "closed_by_block prev' d"
          using IH e Some by auto
        have l: "fst d < length prev'" using scope_depth [OF Some] v(1) by (simp add: keeps_upvalues_def)
        note x = indexupvalue_spec [OF v(3,4) ok(2), of n]
        show ?thesis
        proof (cases "indexupvalue fs n var")
          case (Inl line)
          then show ?thesis using x e s v(2) by simp
        next
          case (Inr q)
          obtain i fs' where q: "q = (i, fs')" by fastforce
          obtain us where i: "0 \<le> i" "i < 256" "nat i < length (pf_upvalues fs')" "pf_upvalues fs' ! nat i = (ek var, einfo var)"
            "pf_upvalues fs' = pf_upvalues fs @ us" using x Inr q by (auto simp: LUAI_MAXUPVALUES_def)
          show ?thesis
            using e s v Inr q i None Some denotes_app [OF v(1) i(5)] closed_by_block_tl [OF l, of fs']
            by simp
        qed
      qed
    qed
  qed
qed

definition sample_inner :: FuncParse where "sample_inner = new_func 64 (fs_h sample_lex)"

definition sample_outer :: FuncParse where
  "sample_outer = sample_inner\<lparr>gen := (gen sample_inner)\<lparr>fs_nactvar := 2\<rparr>, pf_actvar := [0, 1],
     pf_locvars := [\<lparr>varname = Some 8, startpc = 0, endpc = 0\<rparr>, \<lparr>varname = Some 8, startpc = 0, endpc = 0\<rparr>],
     pf_bl := [\<lparr>breaklist = NO_JUMP, bl_nactvar = 0, bl_upval = False, isbreakable = False\<rparr>]\<rparr>"

theorem singlevaraux_scope_witness:
  "case singlevaraux [sample_inner, sample_inner, sample_outer] 8 True of
      Inl line \<Rightarrow> False
    | Inr (var, fss') \<Rightarrow> keeps_upvalues [sample_inner, sample_inner, sample_outer] fss'
        \<and> ek var = VUPVAL \<and> denotes fss' VUPVAL (einfo var) = Some (0, 1) \<and> closed_by_block fss' (0, 1)"
proof -
  let ?f = "[sample_inner, sample_inner, sample_outer]"
  have ok: "scopes_ok ?f"
    by (simp add: scopes_ok_def sample_inner_def sample_outer_def new_func_def new_gen_def LUAI_MAXVARS_def LUAI_MAXUPVALUES_def)
  have sc: "scope ?f 8 = Some (0, 1)"
    by (simp add: latest_def sample_inner_def sample_outer_def new_func_def new_gen_def getlocvar_def
        locvar_index_def upt_rec [of _ 2] upt_rec [of _ 1] numeral_2_eq_2)
  have "\<exists>var fss'. singlevaraux ?f 8 True = Inr (var, fss') \<and> ek var = VUPVAL"
    by (simp add: searchvar_def sample_inner_def sample_outer_def new_func_def new_gen_def getlocvar_def
        locvar_index_def numeral_2_eq_2 indexupvalue_def init_exp_def LUAI_MAXUPVALUES_def markupval_def Let_def)
  then show ?thesis using singlevaraux_scope [OF ok, where n = 8 and base = True] unfolding sc by auto
qed

end
