(* ===== verification/Auxlib.thy ===== *)
theory Auxlib
  imports Values
begin

text \<open>
  The arguments of a C function that Lua calls (\<open>lauxlib.c\<close>, \<open>lapi.c\<close>): the list of the values
  on its stack, where an index beyond the end has the type \<open>LUA_TNONE\<close>. A check returns the
  converted argument or raises an error; it does not change the state. The message of
  \<open>luaL_argerror\<close> also names the function, which only the debug interface knows: an
  \<^term>\<open>ArgError\<close> has the number of the argument and the text in parentheses.
\<close>

type_synonym args = "TValue list"

section \<open>Types\<close>

definition LUA_TNONE :: int where "LUA_TNONE = -1"
definition LUA_TNUMBER :: int where "LUA_TNUMBER = 3"
definition LUA_TSTRING :: int where "LUA_TSTRING = 4"
definition LUA_TTABLE :: int where "LUA_TTABLE = 5"
definition LUA_TFUNCTION :: int where "LUA_TFUNCTION = 6"

text \<open>\<open>luaO_nilobject\<close> stands for the values beyond the end of the stack.\<close>

definition index2adr :: "args \<Rightarrow> nat \<Rightarrow> TValue option" where
  "index2adr a n = (if n \<le> length a then Some (a ! (n - 1)) else None)"

definition arg :: "args \<Rightarrow> nat \<Rightarrow> TValue" where
  "arg a n = (case index2adr a n of Some v \<Rightarrow> v | None \<Rightarrow> LNil)"

definition lua_type :: "args \<Rightarrow> nat \<Rightarrow> int" where
  "lua_type a n = (case index2adr a n of None \<Rightarrow> LUA_TNONE | Some v \<Rightarrow> int (ttype v))"

definition lua_typename :: "int \<Rightarrow> string" where
  "lua_typename t = (if t = LUA_TNONE then ''no value'' else luaT_typenames ! nat t)"

definition luaL_typename :: "args \<Rightarrow> nat \<Rightarrow> string" where
  "luaL_typename a n = lua_typename (lua_type a n)"

definition lua_isnoneornil :: "args \<Rightarrow> nat \<Rightarrow> bool" where
  "lua_isnoneornil a n \<longleftrightarrow> lua_type a n \<le> 0"

definition luaL_typerror :: "args \<Rightarrow> nat \<Rightarrow> string \<Rightarrow> lerr" where
  "luaL_typerror a narg tname = ArgError narg (tname @ '' expected, got '' @ luaL_typename a narg)"

definition tag_error :: "args \<Rightarrow> nat \<Rightarrow> int \<Rightarrow> lerr" where
  "tag_error a narg tag = luaL_typerror a narg (lua_typename tag)"

definition luaL_checktype :: "args \<Rightarrow> nat \<Rightarrow> int \<Rightarrow> ('s, lerr, unit) action" where
  "luaL_checktype a narg t = (\<lambda>s. if lua_type a narg \<noteq> t then Inl (tag_error a narg t) else Inr ((), s))"

section \<open>Numbers\<close>

definition lua_isnumber :: "'s venv \<Rightarrow> args \<Rightarrow> nat \<Rightarrow> bool" where
  "lua_isnumber E a n \<longleftrightarrow> luaV_tonumber E (arg a n) \<noteq> None"

definition lua_tonumber :: "'s venv \<Rightarrow> args \<Rightarrow> nat \<Rightarrow> lua_Number" where
  "lua_tonumber E a n = (case luaV_tonumber E (arg a n) of Some r \<Rightarrow> r | None \<Rightarrow> 0)"

definition lua_tointeger :: "'s venv \<Rightarrow> args \<Rightarrow> nat \<Rightarrow> int" where
  "lua_tointeger E a n = (case luaV_tonumber E (arg a n) of Some r \<Rightarrow> lua_number2integer r | None \<Rightarrow> 0)"

definition luaL_checknumber :: "'s venv \<Rightarrow> args \<Rightarrow> nat \<Rightarrow> ('s, lerr, lua_Number) action" where
  "luaL_checknumber E a n = (\<lambda>s.
    let d = lua_tonumber E a n in
    if luai_numeq d 0 \<and> \<not> lua_isnumber E a n then Inl (tag_error a n LUA_TNUMBER) else Inr (d, s))"

definition luaL_checkinteger :: "'s venv \<Rightarrow> args \<Rightarrow> nat \<Rightarrow> ('s, lerr, int) action" where
  "luaL_checkinteger E a n = (\<lambda>s.
    let d = lua_tointeger E a n in
    if d = 0 \<and> \<not> lua_isnumber E a n then Inl (tag_error a n LUA_TNUMBER) else Inr (d, s))"

definition luaL_optnumber :: "'s venv \<Rightarrow> args \<Rightarrow> nat \<Rightarrow> lua_Number \<Rightarrow> ('s, lerr, lua_Number) action" where
  "luaL_optnumber E a n d = (if lua_isnoneornil a n then lret d else luaL_checknumber E a n)"

definition luaL_optinteger :: "'s venv \<Rightarrow> args \<Rightarrow> nat \<Rightarrow> int \<Rightarrow> ('s, lerr, int) action" where
  "luaL_optinteger E a n d = (if lua_isnoneornil a n then lret d else luaL_checkinteger E a n)"

text \<open>The cast of a \<open>lua_Integer\<close> of 64 bits to an \<open>int\<close>.\<close>

definition to_int :: "int \<Rightarrow> int" where
  "to_int i = (i + 2 ^ 31) mod 2 ^ 32 - 2 ^ 31"

definition luaL_checkint :: "'s venv \<Rightarrow> args \<Rightarrow> nat \<Rightarrow> ('s, lerr, int) action" where
  "luaL_checkint E a n = lbind (luaL_checkinteger E a n) (\<lambda>d. lret (to_int d))"

definition luaL_optint :: "'s venv \<Rightarrow> args \<Rightarrow> nat \<Rightarrow> int \<Rightarrow> ('s, lerr, int) action" where
  "luaL_optint E a n d = lbind (luaL_optinteger E a n d) (\<lambda>d. lret (to_int d))"

section \<open>Strings\<close>

definition lua_isstring :: "TValue \<Rightarrow> bool" where
  "lua_isstring v \<longleftrightarrow> int (ttype v) = LUA_TSTRING \<or> int (ttype v) = LUA_TNUMBER"

text \<open>The bytes of a string; a number is converted (in its stack slot).\<close>

definition lua_tolstring :: "'s venv \<Rightarrow> TValue \<Rightarrow> byte list option" where
  "lua_tolstring E v = (case v of LString p \<Rightarrow> Some (svalue E p) | _ \<Rightarrow> luaV_tostring E v)"

definition luaL_checklstring :: "'s venv \<Rightarrow> args \<Rightarrow> nat \<Rightarrow> ('s, lerr, byte list) action" where
  "luaL_checklstring E a n = (\<lambda>s. case lua_tolstring E (arg a n) of
     None \<Rightarrow> Inl (tag_error a n LUA_TSTRING) | Some b \<Rightarrow> Inr (b, s))"

definition luaL_optlstring :: "'s venv \<Rightarrow> args \<Rightarrow> nat \<Rightarrow> byte list \<Rightarrow> ('s, lerr, byte list) action" where
  "luaL_optlstring E a n def = (if lua_isnoneornil a n then lret def else luaL_checklstring E a n)"

section \<open>Lemmas\<close>

lemma to_int_range: "INT_MIN \<le> to_int i \<and> to_int i \<le> INT_MAX"
  by (simp add: to_int_def INT_MIN_def INT_MAX_def)

lemma to_int_id: "INT_MIN \<le> i \<Longrightarrow> i \<le> INT_MAX \<Longrightarrow> to_int i = i"
  by (simp add: to_int_def INT_MIN_def INT_MAX_def)

lemma checkint_number:
  assumes "arg a n = LNumber (cast_num i)" "INT_MIN \<le> i" "i \<le> INT_MAX"
  shows "luaL_checkint E a n s = Inr (i, s)"
proof -
  have i: "\<bar>i\<bar> < 2 ^ 53" using assms(2,3) by (simp add: INT_MIN_def INT_MAX_def)
  have "lua_number2integer (cast_num i) = i"
    using num_trunc_cast_num [OF i] assms(2,3)
    by (simp add: lua_number2integer_def num2int_range_def INT_MIN_def INT_MAX_def)
  then show ?thesis
    using to_int_id [OF assms(2,3)] assms(1)
    by (simp add: luaL_checkint_def luaL_checkinteger_def lua_tointeger_def lua_isnumber_def
        luaV_tonumber_def lbind_def lret_def)
qed

end
