(* ===== verification/Buffers.thy ===== *)
theory Buffers
  imports Auxlib "HOL-Library.Sublist"
begin

text \<open>
  String buffers (\<open>luaL_Buffer\<close> of \<open>lauxlib.c\<close>) and the concatenation of values that they use
  (\<open>luaV_concat\<close> of \<open>lvm.c\<close>, \<open>lua_concat\<close> of \<open>lapi.c\<close>). A buffer keeps its last bytes in an
  array and the strings before them on the Lua stack. A stack is a list with the top first.
\<close>

section \<open>Concatenation of values\<close>

text \<open>
  \<open>intern\<close> gives the string object that \<open>luaS_newlstr\<close> finds or makes for some bytes, \<open>concatTM\<close>
  is \<open>call_binTM\<close> for \<open>__concat\<close>: \<^term>\<open>None\<close> if neither value has the metamethod.
\<close>

record 's cenv = "'s venv" +
  intern :: "byte list \<Rightarrow> ptr"
  concatTM :: "TValue \<Rightarrow> TValue \<Rightarrow> ('s, lerr, TValue option) action"

definition newstring :: "'s cenv \<Rightarrow> byte list \<Rightarrow> TValue" where
  "newstring E b = LString (intern E b)"

text \<open>\<open>tostring\<close>: the bytes of a string or a number.\<close>

definition text_of :: "'s cenv \<Rightarrow> TValue \<Rightarrow> byte list option" where
  "text_of E v = lua_tolstring (venv.truncate E) v"

definition concat_error :: "TValue \<Rightarrow> TValue \<Rightarrow> lerr" where
  "concat_error p1 p2 =
    (let v = (if lua_isstring p1 then p2 else p1)
     in LuaError (''attempt to concatenate a '' @ luaT_typenames ! ttype v @ '' value''))"

text \<open>The loop that collects the operands: their texts, the last one first.\<close>

fun concat_collect :: "'s cenv \<Rightarrow> nat \<Rightarrow> TValue list \<Rightarrow> nat \<Rightarrow> byte list list \<Rightarrow> lerr + byte list list" where
  "concat_collect E (Suc cnt) (v # vs) sz bs =
     (case text_of E v of
        None \<Rightarrow> Inr bs
      | Some b \<Rightarrow>
          if length b \<ge> MAX_SIZET - sz then Inl (LuaError ''string length overflow'')
          else concat_collect E cnt vs (sz + length b) (b # bs))"
| "concat_collect E cnt vs sz bs = Inr bs"

text \<open>One pass: the number of operands that it replaces by one, and the new stack.\<close>

definition concat_pass :: "'s cenv \<Rightarrow> nat \<Rightarrow> TValue list \<Rightarrow> ('s, lerr, nat \<times> TValue list) action" where
  "concat_pass E cnt stk = (case stk of
     v1 # v2 # vs \<Rightarrow>
       (case (if lua_isstring v2 then text_of E v1 else None) of
          None \<Rightarrow> lbind (concatTM E v2 v1) (\<lambda>r. case r of
              Some r \<Rightarrow> lret (2, r # vs)
            | None \<Rightarrow> (\<lambda>s. Inl (concat_error v2 v1)))
        | Some b1 \<Rightarrow>
            if b1 = [] then lret (2, newstring E (the (text_of E v2)) # vs)
            else (\<lambda>s. case concat_collect E (cnt - 1) (v2 # vs) (length b1) [b1] of
                 Inl e \<Rightarrow> Inl e
               | Inr bs \<Rightarrow> Inr ((length bs, newstring E (concat bs) # drop (length bs) stk), s)))
   | _ \<Rightarrow> lret (2, stk))"

text \<open>Each pass takes at least two operands; the fuel is their number.\<close>

fun luaV_concat_loop :: "'s cenv \<Rightarrow> nat \<Rightarrow> nat \<Rightarrow> TValue list \<Rightarrow> ('s, lerr, TValue list) action" where
  "luaV_concat_loop E 0 cnt stk = (\<lambda>s. Inl LuaDiverge)"
| "luaV_concat_loop E (Suc n) cnt stk =
     lbind (concat_pass E cnt stk) (\<lambda>(k, stk).
       let cnt = cnt - (k - 1)
       in if cnt > 1 then luaV_concat_loop E n cnt stk else lret stk)"

definition luaV_concat :: "'s cenv \<Rightarrow> nat \<Rightarrow> TValue list \<Rightarrow> ('s, lerr, TValue list) action" where
  "luaV_concat E cnt stk = luaV_concat_loop E cnt cnt stk"

definition lua_concat :: "'s cenv \<Rightarrow> nat \<Rightarrow> TValue list \<Rightarrow> ('s, lerr, TValue list) action" where
  "lua_concat E n stk =
    (if n \<ge> 2 then luaV_concat E n stk
     else if n = 0 then lret (newstring E [] # stk)
     else lret stk)"

section \<open>Buffers\<close>

text \<open>\<open>LUAL_BUFFERSIZE\<close> is the \<open>BUFSIZ\<close> of the C library; \<open>bp\<close> holds the bytes before \<open>p\<close>.\<close>

record luaL_Buffer =
  bp :: "byte list"
  lvl :: nat
  bstk :: "TValue list"

definition LUAL_BUFFERSIZE :: nat where "LUAL_BUFFERSIZE = 8192"
definition LUA_MINSTACK :: nat where "LUA_MINSTACK = 20"
definition LIMIT :: nat where "LIMIT = LUA_MINSTACK div 2"

definition bufflen :: "luaL_Buffer \<Rightarrow> nat" where "bufflen B = length (bp B)"
definition bufffree :: "luaL_Buffer \<Rightarrow> nat" where "bufffree B = LUAL_BUFFERSIZE - bufflen B"

definition luaL_buffinit :: "TValue list \<Rightarrow> luaL_Buffer" where
  "luaL_buffinit stk = \<lparr>bp = [], lvl = 0, bstk = stk\<rparr>"

definition emptybuffer :: "'s cenv \<Rightarrow> luaL_Buffer \<Rightarrow> bool \<times> luaL_Buffer" where
  "emptybuffer E B =
    (let l = bufflen B in
     if l = 0 then (False, B)
     else (True, B\<lparr>bp := [], lvl := lvl B + 1, bstk := newstring E (bp B) # bstk B\<rparr>))"

definition lua_strlen :: "'s cenv \<Rightarrow> TValue \<Rightarrow> nat" where
  "lua_strlen E v = (case text_of E v of Some b \<Rightarrow> length b | None \<Rightarrow> 0)"

text \<open>The loop of \<open>adjuststack\<close> over the strings below the top; its condition holds at its start.\<close>

fun adjust_loop :: "'s cenv \<Rightarrow> nat \<Rightarrow> TValue list \<Rightarrow> nat \<Rightarrow> nat \<Rightarrow> nat" where
  "adjust_loop E lv [] toget toplen = toget"
| "adjust_loop E lv (v # vs) toget toplen =
     (if toget < lv \<and> (lv - toget + 1 \<ge> LIMIT \<or> toplen > lua_strlen E v)
      then adjust_loop E lv vs (toget + 1) (toplen + lua_strlen E v)
      else toget)"

definition adjuststack :: "'s cenv \<Rightarrow> luaL_Buffer \<Rightarrow> ('s, lerr, luaL_Buffer) action" where
  "adjuststack E B =
    (if lvl B > 1 then
       let toget = adjust_loop E (lvl B) (tl (bstk B)) 1 (lua_strlen E (hd (bstk B)))
       in lbind (lua_concat E toget (bstk B)) (\<lambda>stk. lret (B\<lparr>bstk := stk, lvl := lvl B - toget + 1\<rparr>))
     else lret B)"

definition luaL_prepbuffer :: "'s cenv \<Rightarrow> luaL_Buffer \<Rightarrow> ('s, lerr, luaL_Buffer) action" where
  "luaL_prepbuffer E B = (let (put, B) = emptybuffer E B in if put then adjuststack E B else lret B)"

definition luaL_addchar :: "'s cenv \<Rightarrow> byte \<Rightarrow> luaL_Buffer \<Rightarrow> ('s, lerr, luaL_Buffer) action" where
  "luaL_addchar E c B =
    lbind (if bufflen B < LUAL_BUFFERSIZE then lret B else luaL_prepbuffer E B)
      (\<lambda>B. lret (B\<lparr>bp := bp B @ [c]\<rparr>))"

fun luaL_addlstring :: "'s cenv \<Rightarrow> byte list \<Rightarrow> luaL_Buffer \<Rightarrow> ('s, lerr, luaL_Buffer) action" where
  "luaL_addlstring E [] B = lret B"
| "luaL_addlstring E (c # s) B = lbind (luaL_addchar E c B) (luaL_addlstring E s)"

definition luaL_addstring :: "'s cenv \<Rightarrow> byte list \<Rightarrow> luaL_Buffer \<Rightarrow> ('s, lerr, luaL_Buffer) action" where
  "luaL_addstring E s = luaL_addlstring E (c_text s)"

definition luaL_pushresult :: "'s cenv \<Rightarrow> luaL_Buffer \<Rightarrow> ('s, lerr, luaL_Buffer) action" where
  "luaL_pushresult E B =
    (let (_, B) = emptybuffer E B
     in lbind (lua_concat E (lvl B) (bstk B)) (\<lambda>stk. lret (B\<lparr>bstk := stk, lvl := 1\<rparr>)))"

text \<open>The value is on the top of the stack; a value that is no string has length 0.\<close>

definition luaL_addvalue :: "'s cenv \<Rightarrow> luaL_Buffer \<Rightarrow> ('s, lerr, luaL_Buffer) action" where
  "luaL_addvalue E B =
    (let v = hd (bstk B); stk = tl (bstk B);
         s = (case text_of E v of Some b \<Rightarrow> b | None \<Rightarrow> [])
     in if length s \<le> bufffree B then lret (B\<lparr>bp := bp B @ s, bstk := stk\<rparr>)
        else
          let (_, B) = emptybuffer E (B\<lparr>bstk := stk\<rparr>)
          in adjuststack E (B\<lparr>bstk := newstring E s # bstk B, lvl := lvl B + 1\<rparr>))"

section \<open>Concatenation of strings\<close>

text \<open>
  What the string table promises for the text \<open>W\<close> and its parts: their string objects have these
  bytes (they are live), and the text is not too long.
\<close>

definition interned :: "'s cenv \<Rightarrow> byte list \<Rightarrow> bool" where
  "interned E W \<longleftrightarrow> length W < MAX_SIZET \<and> (\<forall>b. sublist b W \<longrightarrow> svalue E (intern E b) = b)"

lemma text_newstring: "interned E W \<Longrightarrow> sublist b W \<Longrightarrow> text_of E (newstring E b) = Some b"
  by (simp add: text_of_def newstring_def lua_tolstring_def interned_def venv.defs)

lemma interned_length: "interned E W \<Longrightarrow> sublist b W \<Longrightarrow> length b < MAX_SIZET"
  using sublist_length_le by (fastforce simp: interned_def)

lemma sublist_parts:
  assumes "sublist (a @ b @ c) W"
  shows "sublist b W"
  using assms sublist_order.order_trans sublist_appendI by blast

lemma sublist_left: "sublist (a @ b) W \<Longrightarrow> sublist a W"
  using sublist_parts [of "[]" a b W] by simp

lemma sublist_right: "sublist (a @ b) W \<Longrightarrow> sublist b W"
  using sublist_parts [of a b "[]" W] by simp

lemma text_isstring: "text_of E v = Some b \<Longrightarrow> lua_isstring v"
  by (cases v) (simp_all add: text_of_def lua_tolstring_def luaV_tostring_def lua_isstring_def
      LUA_TSTRING_def LUA_TNUMBER_def)

lemma concat_collect_strings:
  assumes "interned E W" "sublist (concat (rev ts) @ c) W" "sz = length c"
  shows "concat_collect E (length ts) (map (newstring E) ts @ vs) sz bs = Inr (rev ts @ bs)"
  using assms(2,3)
proof (induction ts arbitrary: sz bs c)
  case (Cons t ts)
  have p: "sublist (concat (rev ts) @ t @ c) W" using Cons.prems(1) by simp
  then have "sublist t W" "sublist (t @ c) W" using sublist_parts [of _ t c] sublist_right by blast+
  note 1 = text_newstring [OF assms(1) this(1)] interned_length [OF assms(1) this(2)]
  show ?case using 1 Cons.IH [OF p, of "sz + length t"] Cons.prems(2) by simp
qed simp

lemma concat_pass_strings:
  assumes "interned E W" "sublist (concat (rev (t1 # t2 # ts))) W"
  shows "concat_pass E (length ts + 2) (map (newstring E) (t1 # t2 # ts) @ vs) s =
    Inr (if t1 = [] then (2, map (newstring E) (t2 # ts) @ vs)
         else (length ts + 2, newstring E (concat (rev (t1 # t2 # ts))) # vs), s)"
proof -
  have "sublist (concat (rev (t2 # ts)) @ t1) W" using assms(2) by simp
  from concat_collect_strings [OF assms(1) this refl, of vs "[t1]"]
  have "concat_collect E (Suc (length ts)) (newstring E t2 # map (newstring E) ts @ vs) (length t1) [t1]
      = Inr (rev (t2 # ts) @ [t1])" by simp
  moreover have "sublist t1 W" "sublist t2 W"
    using assms(2) sublist_right [of "concat (rev ts) @ t2" t1] sublist_parts [of "concat (rev ts)" t2 t1] by simp_all
  note text_newstring [OF assms(1) this(1)] text_newstring [OF assms(1) this(2)]
  ultimately show ?thesis
    using text_isstring [of E "newstring E t2"] by (simp add: concat_pass_def lret_def)
qed

lemma concat_loop_strings:
  assumes "interned E W" "length ts < n" "sublist (concat (rev (t1 # ts))) W" "ts \<noteq> []"
  shows "luaV_concat_loop E n (length ts + 1) (map (newstring E) (t1 # ts) @ vs) s =
    Inr (newstring E (concat (rev (t1 # ts))) # vs, s)"
  using assms(2-4)
proof (induction n arbitrary: t1 ts)
  case (Suc n)
  obtain t2 us where ts: "ts = t2 # us" using Suc.prems(3) by (cases ts) auto
  have p: "concat_pass E (length us + 2) (map (newstring E) (t1 # t2 # us) @ vs) s =
      Inr (if t1 = [] then (2, map (newstring E) (t2 # us) @ vs)
         else (length us + 2, newstring E (concat (rev (t1 # t2 # us))) # vs), s)"
    by (rule concat_pass_strings [OF assms(1)]) (use Suc.prems(2) ts in simp)
  show ?case
  proof (cases "t1 = [] \<and> us \<noteq> []")
    case True
    with Suc.IH [of us t2] Suc.prems ts have
      "luaV_concat_loop E n (length us + 1) (map (newstring E) (t2 # us) @ vs) s = Inr (newstring E (concat (rev (t2 # us))) # vs, s)"
      by simp
    with p True show ?thesis by (simp add: ts lbind_def)
  next
    case False
    with p show ?thesis by (auto simp: ts lbind_def lret_def)
  qed
qed simp

lemma lua_concat_strings:
  assumes "interned E W" "sublist (concat (rev ts)) W"
  shows "lua_concat E (length ts) (map (newstring E) ts @ vs) s = Inr (newstring E (concat (rev ts)) # vs, s)"
proof (cases ts rule: remdups_adj.cases)
  case (3 t1 t2 us)
  then show ?thesis
    using concat_loop_strings [OF assms(1), of "t2 # us" "length ts" t1 vs s] assms(2)
    by (simp add: lua_concat_def luaV_concat_def del: luaV_concat_loop.simps)
qed (simp_all add: lua_concat_def lret_def)

section \<open>Buffers\<close>

text \<open>
  The buffer holds the bytes \<open>b\<close> above the stack \<open>rest\<close>. It takes fewer than \<open>LIMIT\<close> slots.
\<close>

definition buf_ok :: "'s cenv \<Rightarrow> TValue list \<Rightarrow> byte list \<Rightarrow> luaL_Buffer \<Rightarrow> bool" where
  "buf_ok E rest b B \<longleftrightarrow> (\<exists>ts. bstk B = map (newstring E) ts @ rest \<and> lvl B = length ts
     \<and> b = concat (rev ts) @ bp B \<and> length (bp B) \<le> LUAL_BUFFERSIZE \<and> length ts < LIMIT)"

lemma adjust_loop_bounds:
  assumes "toget \<le> lv" "lv \<le> length vs + toget"
  shows "toget \<le> adjust_loop E lv vs toget n \<and> adjust_loop E lv vs toget n \<le> lv
    \<and> (adjust_loop E lv vs toget n = lv \<or> lv - adjust_loop E lv vs toget n + 1 < LIMIT)"
  using assms
proof (induction E lv vs toget n rule: adjust_loop.induct)
  case (2 E lv v vs toget n)
  show ?case
  proof (cases "toget < lv \<and> (lv - toget + 1 \<ge> LIMIT \<or> n > lua_strlen E v)")
    case True
    then have "toget + 1 \<le> lv" "lv \<le> length vs + (toget + 1)" using 2(2,3) by simp_all
    from 2(1) [OF True this] True show ?thesis by simp
  qed (use 2(2,3) in auto)
qed simp

lemma buf_eq: "B\<lparr>bp := x, bstk := y, lvl := z\<rparr> = B\<lparr>bp := x, lvl := z, bstk := y\<rparr>"
  "bp B = [] \<Longrightarrow> B\<lparr>bp := []\<rparr> = B" "B\<lparr>bstk := y, lvl := z\<rparr> = B\<lparr>lvl := z, bstk := y\<rparr>"
  by simp_all

lemma adjuststack_runs:
  assumes "interned E W" "bstk B = map (newstring E) ts @ rest" "lvl B = length ts"
    and "sublist (concat (rev ts)) W" "length (bp B) \<le> LUAL_BUFFERSIZE"
    and "\<And>B'. buf_ok E rest (concat (rev ts) @ bp B) B' \<Longrightarrow> bp B' = bp B \<Longrightarrow> Q B' s"
  shows "runs (adjuststack E B) s Q"
proof (cases ts rule: remdups_adj.cases)
  case (3 t1 t2 us)
  define k where "k = adjust_loop E (lvl B) (tl (bstk B)) 1 (lua_strlen E (hd (bstk B)))"
  have k: "1 \<le> k" "k \<le> length ts" "k = length ts \<or> length ts - k + 1 < LIMIT"
    using adjust_loop_bounds [of 1 "lvl B" "tl (bstk B)" E "lua_strlen E (hd (bstk B))"] assms(2,3) 3
    by (simp_all add: k_def)
  define us' where "us' = concat (rev (take k ts)) # drop k ts"
  have "concat (rev ts) = concat (rev (drop k ts)) @ concat (rev (take k ts))"
    by (metis append_take_drop_id concat_append rev_append)
  then have "sublist (concat (rev (take k ts))) W" using assms(4) sublist_right by metis
  then have "lua_concat E k (map (newstring E) (take k ts) @ map (newstring E) (drop k ts) @ rest) s
      = Inr (newstring E (concat (rev (take k ts))) # map (newstring E) (drop k ts) @ rest, s)"
    using lua_concat_strings [OF assms(1), of "take k ts"] k(2) by (simp add: min_absorb2)
  moreover have "bstk B = map (newstring E) (take k ts) @ map (newstring E) (drop k ts) @ rest"
    by (metis append_take_drop_id append.assoc assms(2) map_append)
  ultimately have "lua_concat E k (bstk B) s = Inr (map (newstring E) us' @ rest, s)" by (simp add: us'_def)
  moreover have "concat (rev us') = concat (rev ts)"
    unfolding us'_def by (metis append_take_drop_id concat.simps(2) concat_append concat.simps(1) append_Nil2 rev.simps(2) rev_append)
  moreover have "length us' = length ts - k + 1" "length us' < LIMIT"
    using k by (auto simp: us'_def LIMIT_def LUA_MINSTACK_def)
  ultimately have "buf_ok E rest (concat (rev ts) @ bp B) (B\<lparr>bstk := map (newstring E) us' @ rest, lvl := lvl B - k + 1\<rparr>)"
    and "adjuststack E B s = Inr (B\<lparr>bstk := map (newstring E) us' @ rest, lvl := lvl B - k + 1\<rparr>, s)"
    using assms(3,5) 3 unfolding adjuststack_def k_def [symmetric] buf_ok_def
    by (auto simp: lbind_def lret_def intro!: exI [of _ us'])
  then show ?thesis using assms(6) by (simp add: runs_def)
next
  case 1
  with assms have "buf_ok E rest (concat (rev ts) @ bp B) B"
    by (auto simp: buf_ok_def LIMIT_def LUA_MINSTACK_def)
  with assms(3,6) 1 show ?thesis by (simp add: adjuststack_def)
next
  case (2 t)
  with assms have "buf_ok E rest (concat (rev ts) @ bp B) B"
    by (auto simp: buf_ok_def LIMIT_def LUA_MINSTACK_def intro!: exI [of _ "[t]"])
  with assms(3,6) 2 show ?thesis by (simp add: adjuststack_def)
qed

lemma luaL_addchar_runs:
  assumes "interned E W" "buf_ok E rest b B" "sublist b W"
    and "\<And>B'. buf_ok E rest (b @ [c]) B' \<Longrightarrow> Q B' s"
  shows "runs (luaL_addchar E c B) s Q"
proof -
  obtain ts where B: "bstk B = map (newstring E) ts @ rest" "lvl B = length ts" "b = concat (rev ts) @ bp B"
    "length (bp B) \<le> LUAL_BUFFERSIZE" "length ts < LIMIT" using assms(2) by (auto simp: buf_ok_def)
  show ?thesis
  proof (cases "bufflen B < LUAL_BUFFERSIZE")
    case True
    then have "buf_ok E rest (b @ [c]) (B\<lparr>bp := bp B @ [c]\<rparr>)" using B by (auto simp: buf_ok_def bufflen_def)
    with assms(4) True show ?thesis by (simp add: luaL_addchar_def)
  next
    case False
    then have n: "bp B \<noteq> []" by (auto simp: bufflen_def LUAL_BUFFERSIZE_def)
    let ?B = "B\<lparr>bp := [], lvl := lvl B + 1, bstk := newstring E (bp B) # bstk B\<rparr>"
    have "runs (adjuststack E ?B) s (\<lambda>B s. Q (B\<lparr>bp := bp B @ [c]\<rparr>) s)"
    proof (rule adjuststack_runs [OF assms(1), of _ "bp B # ts"])
      fix B' assume B': "buf_ok E rest (concat (rev (bp B # ts)) @ bp ?B) B'" "bp B' = bp ?B"
      then have "buf_ok E rest (b @ [c]) (B'\<lparr>bp := bp B' @ [c]\<rparr>)"
        using B(3) by (auto simp: buf_ok_def LUAL_BUFFERSIZE_def)
      then show "Q (B'\<lparr>bp := bp B' @ [c]\<rparr>) s" by (rule assms(4))
    qed (use B assms(3) in simp_all)
    with False n show ?thesis by (simp add: luaL_addchar_def luaL_prepbuffer_def emptybuffer_def bufflen_def)
  qed
qed

lemma luaL_addlstring_runs:
  assumes "interned E W" "buf_ok E rest b B" "sublist (b @ t) W"
    and "\<And>B'. buf_ok E rest (b @ t) B' \<Longrightarrow> Q B' s"
  shows "runs (luaL_addlstring E t B) s Q"
  using assms(2-4)
proof (induction t arbitrary: b B)
  case (Cons c t)
  have "runs (luaL_addchar E c B) s (\<lambda>B s. runs (luaL_addlstring E t B) s Q)"
  proof (rule luaL_addchar_runs [OF assms(1) Cons.prems(1)])
    show "sublist b W" using Cons.prems(2) by (rule sublist_left)
  next
    fix B' assume "buf_ok E rest (b @ [c]) B'"
    then show "runs (luaL_addlstring E t B') s Q" using Cons.prems(2,3) by (intro Cons.IH) auto
  qed
  then show ?case by simp
qed simp

lemma luaL_addvalue_runs:
  assumes "interned E W" "buf_ok E rest b B" "sublist (b @ t) W" "text_of E v = Some t"
    and "\<And>B'. buf_ok E rest (b @ t) B' \<Longrightarrow> Q B' s"
  shows "runs (luaL_addvalue E (B\<lparr>bstk := v # bstk B\<rparr>)) s Q"
proof -
  obtain ts where B: "bstk B = map (newstring E) ts @ rest" "lvl B = length ts" "b = concat (rev ts) @ bp B"
    "length (bp B) \<le> LUAL_BUFFERSIZE" "length ts < LIMIT" using assms(2) by (auto simp: buf_ok_def)
  show ?thesis
  proof (cases "length t \<le> bufffree B")
    case True
    then have "buf_ok E rest (b @ t) (B\<lparr>bp := bp B @ t\<rparr>)" using B by (auto simp: buf_ok_def bufffree_def bufflen_def)
    with assms(4,5) True show ?thesis by (simp add: luaL_addvalue_def bufffree_def bufflen_def)
  next
    case False
    define us where "us = (if bp B = [] then ts else bp B # ts)"
    let ?B = "B\<lparr>bp := [], lvl := length us + 1, bstk := newstring E t # map (newstring E) us @ rest\<rparr>"
    have e: "luaL_addvalue E (B\<lparr>bstk := v # bstk B\<rparr>) = adjuststack E ?B"
      using False assms(4) B by (simp add: luaL_addvalue_def emptybuffer_def bufffree_def bufflen_def us_def Let_def buf_eq)
    have c: "concat (rev us) = b" using B(3) by (simp add: us_def)
    have "runs (adjuststack E ?B) s Q"
      by (intro adjuststack_runs [OF assms(1), of _ "t # us"]) (use assms(3,5) c in \<open>simp_all add: LUAL_BUFFERSIZE_def\<close>)
    then show ?thesis unfolding e .
  qed
qed

lemma luaL_pushresult_runs:
  assumes "interned E W" "buf_ok E rest b B" "sublist b W"
    and "\<And>B'. bstk B' = newstring E b # rest \<Longrightarrow> Q B' s"
  shows "runs (luaL_pushresult E B) s Q"
proof -
  obtain ts where B: "bstk B = map (newstring E) ts @ rest" "lvl B = length ts" "b = concat (rev ts) @ bp B"
    using assms(2) by (auto simp: buf_ok_def)
  define us where "us = (if bp B = [] then ts else bp B # ts)"
  have c: "concat (rev us) = b" using B(3) by (simp add: us_def)
  with lua_concat_strings [OF assms(1), of us rest s] assms(3) c
  have "lua_concat E (length us) (map (newstring E) us @ rest) s = Inr (newstring E b # rest, s)" by simp
  then have "luaL_pushresult E B s = Inr (B\<lparr>bp := [], bstk := newstring E b # rest, lvl := 1\<rparr>, s)"
    using B by (auto simp: luaL_pushresult_def emptybuffer_def bufflen_def us_def Let_def lbind_def lret_def split: if_splits)
  with assms(4) show ?thesis by (simp add: runs_def)
qed

section \<open>The text of a buffer\<close>

datatype buf_op = AddString "byte list" | AddValue TValue

fun op_text :: "'s cenv \<Rightarrow> buf_op \<Rightarrow> byte list" where
  "op_text E (AddString b) = b"
| "op_text E (AddValue v) = the (text_of E v)"

fun fill :: "'s cenv \<Rightarrow> buf_op list \<Rightarrow> luaL_Buffer \<Rightarrow> ('s, lerr, luaL_Buffer) action" where
  "fill E [] B = lret B"
| "fill E (AddString b # bs) B = lbind (luaL_addlstring E b B) (fill E bs)"
| "fill E (AddValue v # bs) B = lbind (luaL_addvalue E (B\<lparr>bstk := v # bstk B\<rparr>)) (fill E bs)"

lemma fill_runs:
  assumes "interned E W" "buf_ok E rest b B" "sublist (b @ concat (map (op_text E) bs)) W"
    and "\<forall>v. AddValue v \<in> set bs \<longrightarrow> text_of E v \<noteq> None"
    and "\<And>B'. buf_ok E rest (b @ concat (map (op_text E) bs)) B' \<Longrightarrow> Q B' s"
  shows "runs (fill E bs B) s Q"
  using assms(2-5)
proof (induction bs arbitrary: b B)
  case (Cons x bs)
  have IH: "runs (fill E bs B') s Q" if "buf_ok E rest (b @ op_text E x) B'" for B'
    by (rule Cons.IH [OF that]) (use Cons.prems(2-4) in auto)
  have l: "sublist (b @ op_text E x) W"
    using Cons.prems(2) sublist_left [of "b @ op_text E x" "concat (map (op_text E) bs)"] by simp
  show ?case
  proof (cases x)
    case (AddString t)
    have "runs (luaL_addlstring E t B) s (\<lambda>B s. runs (fill E bs B) s Q)"
      by (rule luaL_addlstring_runs [OF assms(1) Cons.prems(1)]) (use l IH AddString in auto)
    with AddString show ?thesis by simp
  next
    case (AddValue v)
    then obtain t where t: "text_of E v = Some t" using Cons.prems(3) by auto
    have "runs (luaL_addvalue E (B\<lparr>bstk := v # bstk B\<rparr>)) s (\<lambda>B s. runs (fill E bs B) s Q)"
      by (rule luaL_addvalue_runs [OF assms(1) Cons.prems(1) _ t]) (use l IH AddValue t in auto)
    with AddValue show ?thesis by simp
  qed
qed simp

lemma buffinit_ok: "buf_ok E stk [] (luaL_buffinit stk)"
  by (auto simp: buf_ok_def luaL_buffinit_def LIMIT_def LUA_MINSTACK_def)

text \<open>
  C36: a string buffer that is filled by any sequence of additions of strings and of values gives
  their concatenation, one string above the stack as it was; in between it occupies fewer than
  \<open>LIMIT\<close> stack slots.
\<close>

theorem buffer_concatenates:
  assumes "interned E (concat (map (op_text E) bs))"
    and "\<forall>v. AddValue v \<in> set bs \<longrightarrow> text_of E v \<noteq> None"
  shows "\<exists>B B'. fill E bs (luaL_buffinit stk) s = Inr (B, s) \<and> lvl B < LIMIT
    \<and> length (bstk B) = length stk + lvl B
    \<and> luaL_pushresult E B s = Inr (B', s) \<and> bstk B' = newstring E (concat (map (op_text E) bs)) # stk"
proof -
  let ?b = "concat (map (op_text E) bs)"
  have "runs (fill E bs (luaL_buffinit stk)) s (\<lambda>B s'. s' = s \<and> buf_ok E stk ?b B)"
    by (rule fill_runs [OF assms(1) buffinit_ok _ assms(2)]) simp_all
  then obtain B where B: "fill E bs (luaL_buffinit stk) s = Inr (B, s)" "buf_ok E stk ?b B" by (auto simp: runs_def)
  moreover have "runs (luaL_pushresult E B) s (\<lambda>B' s'. s' = s \<and> bstk B' = newstring E ?b # stk)"
    by (rule luaL_pushresult_runs [OF assms(1) B(2)]) simp_all
  ultimately show ?thesis by (auto simp: runs_def buf_ok_def)
qed

text \<open>An environment with the string objects of some byte strings.\<close>

definition sample_objects :: "byte list list" where
  "sample_objects = [[], [97], [98], [99], [97, 98], [98, 99], [97, 98, 99]]"

definition sample_cenv :: "unit cenv" where
  "sample_cenv = \<lparr>svalue = (\<lambda>p. sample_objects ! unat p), vlibc = \<lparr>strtod = (\<lambda>s. (0, 0)), strtoul = (\<lambda>s. (0, 0))\<rparr>,
     strcoll = strcmp, number2str = (\<lambda>n. [98]), call_orderTM = (\<lambda>e x y. lret None),
     intern = (\<lambda>b. word_of_nat (length (takeWhile (\<lambda>c. c \<noteq> b) sample_objects))), concatTM = (\<lambda>x y. lret None)\<rparr>"

lemma sample_interned: "interned sample_cenv [97, 98, 99]"
proof -
  have "b \<in> set sample_objects" if "sublist b [97, 98, 99]" for b
    using that by (auto simp: sample_objects_def sublist_Cons_right prefix_Cons)
  then show ?thesis by (auto simp: interned_def MAX_SIZET_def sample_cenv_def sample_objects_def)
qed

theorem buffer_concatenates_witness:
  "\<exists>B B'. fill sample_cenv [AddString [97], AddValue (LNumber 0), AddString [99]] (luaL_buffinit [LNil]) () = Inr (B, ())
    \<and> lvl B < LIMIT \<and> length (bstk B) = length [LNil] + lvl B
    \<and> luaL_pushresult sample_cenv B () = Inr (B', ()) \<and> bstk B' = [newstring sample_cenv [97, 98, 99], LNil]"
proof -
  have t: "text_of sample_cenv (LNumber 0) = Some [98]"
    by (simp add: text_of_def lua_tolstring_def luaV_tostring_def sample_cenv_def venv.defs c_text_def)
  show ?thesis
    using buffer_concatenates [of sample_cenv "[AddString [97], AddValue (LNumber 0), AddString [99]]" "[LNil]" "()"]
      sample_interned by (simp add: t)
qed

end
