(* ===== verification/Tablib.thy ===== *)
theory Tablib
  imports Auxlib
begin

text \<open>
  The table library (\<open>ltablib.c\<close>). A function gets the list of its arguments; the state is that of
  the table that is its first argument (and of what the callbacks of the program use). The record
  \<open>arr_ops\<close> has the operations of \<open>lapi.c\<close> that the library calls on that table; the theory
  \<open>Tablib_Props\<close> supplies those of the model of Lua tables. A callback is an action: it may change
  the state and may raise an error.

  A \<open>for\<close> loop over an interval recurses on the number of turns that are left. The other loops
  have fuel.
\<close>

section \<open>Interface\<close>

record 't arr_ops =
  op_getn :: "'t \<Rightarrow> lerr + int"
  op_geti :: "'t \<Rightarrow> int \<Rightarrow> lerr + TValue"
  op_seti :: "'t \<Rightarrow> int \<Rightarrow> TValue \<Rightarrow> lerr + 't"
  op_next :: "'t \<Rightarrow> TValue \<Rightarrow> lerr + (TValue \<times> TValue) option"

text \<open>\<open>lua_call\<close> of a function with its arguments, for one result.\<close>

type_synonym 't callback = "TValue \<Rightarrow> TValue list \<Rightarrow> ('t, lerr, TValue) action"

definition luaL_getn :: "('t, 'b) arr_ops_scheme \<Rightarrow> ('t, lerr, int) action" where
  "luaL_getn A = (\<lambda>t. case op_getn A t of Inl e \<Rightarrow> Inl e | Inr n \<Rightarrow> Inr (n, t))"

definition rawgeti :: "('t, 'b) arr_ops_scheme \<Rightarrow> int \<Rightarrow> ('t, lerr, TValue) action" where
  "rawgeti A i = (\<lambda>t. case op_geti A t i of Inl e \<Rightarrow> Inl e | Inr v \<Rightarrow> Inr (v, t))"

definition rawseti :: "('t, 'b) arr_ops_scheme \<Rightarrow> int \<Rightarrow> TValue \<Rightarrow> ('t, lerr, unit) action" where
  "rawseti A i v = (\<lambda>t. case op_seti A t i v of Inl e \<Rightarrow> Inl e | Inr t' \<Rightarrow> Inr ((), t'))"

definition lua_next :: "('t, 'b) arr_ops_scheme \<Rightarrow> TValue \<Rightarrow> ('t, lerr, (TValue \<times> TValue) option) action" where
  "lua_next A k = (\<lambda>t. case op_next A t k of Inl e \<Rightarrow> Inl e | Inr r \<Rightarrow> Inr (r, t))"

definition lerror :: "string \<Rightarrow> ('t, lerr, 'a) action" where
  "lerror msg = (\<lambda>t. Inl (LuaError msg))"

definition aux_getn :: "('t, 'b) arr_ops_scheme \<Rightarrow> args \<Rightarrow> ('t, lerr, int) action" where
  "aux_getn A a = lseq (luaL_checktype a 1 LUA_TTABLE) (luaL_getn A)"

section \<open>Iteration\<close>

text \<open>The results of a function are a list.\<close>

fun foreachi_loop ::
    "('t, 'b) arr_ops_scheme \<Rightarrow> 't callback \<Rightarrow> TValue \<Rightarrow> nat \<Rightarrow> int \<Rightarrow> ('t, lerr, TValue list) action" where
  "foreachi_loop A call f 0 i = lret []"
| "foreachi_loop A call f (Suc n) i =
     lbind (rawgeti A i) (\<lambda>v.
     lbind (call f [LNumber (cast_num i), v]) (\<lambda>r.
       if r \<noteq> LNil then lret [r] else foreachi_loop A call f n (i + 1)))"

definition foreachi :: "('t, 'b) arr_ops_scheme \<Rightarrow> 't callback \<Rightarrow> args \<Rightarrow> ('t, lerr, TValue list) action" where
  "foreachi A call a =
    lbind (aux_getn A a) (\<lambda>n.
    lseq (luaL_checktype a 2 LUA_TFUNCTION)
      (foreachi_loop A call (arg a 2) (nat n) 1))"

fun foreach_loop ::
    "('t, 'b) arr_ops_scheme \<Rightarrow> 't callback \<Rightarrow> TValue \<Rightarrow> nat \<Rightarrow> TValue \<Rightarrow> ('t, lerr, TValue list) action" where
  "foreach_loop A call f 0 key = (\<lambda>t. Inl LuaDiverge)"
| "foreach_loop A call f (Suc n) key =
     lbind (lua_next A key) (\<lambda>kv. case kv of
       None \<Rightarrow> lret []
     | Some (k, v) \<Rightarrow>
         lbind (call f [k, v]) (\<lambda>r. if r \<noteq> LNil then lret [r] else foreach_loop A call f n k))"

definition foreach ::
    "('t, 'b) arr_ops_scheme \<Rightarrow> 't callback \<Rightarrow> nat \<Rightarrow> args \<Rightarrow> ('t, lerr, TValue list) action" where
  "foreach A call fuel a =
    lseq (luaL_checktype a 1 LUA_TTABLE)
    (lseq (luaL_checktype a 2 LUA_TFUNCTION)
      (foreach_loop A call (arg a 2) fuel LNil))"

fun maxn_loop :: "('t, 'b) arr_ops_scheme \<Rightarrow> nat \<Rightarrow> TValue \<Rightarrow> lua_Number \<Rightarrow> ('t, lerr, lua_Number) action" where
  "maxn_loop A 0 key m = (\<lambda>t. Inl LuaDiverge)"
| "maxn_loop A (Suc n) key m =
     lbind (lua_next A key) (\<lambda>kv. case kv of
       None \<Rightarrow> lret m
     | Some (k, v) \<Rightarrow>
         maxn_loop A n k (case k of LNumber x \<Rightarrow> if luai_numlt m x then x else m | _ \<Rightarrow> m))"

definition maxn :: "('t, 'b) arr_ops_scheme \<Rightarrow> nat \<Rightarrow> args \<Rightarrow> ('t, lerr, TValue list) action" where
  "maxn A fuel a =
    lseq (luaL_checktype a 1 LUA_TTABLE)
      (lbind (maxn_loop A fuel LNil (cast_num 0)) (\<lambda>m. lret [LNumber m]))"

definition getn :: "('t, 'b) arr_ops_scheme \<Rightarrow> args \<Rightarrow> ('t, lerr, TValue list) action" where
  "getn A a = lbind (aux_getn A a) (\<lambda>n. lret [LNumber (cast_num n)])"

text \<open>\<open>luaL_setn\<close> is a macro.\<close>

definition setn :: "args \<Rightarrow> ('t, lerr, TValue list) action" where
  "setn a = lseq (luaL_checktype a 1 LUA_TTABLE) (lerror ([CHR 0x27] @ ''setn'' @ [CHR 0x27] @ '' is obsolete''))"

section \<open>Insertion, removal, concatenation\<close>

text \<open>\<open>t[i] = t[i-1]\<close>, for \<open>n\<close> indices down from \<open>i\<close>.\<close>

fun move_up :: "('t, 'b) arr_ops_scheme \<Rightarrow> nat \<Rightarrow> int \<Rightarrow> ('t, lerr, unit) action" where
  "move_up A 0 i = lret ()"
| "move_up A (Suc n) i = lbind (rawgeti A (i - 1)) (\<lambda>v. lseq (rawseti A i v) (move_up A n (i - 1)))"

definition tinsert :: "('t, 'b) arr_ops_scheme \<Rightarrow> 't venv \<Rightarrow> args \<Rightarrow> ('t, lerr, TValue list) action" where
  "tinsert A E a =
    lbind (aux_getn A a) (\<lambda>n.
      let e = n + 1 in
      if length a = 2 then lseq (rawseti A e (arg a 2)) (lret [])
      else if length a = 3 then
        lbind (luaL_checkint E a 2) (\<lambda>pos.
          let e = (if pos > e then pos else e) in
          lseq (move_up A (nat (e - pos)) e) (lseq (rawseti A pos (arg a 3)) (lret [])))
      else lerror (''wrong number of arguments to '' @ [CHR 0x27] @ ''insert'' @ [CHR 0x27]))"

text \<open>\<open>t[pos] = t[pos+1]\<close>, for \<open>n\<close> indices up from \<open>pos\<close>.\<close>

fun move_down :: "('t, 'b) arr_ops_scheme \<Rightarrow> nat \<Rightarrow> int \<Rightarrow> ('t, lerr, unit) action" where
  "move_down A 0 pos = lret ()"
| "move_down A (Suc n) pos =
     lbind (rawgeti A (pos + 1)) (\<lambda>v. lseq (rawseti A pos v) (move_down A n (pos + 1)))"

definition tremove :: "('t, 'b) arr_ops_scheme \<Rightarrow> 't venv \<Rightarrow> args \<Rightarrow> ('t, lerr, TValue list) action" where
  "tremove A E a =
    lbind (aux_getn A a) (\<lambda>e.
    lbind (luaL_optint E a 2 e) (\<lambda>pos.
      if \<not> (1 \<le> pos \<and> pos \<le> e) then lret []
      else
        lbind (rawgeti A pos) (\<lambda>r.
        lseq (move_down A (nat (e - pos)) pos)
        (lseq (rawseti A e LNil)
        (lret [r])))))"

text \<open>The buffer is the bytes that it holds. A number is written in decimal.\<close>

fun nat_text :: "nat \<Rightarrow> string" where
  "nat_text n = (if n < 10 then [char_of (48 + n)] else nat_text (n div 10) @ [char_of (48 + n mod 10)])"

declare nat_text.simps [simp del]

definition int_text :: "int \<Rightarrow> string" where
  "int_text i = (if i < 0 then CHR ''-'' # nat_text (nat (- i)) else nat_text (nat i))"

definition addfield ::
    "('t, 'b) arr_ops_scheme \<Rightarrow> 't venv \<Rightarrow> byte list \<Rightarrow> int \<Rightarrow> ('t, lerr, byte list) action" where
  "addfield A E b i = lbind (rawgeti A i) (\<lambda>v.
     if \<not> lua_isstring v then
       lerror (''invalid value ('' @ lua_typename (int (ttype v)) @ '') at index '' @ int_text i
         @ '' in table for '' @ [CHR 0x27] @ ''concat'' @ [CHR 0x27])
     else lret (b @ the (lua_tolstring E v)))"

fun concat_loop ::
    "('t, 'b) arr_ops_scheme \<Rightarrow> 't venv \<Rightarrow> byte list \<Rightarrow> nat \<Rightarrow> int \<Rightarrow> byte list \<Rightarrow> ('t, lerr, byte list) action" where
  "concat_loop A E sep 0 i b = lret b"
| "concat_loop A E sep (Suc n) i b =
     lbind (addfield A E b i) (\<lambda>b. concat_loop A E sep n (i + 1) (b @ sep))"

definition tconcat :: "('t, 'b) arr_ops_scheme \<Rightarrow> 't venv \<Rightarrow> args \<Rightarrow> ('t, lerr, byte list) action" where
  "tconcat A E a =
    lbind (luaL_optlstring E a 2 []) (\<lambda>sep.
    lseq (luaL_checktype a 1 LUA_TTABLE)
    (lbind (luaL_optint E a 3 1) (\<lambda>i.
    lbind (if lua_isnoneornil a 4 then luaL_getn A else luaL_checkint E a 4) (\<lambda>last.
    lbind (concat_loop A E sep (nat (last - i)) i []) (\<lambda>b.
      if i \<le> last then addfield A E b last else lret b)))))"

section \<open>Quicksort\<close>

type_synonym 't comp = "TValue \<Rightarrow> TValue \<Rightarrow> ('t, lerr, bool) action"

text \<open>\<open>x\<close> is on the top of the stack and \<open>y\<close> below it.\<close>

definition set2 :: "('t, 'b) arr_ops_scheme \<Rightarrow> int \<Rightarrow> int \<Rightarrow> TValue \<Rightarrow> TValue \<Rightarrow> ('t, lerr, unit) action" where
  "set2 A i j x y = lseq (rawseti A i x) (rawseti A j y)"

definition sort_comp :: "'t venv \<Rightarrow> 't callback \<Rightarrow> TValue \<Rightarrow> 't comp" where
  "sort_comp E call f a b =
    (if f \<noteq> LNil then lbind (call f [a, b]) (\<lambda>res. lret (\<not> l_isfalse res))
     else luaV_lessthan E a b)"

definition invalid_order :: "('t, lerr, 'a) action" where
  "invalid_order = lerror ''invalid order function for sorting''"

text \<open>The element at which the scan stops stays on the stack.\<close>

fun scan_up ::
    "('t, 'b) arr_ops_scheme \<Rightarrow> 't comp \<Rightarrow> nat \<Rightarrow> TValue \<Rightarrow> int \<Rightarrow> int \<Rightarrow> ('t, lerr, int \<times> TValue) action" where
  "scan_up A lt 0 P u i = (\<lambda>t. Inl LuaDiverge)"
| "scan_up A lt (Suc n) P u i =
    (let i = i + 1 in
     lbind (rawgeti A i) (\<lambda>x.
     lbind (lt x P) (\<lambda>c.
       if c then (if i > u then invalid_order else scan_up A lt n P u i)
       else lret (i, x))))"

fun scan_down ::
    "('t, 'b) arr_ops_scheme \<Rightarrow> 't comp \<Rightarrow> nat \<Rightarrow> TValue \<Rightarrow> int \<Rightarrow> int \<Rightarrow> ('t, lerr, int \<times> TValue) action" where
  "scan_down A lt 0 P l j = (\<lambda>t. Inl LuaDiverge)"
| "scan_down A lt (Suc n) P l j =
    (let j = j - 1 in
     lbind (rawgeti A j) (\<lambda>x.
     lbind (lt P x) (\<lambda>c.
       if c then (if j < l then invalid_order else scan_down A lt n P l j)
       else lret (j, x))))"

text \<open>The scans are bounded by their own error; their fuel is never used up.\<close>

fun partition_loop ::
    "('t, 'b) arr_ops_scheme \<Rightarrow> 't comp \<Rightarrow> nat \<Rightarrow> TValue \<Rightarrow> int \<Rightarrow> int \<Rightarrow> int \<Rightarrow> int \<Rightarrow> ('t, lerr, int) action" where
  "partition_loop A lt 0 P l u i j = (\<lambda>t. Inl LuaDiverge)"
| "partition_loop A lt (Suc n) P l u i j =
     lbind (scan_up A lt (nat (u - i) + 2) P u i) (\<lambda>(i, x).
     lbind (scan_down A lt (nat (j - l) + 2) P l j) (\<lambda>(j, y).
       if j < i then lret i
       else lseq (set2 A i j y x) (partition_loop A lt n P l u i j)))"

text \<open>The first part of the loop body: \<open>a[l]\<close>, \<open>a[(l+u)/2]\<close> and \<open>a[u]\<close> are put in order.\<close>

definition sort_ends :: "('t, 'b) arr_ops_scheme \<Rightarrow> 't comp \<Rightarrow> int \<Rightarrow> int \<Rightarrow> ('t, lerr, unit) action" where
  "sort_ends A lt l u =
    lbind (rawgeti A l) (\<lambda>x. lbind (rawgeti A u) (\<lambda>y.
    lbind (lt y x) (\<lambda>c. if c then set2 A l u y x else lret ())))"

definition sort_middle :: "('t, 'b) arr_ops_scheme \<Rightarrow> 't comp \<Rightarrow> int \<Rightarrow> int \<Rightarrow> int \<Rightarrow> ('t, lerr, unit) action" where
  "sort_middle A lt l i u =
    lbind (rawgeti A i) (\<lambda>x. lbind (rawgeti A l) (\<lambda>y.
    lbind (lt x y) (\<lambda>c.
      if c then set2 A i l y x
      else lbind (rawgeti A u) (\<lambda>y.
        lbind (lt y x) (\<lambda>c. if c then set2 A i u y x else lret ())))))"

text \<open>The pivot goes to \<open>u-1\<close>, the rest is partitioned, and the pivot goes to its place.\<close>

definition sort_partition :: "('t, 'b) arr_ops_scheme \<Rightarrow> 't comp \<Rightarrow> int \<Rightarrow> int \<Rightarrow> int \<Rightarrow> ('t, lerr, int) action" where
  "sort_partition A lt l i u =
    lbind (rawgeti A i) (\<lambda>P. lbind (rawgeti A (u - 1)) (\<lambda>x.
    lseq (set2 A i (u - 1) x P)
    (lbind (partition_loop A lt (nat (u - l) + 2) P l u l (u - 1)) (\<lambda>i.
    lbind (rawgeti A (u - 1)) (\<lambda>x. lbind (rawgeti A i) (\<lambda>y.
    lseq (set2 A (u - 1) i y x) (lret i)))))))"

fun auxsort :: "('t, 'b) arr_ops_scheme \<Rightarrow> 't comp \<Rightarrow> nat \<Rightarrow> int \<Rightarrow> int \<Rightarrow> ('t, lerr, unit) action" where
  "auxsort A lt 0 l u = (\<lambda>t. Inl LuaDiverge)"
| "auxsort A lt (Suc n) l u =
    (if l < u then
       lseq (sort_ends A lt l u)
       (if u - l = 1 then lret ()
        else let i = (l + u) div 2 in
          lseq (sort_middle A lt l i u)
          (if u - l = 2 then lret ()
           else lbind (sort_partition A lt l i u) (\<lambda>i.
             if i - l < u - i
             then lseq (auxsort A lt n l (i - 1)) (auxsort A lt n (i + 1) u)
             else lseq (auxsort A lt n (i + 1) u) (auxsort A lt n l (i - 1)))))
     else lret ())"

definition tsort ::
    "('t, 'b) arr_ops_scheme \<Rightarrow> 't venv \<Rightarrow> 't callback \<Rightarrow> nat \<Rightarrow> args \<Rightarrow> ('t, lerr, TValue list) action" where
  "tsort A E call fuel a =
    lbind (aux_getn A a) (\<lambda>n.
    lseq (if \<not> lua_isnoneornil a 2 then luaL_checktype a 2 LUA_TFUNCTION else lret ())
    (lseq (auxsort A (sort_comp E call (arg a 2)) fuel 1 n) (lret [])))"

end
