(* ===== verification/Tablib_Sort.thy ===== *)
theory Tablib_Sort
  imports Tablib "HOL-Library.Multiset"
begin

text \<open>
  The interface between the table library and the tables, and the correctness of the quicksort
  over it, stated with \<open>runs\<close>: the sort returns, and its result and the new state satisfy a
  postcondition.
\<close>

section \<open>Rearranged arrays\<close>

text \<open>The arrays agree outside the interval and have the same elements in it.\<close>

definition same :: "int \<Rightarrow> int \<Rightarrow> (int \<Rightarrow> 'v) \<Rightarrow> (int \<Rightarrow> 'v) \<Rightarrow> bool" where
  "same l u a b \<longleftrightarrow> (\<forall>m. m \<notin> {l..u} \<longrightarrow> a m = b m)
     \<and> image_mset a (mset_set {l..u}) = image_mset b (mset_set {l..u})"

lemma same_refl [simp]: "same l u a a"
  by (simp add: same_def)

lemma same_sym: "same l u a b \<Longrightarrow> same l u b a"
  by (auto simp: same_def)

lemma same_trans: "same l u a b \<Longrightarrow> same l u b c \<Longrightarrow> same l u a c"
  by (simp add: same_def)

lemma same_wider:
  assumes "same l' u' a b" "l \<le> l'" "u' \<le> u"
  shows "same l u a b"
proof -
  have s: "{l..u} = {l'..u'} \<union> ({l..u} - {l'..u'})" using assms(2,3) by auto
  have "mset_set {l..u} = mset_set {l'..u'} + mset_set ({l..u} - {l'..u'})"
    by (subst s, rule mset_set_Union) auto
  moreover have "image_mset a (mset_set ({l..u} - {l'..u'})) = image_mset b (mset_set ({l..u} - {l'..u'}))"
    using assms(1) by (intro image_mset_cong) (auto simp: same_def)
  ultimately show ?thesis using assms by (auto simp: same_def)
qed

lemma same_swap:
  assumes "i \<in> {l..u}" "j \<in> {l..u}"
  shows "same l u a (a(i := a j, j := a i))"
proof (cases "i = j")
  case False
  let ?R = "{l..u} - {i, j}" and ?b = "a(i := a j, j := a i)"
  have m: "mset_set {l..u} = add_mset i (add_mset j (mset_set ?R))"
  proof -
    have "{l..u} = insert i (insert j ?R)" using assms by auto
    then show ?thesis using False by (metis Diff_iff finite_Diff finite_atLeastAtMost_int finite_insert
        insert_iff mset_set.insert)
  qed
  have "image_mset ?b (mset_set ?R) = image_mset a (mset_set ?R)"
    by (intro image_mset_cong) auto
  then show ?thesis using False assms by (auto simp: same_def m)
qed simp

lemma same_image: "same l u a b \<Longrightarrow> a ` {l..u} = b ` {l..u}"
proof -
  assume "same l u a b"
  then have "set_mset (image_mset a (mset_set {l..u})) = set_mset (image_mset b (mset_set {l..u}))"
    by (simp add: same_def)
  then show ?thesis by simp
qed

lemma same_all: "same l u a b \<Longrightarrow> (\<forall>m. l \<le> m \<longrightarrow> m \<le> u \<longrightarrow> P (a m)) \<longleftrightarrow> (\<forall>m. l \<le> m \<longrightarrow> m \<le> u \<longrightarrow> P (b m))"
proof -
  assume "same l u a b"
  from same_image [OF this] have "(\<forall>x \<in> a ` {l..u}. P x) \<longleftrightarrow> (\<forall>x \<in> b ` {l..u}. P x)" by simp
  then show ?thesis by auto
qed

lemma same_outside: "same l u a b \<Longrightarrow> m < l \<or> u < m \<Longrightarrow> b m = a m"
  by (auto simp: same_def)

section \<open>The interface\<close>

text \<open>
  What the library relies on: reading and writing an index is that of a function from integers to
  values, a write over a value that is not nil does not fail, and the length is a border.
\<close>

definition is_int :: "int \<Rightarrow> bool" where "is_int i \<longleftrightarrow> INT_MIN \<le> i \<and> i \<le> INT_MAX"

locale raw_array =
  fixes inv :: "'t \<Rightarrow> bool"
    and A :: "('t, 'b) arr_ops_scheme"
    and elem :: "'t \<Rightarrow> int \<Rightarrow> TValue"
  assumes get_law: "inv t \<Longrightarrow> is_int i \<Longrightarrow> op_geti A t i = Inr (elem t i)"
    and set_law: "inv t \<Longrightarrow> is_int i \<Longrightarrow> op_seti A t i v = Inr t' \<Longrightarrow> inv t' \<and> elem t' = (elem t)(i := v)"
    and set_present: "inv t \<Longrightarrow> is_int i \<Longrightarrow> elem t i \<noteq> LNil \<Longrightarrow> \<exists>t'. op_seti A t i v = Inr t'"
    and getn_law: "inv t \<Longrightarrow> \<exists>n. op_getn A t = Inr n \<and> 0 \<le> n \<and> n < INT_MAX
      \<and> (n = 0 \<or> elem t n \<noteq> LNil) \<and> elem t (n + 1) = LNil"
begin

lemma runs_rawgeti [simp]: "inv t \<Longrightarrow> is_int i \<Longrightarrow> runs (rawgeti A i) t Q \<longleftrightarrow> Q (elem t i) t"
  by (simp add: rawgeti_def runs_def get_law)

lemma runs_rawseti:
  assumes "inv t" "is_int i" "elem t i \<noteq> LNil"
    "\<And>t'. inv t' \<Longrightarrow> elem t' = (elem t)(i := v) \<Longrightarrow> Q () t'"
  shows "runs (rawseti A i v) t Q"
proof -
  obtain t' where "op_seti A t i v = Inr t'" using set_present [OF assms(1-3)] by blast
  with set_law [OF assms(1,2) this] assms(4) show ?thesis by (simp add: rawseti_def runs_def)
qed

lemma runs_swap:
  assumes "inv t" "is_int i" "is_int j" "elem t i \<noteq> LNil" "elem t j \<noteq> LNil" "x = elem t j" "y = elem t i"
    "\<And>t'. inv t' \<Longrightarrow> elem t' = (elem t)(i := elem t j, j := elem t i) \<Longrightarrow> Q () t'"
  shows "runs (set2 A i j x y) t Q"
  unfolding set2_def runs_lseq
proof (rule runs_rawseti [OF assms(1,2,4)])
  fix t1 assume 1: "inv t1" "elem t1 = (elem t)(i := x)"
  show "runs (rawseti A j y) t1 Q"
  proof (rule runs_rawseti [OF 1(1) assms(3)])
    show "elem t1 j \<noteq> LNil" using 1(2) assms(5,6) by simp
  next
    fix t' assume "inv t'" "elem t' = (elem t1)(j := y)"
    with 1 assms(6,7) show "Q () t'" by (intro assms(8)) simp_all
  qed
qed

end

text \<open>An order function that has no effect and is a strict weak order on the values.\<close>

locale sorting = raw_array inv A elem
  for inv :: "'t \<Rightarrow> bool" and A :: "('t, 'b) arr_ops_scheme" and elem :: "'t \<Rightarrow> int \<Rightarrow> TValue" +
  fixes lt :: "'t comp"
    and S :: "TValue set"
    and before :: "TValue \<Rightarrow> TValue \<Rightarrow> bool"
  assumes lt_law: "x \<in> S \<Longrightarrow> y \<in> S \<Longrightarrow> lt x y t = Inr (before x y, t)"
    and irrefl: "x \<in> S \<Longrightarrow> \<not> before x x"
    and trans: "x \<in> S \<Longrightarrow> y \<in> S \<Longrightarrow> z \<in> S \<Longrightarrow> before x y \<Longrightarrow> before y z \<Longrightarrow> before x z"
    and neg_trans: "x \<in> S \<Longrightarrow> y \<in> S \<Longrightarrow> z \<in> S \<Longrightarrow> \<not> before x y \<Longrightarrow> \<not> before y z \<Longrightarrow> \<not> before x z"
    and no_nil: "LNil \<notin> S"
begin

lemma asym: "x \<in> S \<Longrightarrow> y \<in> S \<Longrightarrow> before x y \<Longrightarrow> \<not> before y x"
  using trans irrefl by blast

lemma runs_lt [simp]: "x \<in> S \<Longrightarrow> y \<in> S \<Longrightarrow> runs (lt x y) t Q \<longleftrightarrow> Q (before x y) t"
  by (simp add: runs_def lt_law)

text \<open>The elements of the interval are values of the order.\<close>

definition seg :: "int \<Rightarrow> int \<Rightarrow> (int \<Rightarrow> TValue) \<Rightarrow> bool" where
  "seg l u a \<longleftrightarrow> (\<forall>m. l \<le> m \<longrightarrow> m \<le> u \<longrightarrow> a m \<in> S)"

lemma segD: "seg l u a \<Longrightarrow> l \<le> m \<Longrightarrow> m \<le> u \<Longrightarrow> a m \<in> S"
  by (simp add: seg_def)

lemma seg_nil: "seg l u a \<Longrightarrow> l \<le> m \<Longrightarrow> m \<le> u \<Longrightarrow> a m \<noteq> LNil"
  using segD no_nil by metis

lemma seg_same: "same l u a b \<Longrightarrow> seg l u a \<Longrightarrow> seg l u b"
  unfolding seg_def using same_all [of l u a b "\<lambda>x. x \<in> S"] by simp

lemma seg_sub: "seg l u a \<Longrightarrow> l \<le> l' \<Longrightarrow> u' \<le> u \<Longrightarrow> seg l' u' a"
  by (simp add: seg_def)

lemma scan_up_runs:
  assumes "inv t" "P \<in> S" "i < k" "k \<le> u" "\<not> before (elem t k) P" "\<And>m. i < m \<Longrightarrow> m \<le> k \<Longrightarrow> elem t m \<in> S \<and> is_int m"
    and "nat (k - i) \<le> n"
    and "\<And>i'. i < i' \<Longrightarrow> i' \<le> k \<Longrightarrow> \<not> before (elem t i') P \<Longrightarrow> (\<forall>m. i < m \<longrightarrow> m < i' \<longrightarrow> before (elem t m) P)
      \<Longrightarrow> Q (i', elem t i') t"
  shows "runs (scan_up A lt n P u i) t Q"
  using assms(3,6-)
proof (induction n arbitrary: i)
  case (Suc n)
  have e: "elem t (i + 1) \<in> S" "is_int (i + 1)" using Suc.prems(1,2) by simp_all
  show ?case
  proof (cases "before (elem t (i + 1)) P")
    case True
    then have "i + 1 < k" using Suc.prems(1) assms(5) by (metis add1_zle_eq zle_add1_eq_le order_le_less)
    then have "runs (scan_up A lt n P u (i + 1)) t Q"
    proof (rule Suc.IH)
      fix i' assume i': "i + 1 < i'" "i' \<le> k" "\<not> before (elem t i') P"
        "\<forall>m. i + 1 < m \<longrightarrow> m < i' \<longrightarrow> before (elem t m) P"
      have "before (elem t m) P" if "i < m" "m < i'" for m
        using that True i'(4) by (cases "m = i + 1") simp_all
      with i' show "Q (i', elem t i') t" by (intro Suc.prems(4)) simp_all
    qed (use Suc.prems in auto)
    with True e assms(1,2,4) \<open>i + 1 < k\<close> show ?thesis by (simp add: Let_def)
  next
    case False
    with e assms(1,2) Suc.prems(1) Suc.prems(4) [of "i + 1"] show ?thesis by (simp add: Let_def)
  qed
qed simp

lemma scan_down_runs:
  assumes "inv t" "P \<in> S" "k < j" "l \<le> k" "\<not> before P (elem t k)" "\<And>m. k \<le> m \<Longrightarrow> m < j \<Longrightarrow> elem t m \<in> S \<and> is_int m"
    and "nat (j - k) \<le> n"
    and "\<And>j'. k \<le> j' \<Longrightarrow> j' < j \<Longrightarrow> \<not> before P (elem t j') \<Longrightarrow> (\<forall>m. j' < m \<longrightarrow> m < j \<longrightarrow> before P (elem t m))
      \<Longrightarrow> Q (j', elem t j') t"
  shows "runs (scan_down A lt n P l j) t Q"
  using assms(3,6-)
proof (induction n arbitrary: j)
  case (Suc n)
  have e: "elem t (j - 1) \<in> S" "is_int (j - 1)" using Suc.prems(1,2) by simp_all
  show ?case
  proof (cases "before P (elem t (j - 1))")
    case True
    then have "k < j - 1" using Suc.prems(1) assms(5) by (metis linorder_not_less not_less_iff_gr_or_eq zle_diff1_eq)
    then have "runs (scan_down A lt n P l (j - 1)) t Q"
    proof (rule Suc.IH)
      fix j' assume j': "k \<le> j'" "j' < j - 1" "\<not> before P (elem t j')"
        "\<forall>m. j' < m \<longrightarrow> m < j - 1 \<longrightarrow> before P (elem t m)"
      have "before P (elem t m)" if "j' < m" "m < j" for m
        using that True j'(4) by (cases "m = j - 1") simp_all
      with j' show "Q (j', elem t j') t" by (intro Suc.prems(4)) simp_all
    qed (use Suc.prems in auto)
    with True e assms(1,2,4) \<open>k < j - 1\<close> show ?thesis by (simp add: Let_def)
  next
    case False
    with e assms(1,2) Suc.prems(1) Suc.prems(4) [of "j - 1"] show ?thesis by (simp add: Let_def)
  qed
qed simp

text \<open>The invariant of the source: \<open>a[l..i] <= P <= a[j..u]\<close>.\<close>

definition split_at :: "int \<Rightarrow> int \<Rightarrow> TValue \<Rightarrow> int \<Rightarrow> int \<Rightarrow> (int \<Rightarrow> TValue) \<Rightarrow> bool" where
  "split_at l u P i j a \<longleftrightarrow> (\<forall>m. l \<le> m \<longrightarrow> m \<le> i \<longrightarrow> \<not> before P (a m)) \<and> (\<forall>m. j \<le> m \<longrightarrow> m \<le> u \<longrightarrow> \<not> before (a m) P)"

lemma partition_runs:
  assumes "is_int l" "is_int u" "P \<in> S"
    and "inv t" "seg l u (elem t)" "split_at l u P i j (elem t)"
    and "l \<le> i" "i \<le> u - 2" "l < j" "j \<le> u - 1" "i \<le> j" "nat (u - i) \<le> n"
    and "\<And>t' i'. inv t' \<Longrightarrow> same l u (elem t) (elem t') \<Longrightarrow> elem t' (u - 1) = elem t (u - 1)
      \<Longrightarrow> l < i' \<Longrightarrow> i' \<le> u - 1 \<Longrightarrow> split_at l u P (i' - 1) i' (elem t') \<Longrightarrow> Q i' t'"
  shows "runs (partition_loop A lt n P l u i j) t Q"
  using assms(4-)
proof (induction n arbitrary: t i j)
  case (Suc n)
  note inv = Suc.prems(1) and seg = Suc.prems(2) and sp = Suc.prems(3)
  note b = Suc.prems(4-8)
  let ?a = "elem t"
  have int: "is_int m" if "l \<le> m" "m \<le> u" for m
    using that assms(1,2) by (simp add: is_int_def)
  have top: "\<not> before (?a (u - 1)) P" using sp b by (simp add: split_at_def)
  have bot: "\<not> before P (?a l)" using sp b by (simp add: split_at_def)
  show ?case
    unfolding partition_loop.simps runs_lbind
  proof (rule scan_up_runs [OF inv assms(3) _ _ top])
    fix i' assume i': "i < i'" "i' \<le> u - 1" "\<not> before (?a i') P" "\<forall>m. i < m \<longrightarrow> m < i' \<longrightarrow> before (?a m) P"
    show "runs (case (i', ?a i') of (i, x) \<Rightarrow>
        lbind (scan_down A lt (nat (j - l) + 2) P l j) (\<lambda>(j, y).
          if j < i then lret i else lseq (set2 A i j y x) (partition_loop A lt n P l u i j))) t Q"
      unfolding prod.case runs_lbind
    proof (rule scan_down_runs [OF inv assms(3) _ _ bot])
      fix j' assume j': "l \<le> j'" "j' < j" "\<not> before P (?a j')" "\<forall>m. j' < m \<longrightarrow> m < j \<longrightarrow> before P (?a m)"
      have low: "\<not> before P (?a m)" if "l \<le> m" "m < i'" for m
      proof (cases "m \<le> i")
        case False
        with i'(4) that have "before (?a m) P" by simp
        with asym [OF segD [OF seg] assms(3)] that i'(2) show ?thesis by simp
      qed (use sp that in \<open>simp add: split_at_def\<close>)
      have high: "\<not> before (?a m) P" if "j' < m" "m \<le> u" for m
      proof (cases "j \<le> m")
        case False
        with j'(4) that have "before P (?a m)" by simp
        with asym [OF assms(3) segD [OF seg]] that j'(1) show ?thesis by simp
      qed (use sp that in \<open>simp add: split_at_def\<close>)
      show "runs (case (j', ?a j') of (j, y) \<Rightarrow>
          if j < i' then lret i' else lseq (set2 A i' j y (?a i')) (partition_loop A lt n P l u i' j)) t Q"
      proof (cases "j' < i'")
        case True
        have "split_at l u P (i' - 1) i' ?a"
          using low high True by (auto simp: split_at_def)
        with True i' b inv show ?thesis by (simp add: Suc.prems(10))
      next
        case False
        have "runs (set2 A i' j' (?a j') (?a i')) t (\<lambda>x s. runs (partition_loop A lt n P l u i' j') s Q)"
        proof (rule runs_swap [OF inv])
          fix t1 assume t1: "inv t1" "elem t1 = ?a(i' := ?a j', j' := ?a i')"
          have sm: "same l u ?a (elem t1)"
            unfolding t1(2) using i' j' b False by (intro same_swap) simp_all
          show "runs (partition_loop A lt n P l u i' j') t1 Q"
          proof (rule Suc.IH [OF t1(1) seg_same [OF sm seg]])
            show "split_at l u P i' j' (elem t1)"
              using low high i'(3) j'(3) False by (auto simp: split_at_def t1(2))
          next
            fix t' k assume k: "inv t'" "same l u (elem t1) (elem t')" "elem t' (u - 1) = elem t1 (u - 1)"
              "l < k" "k \<le> u - 1" "split_at l u P (k - 1) k (elem t')"
            have "elem t1 (u - 1) = ?a (u - 1)" using False i' j' b by (simp add: t1(2))
            with k same_trans [OF sm k(2)] show "Q k t'" by (intro Suc.prems(10)) simp_all
          qed (use i' j' b False Suc.prems(9) in auto)
        qed (use i' j' b seg_nil [OF seg] int in auto)
        with False show ?thesis by simp
      qed
    qed (use b int segD [OF seg] in auto)
  qed (use b int segD [OF seg] in auto)
qed simp

text \<open>In order: no element is less than one before it.\<close>

definition in_order :: "int \<Rightarrow> int \<Rightarrow> (int \<Rightarrow> TValue) \<Rightarrow> bool" where
  "in_order l u a \<longleftrightarrow> (\<forall>i j. l \<le> i \<longrightarrow> i \<le> j \<longrightarrow> j \<le> u \<longrightarrow> \<not> before (a j) (a i))"

lemma sort_ends_runs:
  assumes "inv t" "is_int l" "is_int u" "l < u" "seg l u (elem t)"
    and "\<And>t'. inv t' \<Longrightarrow> same l u (elem t) (elem t') \<Longrightarrow> \<not> before (elem t' u) (elem t' l) \<Longrightarrow> Q () t'"
  shows "runs (sort_ends A lt l u) t Q"
proof -
  have e: "elem t l \<in> S" "elem t u \<in> S" using assms(4,5) by (simp_all add: seg_def)
  show ?thesis
  proof (cases "before (elem t u) (elem t l)")
    case True
    have "runs (set2 A l u (elem t u) (elem t l)) t Q"
    proof (rule runs_swap [OF assms(1-3)])
      fix t' assume t': "inv t'" "elem t' = (elem t)(l := elem t u, u := elem t l)"
      then have "same l u (elem t) (elem t')" using assms(4) by (auto intro: same_swap)
      with t' asym [OF e(2,1) True] assms(4) show "Q () t'" by (intro assms(6)) simp_all
    qed (use e no_nil in auto)
    with True assms(1-3) e show ?thesis by (simp add: sort_ends_def)
  next
    case False
    with assms e show ?thesis by (simp add: sort_ends_def)
  qed
qed

lemma sort_middle_runs:
  assumes "inv t" "is_int l" "is_int u" "l < i" "i < u" "seg l u (elem t)" "\<not> before (elem t u) (elem t l)"
    and "\<And>t'. inv t' \<Longrightarrow> same l u (elem t) (elem t') \<Longrightarrow> \<not> before (elem t' i) (elem t' l)
      \<Longrightarrow> \<not> before (elem t' u) (elem t' i) \<Longrightarrow> Q () t'"
  shows "runs (sort_middle A lt l i u) t Q"
proof -
  have e: "elem t l \<in> S" "elem t u \<in> S" "elem t i \<in> S" using assms(4-6) by (simp_all add: seg_def)
  have i: "is_int i" using assms(2-5) by (simp add: is_int_def)
  show ?thesis
  proof (cases "before (elem t i) (elem t l)")
    case True
    have "runs (set2 A i l (elem t l) (elem t i)) t Q"
    proof (rule runs_swap [OF assms(1) i assms(2)])
      fix t' assume t': "inv t'" "elem t' = (elem t)(i := elem t l, l := elem t i)"
      then have "same l u (elem t) (elem t')" using assms(4,5) by (auto intro: same_swap)
      with t' asym [OF e(3,1) True] assms(4,5,7) show "Q () t'" by (intro assms(8)) simp_all
    qed (use e no_nil in auto)
    with True assms(1-3) i e show ?thesis by (simp add: sort_middle_def)
  next
    case F: False
    show ?thesis
    proof (cases "before (elem t u) (elem t i)")
      case True
      have "runs (set2 A i u (elem t u) (elem t i)) t Q"
      proof (rule runs_swap [OF assms(1) i assms(3)])
        fix t' assume t': "inv t'" "elem t' = (elem t)(i := elem t u, u := elem t i)"
        then have "same l u (elem t) (elem t')" using assms(4,5) by (auto intro: same_swap)
        with t' asym [OF e(2,3) True] assms(4,5,7) show "Q () t'" by (intro assms(8)) simp_all
      qed (use e no_nil in auto)
      with True F assms(1-3) i e show ?thesis by (simp add: sort_middle_def)
    next
      case False
      with F assms i e show ?thesis by (simp add: sort_middle_def)
    qed
  qed
qed

lemma sort_partition_runs:
  assumes "inv t" "is_int l" "is_int u" "l < i" "i < u - 1" "seg l u (elem t)"
    and "\<not> before (elem t i) (elem t l)" "\<not> before (elem t u) (elem t i)"
    and "\<And>t' k. inv t' \<Longrightarrow> same l u (elem t) (elem t') \<Longrightarrow> l < k \<Longrightarrow> k \<le> u - 1
      \<Longrightarrow> split_at l u (elem t' k) k k (elem t') \<Longrightarrow> Q k t'"
  shows "runs (sort_partition A lt l i u) t Q"
proof -
  let ?a = "elem t" and ?P = "elem t i"
  have int: "is_int m" if "l \<le> m" "m \<le> u" for m
    using that assms(2,3) by (simp add: is_int_def)
  have P: "?P \<in> S" using assms(4-6) by (simp add: seg_def)
  have "runs (set2 A i (u - 1) (?a (u - 1)) ?P) t
     (\<lambda>_ s. runs (partition_loop A lt (nat (u - l) + 2) ?P l u l (u - 1)) s
       (\<lambda>k s. runs (rawgeti A (u - 1)) s (\<lambda>x s. runs (rawgeti A k) s
         (\<lambda>y s. runs (set2 A (u - 1) k y x) s (\<lambda>_. Q k)))))"
  proof (rule runs_swap [OF assms(1)])
    fix t1 assume t1: "inv t1" "elem t1 = ?a(i := ?a (u - 1), u - 1 := ?P)"
    have s1: "same l u ?a (elem t1)" unfolding t1(2) using assms(4,5) by (intro same_swap) simp_all
    have top: "elem t1 (u - 1) = ?P" by (simp add: t1(2))
    show "runs (partition_loop A lt (nat (u - l) + 2) ?P l u l (u - 1)) t1
       (\<lambda>k s. runs (rawgeti A (u - 1)) s (\<lambda>x s. runs (rawgeti A k) s
         (\<lambda>y s. runs (set2 A (u - 1) k y x) s (\<lambda>_. Q k))))"
    proof (rule partition_runs [OF assms(2,3) P t1(1) seg_same [OF s1 assms(6)]])
      have "m = u - 1 \<or> m = u" if "u - 1 \<le> m" "m \<le> u" for m using that by linarith
      then show "split_at l u ?P l (u - 1) (elem t1)"
        using assms(4,5,7,8) irrefl [OF P] by (auto simp: split_at_def t1(2))
    next
      fix t2 k assume k: "inv t2" "same l u (elem t1) (elem t2)" "elem t2 (u - 1) = elem t1 (u - 1)"
        "l < k" "k \<le> u - 1" "split_at l u ?P (k - 1) k (elem t2)"
      have seg2: "seg l u (elem t2)" by (rule seg_same [OF k(2) seg_same [OF s1 assms(6)]])
      have P2: "elem t2 (u - 1) = ?P" using k(3) top by simp
      have "runs (set2 A (u - 1) k (elem t2 k) (elem t2 (u - 1))) t2 (\<lambda>_. Q k)"
      proof (rule runs_swap [OF k(1)])
        fix t3 assume t3: "inv t3" "elem t3 = (elem t2)(u - 1 := elem t2 k, k := elem t2 (u - 1))"
        have s3: "same l u (elem t2) (elem t3)" unfolding t3(2) using k(4,5) assms(4,5) by (intro same_swap) simp_all
        have "split_at l u ?P k k (elem t3)"
          using k(4-6) irrefl [OF P] P2 by (auto simp: split_at_def t3(2))
        moreover have "elem t3 k = ?P" by (simp add: t3(2) P2)
        ultimately show "Q k t3"
          using t3(1) k(4,5) same_trans [OF same_trans [OF s1 k(2)] s3] by (intro assms(9)) simp_all
      qed (use k(4,5) assms(4,5) seg_nil [OF seg2] int in auto)
      then show "runs (rawgeti A (u - 1)) t2 (\<lambda>x s. runs (rawgeti A k) s
          (\<lambda>y s. runs (set2 A (u - 1) k y x) s (\<lambda>_. Q k)))"
        using k(1,4,5) int assms(4,5) by simp
    qed (use assms(4,5) in auto)
  qed (use assms(4,5) seg_nil [OF assms(6)] int in auto)
  with assms(1) int assms(4,5) show ?thesis by (simp add: sort_partition_def)
qed

text \<open>Two parts in order around a pivot are in order together.\<close>

lemma in_order_join:
  assumes "seg l u a" "split_at l u (a k) k k a" "l \<le> k" "k \<le> u" "in_order l (k - 1) a" "in_order (k + 1) u a"
  shows "in_order l u a"
proof -
  have "\<not> before (a j) (a i)" if "l \<le> i" "i \<le> j" "j \<le> u" for i j
  proof -
    consider "j < k" | "k < i" | "i \<le> k" "k \<le> j" using that by linarith
    then show ?thesis
    proof cases
      case 3
      then have "\<not> before (a k) (a i)" "\<not> before (a j) (a k)" using assms(2) that by (simp_all add: split_at_def)
      moreover have "a i \<in> S" "a k \<in> S" "a j \<in> S" using segD [OF assms(1)] that assms(3,4) by simp_all
      ultimately show ?thesis using neg_trans by blast
    qed (use assms(5,6) that in \<open>simp_all add: in_order_def\<close>)
  qed
  then show ?thesis by (simp add: in_order_def)
qed

lemma split_at_same:
  assumes "split_at l u P k k a" "same l (k - 1) a b" "l \<le> k" "k \<le> u"
  shows "split_at l u P k k b"
  using assms(1,3,4) same_outside [OF assms(2)] same_all [OF assms(2), of "\<lambda>x. \<not> before P x"]
  unfolding split_at_def by (smt (verit))

lemma split_at_same':
  assumes "split_at l u P k k a" "same (k + 1) u a b" "l \<le> k" "k \<le> u"
  shows "split_at l u P k k b"
  using assms(1,3,4) same_outside [OF assms(2)] same_all [OF assms(2), of "\<lambda>x. \<not> before x P"]
  unfolding split_at_def by (smt (verit))

lemma in_order_outside: "in_order l u a \<Longrightarrow> (\<And>m. l \<le> m \<Longrightarrow> m \<le> u \<Longrightarrow> b m = a m) \<Longrightarrow> in_order l u b"
  by (simp add: in_order_def)

definition sorts :: "int \<Rightarrow> int \<Rightarrow> nat \<Rightarrow> bool" where
  "sorts l u n \<longleftrightarrow> (\<forall>t. inv t \<longrightarrow> seg l u (elem t) \<longrightarrow>
     runs (auxsort A lt n l u) t (\<lambda>_ t'. inv t' \<and> same l u (elem t) (elem t') \<and> in_order l u (elem t')))"

text \<open>The two halves, sorted one after the other.\<close>

lemma halves_runs:
  assumes "sorts l1 u1 n" "sorts l2 u2 n" "u1 < l2 \<or> u2 < l1" "l \<le> l1" "u1 \<le> u" "l \<le> l2" "u2 \<le> u"
    and "inv t" "seg l u (elem t)"
    and "\<And>t1 t'. inv t' \<Longrightarrow> same l1 u1 (elem t) (elem t1) \<Longrightarrow> same l2 u2 (elem t1) (elem t')
      \<Longrightarrow> in_order l1 u1 (elem t') \<Longrightarrow> in_order l2 u2 (elem t') \<Longrightarrow> Q () t'"
  shows "runs (lseq (auxsort A lt n l1 u1) (auxsort A lt n l2 u2)) t Q"
proof -
  have "runs (auxsort A lt n l1 u1) t (\<lambda>_ t'. inv t' \<and> same l1 u1 (elem t) (elem t') \<and> in_order l1 u1 (elem t'))"
    using assms(1,8) seg_sub [OF assms(9,4,5)] by (simp add: sorts_def)
  then have "runs (auxsort A lt n l1 u1) t (\<lambda>_ s. runs (auxsort A lt n l2 u2) s Q)"
  proof (rule runs_mono)
    fix x t1 assume t1: "inv t1 \<and> same l1 u1 (elem t) (elem t1) \<and> in_order l1 u1 (elem t1)"
    then have s: "seg l2 u2 (elem t1)"
      using seg_sub [OF seg_same [OF same_wider [OF _ assms(4,5)] assms(9)] assms(6,7)] by blast
    then have "runs (auxsort A lt n l2 u2) t1 (\<lambda>_ t'. inv t' \<and> same l2 u2 (elem t1) (elem t') \<and> in_order l2 u2 (elem t'))"
      using assms(2) t1 by (simp add: sorts_def)
    then show "runs (auxsort A lt n l2 u2) t1 Q"
    proof (rule runs_mono)
      fix y t' assume t': "inv t' \<and> same l2 u2 (elem t1) (elem t') \<and> in_order l2 u2 (elem t')"
      have "in_order l1 u1 (elem t')"
        by (rule in_order_outside [of _ _ "elem t1"]) (use t1 t' same_outside [of l2 u2 "elem t1" "elem t'"] assms(3) in auto)
      then show "Q y t'" using assms(10) [of t' t1] t1 t' by simp
    qed
  qed
  then show ?thesis by simp
qed

lemma in_order_one: "u \<le> l \<Longrightarrow> seg l u a \<Longrightarrow> in_order l u a"
  unfolding in_order_def using irrefl segD by (metis order_antisym order_trans)

lemma in_order_two:
  assumes "u = l + 1" "seg l u a" "\<not> before (a u) (a l)"
  shows "in_order l u a"
  unfolding in_order_def
proof (intro allI impI)
  fix i j assume ij: "l \<le> i" "i \<le> j" "j \<le> u"
  show "\<not> before (a j) (a i)"
  proof (cases "i = j")
    case True
    then show ?thesis using irrefl segD [OF assms(2)] ij by simp
  next
    case False
    then have "i = l" "j = u" using ij assms(1) by simp_all
    then show ?thesis using assms(3) by simp
  qed
qed

text \<open>The recursion after the partition, the smaller half first.\<close>

lemma recurse_runs:
  assumes "inv t" "seg l u (elem t)" "l < k" "k \<le> u - 1" "split_at l u (elem t k) k k (elem t)"
    and ih: "sorts l (k - 1) n" "sorts (k + 1) u n"
    and Q: "\<And>t'. inv t' \<Longrightarrow> same l u (elem t) (elem t') \<Longrightarrow> in_order l u (elem t') \<Longrightarrow> Q () t'"
  shows "runs (if k - l < u - k then lseq (auxsort A lt n l (k - 1)) (auxsort A lt n (k + 1) u)
    else lseq (auxsort A lt n (k + 1) u) (auxsort A lt n l (k - 1))) t Q"
proof -
  have fin: "Q () t'"
    if "inv t'" "same l u (elem t) (elem t')" "split_at l u (elem t k) k k (elem t')" "elem t' k = elem t k"
      "in_order l (k - 1) (elem t')" "in_order (k + 1) u (elem t')" for t'
    using that in_order_join [OF seg_same [OF that(2) assms(2)], of k] assms(3,4) by (intro Q) simp_all
  show ?thesis
  proof (cases "k - l < u - k")
    case True
    have "runs (lseq (auxsort A lt n l (k - 1)) (auxsort A lt n (k + 1) u)) t Q"
    proof (rule halves_runs [OF ih(1,2) _ _ _ _ _ assms(1,2)])
      fix t1 t' assume h: "inv t'" "same l (k - 1) (elem t) (elem t1)" "same (k + 1) u (elem t1) (elem t')"
        "in_order l (k - 1) (elem t')" "in_order (k + 1) u (elem t')"
      show "Q () t'"
        using h assms(3,4) same_outside [OF h(2)] same_outside [OF h(3)]
          same_trans [OF same_wider [OF h(2)] same_wider [OF h(3)], of l u]
          split_at_same' [OF split_at_same [OF assms(5) h(2)] h(3)] by (intro fin) simp_all
    qed (use assms(3,4) in auto)
    with True show ?thesis by simp
  next
    case False
    have "runs (lseq (auxsort A lt n (k + 1) u) (auxsort A lt n l (k - 1))) t Q"
    proof (rule halves_runs [OF ih(2,1) _ _ _ _ _ assms(1,2)])
      fix t1 t' assume h: "inv t'" "same (k + 1) u (elem t) (elem t1)" "same l (k - 1) (elem t1) (elem t')"
        "in_order (k + 1) u (elem t')" "in_order l (k - 1) (elem t')"
      show "Q () t'"
        using h assms(3,4) same_outside [OF h(2)] same_outside [OF h(3)]
          same_trans [OF same_wider [OF h(2)] same_wider [OF h(3)], of l u]
          split_at_same [OF split_at_same' [OF assms(5) h(2)] h(3)] by (intro fin) simp_all
    qed (use assms(3,4) in auto)
    with False show ?thesis by simp
  qed
qed

text \<open>The part of the loop body after the ends are in order.\<close>

lemma body_runs:
  assumes "inv t" "is_int l" "is_int u" "l < u" "seg l u (elem t)" "\<not> before (elem t u) (elem t l)"
    and ih: "\<And>l' u'. is_int l' \<Longrightarrow> is_int u' \<Longrightarrow> l \<le> l' \<Longrightarrow> u' \<le> u \<Longrightarrow> u' - l' < u - l \<Longrightarrow> sorts l' u' n"
    and Q: "\<And>t'. inv t' \<Longrightarrow> same l u (elem t) (elem t') \<Longrightarrow> in_order l u (elem t') \<Longrightarrow> Q () t'"
  shows "runs (if u - l = 1 then lret () else let i = (l + u) div 2 in
      lseq (sort_middle A lt l i u) (if u - l = 2 then lret () else lbind (sort_partition A lt l i u) (\<lambda>i.
        if i - l < u - i then lseq (auxsort A lt n l (i - 1)) (auxsort A lt n (i + 1) u)
        else lseq (auxsort A lt n (i + 1) u) (auxsort A lt n l (i - 1))))) t Q"
proof (cases "u - l = 1")
  case True
  with assms Q [OF assms(1) same_refl in_order_two] show ?thesis by simp
next
  case ne1: False
  define i where "i = (l + u) div 2"
  have i: "l < i" "i < u" using ne1 assms(4) by (simp_all add: i_def)
  show ?thesis
    unfolding if_not_P [OF ne1] Let_def i_def [symmetric] runs_lseq
  proof (rule sort_middle_runs [OF assms(1-3) i assms(5,6)])
    fix t1 assume t1: "inv t1" "same l u (elem t) (elem t1)" "\<not> before (elem t1 i) (elem t1 l)" "\<not> before (elem t1 u) (elem t1 i)"
    have seg1: "seg l u (elem t1)" by (rule seg_same [OF t1(2) assms(5)])
    show "runs (if u - l = 2 then lret () else lbind (sort_partition A lt l i u) (\<lambda>i.
        if i - l < u - i then lseq (auxsort A lt n l (i - 1)) (auxsort A lt n (i + 1) u)
        else lseq (auxsort A lt n (i + 1) u) (auxsort A lt n l (i - 1)))) t1 Q"
    proof (cases "u - l = 2")
      case True
      then have iu: "i - 1 = l" "u = i + 1" using i by simp_all
      have hi: "in_order i u (elem t1)" using in_order_two [OF iu(2) seg_sub [OF seg1] t1(4)] i by simp
      have lo: "in_order l i (elem t1)" using in_order_two [of i l "elem t1"] seg_sub [OF seg1, of l i] t1(3) iu i by simp
      from hi lo have "in_order (i + 1) u (elem t1)" "in_order l (i - 1) (elem t1)" by (simp_all add: in_order_def)
      moreover have "\<not> before (elem t1 i) (elem t1 m)" if "l \<le> m" "m \<le> i" for m
        using that lo by (simp add: in_order_def)
      moreover have "\<not> before (elem t1 m) (elem t1 i)" if "i \<le> m" "m \<le> u" for m
        using that hi by (simp add: in_order_def)
      ultimately have "in_order l u (elem t1)"
        using i by (intro in_order_join [OF seg1]) (simp_all add: split_at_def)
      with True t1 show ?thesis by (simp add: Q)
    next
      case ne2: False
      then have iu: "i < u - 1" using ne1 assms(4) by (simp add: i_def)
      show ?thesis
        unfolding if_not_P [OF ne2] runs_lbind
      proof (rule sort_partition_runs [OF t1(1) assms(2,3) i(1) iu seg1 t1(3,4)])
        fix t2 k assume t2: "inv t2" "same l u (elem t1) (elem t2)" "l < k" "k \<le> u - 1"
          "split_at l u (elem t2 k) k k (elem t2)"
        have s2: "same l u (elem t) (elem t2)" by (rule same_trans [OF t1(2) t2(2)])
        have "sorts l (k - 1) n" "sorts (k + 1) u n"
          using assms(2,3) t2(3,4) by (intro ih; auto simp: is_int_def)+
        then show "runs (if k - l < u - k then lseq (auxsort A lt n l (k - 1)) (auxsort A lt n (k + 1) u)
           else lseq (auxsort A lt n (k + 1) u) (auxsort A lt n l (k - 1))) t2 Q"
          using s2 by (intro recurse_runs [OF t2(1) seg_same [OF s2 assms(5)] t2(3-5)] Q) (auto intro: same_trans)
      qed
    qed
  qed
qed

lemma auxsort_sorts: "is_int l \<Longrightarrow> is_int u \<Longrightarrow> nat (u - l) < n \<Longrightarrow> sorts l u n"
proof (induction n arbitrary: l u)
  case (Suc n)
  note int = Suc.prems(1,2)
  have "runs (auxsort A lt (Suc n) l u) t (\<lambda>_ t'. inv t' \<and> same l u (elem t) (elem t') \<and> in_order l u (elem t'))"
    if t: "inv t" "seg l u (elem t)" for t
  proof (cases "l < u")
    case False
    with in_order_one [OF _ t(2)] t show ?thesis by simp
  next
    case lu: True
    show ?thesis
      unfolding auxsort.simps if_P [OF lu] runs_lseq
    proof (rule sort_ends_runs [OF t(1) int lu t(2)], rule body_runs [OF _ int lu])
      fix t1 l' u' assume "is_int l'" "is_int u'" "l \<le> l'" "u' \<le> u" "u' - l' < u - l"
      then show "sorts l' u' n" using Suc.prems(3) lu by (intro Suc.IH) simp_all
    qed (use t(2) seg_same same_trans in blast)+
  qed
  then show ?case by (simp add: sorts_def)
qed simp

end

end
