(* ===== verification/Tablib_Seq.thy ===== *)
theory Tablib_Seq
  imports Tablib_Sort
begin

text \<open>
  The table library as operations on lists. A table holds the sequence \<open>xs\<close> when its integer keys
  from 1 to the length have the values of \<open>xs\<close>, none of which is nil, and no other key above has
  a value. Then \<open>insert\<close>, \<open>remove\<close>, \<open>concat\<close> and \<open>sort\<close> are the list operations of that name.
\<close>

section \<open>Sequences\<close>

definition holds_seq :: "(int \<Rightarrow> TValue) \<Rightarrow> TValue list \<Rightarrow> bool" where
  "holds_seq a xs \<longleftrightarrow> LNil \<notin> set xs \<and> int (length xs) < INT_MAX
     \<and> (\<forall>i. 1 \<le> i \<longrightarrow> i \<le> int (length xs) \<longrightarrow> a i = xs ! nat (i - 1))
     \<and> (\<forall>i. int (length xs) < i \<longrightarrow> i \<le> INT_MAX \<longrightarrow> a i = LNil)"

lemma holds_seqD:
  assumes "holds_seq a xs"
  shows "LNil \<notin> set xs" "int (length xs) < INT_MAX"
    "1 \<le> i \<Longrightarrow> i \<le> int (length xs) \<Longrightarrow> a i = xs ! nat (i - 1)"
    "1 \<le> i \<Longrightarrow> i \<le> int (length xs) \<Longrightarrow> a i \<noteq> LNil"
    "int (length xs) < i \<Longrightarrow> i \<le> INT_MAX \<Longrightarrow> a i = LNil"
proof -
  show 3: "a i = xs ! nat (i - 1)" if "1 \<le> i" "i \<le> int (length xs)" for i
    using assms that by (simp add: holds_seq_def)
  show "a i \<noteq> LNil" if "1 \<le> i" "i \<le> int (length xs)" for i
  proof -
    have "nat (i - 1) < length xs" using that by linarith
    then have "xs ! nat (i - 1) \<in> set xs" by simp
    with 3 [OF that] assms show ?thesis by (auto simp: holds_seq_def)
  qed
qed (use assms in \<open>simp_all add: holds_seq_def\<close>)

lemma is_int_pos: "1 \<le> i \<Longrightarrow> i \<le> INT_MAX \<Longrightarrow> is_int i"
  by (simp add: is_int_def INT_MIN_def)

lemma is_int_index: "0 \<le> i \<Longrightarrow> i \<le> INT_MAX \<Longrightarrow> is_int i"
  by (simp add: is_int_def INT_MIN_def)

text \<open>The length is the only border of a sequence.\<close>

lemma border_unique:
  assumes "holds_seq a xs" "0 \<le> n" "n < INT_MAX" "n = 0 \<or> a n \<noteq> LNil" "a (n + 1) = LNil"
  shows "n = int (length xs)"
proof (rule ccontr)
  assume "n \<noteq> int (length xs)"
  then consider "n < int (length xs)" | "int (length xs) < n" by linarith
  then show False
  proof cases
    case 1
    with holds_seqD(4) [OF assms(1), of "n + 1"] assms(2,5) show False by simp
  next
    case 2
    with holds_seqD(5) [OF assms(1), of n] assms(3,4) show False by simp
  qed
qed

text \<open>The elements as a multiset, and as a list.\<close>

lemma image_mset_upto: "image_mset a (mset_set {1..int n}) = mset (map (\<lambda>k. a (int k + 1)) [0..<n])"
proof (induction n)
  case (Suc n)
  have "{1..int (Suc n)} = insert (int n + 1) {1..int n}" by auto
  with Suc show ?case by simp
qed simp

lemma seq_map:
  assumes "holds_seq a xs"
  shows "map (\<lambda>k. a (int k + 1)) [0..<length xs] = xs"
  by (rule nth_equalityI) (use holds_seqD(3) [OF assms] in auto)

lemma holds_seq_same:
  assumes "holds_seq a xs" "same 1 (int (length xs)) a b"
  defines "ys \<equiv> map (\<lambda>k. b (int k + 1)) [0..<length xs]"
  shows "holds_seq b ys" "mset ys = mset xs"
proof -
  show m: "mset ys = mset xs"
    using assms(2) image_mset_upto [of a "length xs"] image_mset_upto [of b "length xs"] seq_map [OF assms(1)]
    by (simp add: same_def ys_def)
  have l: "length ys = length xs" by (simp add: ys_def)
  have "b i = ys ! nat (i - 1)" if "1 \<le> i" "i \<le> int (length xs)" for i
    using that by (simp add: ys_def nat_less_iff)
  moreover have "LNil \<notin> set ys" using m holds_seqD(1) [OF assms(1)] by (metis set_mset_mset)
  ultimately show "holds_seq b ys"
    using holds_seqD(2,5) [OF assms(1)] same_outside [OF assms(2)] l by (simp add: holds_seq_def)
qed

section \<open>Insertion\<close>

text \<open>The indices \<open>j+1..i\<close> after a move up by one.\<close>

definition moved_up :: "int \<Rightarrow> int \<Rightarrow> (int \<Rightarrow> TValue) \<Rightarrow> int \<Rightarrow> TValue" where
  "moved_up j i a = (\<lambda>m. if j < m \<and> m \<le> i then a (m - 1) else a m)"

definition moved_down :: "int \<Rightarrow> int \<Rightarrow> (int \<Rightarrow> TValue) \<Rightarrow> int \<Rightarrow> TValue" where
  "moved_down j i a = (\<lambda>m. if j \<le> m \<and> m < i then a (m + 1) else a m)"

lemma moved_up_none [simp]: "moved_up i i a = a"
  by (auto simp: moved_up_def fun_eq_iff)

lemma moved_down_none [simp]: "moved_down i i a = a"
  by (auto simp: moved_down_def fun_eq_iff)

lemma holds_seq_insert:
  assumes "holds_seq a xs" "v \<noteq> LNil" "k \<le> length xs" "int (length xs) + 1 < INT_MAX"
  shows "holds_seq ((moved_up (int k + 1) (int (length xs) + 1) a)(int k + 1 := v)) (take k xs @ v # drop k xs)"
proof -
  let ?b = "(moved_up (int k + 1) (int (length xs) + 1) a)(int k + 1 := v)" and ?ys = "take k xs @ v # drop k xs"
  have l: "length ?ys = length xs + 1" using assms(3) by simp
  have "?b i = ?ys ! nat (i - 1)" if i: "1 \<le> i" "i \<le> int (length xs) + 1" for i
  proof -
    define m where "m = nat (i - 1)"
    have im: "i = int m + 1" "m \<le> length xs" using i by (simp_all add: m_def)
    consider "m < k" | "m = k" | "k < m" by linarith
    then show ?thesis
    proof cases
      case 1
      then show ?thesis using holds_seqD(3) [OF assms(1), of i] im assms(3) by (simp add: moved_up_def nth_append)
    next
      case 2
      then show ?thesis using im assms(3) by (simp add: nth_append)
    next
      case 3
      then have e: "?ys ! m = xs ! (m - 1)" using assms(3) by (simp add: nth_append nth_Cons')
      have "?b i = a (int m)" using 3 im by (simp add: moved_up_def)
      also have "\<dots> = xs ! (m - 1)" using 3 im(2) holds_seqD(3) [OF assms(1), of "int m"] by (simp add: nat_diff_distrib)
      finally show ?thesis using e m_def by simp
    qed
  qed
  moreover have "LNil \<notin> set ?ys" using assms(2) holds_seqD(1) [OF assms(1)] by (auto dest: in_set_takeD in_set_dropD)
  ultimately show ?thesis
    using l assms(4) holds_seqD(5) [OF assms(1)] assms(3) by (auto simp: holds_seq_def moved_up_def)
qed

lemma holds_seq_remove:
  assumes "holds_seq a xs" "k < length xs"
  shows "holds_seq ((moved_down (int k + 1) (int (length xs)) a)(int (length xs) := LNil)) (take k xs @ drop (Suc k) xs)"
proof -
  let ?b = "(moved_down (int k + 1) (int (length xs)) a)(int (length xs) := LNil)" and ?ys = "take k xs @ drop (Suc k) xs"
  have l: "length ?ys = length xs - 1" using assms(2) by simp
  have "?b i = ?ys ! nat (i - 1)" if i: "1 \<le> i" "i \<le> int (length xs) - 1" for i
  proof -
    define m where "m = nat (i - 1)"
    have im: "i = int m + 1" "Suc m < length xs" using i by (simp_all add: m_def)
    show ?thesis
    proof (cases "m < k")
      case True
      then show ?thesis using holds_seqD(3) [OF assms(1), of i] im assms(2) by (simp add: moved_down_def nth_append)
    next
      case False
      then have "?ys ! m = xs ! Suc m" using assms(2) im(2) by (simp add: nth_append)
      moreover have "?b i = a (int m + 2)" using False im by (simp add: moved_down_def add.commute)
      moreover have "a (int m + 2) = xs ! Suc m"
        using holds_seqD(3) [OF assms(1), of "int m + 2"] im(2) by (simp add: nat_add_distrib)
      ultimately show ?thesis using m_def by simp
    qed
  qed
  moreover have "LNil \<notin> set ?ys" using holds_seqD(1) [OF assms(1)] by (auto dest: in_set_takeD in_set_dropD)
  ultimately show ?thesis
    using l assms(2) holds_seqD(2,5) [OF assms(1)] by (auto simp: holds_seq_def moved_down_def)
qed

section \<open>The operations on a sequence\<close>

text \<open>A table with room can take one more key.\<close>

locale growing_array = raw_array inv A elem
  for inv :: "'t \<Rightarrow> bool" and A :: "('t, 'b) arr_ops_scheme" and elem :: "'t \<Rightarrow> int \<Rightarrow> TValue" +
  fixes room :: "'t \<Rightarrow> bool"
  assumes set_room: "inv t \<Longrightarrow> is_int i \<Longrightarrow> room t \<Longrightarrow> \<exists>t'. op_seti A t i v = Inr t'"
begin

lemma runs_rawseti_room:
  assumes "inv t" "is_int i" "elem t i \<noteq> LNil \<or> room t"
    "\<And>t'. inv t' \<Longrightarrow> elem t' = (elem t)(i := v) \<Longrightarrow> Q () t'"
  shows "runs (rawseti A i v) t Q"
proof -
  obtain t' where "op_seti A t i v = Inr t'"
    using set_present [OF assms(1,2)] set_room [OF assms(1,2)] assms(3) by blast
  with set_law [OF assms(1,2) this] assms(4) show ?thesis by (simp add: rawseti_def runs_def)
qed

lemma runs_getn:
  assumes "inv t" "holds_seq (elem t) xs"
  shows "runs (luaL_getn A) t Q \<longleftrightarrow> Q (int (length xs)) t"
proof -
  obtain n where n: "op_getn A t = Inr n" "0 \<le> n" "n < INT_MAX" "n = 0 \<or> elem t n \<noteq> LNil" "elem t (n + 1) = LNil"
    using getn_law [OF assms(1)] by blast
  from n(1) border_unique [OF assms(2) n(2-)] show ?thesis by (simp add: luaL_getn_def runs_def)
qed

lemma runs_checktype: "lua_type a n = ty \<Longrightarrow> runs (luaL_checktype a n ty) t Q \<longleftrightarrow> Q () t"
  by (simp add: luaL_checktype_def runs_def)

lemma runs_aux_getn:
  assumes "inv t" "holds_seq (elem t) xs" "lua_type a 1 = LUA_TTABLE"
  shows "runs (aux_getn A a) t Q \<longleftrightarrow> Q (int (length xs)) t"
  using assms by (simp add: aux_getn_def runs_checktype runs_getn)

lemma move_up_runs:
  assumes "inv t" "is_int (i - int n)" "is_int i" "\<And>m. i - int n \<le> m \<Longrightarrow> m < i \<Longrightarrow> elem t m \<noteq> LNil"
    and "n = 0 \<or> elem t i \<noteq> LNil \<or> room t"
    and "\<And>t'. inv t' \<Longrightarrow> elem t' = moved_up (i - int n) i (elem t) \<Longrightarrow> (n = 0 \<Longrightarrow> t' = t)
      \<Longrightarrow> Q () t'"
  shows "runs (move_up A n i) t Q"
  using assms
proof (induction n arbitrary: i t)
  case 0
  then show ?case by (simp add: moved_up_none)
next
  case (Suc n)
  have int: "is_int (i - 1)" using Suc.prems(2,3) by (simp add: is_int_def)
  have "runs (rawseti A i (elem t (i - 1))) t (\<lambda>_ s. runs (move_up A n (i - 1)) s Q)"
  proof (rule runs_rawseti_room [OF Suc.prems(1,3)])
    fix t1 assume t1: "inv t1" "elem t1 = (elem t)(i := elem t (i - 1))"
    show "runs (move_up A n (i - 1)) t1 Q"
    proof (rule Suc.IH [OF t1(1)])
      fix t' assume t': "inv t'" "elem t' = moved_up (i - 1 - int n) (i - 1) (elem t1)"
      have "elem t' = moved_up (i - int (Suc n)) i (elem t)"
        unfolding t'(2) t1(2) by (auto simp: moved_up_def fun_eq_iff)
      then show "Q () t'" using t'(1) by (intro Suc.prems(6)) simp_all
    qed (use Suc.prems(2,4) int t1(2) in \<open>auto simp: diff_diff_eq add.commute\<close>)
  qed (use Suc.prems(5) in simp)
  then show ?case using Suc.prems(1) int by simp
qed

lemma move_down_runs:
  assumes "inv t" "is_int i" "is_int (i + int n)" "\<And>m. i \<le> m \<Longrightarrow> m \<le> i + int n \<Longrightarrow> elem t m \<noteq> LNil"
    and "\<And>t'. inv t' \<Longrightarrow> elem t' = moved_down i (i + int n) (elem t) \<Longrightarrow> Q () t'"
  shows "runs (move_down A n i) t Q"
  using assms
proof (induction n arbitrary: i t)
  case 0
  then show ?case by (simp add: moved_down_none)
next
  case (Suc n)
  have int: "is_int (i + 1)" using Suc.prems(2,3) by (simp add: is_int_def)
  have p: "elem t i \<noteq> LNil" "elem t (i + 1) \<noteq> LNil" using Suc.prems(4) by simp_all
  have "runs (rawseti A i (elem t (i + 1))) t (\<lambda>_ s. runs (move_down A n (i + 1)) s Q)"
  proof (rule runs_rawseti [OF Suc.prems(1,2) p(1)])
    fix t1 assume t1: "inv t1" "elem t1 = (elem t)(i := elem t (i + 1))"
    show "runs (move_down A n (i + 1)) t1 Q"
    proof (rule Suc.IH [OF t1(1) int])
      fix t' assume t': "inv t'" "elem t' = moved_down (i + 1) (i + 1 + int n) (elem t1)"
      have "elem t' = moved_down i (i + int (Suc n)) (elem t)"
        unfolding t'(2) t1(2) by (auto simp: moved_down_def fun_eq_iff)
      then show "Q () t'" using t'(1) by (intro Suc.prems(5)) simp_all
    qed (use Suc.prems(3,4) p t1(2) in \<open>auto simp: add.assoc\<close>)
  qed
  then show ?case using Suc.prems(1) int by simp
qed

text \<open>
  The library functions. \<open>a\<close> is the list of the arguments, the first of which is the table.
\<close>

lemma tinsert_runs:
  assumes "inv t" "holds_seq (elem t) xs" "room t" "lua_type a 1 = LUA_TTABLE" "int (length xs) + 1 < INT_MAX"
    and "v \<noteq> LNil" "k \<le> length xs" "arg a (length a) = v"
    and "length a = 2 \<and> k = length xs \<or> length a = 3 \<and> luaL_checkint E a 2 t = Inr (int k + 1, t)"
    and "\<And>t'. inv t' \<Longrightarrow> holds_seq (elem t') (take k xs @ v # drop k xs) \<Longrightarrow> Q [] t'"
  shows "runs (tinsert A E a) t Q"
proof -
  let ?n = "length xs" and ?a = "elem t"
  have int: "is_int (int ?n + 1)" "is_int (int k + 1)" using assms(5,7) by (simp_all add: is_int_pos)
  have main: "runs (move_up A (?n - k) (int ?n + 1)) t (\<lambda>_ s. runs (rawseti A (int k + 1) v) s (\<lambda>_. Q []))"
  proof (rule move_up_runs [OF assms(1) _ int(1)])
    fix t1 assume t1: "inv t1" "elem t1 = moved_up (int ?n + 1 - int (?n - k)) (int ?n + 1) ?a"
      "?n - k = 0 \<Longrightarrow> t1 = t"
    have e: "int ?n + 1 - int (?n - k) = int k + 1" using assms(7) by simp
    show "runs (rawseti A (int k + 1) v) t1 (\<lambda>_. Q [])"
    proof (rule runs_rawseti_room [OF t1(1) int(2)])
      show "elem t1 (int k + 1) \<noteq> LNil \<or> room t1"
        using t1(3) assms(3,7) holds_seqD(4) [OF assms(2), of "int k + 1"]
        unfolding t1(2) e by (cases "k = ?n") (simp_all add: moved_up_def)
    next
      fix t' assume "inv t'" "elem t' = (elem t1)(int k + 1 := v)"
      with holds_seq_insert [OF assms(2,6,7,5)] show "Q [] t'"
        unfolding t1(2) e by (intro assms(10)) simp_all
    qed
  qed (use assms(3,7) holds_seqD(4) [OF assms(2)] int in \<open>auto simp: of_nat_diff add.commute\<close>)
  show ?thesis
  proof (cases "length a = 2")
    case True
    then have "k = ?n" using assms(9) by simp
    with main True assms(1,2,4,8) show ?thesis
      by (simp add: tinsert_def runs_aux_getn [OF assms(1,2,4)])
  next
    case False
    then have a: "length a = 3" "luaL_checkint E a 2 t = Inr (int k + 1, t)" using assms(9) by auto
    have "\<not> int ?n + 1 < int k + 1" using assms(7) by simp
    moreover have "nat (int ?n + 1 - (int k + 1)) = ?n - k" by simp
    ultimately show ?thesis
      using main a assms(8) by (simp add: tinsert_def runs_aux_getn [OF assms(1,2,4)] runs_pure [of "luaL_checkint E a 2" t, OF a(2)] Let_def)
  qed
qed

lemma tremove_runs:
  assumes "inv t" "holds_seq (elem t) xs" "lua_type a 1 = LUA_TTABLE" "k < length xs"
    and "luaL_optint E a 2 (int (length xs)) t = Inr (int k + 1, t)"
    and "\<And>t'. inv t' \<Longrightarrow> holds_seq (elem t') (take k xs @ drop (Suc k) xs) \<Longrightarrow> Q [xs ! k] t'"
  shows "runs (tremove A E a) t Q"
proof -
  let ?n = "length xs" and ?a = "elem t"
  have n: "int ?n < INT_MAX" using holds_seqD(2) [OF assms(2)] .
  have int: "is_int (int ?n)" "is_int (int k + 1)" using assms(4) n by (simp_all add: is_int_pos)
  have e: "int k + 1 + int (?n - Suc k) = int ?n" using assms(4) by simp
  have x: "?a (int k + 1) = xs ! k" using holds_seqD(3) [OF assms(2), of "int k + 1"] assms(4) by simp
  have "runs (move_down A (?n - Suc k) (int k + 1)) t
      (\<lambda>_ s. runs (rawseti A (int ?n) LNil) s (\<lambda>_. Q [xs ! k]))"
  proof (rule move_down_runs [OF assms(1) int(2)])
    fix t1 assume t1: "inv t1" "elem t1 = moved_down (int k + 1) (int k + 1 + int (?n - Suc k)) ?a"
    show "runs (rawseti A (int ?n) LNil) t1 (\<lambda>_. Q [xs ! k])"
    proof (rule runs_rawseti [OF t1(1) int(1)])
      show "elem t1 (int ?n) \<noteq> LNil"
        using holds_seqD(4) [OF assms(2), of "int ?n"] assms(4) unfolding t1(2) e by (simp add: moved_down_def)
    next
      fix t' assume "inv t'" "elem t' = (elem t1)(int ?n := LNil)"
      with holds_seq_remove [OF assms(2,4)] show "Q [xs ! k] t'"
        unfolding t1(2) e by (intro assms(6)) simp_all
    qed
  qed (use assms(4) holds_seqD(4) [OF assms(2)] int e in auto)
  moreover have "nat (int ?n - (int k + 1)) = ?n - Suc k" by simp
  ultimately show ?thesis
    using assms(1,4) int x by (simp add: tremove_def runs_aux_getn [OF assms(1-3)] runs_pure [of "luaL_optint E a 2 (int (length xs))" t, OF assms(5)])
qed

end

section \<open>Concatenation\<close>

text \<open>The texts with the separator between them.\<close>

fun join :: "byte list \<Rightarrow> byte list list \<Rightarrow> byte list" where
  "join sep [] = []"
| "join sep [b] = b"
| "join sep (b # c # bs) = b @ sep @ join sep (c # bs)"

lemma join_snoc: "join sep (bs @ [c]) = concat (map (\<lambda>b. b @ sep) bs) @ c"
proof (induction bs)
  case (Cons b bs)
  then show ?case by (cases bs) simp_all
qed simp

context growing_array begin

lemma addfield_runs:
  assumes "inv t" "holds_seq (elem t) xs" "k < length xs" "lua_isstring (xs ! k)"
  shows "runs (addfield A E b (int k + 1)) t Q \<longleftrightarrow> Q (b @ the (lua_tolstring E (xs ! k))) t"
proof -
  have "elem t (int k + 1) = xs ! k" using holds_seqD(3) [OF assms(2), of "int k + 1"] assms(3) by simp
  moreover have "is_int (int k + 1)" using assms(3) holds_seqD(2) [OF assms(2)] by (simp add: is_int_pos)
  ultimately show ?thesis using assms(1,4) by (simp add: addfield_def)
qed

lemma concat_loop_runs:
  assumes "inv t" "holds_seq (elem t) xs" "\<forall>x \<in> set xs. lua_isstring x" "k + n \<le> length xs"
  shows "runs (concat_loop A E sep n (int k + 1) b) t Q \<longleftrightarrow>
    Q (b @ concat (map (\<lambda>x. the (lua_tolstring E x) @ sep) (take n (drop k xs)))) t"
  using assms(4)
proof (induction n arbitrary: k b)
  case (Suc n)
  have k: "k < length xs" using Suc.prems by simp
  then have "lua_isstring (xs ! k)" using assms(3) by simp
  note f = addfield_runs [OF assms(1,2) k this]
  have "int k + 1 + 1 = int (Suc k) + 1" by simp
  moreover have "take (Suc n) (drop k xs) = xs ! k # take n (drop (Suc k) xs)"
    using k by (simp add: Cons_nth_drop_Suc [symmetric] del: drop_Suc)
  ultimately show ?case using Suc.IH [of "Suc k"] Suc.prems f by simp
qed simp

lemma tconcat_runs:
  assumes "inv t" "holds_seq (elem t) xs" "\<forall>x \<in> set xs. lua_isstring x"
    and "lua_type a 1 = LUA_TTABLE" "length a \<le> 2" "luaL_optlstring E a 2 [] t = Inr (sep, t)"
  shows "runs (tconcat A E a) t Q \<longleftrightarrow> Q (join sep (map (\<lambda>x. the (lua_tolstring E x)) xs)) t"
proof -
  let ?n = "length xs"
  have o: "luaL_optint E a 3 1 t = Inr (1, t)" "lua_isnoneornil a 4"
    using assms(5) by (simp_all add: luaL_optint_def luaL_optinteger_def lua_isnoneornil_def lua_type_def
        index2adr_def LUA_TNONE_def lbind_def lret_def to_int_def)
  note r = runs_pure [of "luaL_optlstring E a 2 []" t, OF assms(6)] runs_checktype [OF assms(4)]
    runs_pure [of "luaL_optint E a 3 1" t, OF o(1)] runs_getn [OF assms(1,2)]
  show ?thesis
  proof (cases xs rule: rev_cases)
    case Nil
    then show ?thesis using o(2) by (simp add: tconcat_def r del: One_nat_def)
  next
    case (snoc ys y)
    have n: "nat (int ?n - 1) = length ys" "int ?n = int (length ys) + 1" "1 \<le> int ?n" using snoc by simp_all
    have "runs (concat_loop A E sep (length ys) 1 []) t P \<longleftrightarrow>
        P (concat (map (\<lambda>x. the (lua_tolstring E x) @ sep) ys)) t" for P
      using concat_loop_runs [OF assms(1-3), of 0 "length ys" E sep "[]" P] snoc by simp
    moreover have "runs (addfield A E b (1 + int (length ys))) t Q \<longleftrightarrow> Q (b @ the (lua_tolstring E y)) t" for b
      using addfield_runs [OF assms(1,2), of "length ys"] assms(3) snoc by (simp add: add.commute)
    ultimately show ?thesis
      using o(2) n snoc by (simp add: tconcat_def r join_snoc comp_def del: One_nat_def)
  qed
qed

end

section \<open>Sorting\<close>

context sorting begin

lemma auxsort_seq:
  assumes "inv t" "holds_seq (elem t) xs" "set xs \<subseteq> S" "length xs < n"
  shows "runs (auxsort A lt n 1 (int (length xs))) t (\<lambda>_ t'. inv t' \<and> (\<exists>ys. holds_seq (elem t') ys
    \<and> mset ys = mset xs \<and> sorted_wrt (\<lambda>x y. \<not> before y x) ys))"
proof -
  let ?n = "int (length xs)"
  have "elem t m \<in> S" if "1 \<le> m" "m \<le> ?n" for m
  proof -
    have "nat (m - 1) < length xs" using that by linarith
    then show ?thesis using holds_seqD(3) [OF assms(2) that] assms(3) by auto
  qed
  then have "seg 1 ?n (elem t)" by (simp add: seg_def)
  moreover have "sorts 1 ?n n"
    using holds_seqD(2) [OF assms(2)] assms(4) by (intro auxsort_sorts) (auto simp: is_int_index INT_MAX_def)
  ultimately have "runs (auxsort A lt n 1 ?n) t (\<lambda>_ t'. inv t' \<and> same 1 ?n (elem t) (elem t') \<and> in_order 1 ?n (elem t'))"
    using assms(1) by (simp add: sorts_def)
  then show ?thesis
  proof (rule runs_mono)
    fix x t' assume t': "inv t' \<and> same 1 ?n (elem t) (elem t') \<and> in_order 1 ?n (elem t')"
    let ?ys = "map (\<lambda>k. elem t' (int k + 1)) [0..<length xs]"
    have "sorted_wrt (\<lambda>x y. \<not> before y x) ?ys"
      using t' by (auto simp: sorted_wrt_iff_nth_less in_order_def)
    with t' holds_seq_same [OF assms(2), of "elem t'"]
    show "inv t' \<and> (\<exists>ys. holds_seq (elem t') ys \<and> mset ys = mset xs \<and> sorted_wrt (\<lambda>x y. \<not> before y x) ys)"
      by blast
  qed
qed

end

end
