(* ===== verification/Tablib_Props.thy ===== *)
theory Tablib_Props
  imports Tablib_Seq Table_Props
begin

text \<open>
  The table library on Lua tables: the tables of \<open>ltable.c\<close> have the laws that the library needs,
  so that its functions are those of lists.
\<close>

section \<open>The tables provide the interface\<close>

definition lift_terror :: "'a tres \<Rightarrow> lerr + 'a" where
  "lift_terror r = (case r of Inl e \<Rightarrow> Inl (LuaTable e) | Inr x \<Rightarrow> Inr x)"

text \<open>\<open>luaL_getn\<close>, \<open>lua_rawgeti\<close>, \<open>lua_rawseti\<close> and \<open>lua_next\<close>.\<close>

definition table_ops :: "(ptr \<Rightarrow> u32) \<Rightarrow> Table arr_ops" where
  "table_ops H = \<lparr>
     op_getn = (\<lambda>t. map_sum id int (lift_terror (luaH_getn t))),
     op_geti = (\<lambda>t i. lift_terror (lua_rawgeti t i)),
     op_seti = (\<lambda>t i v. lift_terror (lua_rawseti H t i v)),
     op_next = (\<lambda>t k. lift_terror (luaH_next H t k))\<rparr>"

definition int_elem :: "Table \<Rightarrow> int \<Rightarrow> TValue" where
  "int_elem t i = (if is_int i then lookup t (LNumber (cast_num i)) else LNil)"

lemma cast_num_rawequal:
  assumes "is_int i" "is_int j"
  shows "luaO_rawequalObj (LNumber (cast_num i)) (LNumber (cast_num j)) \<longleftrightarrow> i = j"
proof
  assume "luaO_rawequalObj (LNumber (cast_num i)) (LNumber (cast_num j))"
  from arrayindex_rawequal [OF this] show "i = j"
    using arrayindex_cast_num [of i] arrayindex_cast_num [of j] assms by (simp add: is_int_def)
next
  assume "i = j"
  then show "luaO_rawequalObj (LNumber (cast_num i)) (LNumber (cast_num j))"
    using number_key_proper [of j] rawequal_refl assms by (simp add: proper_key_def is_int_def)
qed

lemma rawseti_elem:
  assumes "tab_ok H t" "is_int i" "lua_rawseti H t i v = Inr t'"
  shows "tab_ok H t' \<and> int_elem t' = (int_elem t)(i := v)"
proof -
  have w: "tab_ok H t'" "\<And>k. proper_key k \<Longrightarrow>
      lookup t' k = (if luaO_rawequalObj (LNumber (cast_num i)) k then v else lookup t k)"
    using rawseti_written [OF assms(1), of i v] assms(2,3) by (simp_all add: written_def is_int_def)
  have "int_elem t' j = ((int_elem t)(i := v)) j" for j
  proof (cases "is_int j")
    case True
    then show ?thesis
      using w(2) [OF number_key_proper [of j]] cast_num_rawequal [OF assms(2) True] assms(2)
      by (auto simp: int_elem_def is_int_def)
  qed (use assms(2) in \<open>auto simp: int_elem_def\<close>)
  with w(1) show ?thesis by blast
qed

lemma rawseti_present:
  assumes "tab_ok H t" "is_int i" "int_elem t i \<noteq> LNil"
  shows "\<exists>t'. lua_rawseti H t i v = Inr t'"
proof -
  have i: "INT_MIN \<le> i" "i \<le> INT_MAX" using assms(2) by (simp_all add: is_int_def)
  obtain p where p: "luaH_getnum t i = Inr p" "located t (LNumber (cast_num i)) p"
    using luaH_getnum_ok [OF assms(1) i] by blast
  have "tv_read t p \<noteq> LNil"
    using located_read [OF assms(1) number_key_proper [OF i] p(2)] assms(2,3) by (simp add: int_elem_def)
  then have "p \<noteq> NilObject" by auto
  with p(1) show ?thesis by (simp add: lua_rawseti_def luaH_setnum_def luaH_setnum_with_def tbind_def)
qed

text \<open>The length is far below \<open>INT_MAX\<close>.\<close>

lemma linear_search_less: "linear_search t fuel i = Inr n \<Longrightarrow> n < i + fuel"
  by (induction fuel arbitrary: i) (fastforce split: if_splits)+

lemma binsearch_less: "i < j \<Longrightarrow> binsearch absent i j < j"
proof (induction absent i j rule: binsearch.induct)
  case (1 absent i j)
  show ?case
  proof (cases "1 < j - i")
    case True
    then have m: "i < (i + j) div 2" "(i + j) div 2 < j" by auto
    show ?thesis
      using 1(1) [OF True refl _ m(1)] 1(2) [OF True refl _ m(2)] m True
      by (subst binsearch.simps) (auto simp: Let_def intro: less_trans)
  qed (use 1 in \<open>simp add: binsearch.simps [of absent i j]\<close>)
qed

lemma unbound_loop_less:
  assumes "unbound_loop t i j = Inr n" "i < j" "int j \<le> MAX_INT" "sizearray t + sizenode t + 2 \<le> nat MAX_INT"
  shows "int n < MAX_INT"
  using assms
proof (induction t i j rule: unbound_loop.induct)
  case (1 t i j)
  note e = unbound_loop.simps [of t i j]
  show ?case
  proof (cases "num_absent t j")
    case True
    then show ?thesis
      using "1.prems" binsearch_less [OF "1.prems"(2), of "num_absent t"] unfolding e by auto
  next
    case a: False
    show ?thesis
    proof (cases "int (j * 2) > MAX_INT \<or> j = 0")
      case True
      with a "1.prems"(1) have "linear_search t (sizearray t + sizenode t + 1) 1 = Inr n" unfolding e by simp
      from linear_search_less [OF this] "1.prems"(4) show ?thesis by linarith
    next
      case False
      with a 1 show ?thesis unfolding e by simp
    qed
  qed
qed

lemma luaH_getn_less:
  assumes "tab_ok H t" "luaH_getn t = Inr n"
  shows "int n < INT_MAX"
proof -
  have a: "sizearray t \<le> 2 ^ MAXBITS" by (rule tab_ok_arr_length [OF assms(1)])
  have s: "sizenode t \<le> 2 ^ MAXBITS"
    using tab_okD(2) [OF assms(1)] by (simp add: sizenode_def)
  consider "0 < sizearray t" "n < sizearray t" | "n = sizearray t" | "unbound_loop t (sizearray t) (sizearray t + 1) = Inr n"
  proof (cases "0 < sizearray t \<and> arr t ! (sizearray t - 1) = LNil")
    case True
    with assms(2) have "n = binsearch (\<lambda>m. arr t ! (m - 1) = LNil) 0 (sizearray t)" by (simp add: luaH_getn_def)
    with True binsearch_less [of 0 "sizearray t" "\<lambda>m. arr t ! (m - 1) = LNil"] show thesis
      by (intro that(1)) simp_all
  next
    case False
    then have e: "luaH_getn t = (if dummy t then Inr (sizearray t) else unbound_loop t (sizearray t) (sizearray t + 1))"
      by (auto simp: luaH_getn_def Let_def unbound_search_def)
    show thesis
    proof (cases "dummy t")
      case True
      then show thesis using e assms(2) by (intro that(2)) simp
    next
      case False
      then show thesis using e assms(2) by (intro that(3)) simp
    qed
  qed
  then show ?thesis
  proof cases
    case 3
    then have "int n < MAX_INT"
      using a s by (intro unbound_loop_less [OF 3]) (simp_all add: MAX_INT_def INT_MAX_def MAXBITS_def)
    then show ?thesis by (simp add: MAX_INT_def)
  qed (use a in \<open>simp_all add: INT_MAX_def MAXBITS_def\<close>)
qed

interpretation tab: growing_array "tab_ok H" "table_ops H" int_elem "\<lambda>t. live_total t < 2 ^ MAXBITS" for H
proof
  fix t i v t' assume t: "tab_ok H t" "is_int i"
  show "op_geti (table_ops H) t i = Inr (int_elem t i)"
    using rawgeti_ok [OF t(1), of i] t(2) by (simp add: table_ops_def lift_terror_def int_elem_def is_int_def)
  show "tab_ok H t' \<and> int_elem t' = (int_elem t)(i := v)" if "op_seti (table_ops H) t i v = Inr t'"
    using that rawseti_elem [OF t, of v t'] by (auto simp: table_ops_def lift_terror_def split: sum.splits)
  show "\<exists>t'. op_seti (table_ops H) t i v = Inr t'" if "int_elem t i \<noteq> LNil"
    using rawseti_present [OF t that, of v] by (auto simp: table_ops_def lift_terror_def)
  show "\<exists>t'. op_seti (table_ops H) t i v = Inr t'" if "live_total t < 2 ^ MAXBITS"
    using rawseti_written [OF t(1), of i v] t(2) that
    by (auto simp: table_ops_def lift_terror_def written_def is_int_def split: sum.splits)
next
  fix t assume t: "tab_ok H t"
  obtain n where n: "luaH_getn t = Inr n" "border t n" using luaH_getn_border [OF t] by blast
  have "is_int (int n)" "is_int (int n + 1)" using luaH_getn_less [OF t n(1)] by (simp_all add: is_int_index)
  with n luaH_getn_less [OF t n(1)]
  show "\<exists>n. op_getn (table_ops H) t = Inr n \<and> 0 \<le> n \<and> n < INT_MAX
      \<and> (n = 0 \<or> int_elem t n \<noteq> LNil) \<and> int_elem t (n + 1) = LNil"
    by (intro exI [of _ "int n"]) (simp add: table_ops_def lift_terror_def border_def int_elem_def add.commute)
qed

section \<open>Orders that sort\<close>

text \<open>The order of numbers that are not NaN, and that of strings.\<close>

definition proper_numbers :: "TValue set" where
  "proper_numbers = {LNumber n | n. \<not> luai_numisnan n}"

definition number_less :: "TValue \<Rightarrow> TValue \<Rightarrow> bool" where
  "number_less x y = (case (x, y) of (LNumber a, LNumber b) \<Rightarrow> luai_numlt a b | _ \<Rightarrow> False)"

interpretation number_sort:
  sorting "tab_ok H" "table_ops H" int_elem "luaV_lessthan E" proper_numbers number_less for H E
proof
  fix x y z assume "x \<in> proper_numbers" "y \<in> proper_numbers" "z \<in> proper_numbers"
  then show "\<not> number_less x y \<Longrightarrow> \<not> number_less y z \<Longrightarrow> \<not> number_less x z"
    "number_less x y \<Longrightarrow> number_less y z \<Longrightarrow> number_less x z"
    by (auto simp: proper_numbers_def number_less_def luai_numlt_def)
next
  fix x y t assume "x \<in> proper_numbers" "y \<in> proper_numbers"
  then show "luaV_lessthan E x y t = Inr (number_less x y, t)"
    by (auto simp: proper_numbers_def luaV_lessthan_def number_less_def lret_def)
qed (auto simp: proper_numbers_def number_less_def luai_numlt_def)

definition string_less :: "'s venv \<Rightarrow> TValue \<Rightarrow> TValue \<Rightarrow> bool" where
  "string_less E x y = (case (x, y) of (LString a, LString b) \<Rightarrow> bytes_less (svalue E a) (svalue E b) | _ \<Rightarrow> False)"

interpretation string_sort:
  sorting "tab_ok H" "table_ops H" int_elem "luaV_lessthan (E\<lparr>strcoll := strcmp\<rparr>)" "range LString" "string_less E" for H E
proof
  fix x y z assume "x \<in> range LString" "y \<in> range LString" "z \<in> range LString"
  then show "\<not> string_less E x y \<Longrightarrow> \<not> string_less E y z \<Longrightarrow> \<not> string_less E x z"
    "string_less E x y \<Longrightarrow> string_less E y z \<Longrightarrow> string_less E x z"
    using bytes_less_total bytes_less_trans bytes_less_irrefl unfolding string_less_def by (auto; metis)+
next
  fix x y t assume "x \<in> range LString" "y \<in> range LString"
  then show "luaV_lessthan (E\<lparr>strcoll := strcmp\<rparr>) x y t = Inr (string_less E x y, t)"
    using l_strcmp_ok [OF strcmp_strcmp_like] by (auto simp: luaV_lessthan_def string_less_def lret_def)
qed (auto simp: string_less_def bytes_less_irrefl)

text \<open>A strict weak order on a set of values.\<close>

definition weak_order :: "TValue set \<Rightarrow> (TValue \<Rightarrow> TValue \<Rightarrow> bool) \<Rightarrow> bool" where
  "weak_order S before \<longleftrightarrow> (\<forall>x \<in> S. \<not> before x x)
     \<and> (\<forall>x \<in> S. \<forall>y \<in> S. \<forall>z \<in> S. (before x y \<longrightarrow> before y z \<longrightarrow> before x z)
          \<and> (\<not> before x y \<longrightarrow> \<not> before y z \<longrightarrow> \<not> before x z))"

lemma weak_order_subset: "weak_order S before \<Longrightarrow> T \<subseteq> S \<Longrightarrow> weak_order T before"
  unfolding weak_order_def by blast

lemma number_weak_order: "weak_order proper_numbers number_less"
  unfolding weak_order_def using number_sort.irrefl number_sort.trans number_sort.neg_trans by blast

lemma table_sorting:
  assumes "weak_order S before" "LNil \<notin> S" "\<And>x y t. x \<in> S \<Longrightarrow> y \<in> S \<Longrightarrow> lt x y t = Inr (before x y, t)"
  shows "sorting (tab_ok H) (table_ops H) int_elem lt S before"
  by (intro sorting.intro tab.raw_array_axioms sorting_axioms.intro)
    (use assms in \<open>unfold weak_order_def; blast\<close>)+

section \<open>Properties\<close>

text \<open>
  C29: \<open>table.sort\<close> returns on every sequence whose order function has no effect and is a strict
  weak order on its values, and leaves a permutation of the values in which no value is less
  than one before it; this holds for the default order of numbers and for any order function.
\<close>

theorem table_sort_sorts:
  assumes "tab_ok H t" "holds_seq (int_elem t) xs" "lua_type a 1 = LUA_TTABLE"
    and "lua_isnoneornil a 2 \<or> lua_type a 2 = LUA_TFUNCTION"
    and "weak_order (set xs) before"
    and "\<forall>x \<in> set xs. \<forall>y \<in> set xs. \<forall>s. sort_comp E call (arg a 2) x y s = Inr (before x y, s)"
    and "length xs < fuel"
  shows "\<exists>t' ys. tsort (table_ops H) E call fuel a t = Inr ([], t') \<and> tab_ok H t'
    \<and> holds_seq (int_elem t') ys \<and> mset ys = mset xs \<and> sorted_wrt (\<lambda>x y. \<not> before y x) ys"
proof -
  have "sorting (tab_ok H) (table_ops H) int_elem (sort_comp E call (arg a 2)) (set xs) before"
    by (rule table_sorting [OF assms(5) holds_seqD(1) [OF assms(2)]]) (use assms(6) in blast)
  from sorting.auxsort_seq [OF this assms(1,2) subset_refl assms(7)] assms(4)
  have "runs (tsort (table_ops H) E call fuel a) t (\<lambda>r t'. r = [] \<and> tab_ok H t' \<and> (\<exists>ys. holds_seq (int_elem t') ys
      \<and> mset ys = mset xs \<and> sorted_wrt (\<lambda>x y. \<not> before y x) ys))"
    by (auto simp: tsort_def tab.runs_aux_getn [OF assms(1-3)] tab.runs_checktype simp del: One_nat_def)
  then show ?thesis by (auto simp: runs_def)
qed

text \<open>A table with two numbers.\<close>

definition two_numbers :: Table where
  "two_numbers = sample_table\<lparr>arr := [LNumber (cast_num 2), LNumber (cast_num 1)]\<rparr>"

definition sample_env :: "Table venv" where
  "sample_env = \<lparr>svalue = (\<lambda>p. []), vlibc = \<lparr>strtod = (\<lambda>s. (0, 0)), strtoul = (\<lambda>s. (0, 0))\<rparr>,
     strcoll = strcmp, number2str = (\<lambda>n. []), call_orderTM = (\<lambda>e x y. lret None)\<rparr>"

lemma holds_seq_empty: "holds_seq (int_elem sample_table) []"
  using sample_ok(3) number_key_proper by (auto simp: holds_seq_def int_elem_def is_int_def INT_MAX_def)

lemma holds_seq_append:
  assumes "tab_ok H t" "holds_seq (int_elem t) xs" "v \<noteq> LNil" "int (length xs) + 1 < INT_MAX"
    "lua_rawseti H t (int (length xs) + 1) v = Inr t'"
  shows "tab_ok H t' \<and> holds_seq (int_elem t') (xs @ [v])"
proof -
  have i: "is_int (int (length xs) + 1)" using assms(4) by (simp add: is_int_pos)
  have "holds_seq ((int_elem t)(int (length xs) + 1 := v)) (xs @ [v])"
    using holds_seq_insert [OF assms(2,3) order_refl assms(4)] by simp
  then show ?thesis using rawseti_elem [OF assms(1) i assms(5)] by metis
qed

lemma rawseti_array:
  assumes "1 \<le> i" "i \<le> int (sizearray t)" "i \<le> INT_MAX"
  shows "lua_rawseti H t i v = Inr (t\<lparr>arr := (arr t)[nat (i - 1) := v]\<rparr>)"
  using assms by (simp add: lua_rawseti_def luaH_setnum_def luaH_setnum_with_def luaH_getnum_def tbind_def INT_MAX_def)

lemma two_numbers_ok:
  "tab_ok no_hash two_numbers \<and> holds_seq (int_elem two_numbers) [LNumber (cast_num 2), LNumber (cast_num 1)]"
proof -
  let ?v = "LNumber (cast_num 2)" and ?w = "LNumber (cast_num 1)"
  define t1 where "t1 = sample_table\<lparr>arr := [?v, LNil]\<rparr>"
  have a: "arr sample_table = [LNil, LNil]" by code_simp
  have 1: "lua_rawseti no_hash sample_table (int (length []) + 1) ?v = Inr t1"
    using rawseti_array [of 1 sample_table] by (simp add: a sizearray_def t1_def INT_MAX_def)
  have 2: "lua_rawseti no_hash t1 (int (length [?v]) + 1) ?w = Inr two_numbers"
    using rawseti_array [of 2 t1] by (simp add: sizearray_def t1_def two_numbers_def INT_MAX_def)
  have "tab_ok no_hash t1 \<and> holds_seq (int_elem t1) ([] @ [?v])"
    by (rule holds_seq_append [OF sample_ok(2) holds_seq_empty _ _ 1]) (simp_all add: INT_MAX_def)
  then have s: "tab_ok no_hash t1" "holds_seq (int_elem t1) [?v]" by simp_all
  have "tab_ok no_hash two_numbers \<and> holds_seq (int_elem two_numbers) ([?v] @ [?w])"
    by (rule holds_seq_append [OF s _ _ 2]) (simp_all add: INT_MAX_def)
  then show ?thesis by simp
qed

theorem table_sort_sorts_witness:
  "\<exists>t' ys. tsort (table_ops no_hash) sample_env (\<lambda>f vs. lret LNil) 3 [LTable 0] two_numbers = Inr ([], t')
    \<and> tab_ok no_hash t' \<and> holds_seq (int_elem t') ys
    \<and> mset ys = mset [LNumber (cast_num 2), LNumber (cast_num 1)]
    \<and> sorted_wrt (\<lambda>x y. \<not> number_less y x) ys"
proof (rule table_sort_sorts)
  let ?xs = "[LNumber (cast_num 2), LNumber (cast_num 1)]"
  have s: "set ?xs \<subseteq> proper_numbers"
    using cast_num_not_nan [of 2] cast_num_not_nan [of 1] by (simp add: proper_numbers_def)
  show "weak_order (set ?xs) number_less" by (rule weak_order_subset [OF number_weak_order s])
  show "\<forall>x \<in> set ?xs. \<forall>y \<in> set ?xs. \<forall>t.
      sort_comp sample_env (\<lambda>f vs. lret LNil) (arg [LTable 0] 2) x y t = Inr (number_less x y, t)"
  proof (intro ballI allI)
    fix x y t assume "x \<in> set ?xs" "y \<in> set ?xs"
    then have "luaV_lessthan sample_env x y t = Inr (number_less x y, t)" by (intro number_sort.lt_law subsetD [OF s])
    moreover have "arg [LTable 0] 2 = LNil" by (simp add: arg_def index2adr_def)
    ultimately show "sort_comp sample_env (\<lambda>f vs. lret LNil) (arg [LTable 0] 2) x y t = Inr (number_less x y, t)"
      by (simp add: sort_comp_def)
  qed
qed (use two_numbers_ok in \<open>simp_all add: lua_type_def index2adr_def lua_isnoneornil_def LUA_TTABLE_def LUA_TNONE_def\<close>)

text \<open>
  C30: \<open>table.insert\<close> puts the value before the given position of a sequence, or at its end, and
  \<open>table.remove\<close> at that position returns it and restores the sequence.
\<close>

theorem table_insert_remove:
  assumes "tab_ok H t" "holds_seq (int_elem t) xs" "live_total t < 2 ^ MAXBITS"
    and "v \<noteq> LNil" "k \<le> length xs" "int (length xs) + 1 < INT_MAX"
  shows "\<exists>t' t''. tinsert (table_ops H) E [LTable p, LNumber (cast_num (int k + 1)), v] t = Inr ([], t')
    \<and> tab_ok H t' \<and> holds_seq (int_elem t') (take k xs @ v # drop k xs)
    \<and> tremove (table_ops H) E [LTable p, LNumber (cast_num (int k + 1))] t' = Inr ([v], t'')
    \<and> tab_ok H t'' \<and> holds_seq (int_elem t'') xs"
proof -
  let ?a = "[LTable p, LNumber (cast_num (int k + 1)), v]" and ?b = "[LTable p, LNumber (cast_num (int k + 1))]"
  let ?ys = "take k xs @ v # drop k xs"
  have k: "INT_MIN \<le> int k + 1" "int k + 1 \<le> INT_MAX" using assms(5,6) by (simp_all add: INT_MIN_def)
  have ty: "lua_type ?a 1 = LUA_TTABLE" "lua_type ?b 1 = LUA_TTABLE"
    by (simp_all add: lua_type_def index2adr_def LUA_TTABLE_def)
  have "luaL_checkint E ?a 2 t = Inr (int k + 1, t)"
    by (rule checkint_number [OF _ k]) (simp add: arg_def index2adr_def)
  then have "runs (tinsert (table_ops H) E ?a) t (\<lambda>r t'. r = [] \<and> tab_ok H t' \<and> holds_seq (int_elem t') ?ys)"
    using assms by (intro tab.tinsert_runs [where v = v and k = k and xs = xs] ty)
      (auto simp: arg_def index2adr_def)
  then obtain t' where t': "tinsert (table_ops H) E ?a t = Inr ([], t')" "tab_ok H t'" "holds_seq (int_elem t') ?ys"
    by (auto simp: runs_def)
  have "luaL_optint E ?b 2 n t' = luaL_checkint E ?b 2 t'" for n
    by (simp add: luaL_optint_def luaL_optinteger_def luaL_checkint_def lua_isnoneornil_def lua_type_def index2adr_def)
  also have "\<dots> = Inr (int k + 1, t')"
    by (rule checkint_number [OF _ k]) (simp add: arg_def index2adr_def)
  finally have "runs (tremove (table_ops H) E ?b) t' (\<lambda>r t''. r = [?ys ! k] \<and> tab_ok H t''
      \<and> holds_seq (int_elem t'') (take k ?ys @ drop (Suc k) ?ys))"
    using t' assms(5) by (intro tab.tremove_runs [where xs = "?ys"] ty) auto
  then show ?thesis using t' assms(5) by (auto simp: runs_def nth_append)
qed

lemma live_total_le: "live_total t \<le> sizearray t + sizenode t"
proof -
  have "live_upto (arr t) (sizearray t) \<subseteq> {1..sizearray t}" by (auto simp: live_upto_def)
  from card_mono [OF _ this] have "card (live_upto (arr t) (sizearray t)) \<le> sizearray t" by simp
  moreover have "live_nodes (node t) (sizenode t) \<subseteq> {..<sizenode t}" by (auto simp: live_nodes_def)
  from card_mono [OF _ this] have "card (live_nodes (node t) (sizenode t)) \<le> sizenode t" by simp
  ultimately show ?thesis by (simp add: live_total_def)
qed

theorem table_insert_remove_witness:
  "\<exists>t' t''. tinsert (table_ops no_hash) sample_env [LTable 0, LNumber (cast_num (int 0 + 1)), LBoolean True] sample_table
      = Inr ([], t')
    \<and> tab_ok no_hash t' \<and> holds_seq (int_elem t') (take 0 [] @ LBoolean True # drop 0 [])
    \<and> tremove (table_ops no_hash) sample_env [LTable 0, LNumber (cast_num (int 0 + 1))] t' = Inr ([LBoolean True], t'')
    \<and> tab_ok no_hash t'' \<and> holds_seq (int_elem t'') []"
proof (rule table_insert_remove [OF sample_ok(2) holds_seq_empty])
  have "sizearray sample_table = 2" "sizenode sample_table = 2" by code_simp+
  with live_total_le [of sample_table] show "live_total sample_table < 2 ^ MAXBITS" by (simp add: MAXBITS_def)
qed (simp_all add: INT_MAX_def)

text \<open>
  C31: \<open>table.concat\<close> of a sequence of strings and numbers is their texts with the separator
  between them.
\<close>

theorem table_concat_joins:
  assumes "tab_ok H t" "holds_seq (int_elem t) xs" "\<forall>x \<in> set xs. lua_isstring x"
  shows "tconcat (table_ops H) E [LTable p, LString s] t
    = Inr (join (svalue E s) (map (\<lambda>x. the (lua_tolstring E x)) xs), t)"
proof -
  have a: "lua_type [LTable p, LString s] 1 = LUA_TTABLE"
    by (simp add: lua_type_def index2adr_def LUA_TTABLE_def)
  have "luaL_optlstring E [LTable p, LString s] 2 [] t = Inr (svalue E s, t)"
    by (simp add: luaL_optlstring_def luaL_checklstring_def lua_isnoneornil_def lua_type_def index2adr_def
        lua_tolstring_def arg_def)
  from tab.tconcat_runs [OF assms a _ this, of "\<lambda>r t'. r = join (svalue E s) (map (\<lambda>x. the (lua_tolstring E x)) xs) \<and> t' = t"]
  show ?thesis by (simp add: runs_def)
qed

theorem table_concat_joins_witness:
  "tconcat (table_ops no_hash) (sample_env\<lparr>svalue := (\<lambda>p. [44]), number2str := (\<lambda>n. [49])\<rparr>) [LTable 0, LString 0] two_numbers
    = Inr ([49, 44, 49], two_numbers)"
proof -
  note two = conjunct1 [OF two_numbers_ok] conjunct2 [OF two_numbers_ok]
  from table_concat_joins [OF two, of "sample_env\<lparr>svalue := (\<lambda>p. [44]), number2str := (\<lambda>n. [49])\<rparr>" 0 0]
  show ?thesis by (simp add: lua_isstring_def LUA_TSTRING_def LUA_TNUMBER_def lua_tolstring_def luaV_tostring_def c_text_def)
qed

text \<open>An order function that answers \<open>a <= b\<close>, with nil as the greatest value.\<close>

definition rank :: "TValue \<Rightarrow> nat" where
  "rank v = (case v of LBoolean False \<Rightarrow> 1 | LLightUserdata p \<Rightarrow> 2 | LBoolean True \<Rightarrow> 3 | _ \<Rightarrow> 4)"

definition call_le :: "Table callback" where
  "call_le f vs = lret (LBoolean (rank (vs ! 0) \<le> rank (vs ! 1)))"

definition four_values :: Table where
  "four_values = \<lparr>flags = 0, metatable = None, lsizenode = 0,
     arr = [LBoolean False, LBoolean True, LLightUserdata 0, LBoolean True, LNil, LNil],
     node = [dummynode], dummy = True, lastfree = 0\<rparr>"

text \<open>
  An example of an order function that is not strict: the check for an invalid order comes one
  element too late. With it, \<open>table.sort\<close> of four values writes the fifth slot of the array, returns without
  an error, and leaves a hole in the sequence.
\<close>

lemma table_sort_writes_beyond:
  "luaH_getn four_values = Inr 4
   \<and> tsort (table_ops no_hash) sample_env call_le 10 [LTable 0, LFunction 0] four_values
     = Inr ([], four_values\<lparr>arr := [LBoolean False, LLightUserdata 0, LBoolean True, LNil, LBoolean True, LNil]\<rparr>)"
proof
  show "luaH_getn four_values = Inr 4" by code_simp
  show "tsort (table_ops no_hash) sample_env call_le 10 [LTable 0, LFunction 0] four_values
     = Inr ([], four_values\<lparr>arr := [LBoolean False, LLightUserdata 0, LBoolean True, LNil, LBoolean True, LNil]\<rparr>)"
    by code_simp
qed

end
