(* ===== verification/Sandbox.thy ===== *)
theory Sandbox
  imports Buffers Lexer Tablib_Props
begin

text \<open>
  The sandbox that runs the scripts of the bot's users (\<open>plugins/lua/sandbox.c\<close>). It changes into
  a temporary directory, makes it its root, gives up its user and group and limits its resources; then
  it runs the script with a \<open>print\<close> that collects the output in a table, and writes the output, or
  the message of the error, to its standard output.

  The calls of the operating system are a parameter, the record \<open>kernel\<close> on worlds \<open>'w\<close>; so are the loader,
  the interpreter and the call of a metamethod, in the record \<open>sandbox\<close> on Lua states \<open>'t\<close>. A Lua
  state lives in the process that creates it: \<open>newstate w\<close> is the state that \<open>main\<close> sets up in the world \<open>w\<close>,
  and what a script does to the world is part of what it does to that state.
\<close>

section \<open>Confinement\<close>

datatype syscall =
    Chdir string | Chroot string | Setgid int | Setuid int
  | SignalXCPU | SetrlimitCPU nat nat | SetrlimitAS nat nat

text \<open>A call returns 0 when it succeeds; \<open>getpwnam\<close> gives the group and the user.\<close>

record 'w kernel =
  syscall :: "syscall \<Rightarrow> 'w \<Rightarrow> int \<times> 'w"
  getpwnam :: "string \<Rightarrow> 'w \<Rightarrow> (int \<times> int) option \<times> 'w"

text \<open>A call whose failure ends \<open>main\<close> with the status 1 and a message.\<close>

definition attempt :: "'w kernel \<Rightarrow> syscall \<Rightarrow> string \<Rightarrow> ('w \<Rightarrow> (string + 'a) \<times> 'w) \<Rightarrow> 'w \<Rightarrow> (string + 'a) \<times> 'w" where
  "attempt K c msg next_step w =
    (let (r, w) = syscall K c w in if r \<noteq> 0 then (Inl msg, w) else next_step w)"

text \<open>The result of \<open>signal\<close> is not tested.\<close>

definition ignore_result :: "'w kernel \<Rightarrow> syscall \<Rightarrow> ('w \<Rightarrow> (string + 'a) \<times> 'w) \<Rightarrow> 'w \<Rightarrow> (string + 'a) \<times> 'w" where
  "ignore_result K c next_step w = (let (r, w) = syscall K c w in next_step w)"

text \<open>The first part of \<open>main\<close>: the message with which it gives up, or the script to run.\<close>

definition confine :: "'w kernel \<Rightarrow> string list \<Rightarrow> 'w \<Rightarrow> (string + string) \<times> 'w" where
  "confine K argv w =
    (if length argv \<noteq> 4 then (Inl [], w)
     else
       let tmpdir = argv ! 1; username = argv ! 2; code = argv ! 3;
           (userinfo, w) = getpwnam K username w
       in case userinfo of
          None \<Rightarrow> (Inl ''sandbox: getpwnam failed\<newline>'', w)
        | Some (pw_gid, pw_uid) \<Rightarrow>
            attempt K (Chdir tmpdir) ''sandbox: failed to chdir into temporary dir\<newline>''
            (attempt K (Chroot ''.'') ''sandbox: failed to chroot into temporary dir\<newline>''
            (attempt K (Setgid pw_gid) ''sandbox: setgid failed\<newline>''
            (attempt K (Setuid pw_uid) ''sandbox: setuid failed\<newline>''
            (ignore_result K SignalXCPU
            (attempt K (SetrlimitCPU 1 2) ''sandbox: setrlimit for cpu failed\<newline>''
            (attempt K (SetrlimitAS 10000000 20000000) ''sandbox: setrlimit for memory falise\<newline>''
            (\<lambda>w. (Inr code, w)))))))) w)"

section \<open>Output\<close>

text \<open>
  \<open>callmeta\<close> is \<open>luaL_callmeta\<close>, \<open>pointer_text\<close> the \<open>%p\<close> of a value; \<open>loadstring\<close> gives what
  \<open>luaL_loadstring\<close> leaves on the stack, the function of the script or a message; \<open>pcall\<close> calls
  that value without arguments and gives its results or the error object.
\<close>

record 't sandbox =
  lua :: "'t cenv"
  out_ops :: "'t arr_ops"
  callmeta :: "string \<Rightarrow> TValue \<Rightarrow> ('t, lerr, TValue option) action"
  pointer_text :: "TValue \<Rightarrow> byte list"
  loadstring :: "string \<Rightarrow> TValue"
  pcall :: "TValue \<Rightarrow> 't \<Rightarrow> (TValue + TValue list) \<times> 't"

definition tostring :: "'t sandbox \<Rightarrow> TValue \<Rightarrow> ('t, lerr, TValue) action" where
  "tostring S v = lbind (callmeta S ''__tostring'' v) (\<lambda>r. case r of
     Some x \<Rightarrow> lret x
   | None \<Rightarrow> lret (case v of
       LNumber n \<Rightarrow> newstring (lua S) (the (text_of (lua S) v))
     | LString p \<Rightarrow> v
     | LBoolean b \<Rightarrow> newstring (lua S) (bytes (if b then ''true'' else ''false''))
     | LNil \<Rightarrow> newstring (lua S) (bytes ''nil'')
     | _ \<Rightarrow> newstring (lua S) (bytes (lua_typename (int (ttype v)) @ '': '') @ pointer_text S v)))"

text \<open>
  The loop over the values, in \<open>printfunc\<close> and for the results in \<open>main\<close>: \<open>len\<close> is read once for
  the two entries.
\<close>

fun print_values :: "'t sandbox \<Rightarrow> TValue list \<Rightarrow> ('t, lerr, unit) action" where
  "print_values S [] = lret ()"
| "print_values S (v # vs) =
     lbind (tostring S v) (\<lambda>x.
     lbind (luaL_getn (out_ops S)) (\<lambda>len.
     lseq (rawseti (out_ops S) (to_int (len + 1)) x)
     (lseq (rawseti (out_ops S) (to_int (len + 2)) (newstring (lua S) (if vs = [] then [10] else [32])))
       (print_values S vs))))"

definition printfunc :: "'t sandbox \<Rightarrow> args \<Rightarrow> ('t, lerr, unit) action" where
  "printfunc S a = print_values S a"

fun collect_loop :: "'t sandbox \<Rightarrow> nat \<Rightarrow> int \<Rightarrow> luaL_Buffer \<Rightarrow> ('t, lerr, luaL_Buffer) action" where
  "collect_loop S 0 i B = lret B"
| "collect_loop S (Suc n) i B =
     lbind (rawgeti (out_ops S) (to_int i)) (\<lambda>v.
     lbind (luaL_addvalue (lua S) (B\<lparr>bstk := v # bstk B\<rparr>)) (collect_loop S n (i + 1)))"

definition collect :: "'t sandbox \<Rightarrow> ('t, lerr, TValue) action" where
  "collect S =
    lbind (luaL_getn (out_ops S)) (\<lambda>count.
    lbind (collect_loop S (nat count) 1 (luaL_buffinit [])) (\<lambda>B.
    lbind (luaL_pushresult (lua S) B) (\<lambda>B. lret (hd (bstk B)))))"

text \<open>
  What is written to the standard output: \<^term>\<open>None\<close> if an error reaches the panic function, because
  \<open>tostring\<close> of a result and the collection run outside \<open>lua_pcall\<close>.
\<close>

definition run_script :: "'t sandbox \<Rightarrow> string \<Rightarrow> 't \<Rightarrow> byte list option" where
  "run_script S code t =
    (let outstr = (\<lambda>v. case text_of (lua S) v of Some b \<Rightarrow> b | None \<Rightarrow> [])
     in case pcall S (loadstring S code) t of
          (Inl err, t) \<Rightarrow> Some (outstr err)
        | (Inr rs, t) \<Rightarrow>
            (case lseq (print_values S rs) (collect S) t of
               Inl e \<Rightarrow> None
             | Inr (v, t) \<Rightarrow> Some (outstr v)))"

section \<open>The program\<close>

text \<open>The message of the panic function also has the error in parentheses.\<close>

record outcome =
  status :: int
  sout :: "byte list"
  serr :: string

definition EXIT_FAILURE :: int where "EXIT_FAILURE = 1"

definition finish :: "byte list option \<Rightarrow> outcome" where
  "finish r = (case r of
     None \<Rightarrow> \<lparr>status = EXIT_FAILURE, sout = [], serr = ''PANIC: unprotected error in call to Lua API''\<rparr>
   | Some out \<Rightarrow> \<lparr>status = 0, sout = out, serr = []\<rparr>)"

text \<open>The Lua state is created, and the script runs in it, in the world that the calls have left.\<close>

definition sandbox_main :: "'w kernel \<Rightarrow> 't sandbox \<Rightarrow> ('w \<Rightarrow> 't) \<Rightarrow> string list \<Rightarrow> 'w \<Rightarrow> outcome" where
  "sandbox_main K S newstate argv w = (case confine K argv w of
     (Inl msg, w) \<Rightarrow> \<lparr>status = 1, sout = [], serr = msg\<rparr>
   | (Inr code, w) \<Rightarrow> finish (run_script S code (newstate w)))"

section \<open>What the kernel promises\<close>

text \<open>The attributes of a process; paths are those of the system.\<close>

record process =
  ruid :: int
  euid :: int
  suid :: int
  rgid :: int
  egid :: int
  sgid :: int
  groups :: "int list"
  cwd :: string
  rootdir :: string
  cpu_limit :: "(nat \<times> nat) option"
  as_limit :: "(nat \<times> nat) option"
  handles_xcpu :: bool

definition absolute :: "process \<Rightarrow> string \<Rightarrow> string" where
  "absolute p d =
    (if d \<noteq> [] \<and> hd d = CHR ''/'' then rootdir p @ d
     else if d = ''.'' then cwd p else cwd p @ ''/'' @ d)"

text \<open>The documented effect of a call that succeeds: for \<open>setuid\<close> and \<open>setgid\<close> it depends on the privileges.\<close>

fun effect :: "syscall \<Rightarrow> process \<Rightarrow> process" where
  "effect (Chdir d) p = p\<lparr>cwd := absolute p d\<rparr>"
| "effect (Chroot d) p = p\<lparr>rootdir := absolute p d\<rparr>"
| "effect (Setgid g) p = (if euid p = 0 then p\<lparr>rgid := g, egid := g, sgid := g\<rparr> else p\<lparr>egid := g\<rparr>)"
| "effect (Setuid u) p = (if euid p = 0 then p\<lparr>ruid := u, euid := u, suid := u\<rparr> else p\<lparr>euid := u\<rparr>)"
| "effect SignalXCPU p = p\<lparr>handles_xcpu := True\<rparr>"
| "effect (SetrlimitCPU a b) p = p\<lparr>cpu_limit := Some (a, b)\<rparr>"
| "effect (SetrlimitAS a b) p = p\<lparr>as_limit := Some (a, b)\<rparr>"

fun permitted :: "syscall \<Rightarrow> process \<Rightarrow> bool" where
  "permitted (Chroot d) p \<longleftrightarrow> euid p = 0"
| "permitted (Setgid g) p \<longleftrightarrow> euid p = 0 \<or> g = rgid p \<or> g = sgid p"
| "permitted (Setuid u) p \<longleftrightarrow> euid p = 0 \<or> u = ruid p \<or> u = suid p"
| "permitted c p \<longleftrightarrow> True"

text \<open>\<open>P\<close> observes the process; a call that fails changes nothing.\<close>

definition posix_like :: "'w kernel \<Rightarrow> ('w \<Rightarrow> process) \<Rightarrow> bool" where
  "posix_like K P \<longleftrightarrow>
     (\<forall>c w. case syscall K c w of (r, w') \<Rightarrow>
        if r = 0 then permitted c (P w) \<and> P w' = effect c (P w) else P w' = P w)
     \<and> (\<forall>n w. P (snd (getpwnam K n w)) = P w)"

lemma attempt_succeeds:
  assumes "posix_like K P" "attempt K c msg f w = (Inr x, w')"
  obtains w1 where "f w1 = (Inr x, w')" "permitted c (P w)" "P w1 = effect c (P w)"
proof -
  obtain r w1 where r: "syscall K c w = (r, w1)" by fastforce
  with assms(2) have "r = 0" "f w1 = (Inr x, w')" by (auto simp: attempt_def split: if_splits)
  moreover have "if r = 0 then permitted c (P w) \<and> P w1 = effect c (P w) else P w1 = P w"
    using assms(1) r by (auto simp: posix_like_def split: prod.splits)
  ultimately show thesis using that by simp
qed

lemma ignore_result_continues:
  assumes "posix_like K P" "ignore_result K c f w = (Inr x, w')"
  obtains w1 where "f w1 = (Inr x, w')" "P w1 = effect c (P w) \<or> P w1 = P w"
proof -
  obtain r w1 where r: "syscall K c w = (r, w1)" by fastforce
  with assms(2) have "f w1 = (Inr x, w')" by (simp add: ignore_result_def)
  moreover have "if r = 0 then permitted c (P w) \<and> P w1 = effect c (P w) else P w1 = P w"
    using assms(1) r by (auto simp: posix_like_def split: prod.splits)
  ultimately show thesis using that by (auto split: if_splits)
qed

text \<open>
  The process in which a script runs. The supplementary groups are not in the list of what changes: \<open>main\<close>
  never calls \<open>setgroups\<close>, so that they are still those of the caller.
\<close>

definition confined :: "process \<Rightarrow> string \<Rightarrow> int \<Rightarrow> int \<Rightarrow> bool \<Rightarrow> process" where
  "confined p dir gid uid h = p\<lparr>
     ruid := uid, euid := uid, suid := uid, rgid := gid, egid := gid, sgid := gid,
     cwd := absolute p dir, rootdir := absolute p dir,
     cpu_limit := Some (1, 2), as_limit := Some (10000000, 20000000), handles_xcpu := h\<rparr>"

lemma effects_confined:
  assumes "permitted (Chroot ''.'') p1" "p1 = effect (Chdir dir) p" "p2 = effect (Chroot ''.'') p1"
    "p3 = effect (Setgid gid) p2" "p4 = effect (Setuid uid) p3" "p5 = effect SignalXCPU p4 \<or> p5 = p4"
    "p6 = effect (SetrlimitCPU 1 2) p5" "p7 = effect (SetrlimitAS 10000000 20000000) p6"
  shows "p7 = confined p dir gid uid (handles_xcpu p5)"
proof -
  have "euid p = 0" using assms(1,2) by simp
  then have "p3 = p\<lparr>cwd := absolute p dir, rootdir := absolute p dir, rgid := gid, egid := gid, sgid := gid\<rparr>" "euid p3 = 0"
    unfolding assms(2-4) by (simp_all add: absolute_def)
  then have "p4 = p\<lparr>cwd := absolute p dir, rootdir := absolute p dir, rgid := gid, egid := gid, sgid := gid,
      ruid := uid, euid := uid, suid := uid\<rparr>" unfolding assms(5) by simp
  with assms(6) show ?thesis unfolding assms(7,8) by (elim disjE) (simp_all add: confined_def)
qed

lemma confine_succeeds:
  assumes "posix_like K P" "confine K argv w = (Inr code, w')"
  shows "\<exists>a dir user gid uid h. argv = [a, dir, user, code] \<and> fst (getpwnam K user w) = Some (gid, uid)
    \<and> P w' = confined (P w) dir gid uid h"
proof -
  from assms(2) have "length argv = 4" by (auto simp: confine_def split: if_splits)
  then obtain a dir user c where argv: "argv = [a, dir, user, c]" by (auto simp: numeral_eq_Suc length_Suc_conv)
  obtain r w0 where g: "getpwnam K user w = (r, w0)" by fastforce
  have p0: "P w0 = P w" using assms(1) g by (metis posix_like_def snd_conv)
  from assms(2) argv g obtain gid uid where r: "r = Some (gid, uid)"
    by (auto simp: confine_def split: option.splits)
  define steps where "steps = attempt K (Chdir dir) ''sandbox: failed to chdir into temporary dir\<newline>''
            (attempt K (Chroot ''.'') ''sandbox: failed to chroot into temporary dir\<newline>''
            (attempt K (Setgid gid) ''sandbox: setgid failed\<newline>''
            (attempt K (Setuid uid) ''sandbox: setuid failed\<newline>''
            (ignore_result K SignalXCPU
            (attempt K (SetrlimitCPU 1 2) ''sandbox: setrlimit for cpu failed\<newline>''
            (attempt K (SetrlimitAS 10000000 20000000) ''sandbox: setrlimit for memory falise\<newline>''
            (\<lambda>w. (Inr c, w))))))))"
  have "steps w0 = (Inr code, w')"
    using assms(2) argv g r by (simp add: confine_def steps_def)
  then have "\<exists>h. c = code \<and> P w' = confined (P w0) dir gid uid h"
    unfolding steps_def
  proof (elim attempt_succeeds [OF assms(1)] ignore_result_continues [OF assms(1)])
    fix w1 w2 w3 w4 w5 w6 w7
    assume p: "P w1 = effect (Chdir dir) (P w0)" "permitted (Chroot ''.'') (P w1)" "P w2 = effect (Chroot ''.'') (P w1)"
      "P w3 = effect (Setgid gid) (P w2)" "P w4 = effect (Setuid uid) (P w3)"
      "P w5 = effect SignalXCPU (P w4) \<or> P w5 = P w4" "P w6 = effect (SetrlimitCPU 1 2) (P w5)"
      "P w7 = effect (SetrlimitAS 10000000 20000000) (P w6)"
    assume "(Inr c, w7) = (Inr code, w')"
    then show ?thesis using effects_confined [OF p(2,1,3-8)] by blast
  qed
  then show ?thesis using argv g r p0 by auto
qed

text \<open>
  The calls of \<open>main\<close> before the Lua state is created, in their order; \<open>completes\<close> tells whether each of
  them succeeds in the world that those before it have left. Only that of \<open>signal\<close> may fail.
\<close>

definition confining_calls :: "string \<Rightarrow> int \<Rightarrow> int \<Rightarrow> syscall list" where
  "confining_calls dir gid uid =
    [Chdir dir, Chroot ''.'', Setgid gid, Setuid uid, SignalXCPU, SetrlimitCPU 1 2, SetrlimitAS 10000000 20000000]"

fun completes :: "'w kernel \<Rightarrow> syscall list \<Rightarrow> 'w \<Rightarrow> bool" where
  "completes K [] w \<longleftrightarrow> True"
| "completes K (c # cs) w \<longleftrightarrow> (fst (syscall K c w) = 0 \<or> c = SignalXCPU) \<and> completes K cs (snd (syscall K c w))"

lemma attempt_isl: "isl (fst (attempt K c msg f w)) \<longleftrightarrow> fst (syscall K c w) = 0 \<longrightarrow> isl (fst (f (snd (syscall K c w))))"
  by (simp add: attempt_def split: prod.splits)

lemma ignore_result_isl: "isl (fst (ignore_result K c f w)) \<longleftrightarrow> isl (fst (f (snd (syscall K c w))))"
  by (simp add: ignore_result_def split: prod.splits)

lemma confine_completes:
  assumes "getpwnam K user w = (Some (gid, uid), w0)"
  shows "isl (fst (confine K [a, dir, user, code] w)) \<longleftrightarrow> \<not> completes K (confining_calls dir gid uid) w0"
  using assms by (simp add: confine_def confining_calls_def attempt_isl ignore_result_isl) blast

section \<open>A script runs only in a confined process\<close>

text \<open>
  C37: a script runs only in a process that has given up its user and its group. If the arguments are as
  they should be, the user is known and each of the calls before the script succeeds, then the Lua
  state is created, and the script runs, in a world where the process has the real, effective and
  saved user and group of the given name, the temporary directory as its root and its working
  directory, and the limits for processor time and memory. (The supplementary groups are kept.)
  Otherwise \<open>main\<close> ends with the status 1 and no output before any Lua state exists: the result is the
  same whatever the interpreter and the script would do.
\<close>

theorem sandbox_runs_confined:
  assumes "posix_like K P"
  shows "if \<exists>a dir user code gid uid w0. argv = [a, dir, user, code] \<and> getpwnam K user w = (Some (gid, uid), w0)
           \<and> completes K (confining_calls dir gid uid) w0
         then \<exists>a dir user code gid uid h w1. argv = [a, dir, user, code]
           \<and> fst (getpwnam K user w) = Some (gid, uid) \<and> P w1 = confined (P w) dir gid uid h
           \<and> (\<forall>(S :: 't sandbox) newstate. sandbox_main K S newstate argv w = finish (run_script S code (newstate w1)))
         else \<exists>msg. \<forall>(S :: 't sandbox) newstate.
           sandbox_main K S newstate argv w = \<lparr>status = 1, sout = [], serr = msg\<rparr>"
    (is "if ?ready then ?runs else ?stops")
proof -
  obtain r w1 where c: "confine K argv w = (r, w1)" by fastforce
  show ?thesis
  proof (cases r)
    case (Inl msg)
    with c have "\<not> ?ready" using confine_completes by (metis fst_conv isl_def)
    moreover have ?stops using c Inl by (simp add: sandbox_main_def)
    ultimately show ?thesis by (simp only: if_False)
  next
    case (Inr code)
    from confine_succeeds [OF assms c [unfolded Inr]] obtain a dir user gid uid h where
      s: "argv = [a, dir, user, code]" "fst (getpwnam K user w) = Some (gid, uid)" "P w1 = confined (P w) dir gid uid h" by blast
    moreover have "\<forall>(S :: 't sandbox) newstate. sandbox_main K S newstate argv w = finish (run_script S code (newstate w1))"
      using c Inr by (simp add: sandbox_main_def)
    ultimately have ?runs by blast
    moreover have ?ready
      using s confine_completes c Inr by (metis prod.collapse fst_conv isl_def sum.disc(2))
    ultimately show ?thesis by (simp only: if_True)
  qed
qed

text \<open>A kernel whose world is the process.\<close>

definition posix :: "process kernel" where
  "posix = \<lparr>syscall = (\<lambda>c p. if permitted c p then (0, effect c p) else (-1, p)),
     getpwnam = (\<lambda>n p. (if n = ''nobody'' then Some (65533, 65534) else None, p))\<rparr>"

lemma posix_posix_like: "posix_like posix id"
  by (auto simp: posix_like_def posix_def)

definition quiet :: "Table sandbox" where
  "quiet = \<lparr>
     lua = \<lparr>svalue = (\<lambda>p. [[], [97], [10], [97, 10]] ! unat p), vlibc = \<lparr>strtod = (\<lambda>s. (0, 0)), strtoul = (\<lambda>s. (0, 0))\<rparr>,
       strcoll = strcmp, number2str = (\<lambda>n. []), call_orderTM = (\<lambda>e x y. lret None),
       intern = (\<lambda>b. word_of_nat (length (takeWhile (\<lambda>c. c \<noteq> b) [[], [97], [10], [97, 10]]))), concatTM = (\<lambda>x y. lret None)\<rparr>,
     out_ops = table_ops no_hash, callmeta = (\<lambda>e v. lret None), pointer_text = (\<lambda>v. []),
     loadstring = (\<lambda>c. LFunction 0), pcall = (\<lambda>f t. (Inl (LString 1), t))\<rparr>"

definition root_process :: process where
  "root_process = \<lparr>ruid = 0, euid = 0, suid = 0, rgid = 0, egid = 0, sgid = 0, groups = [0], cwd = ''/srv'',
     rootdir = [], cpu_limit = None, as_limit = None, handles_xcpu = False\<rparr>"

text \<open>A script that writes whether it runs as the user 65534 below \<open>/tmp\<close>: the Lua state is the process.\<close>

definition snoop :: "process sandbox" where
  "snoop = \<lparr>
     lua = \<lparr>svalue = (\<lambda>p. if p = 1 then [97] else [98]), vlibc = \<lparr>strtod = (\<lambda>s. (0, 0)), strtoul = (\<lambda>s. (0, 0))\<rparr>,
       strcoll = strcmp, number2str = (\<lambda>n. []), call_orderTM = (\<lambda>e x y. lret None), intern = (\<lambda>b. 0),
       concatTM = (\<lambda>x y. lret None)\<rparr>,
     out_ops = \<lparr>op_getn = (\<lambda>p. Inr 0), op_geti = (\<lambda>p i. Inr LNil), op_seti = (\<lambda>p i v. Inr p), op_next = (\<lambda>p k. Inr None)\<rparr>,
     callmeta = (\<lambda>e v. lret None), pointer_text = (\<lambda>v. []), loadstring = (\<lambda>c. LFunction 0),
     pcall = (\<lambda>f p. (Inl (if euid p = 65534 \<and> rootdir p = ''/tmp'' then LString 1 else LString 2), p))\<rparr>"

theorem sandbox_runs_confined_witness:
  "sandbox_main posix snoop id [''sandbox'', ''/tmp'', ''nobody'', ''x''] root_process = \<lparr>status = 0, sout = [97], serr = []\<rparr>"
proof -
  let ?argv = "[''sandbox'', ''/tmp'', ''nobody'', ''x'']"
  have u: "getpwnam posix ''nobody'' root_process = (Some (65533, 65534), root_process)" by (simp add: posix_def)
  have "completes posix (confining_calls ''/tmp'' 65533 65534) root_process"
    by (simp add: confining_calls_def posix_def root_process_def absolute_def)
  with u have "\<exists>a dir user code gid uid w0. ?argv = [a, dir, user, code]
      \<and> getpwnam posix user root_process = (Some (gid, uid), w0) \<and> completes posix (confining_calls dir gid uid) w0" by blast
  note runs = sandbox_runs_confined [OF posix_posix_like, of ?argv root_process, unfolded if_P [OF this]]
  then obtain a dir user code gid uid h w1 where
    v: "?argv = [a, dir, user, code]" "fst (getpwnam posix user root_process) = Some (gid, uid)"
      "id w1 = confined (id root_process) dir gid uid h"
    and m: "\<And>(S :: process sandbox) newstate.
      sandbox_main posix S newstate ?argv root_process = finish (run_script S code (newstate w1))"
    by (elim exE conjE) blast
  then have "dir = ''/tmp''" "uid = 65534" "code = ''x''" using u by simp_all
  with v(3) have w1: "w1 = confined root_process ''/tmp'' gid 65534 h" by simp
  have m: "sandbox_main posix snoop id ?argv root_process = finish (run_script snoop code w1)" using m by simp
  have "euid w1 = 65534" "rootdir w1 = ''/tmp''"
    by (simp_all add: w1 confined_def absolute_def root_process_def)
  then show ?thesis
    unfolding m by (simp add: finish_def run_script_def snoop_def text_of_def lua_tolstring_def venv.defs)
qed

section \<open>A table that only grows\<close>

text \<open>
  What \<open>print\<close> needs of its table: the table holds a list of values, up to \<open>cap\<close> of them, that a
  write behind the last one extends.
\<close>

locale appendable =
  fixes A :: "'t arr_ops"
    and holds :: "'t \<Rightarrow> TValue list \<Rightarrow> bool"
    and cap :: nat
  assumes getn: "holds t xs \<Longrightarrow> op_getn A t = Inr (int (length xs))"
    and geti: "holds t xs \<Longrightarrow> k < length xs \<Longrightarrow> op_geti A t (int k + 1) = Inr (xs ! k)"
    and append: "holds t xs \<Longrightarrow> length xs < cap \<Longrightarrow> v \<noteq> LNil
      \<Longrightarrow> \<exists>t'. op_seti A t (int (length xs) + 1) v = Inr t' \<and> holds t' (xs @ [v])"
    and cap: "cap < 2 ^ 31"
begin

lemma runs_append:
  assumes "holds t xs" "length xs < cap" "v \<noteq> LNil" "i = int (length xs) + 1"
    and "\<And>t'. holds t' (xs @ [v]) \<Longrightarrow> Q () t'"
  shows "runs (rawseti A (to_int i) v) t Q"
proof -
  have "to_int i = i" using cap assms(2,4) by (simp add: to_int_def)
  with append [OF assms(1-3)] assms(4,5) show ?thesis by (auto simp: rawseti_def runs_def)
qed

lemma runs_len: "holds t xs \<Longrightarrow> runs (luaL_getn A) t Q \<longleftrightarrow> Q (int (length xs)) t"
  by (simp add: luaL_getn_def runs_def getn)

lemma runs_nth:
  assumes "holds t xs" "k < length xs" "length xs \<le> cap"
  shows "runs (rawgeti A (to_int (int k + 1))) t Q \<longleftrightarrow> Q (xs ! k) t"
proof -
  have "to_int (int k + 1) = int k + 1" using cap assms(2,3) by (simp add: to_int_def)
  with geti [OF assms(1,2)] show ?thesis by (simp add: rawgeti_def runs_def)
qed

end

text \<open>The tables of Lua, while they have no other keys.\<close>

definition list_table :: "(ptr \<Rightarrow> u32) \<Rightarrow> Table \<Rightarrow> TValue list \<Rightarrow> bool" where
  "list_table H t xs \<longleftrightarrow> tab_ok H t \<and> holds_seq (int_elem t) xs \<and> length xs \<le> 2 ^ MAXBITS
     \<and> (\<forall>k. proper_key k \<longrightarrow> lookup t k \<noteq> LNil \<longrightarrow>
          (\<exists>i. 1 \<le> i \<and> i \<le> int (length xs) \<and> luaO_rawequalObj (LNumber (cast_num i)) k))"

lemma live_total_positions:
  "live_total t \<le> card (set (live_pos t 0))"
proof -
  let ?a = "live_upto (arr t) (sizearray t)" and ?n = "live_nodes (node t) (sizenode t)"
  have sub: "(\<lambda>k. k - 1) ` ?a \<union> (\<lambda>j. sizearray t + j) ` ?n \<subseteq> set (live_pos t 0)"
    by (auto simp: live_pos_def positions_def pos_val_def live_upto_def live_nodes_iff)
  have "(\<lambda>k. k - 1) ` ?a \<inter> (\<lambda>j. sizearray t + j) ` ?n = {}" by (auto simp: live_upto_def)
  moreover have "finite ?n" by (rule finite_subset [of _ "{..<sizenode t}"]) (auto simp: live_nodes_def)
  ultimately have "card ((\<lambda>k. k - 1) ` ?a \<union> (\<lambda>j. sizearray t + j) ` ?n)
      = card ((\<lambda>k. k - 1) ` ?a) + card ((\<lambda>j. sizearray t + j) ` ?n)" by (intro card_Un_disjoint) simp_all
  also have "card ((\<lambda>k. k - 1) ` ?a) = card ?a" by (rule card_image) (auto simp: inj_on_def live_upto_def)
  also have "card ((\<lambda>j. sizearray t + j) ` ?n) = card ?n" by (rule card_image) simp
  finally show ?thesis using card_mono [OF _ sub] by (simp add: live_total_def)
qed

lemma list_table_total:
  assumes "list_table H t xs"
  shows "live_total t \<le> length xs"
proof -
  have ok: "tab_ok H t" using assms by (simp add: list_table_def)
  define P where "P = (\<lambda>q i. 1 \<le> i \<and> i \<le> int (length xs) \<and> luaO_rawequalObj (LNumber (cast_num i)) (pos_key t q))"
  have "\<exists>i. P q i" if "q \<in> set (live_pos t 0)" for q
  proof -
    note q = pos_lookup [OF ok live_in_table [OF ok that]]
    have "pos_val t q \<noteq> LNil" using that by (simp add: live_pos_def)
    with q assms show ?thesis unfolding P_def list_table_def by metis
  qed
  then obtain f where f: "\<And>q. q \<in> set (live_pos t 0) \<Longrightarrow> P q (f q)" by metis
  have "inj_on f (set (live_pos t 0))"
  proof (rule inj_onI)
    fix q r assume q: "q \<in> set (live_pos t 0)" "r \<in> set (live_pos t 0)" "f q = f r"
    with f [of q] f [of r] have "luaO_rawequalObj (pos_key t q) (pos_key t r)"
      unfolding P_def using rawequal_sym rawequal_trans by metis
    then show "q = r" using pos_distinct [OF ok] live_in_table [OF ok] q by blast
  qed
  moreover have "f ` set (live_pos t 0) \<subseteq> {1..int (length xs)}" using f by (auto simp: P_def)
  ultimately have "card (set (live_pos t 0)) \<le> card {1..int (length xs)}" by (intro card_inj_on_le) auto
  with live_total_positions [of t] show ?thesis by simp
qed

lemma list_table_append:
  assumes "list_table H t xs" "length xs < 2 ^ MAXBITS" "v \<noteq> LNil"
  shows "\<exists>t'. lua_rawseti H t (int (length xs) + 1) v = Inr t' \<and> list_table H t' (xs @ [v])"
proof -
  let ?i = "int (length xs) + 1"
  have ok: "tab_ok H t" "holds_seq (int_elem t) xs" using assms(1) by (simp_all add: list_table_def)
  have m: "?i < INT_MAX" using assms(2) by (simp add: MAXBITS_def INT_MAX_def)
  then have i: "INT_MIN \<le> ?i" "?i \<le> INT_MAX" by (simp_all add: INT_MIN_def)
  have w: "written H t (LNumber (cast_num ?i)) v (lua_rawseti H t ?i v)" by (rule rawseti_written [OF ok(1) i])
  have "live_total t < 2 ^ MAXBITS" using list_table_total [OF assms(1)] assms(2) by simp
  with w obtain t' where t': "lua_rawseti H t ?i v = Inr t'"
    "\<And>k. proper_key k \<Longrightarrow> lookup t' k = (if luaO_rawequalObj (LNumber (cast_num ?i)) k then v else lookup t k)"
    by (cases "lua_rawseti H t ?i v") (auto simp: written_def)
  from holds_seq_append [OF ok assms(3) m t'(1)] have "tab_ok H t'" "holds_seq (int_elem t') (xs @ [v])" by simp_all
  moreover have "\<exists>j. 1 \<le> j \<and> j \<le> int (length (xs @ [v])) \<and> luaO_rawequalObj (LNumber (cast_num j)) k"
    if "proper_key k" "lookup t' k \<noteq> LNil" for k
  proof (cases "luaO_rawequalObj (LNumber (cast_num ?i)) k")
    case True
    then show ?thesis by (intro exI [of _ ?i]) simp
  next
    case False
    with t'(2) that have "lookup t k \<noteq> LNil" by simp
    with assms(1) that(1) obtain j where "1 \<le> j" "j \<le> int (length xs)" "luaO_rawequalObj (LNumber (cast_num j)) k"
      unfolding list_table_def by blast
    then show ?thesis by (intro exI [of _ j]) simp
  qed
  ultimately show ?thesis using t'(1) assms(2) by (auto simp: list_table_def)
qed

interpretation print_table: appendable "table_ops H" "list_table H" "2 ^ MAXBITS" for H
proof
  fix t xs assume "list_table H t xs"
  then have t: "tab_ok H t" "holds_seq (int_elem t) xs" by (simp_all add: list_table_def)
  show "op_getn (table_ops H) t = Inr (int (length xs))"
    using tab.runs_getn [OF t, where Q = "\<lambda>n s. n = int (length xs)"] by (auto simp: runs_def luaL_getn_def split: sum.splits)
  show "op_geti (table_ops H) t (int k + 1) = Inr (xs ! k)" if "k < length xs" for k
    using tab.get_law [OF t(1), of "int k + 1"] holds_seqD(2,3) [OF t(2)] that by (simp add: is_int_pos)
next
  fix t xs and v :: TValue assume "list_table H t xs" "length xs < 2 ^ MAXBITS" "v \<noteq> LNil"
  from list_table_append [OF this] show "\<exists>t'. op_seti (table_ops H) t (int (length xs) + 1) v = Inr t' \<and> list_table H t' (xs @ [v])"
    by (auto simp: table_ops_def lift_terror_def)
qed (simp add: MAXBITS_def)

section \<open>The output of a script\<close>

text \<open>The text of a value without a \<open>__tostring\<close> metamethod, and a line of such values.\<close>

definition shown :: "'t sandbox \<Rightarrow> TValue \<Rightarrow> byte list" where
  "shown S v = (case v of
     LNil \<Rightarrow> bytes ''nil''
   | LBoolean b \<Rightarrow> bytes (if b then ''true'' else ''false'')
   | LNumber n \<Rightarrow> c_text (number2str (lua S) n)
   | LString p \<Rightarrow> svalue (lua S) p
   | _ \<Rightarrow> bytes (lua_typename (int (ttype v)) @ '': '') @ pointer_text S v)"

fun line_of :: "'t sandbox \<Rightarrow> TValue list \<Rightarrow> byte list" where
  "line_of S [] = []"
| "line_of S [v] = shown S v @ [10]"
| "line_of S (v # w # vs) = shown S v @ [32] @ line_of S (w # vs)"

definition no_meta :: "'t sandbox \<Rightarrow> TValue \<Rightarrow> bool" where
  "no_meta S v \<longleftrightarrow> (\<forall>t. callmeta S ''__tostring'' v t = Inr (None, t))"

text \<open>A sequence of calls of \<open>print\<close>.\<close>

fun print_calls :: "'t sandbox \<Rightarrow> TValue list list \<Rightarrow> ('t, lerr, unit) action" where
  "print_calls S [] = lret ()"
| "print_calls S (a # as) = lseq (printfunc S a) (print_calls S as)"

text \<open>What they leave in the table.\<close>

definition piece :: "'t sandbox \<Rightarrow> TValue \<Rightarrow> TValue" where
  "piece S v = (case v of LString p \<Rightarrow> v | _ \<Rightarrow> newstring (lua S) (shown S v))"

fun pieces :: "'t sandbox \<Rightarrow> TValue list \<Rightarrow> TValue list" where
  "pieces S [] = []"
| "pieces S (v # vs) = piece S v # newstring (lua S) (if vs = [] then [10] else [32]) # pieces S vs"

lemma tostring_piece: "no_meta S v \<Longrightarrow> tostring S v t = Inr (piece S v, t)"
  by (cases v) (simp_all add: tostring_def no_meta_def piece_def shown_def lbind_def lret_def
      text_of_def lua_tolstring_def luaV_tostring_def venv.defs)

lemma piece_not_nil: "piece S v \<noteq> LNil"
  by (cases v) (simp_all add: piece_def newstring_def)

lemma length_pieces [simp]: "length (pieces S vs) = 2 * length vs"
  by (induction vs) auto

lemma piece_text:
  assumes "interned (lua S) W" "sublist (shown S v) W"
  shows "text_of (lua S) (piece S v) = Some (shown S v)"
proof (cases "\<exists>p. v = LString p")
  case True
  then show ?thesis by (auto simp: piece_def shown_def text_of_def lua_tolstring_def venv.defs)
next
  case False
  then have "piece S v = newstring (lua S) (shown S v)" by (cases v) (simp_all add: piece_def)
  with text_newstring [OF assms] show ?thesis by simp
qed

lemma line_of_Cons: "line_of S (v # vs) = shown S v @ (if vs = [] then [10] else [32]) @ line_of S vs"
  by (cases vs) simp_all

text \<open>The texts of a list of values of which \<open>b\<close> is the concatenation.\<close>

definition texts :: "'s cenv \<Rightarrow> TValue list \<Rightarrow> byte list \<Rightarrow> bool" where
  "texts E xs b \<longleftrightarrow> (\<forall>x \<in> set xs. text_of E x \<noteq> None) \<and> concat (map (\<lambda>x. the (text_of E x)) xs) = b"

lemma texts_append: "texts E xs a \<Longrightarrow> texts E ys b \<Longrightarrow> texts E (xs @ ys) (a @ b)"
  by (auto simp: texts_def)

lemma pieces_text:
  assumes "interned (lua S) W" "sublist (line_of S vs) W"
  shows "texts (lua S) (pieces S vs) (line_of S vs)"
  using assms(2)
proof (induction vs)
  case (Cons v vs)
  let ?sep = "if vs = [] then [10] else [32 :: byte]"
  have l: "sublist (shown S v @ ?sep @ line_of S vs) W" using Cons.prems by (simp add: line_of_Cons)
  have p: "sublist (shown S v) W" "sublist ?sep W" "sublist (line_of S vs) W"
    using sublist_left [OF l] sublist_parts [OF l] sublist_right [OF sublist_right [OF l]] by blast+
  show ?case
    using Cons.IH [OF p(3)] piece_text [OF assms(1) p(1)] text_newstring [OF assms(1) p(2)]
    by (auto simp: texts_def line_of_Cons)
qed (simp add: texts_def)

context appendable begin

lemma print_values_runs:
  assumes "out_ops S = A" "holds t xs" "length xs + 2 * length vs \<le> cap" "\<forall>v \<in> set vs. no_meta S v"
    and "\<And>t'. holds t' (xs @ pieces S vs) \<Longrightarrow> Q () t'"
  shows "runs (print_values S vs) t Q"
  using assms(2-5)
proof (induction vs arbitrary: t xs)
  case (Cons v vs)
  let ?sep = "newstring (lua S) (if vs = [] then [10] else [32])"
  let ?n = "int (length xs)"
  have "runs (rawseti A (to_int (?n + 1)) (piece S v)) t (\<lambda>_ s. runs (rawseti A (to_int (?n + 2)) ?sep) s
      (\<lambda>_ s. runs (print_values S vs) s Q))"
  proof (rule runs_append [OF Cons.prems(1) _ piece_not_nil refl])
    fix t1 assume t1: "holds t1 (xs @ [piece S v])"
    show "runs (rawseti A (to_int (?n + 2)) ?sep) t1 (\<lambda>_ s. runs (print_values S vs) s Q)"
    proof (rule runs_append [OF t1])
      fix t2 assume t2: "holds t2 ((xs @ [piece S v]) @ [?sep])"
      show "runs (print_values S vs) t2 Q"
        by (rule Cons.IH [OF t2]) (use Cons.prems(2-4) in auto)
    qed (use Cons.prems(2) in \<open>simp_all add: newstring_def\<close>)
  qed (use Cons.prems(2) in simp)
  moreover have "runs (tostring S v) t P \<longleftrightarrow> P (piece S v) t" for P
    using Cons.prems(3) by (intro runs_pure tostring_piece) simp
  ultimately show ?case using assms(1) runs_len [OF Cons.prems(1)] by simp
qed simp

lemma print_calls_runs:
  assumes "out_ops S = A" "holds t xs" "length xs + 2 * length (concat as) \<le> cap" "\<forall>v \<in> set (concat as). no_meta S v"
    and "\<And>t'. holds t' (xs @ concat (map (pieces S) as)) \<Longrightarrow> Q () t'"
  shows "runs (print_calls S as) t Q"
  using assms(2-5)
proof (induction as arbitrary: t xs)
  case (Cons a as)
  have "runs (print_values S a) t (\<lambda>_ s. runs (print_calls S as) s Q)"
  proof (rule print_values_runs [OF assms(1) Cons.prems(1)])
    fix t1 assume t1: "holds t1 (xs @ pieces S a)"
    show "runs (print_calls S as) t1 Q"
      by (rule Cons.IH [OF t1]) (use Cons.prems(2-4) in auto)
  qed (use Cons.prems(2,3) in auto)
  then show ?case by (simp add: printfunc_def)
qed simp

lemma collect_loop_runs:
  assumes "out_ops S = A" "interned (lua S) W" "holds t xs" "length xs \<le> cap"
    and "texts (lua S) (drop k xs) c" "sublist (b @ c) W" "buf_ok (lua S) rest b B" "k \<le> length xs"
    and "\<And>B'. buf_ok (lua S) rest (b @ c) B' \<Longrightarrow> Q B' t"
  shows "runs (collect_loop S (length xs - k) (int k + 1) B) t Q"
  using assms(5-9)
proof (induction "length xs - k" arbitrary: k b c B)
  case 0
  then have "drop k xs = []" by simp
  with 0 show ?case by (simp add: texts_def)
next
  case (Suc n)
  then have k: "k < length xs" by simp
  then have d: "drop k xs = xs ! k # drop (Suc k) xs" by (simp add: Cons_nth_drop_Suc)
  define x where "x = the (text_of (lua S) (xs ! k))"
  define c' where "c' = concat (map (\<lambda>x. the (text_of (lua S) x)) (drop (Suc k) xs))"
  have x: "text_of (lua S) (xs ! k) = Some x" "c = x @ c'" "texts (lua S) (drop (Suc k) xs) c'"
    using Suc.prems(1) by (auto simp: d texts_def x_def c'_def)
  have s: "sublist ((b @ x) @ c') W" using Suc.prems(2) x(2) by simp
  have n: "n = length xs - Suc k" using Suc.hyps(2) by simp
  have "runs (luaL_addvalue (lua S) (B\<lparr>bstk := xs ! k # bstk B\<rparr>)) t (\<lambda>B s. runs (collect_loop S n (int k + 1 + 1) B) s Q)"
  proof (rule luaL_addvalue_runs [OF assms(2) Suc.prems(3) sublist_left [OF s] x(1)])
    fix B' assume B': "buf_ok (lua S) rest (b @ x) B'"
    have "runs (collect_loop S (length xs - Suc k) (int (Suc k) + 1) B') t Q"
      by (rule Suc.hyps(1) [OF n x(3) s B']) (use k Suc.prems(5) x(2) in auto)
    then show "runs (collect_loop S n (int k + 1 + 1) B') t Q" by (simp add: n add.commute)
  qed
  then show ?case
    using assms(1) runs_nth [OF assms(3) k assms(4)] by (simp flip: Suc.hyps(2))
qed

lemma collect_runs:
  assumes "out_ops S = A" "interned (lua S) W" "holds t xs" "length xs \<le> cap" "texts (lua S) xs W"
    and "Q (newstring (lua S) W) t"
  shows "runs (collect S) t Q"
proof -
  have "runs (collect_loop S (length xs - 0) (int 0 + 1) (luaL_buffinit [])) t
      (\<lambda>B s. runs (luaL_pushresult (lua S) B) s (\<lambda>B. Q (hd (bstk B))))"
  proof (rule collect_loop_runs [OF assms(1-4)])
    fix B assume "buf_ok (lua S) [] ([] @ W) B"
    then show "runs (luaL_pushresult (lua S) B) t (\<lambda>B. Q (hd (bstk B)))"
      by (intro luaL_pushresult_runs [OF assms(2), of "[]" W]) (use assms(6) in simp_all)
  qed (use assms(5) buffinit_ok in simp_all)
  then show ?thesis using assms(1) runs_len [OF assms(3)] by (simp add: collect_def)
qed

end

text \<open>
  C38: what a script prints is what the sandbox writes: if the script makes some calls of \<open>print\<close> and
  returns some values, none of which has a \<open>__tostring\<close> metamethod, then the output is the line of
  each call and the line of the results, in this order; a line has the texts of its values with
  spaces between them, and a call without values has no line at all.
\<close>

theorem sandbox_output:
  assumes "out_ops S = table_ops H" "list_table H t []"
    and "\<forall>t1. print_calls S calls t = Inr ((), t1) \<longrightarrow> pcall S (loadstring S code) t = (Inr rs, t1)"
    and "\<forall>v \<in> set (concat calls @ rs). no_meta S v" "2 * length (concat calls @ rs) \<le> 2 ^ MAXBITS"
    and "interned (lua S) (concat (map (line_of S) calls) @ line_of S rs)"
  shows "run_script S code t = Some (concat (map (line_of S) calls) @ line_of S rs)"
proof -
  let ?W = "concat (map (line_of S) calls) @ line_of S rs" and ?xs = "concat (map (pieces S) calls)"
  have n: "length (concat (map (pieces S) as)) = 2 * length (concat as)" for as
    by (induction as) simp_all
  have "runs (print_calls S calls) t (\<lambda>u t1. list_table H t1 ?xs)"
    by (rule print_table.print_calls_runs [OF assms(1,2)]) (use assms(4,5) in auto)
  then obtain t1 where t1: "print_calls S calls t = Inr ((), t1)" "list_table H t1 ?xs" by (auto simp: runs_def)
  have tx: "texts (lua S) (concat (map (pieces S) as)) (concat (map (line_of S) as))"
    if "sublist (concat (map (line_of S) as)) ?W" for as
    using that
  proof (induction as)
    case (Cons a as)
    from sublist_left [of "line_of S a"] sublist_right [of "line_of S a"] Cons.prems
    have "sublist (line_of S a) ?W" "sublist (concat (map (line_of S) as)) ?W" by auto
    with pieces_text [OF assms(6)] Cons.IH show ?case by (auto intro: texts_append)
  qed (simp add: texts_def)
  have w: "sublist (concat (map (line_of S) calls)) ?W" "sublist (line_of S rs) ?W" by auto
  have all: "texts (lua S) (?xs @ pieces S rs) ?W" by (intro texts_append tx pieces_text [OF assms(6)] w)
  have "runs (lseq (print_values S rs) (collect S)) t1 (\<lambda>v s. v = newstring (lua S) ?W)"
    unfolding runs_lseq
  proof (rule print_table.print_values_runs [OF assms(1) t1(2)])
    fix t2 assume t2: "list_table H t2 (?xs @ pieces S rs)"
    show "runs (collect S) t2 (\<lambda>v s. v = newstring (lua S) ?W)"
      by (rule print_table.collect_runs [OF assms(1,6) t2 _ all refl]) (use assms(5) n in simp)
  qed (use assms(4,5) n in auto)
  then obtain t3 where "lseq (print_values S rs) (collect S) t1 = Inr (newstring (lua S) ?W, t3)"
    by (auto simp: runs_def simp del: lseq_Inr)
  then show ?thesis using assms(3) t1(1) text_newstring [OF assms(6), of ?W]
    by (simp add: run_script_def del: lseq_Inr)
qed

text \<open>A script that prints a string.\<close>

definition prints_once :: "Table sandbox" where
  "prints_once = quiet\<lparr>pcall := (\<lambda>f t. case print_calls quiet [[LString 1]] t of
     Inl e \<Rightarrow> (Inl LNil, t) | Inr (u, t1) \<Rightarrow> (Inr [], t1))\<rparr>"

lemma list_table_empty: "list_table no_hash sample_table []"
  using sample_ok(2,3) holds_seq_empty by (simp add: list_table_def)

theorem sandbox_output_witness:
  "run_script prints_once ''print(s)'' sample_table = Some [97, 10]"
proof -
  have o: "out_ops prints_once = table_ops no_hash" by (simp add: prints_once_def quiet_def)
  have "lua prints_once = lua quiet" "out_ops prints_once = out_ops quiet" "callmeta prints_once = callmeta quiet"
    "pointer_text prints_once = pointer_text quiet" by (simp_all add: prints_once_def)
  then have p: "print_calls prints_once [[LString 1]] = print_calls quiet [[LString 1]]"
    by (simp add: printfunc_def tostring_def cong: option.case_cong)
  have l: "concat (map (line_of prints_once) [[LString 1]]) @ line_of prints_once [] = [97, 10]"
    by (simp add: shown_def prints_once_def quiet_def)
  have "b \<in> {[], [97], [10], [97, 10]}" if "sublist b [97, 10 :: byte]" for b
    using that by (auto simp: sublist_Cons_right prefix_Cons)
  then have i: "interned (lua prints_once) [97, 10]"
    by (auto simp: interned_def MAX_SIZET_def prints_once_def quiet_def)
  have "\<forall>t1. print_calls prints_once [[LString 1]] sample_table = Inr ((), t1)
      \<longrightarrow> pcall prints_once (loadstring prints_once ''print(s)'') sample_table = (Inr [], t1)"
    unfolding p by (simp add: prints_once_def del: print_calls.simps)
  from sandbox_output [OF o list_table_empty this, unfolded l, OF _ _ i] show ?thesis
    by (simp add: no_meta_def prints_once_def quiet_def lret_def MAXBITS_def)
qed

end
