(* ===== verification/Spec2Isabelle.thy ===== *)
theory Spec2Isabelle
  imports Opcodes Table_Props Strings Verifier Chunks Strlib_Props Lexer_Quoted Code_Exp Code_Jumps Lexer_Types Parser_Accepts Parser_Scopes Sandbox
begin

text \<open>
  TuxBot's Lua core.

  TuxBot is a bot written in Lua. Its C code is the sandbox that runs the scripts of its users
  (\<open>src/plugins/lua/sandbox.c\<close>) and the Lua 5.1.5 implementation that the sandbox is built with
  (\<open>src/plugins/lua/luasrc/\<close>). This development models the C code: the machine is LP64 and
  little-endian, \<open>int\<close> has 32 bits, the locale is \<open>C\<close>.

  \<^bold>\<open>Parts.\<close> A script enters as text or as a precompiled chunk. Text is read through a stream
  (\<open>Zio\<close>) by the lexer (\<open>Lexer\<close>), which interns names and strings (\<open>Strings\<close>) and keeps them in
  a table. The parser (\<open>Parser\<close>) takes its tokens and drives the code generator (\<open>Code\<close>), which
  builds a function prototype. A chunk is read by the loader (\<open>Undump\<close>), which builds a function prototype and passes it
  to the bytecode checker (\<open>Verifier\<close>); the writer (\<open>Dump\<close>) is its inverse. A running script works
  on values (\<open>Objects\<close>, \<open>Numbers\<close>, \<open>Values\<close>) and tables (\<open>Tables\<close>), and calls the libraries
  (\<open>Patterns\<close> and \<open>Strlib\<close>, \<open>Tablib\<close>) through checks of the arguments (\<open>Auxlib\<close>) and string
  buffers (\<open>Buffers\<close>). The sandbox (\<open>Sandbox\<close>) confines the process, runs the script, collects
  what it prints in a table and writes it.

  \<^bold>\<open>Theories and code.\<close>
  \<^item> \<open>Prelude\<close>, \<open>Actions\<close>: words, addresses, C integers; actions, which are functions from a state to
    an error or a result and a new state, with \<open>runs\<close>, the judgement that an action returns.
  \<^item> \<open>Opcodes\<close>: the instruction format and the opcode tables (\<open>lopcodes.h\<close>, \<open>lopcodes.c\<close>).
  \<^item> \<open>Numbers\<close>, \<open>Objects\<close>: doubles as their bits (\<open>luaconf.h\<close>), tagged values, raw equality, sizes
    as floating point bytes, chunk names (\<open>lobject.h\<close>, \<open>lobject.c\<close>).
  \<^item> \<open>Tables\<close>: every operation of \<open>ltable.c\<close> and the raw accesses of \<open>lapi.c\<close>. The record \<open>Table\<close> is the
    struct: the array part, the node vector with its \<open>next\<close> links, the search position for free
    nodes. The invariant \<open>tab_ok\<close> is in \<open>Table_Inv\<close>; \<open>Table_Insert\<close>, \<open>Table_Set\<close>, \<open>Table_Count\<close>,
    \<open>Table_Rehash\<close> and \<open>Table_Iter\<close> show that each operation keeps it, and what each does to the map
    \<open>lookup\<close> from keys to values, which is the specification of a table. The properties are in
    \<open>Table_Props\<close>.
  \<^item> \<open>Strings\<close>: the string table (\<open>lstring.c\<close>) with its invariant.
  \<^item> \<open>Verifier\<close>: \<open>symbexec\<close> and \<open>luaG_checkcode\<close> of \<open>ldebug.c\<close>.
  \<^item> \<open>Zio\<close>, \<open>Bytes\<close>: streams of blocks and the buffer of the scanner (\<open>lzio.c\<close>); the bytes of numbers.
  \<^item> \<open>Undump\<close>, \<open>Dump\<close>, \<open>Chunks\<close>: \<open>lundump.c\<close>, \<open>ldump.c\<close>, and what holds of both.
  \<^item> \<open>Patterns\<close>, \<open>Pattern_Spec\<close>: the pattern matcher of \<open>lstrlib.c\<close>, and its specification \<open>search\<close>,
    the list of all outcomes in the order in which they are tried, of which the matcher returns the first; \<open>Strlib\<close>, \<open>Strlib_Props\<close>: the functions of the string library.
  \<^item> \<open>Values\<close>: numerals, coercions, the order of values and the errors of comparisons (\<open>lvm.c\<close>, \<open>lobject.c\<close>,
    \<open>ldebug.c\<close>).
  \<^item> \<open>Lexer\<close>: \<open>llex.c\<close>; \<open>Lexer_Safe\<close>: the lexer keeps its state sound, never runs out of fuel and
    never writes outside its token buffer (either would be the error \<open>LexStuck\<close>);
    \<open>Lexer_Props\<close>, \<open>Lexer_Words\<close>, \<open>Lexer_Quoted\<close>, \<open>Lexer_Types\<close>: the token stream, reserved words, \<open>%q\<close>
    literals, the types of tokens.
  \<^item> \<open>Parser\<close>, \<open>Parser_Rules\<close>, \<open>Parser_Stat\<close>: \<open>lparser.c\<close>, on a state that holds the lexer, the functions
    under compilation (innermost first, the chain \<open>prev\<close>) and \<open>nCcalls\<close>. \<open>Grammar\<close> is the grammar of the
    manual as inductive predicates. \<open>Parser_Tokens\<close> has the judgement \<open>psafe\<close> and the predicate \<open>here\<close>
    (which tokens have been read); \<open>Parser_Sound\<close>, \<open>Parser_Exp\<close>, \<open>Parser_Sub\<close>, \<open>Parser_Block\<close> and
    \<open>Parser_Accepts\<close> derive it rule by rule, up to the property that the parser accepts only chunks of
    the grammar. \<open>Parser_Scopes\<close>: names are resolved by lexical scoping.
  \<^item> \<open>Code\<close>, \<open>Code_Exp\<close>: the code generator (\<open>lcode.c\<close>): instructions, jump lists, registers and constants;
    expressions and operators. \<open>Code_Consts\<close> and \<open>Code_Jumps\<close> show that constants are shared and that
    patched jumps reach their targets.
  \<^item> \<open>Auxlib\<close>, \<open>Buffers\<close>: arguments and buffers of \<open>lauxlib.c\<close>, \<open>luaV_concat\<close> of \<open>lvm.c\<close>.
  \<^item> \<open>Tablib\<close>: \<open>ltablib.c\<close> over the interface \<open>arr_ops\<close> of a table; \<open>Tablib_Sort\<close> and \<open>Tablib_Seq\<close> prove
    its functions correct under the laws of the interface (the locales \<open>raw_array\<close>, \<open>sorting\<close>,
    \<open>growing_array\<close>), \<open>Tablib_Props\<close> interprets them on the tables of \<open>Tables\<close>.
  \<^item> \<open>Sandbox\<close>: \<open>sandbox.c\<close>, with its output table as the locale \<open>appendable\<close>. The Lua state is
    created from the world that the system calls have left, so that a script sees the process that it runs in.

  \<^bold>\<open>Errors, loops, fuel.\<close> An error of C is a value: \<^term>\<open>Inl e\<close> or \<^term>\<open>None\<close>. A loop over data is a
  recursion that ends. A loop without an obvious bound has fuel, and running out is an error of its
  own (\<open>NoReturn\<close>, \<open>LexStuck\<close>, \<open>LuaDiverge\<close>). The fuel is never used up: a chain of nodes has at
  most as many nodes as the table; a rehash never causes another one, so that the depth 2 of
  \<open>newkey\<close> is enough; a loop of the lexer has one more than the characters that are left; a
  loop over a jump list has one more than the instructions; the parser has one level more than
  \<open>LUAI_MAXCCALLS\<close>, and its loops two rounds more than the stream has characters; each pass
  of \<open>luaV_concat\<close> takes at least one operand away; \<open>table.sort\<close> gets its fuel as an argument, and
  the length of the array is enough.

  \<^bold>\<open>Parameters.\<close> What is not in the repository is a parameter: \<open>malloc\<close> (\<open>alloc\<close>), \<open>strtod\<close>, \<open>strtoul\<close>,
  \<open>sprintf\<close> of a number, \<open>strcoll\<close>, the reader and the writer of chunks, the system calls. So are the
  calls back into the interpreter: metamethods, and the functions that a script passes to a library.
  Their documented laws are hypotheses (\<open>fresh_alloc\<close>, \<open>strcmp_like\<close>, \<open>interned\<close>, \<open>posix_like\<close>), each with
  an instance in a witness.

  \<^bold>\<open>Not modelled.\<close> The interpreter loop
  and calls (\<open>lvm.c\<close>, \<open>ldo.c\<close>), which rest on \<open>setjmp\<close> and on one stack that all share; the garbage
  collector and memory (\<open>lgc.c\<close>, \<open>lmem.c\<close>); arithmetic on doubles; the libraries that only call the C
  library (\<open>lmathlib.c\<close>, \<open>loslib.c\<close>, \<open>lbaselib.c\<close>, \<open>ldblib.c\<close>); the stand-alone programs (\<open>lua.c\<close>,
  \<open>luac.c\<close>, \<open>print.c\<close>).
\<close>

end
